(* ===== verification/Prelude.thy ===== *)
theory Prelude
  imports Main "HOL-Library.Word"
begin

text \<open>
  Shared vocabulary of the development: the machine integers of the Rust sources as words, the
  three-way outcome of a fallible Rust function (a value, an error value, or a panic), the list
  indexing that panics, little-endian byte encodings, and the generic list and word lemmas the
  component theories use.
\<close>

unbundle bit_operations_syntax

section \<open>Machine integers\<close>

type_synonym u8 = "8 word"
type_synonym u16 = "16 word"
type_synonym u32 = "32 word"
type_synonym u64 = "64 word"

text \<open>
  A Rust \<open>usize\<close> is a \<open>nat\<close> in the model: it is only ever a length, an index or a small
  counter of this code. An \<open>i32\<close> is an \<open>int\<close>, produced from a word by \<open>sint\<close>.
\<close>

lemma unat_ucast_u16_u32 [simp]: "unat (ucast (w :: u16) :: u32) = unat w"
proof -
  have "unat w < 2 ^ LENGTH(16)" by (rule unsigned_less)
  then show ?thesis by (simp add: unsigned_ucast_eq take_bit_nat_eq_self)
qed

lemma unat_u32_inj: "unat (a :: u32) = unat b \<longleftrightarrow> a = b"
  by (metis word_eq_iff_unsigned)

section \<open>Outcomes\<close>

text \<open>
  \<open>Ok\<close> and \<open>Err\<close> are the constructors of Rust's \<open>Result\<close>; \<open>Panic\<close> is an abort of the thread
  (an index out of range, an arithmetic overflow in a debug build, a failed assertion).
\<close>

datatype ('a, 'e) outcome = Ok 'a | Err 'e | Panic

definition obind :: "('a, 'e) outcome \<Rightarrow> ('a \<Rightarrow> ('b, 'e) outcome) \<Rightarrow> ('b, 'e) outcome" where
  "obind m f = (case m of Ok x \<Rightarrow> f x | Err e \<Rightarrow> Err e | Panic \<Rightarrow> Panic)"

definition map_err :: "('e \<Rightarrow> 'f) \<Rightarrow> ('a, 'e) outcome \<Rightarrow> ('a, 'f) outcome" where
  "map_err h m = (case m of Ok x \<Rightarrow> Ok x | Err e \<Rightarrow> Err (h e) | Panic \<Rightarrow> Panic)"

definition is_ok :: "('a, 'e) outcome \<Rightarrow> bool" where
  "is_ok m = (case m of Ok _ \<Rightarrow> True | _ \<Rightarrow> False)"

text \<open>Indexing a slice panics out of range; \<open>get\<close> does not.\<close>

definition idx :: "'a list \<Rightarrow> nat \<Rightarrow> ('a, 'e) outcome" where
  "idx xs i = (if i < length xs then Ok (xs ! i) else Panic)"

definition get :: "'a list \<Rightarrow> nat \<Rightarrow> 'a option" where
  "get xs i = (if i < length xs then Some (xs ! i) else None)"

text \<open>A loop that pushes the result of a fallible body and returns at its first failure.\<close>

fun omap :: "('a \<Rightarrow> ('b, 'e) outcome) \<Rightarrow> 'a list \<Rightarrow> ('b list, 'e) outcome" where
  "omap f [] = Ok []"
| "omap f (x # xs) = obind (f x) (\<lambda>y. obind (omap f xs) (\<lambda>ys. Ok (y # ys)))"

lemma obind_simps [simp]:
  "obind (Ok x) f = f x"
  "obind (Err e) f = Err e"
  "obind Panic f = Panic"
  by (simp_all add: obind_def)

lemma map_err_simps [simp]:
  "map_err h (Ok x) = Ok x"
  "map_err h (Err e) = Err (h e)"
  "map_err h Panic = Panic"
  by (simp_all add: map_err_def)

lemma is_ok_simps [simp]:
  "is_ok (Ok x)"
  "\<not> is_ok (Err e)"
  "\<not> is_ok Panic"
  by (simp_all add: is_ok_def)

lemma obind_Ok_iff [simp]: "obind m f = Ok y \<longleftrightarrow> (\<exists>x. m = Ok x \<and> f x = Ok y)"
  by (cases m) simp_all

lemma map_err_Ok_iff [simp]: "map_err h m = Ok y \<longleftrightarrow> m = Ok y"
  by (cases m) simp_all

lemma is_ok_iff: "is_ok m \<longleftrightarrow> (\<exists>x. m = Ok x)"
  by (cases m) simp_all

lemma idx_Ok_iff [simp]: "idx xs i = Ok y \<longleftrightarrow> i < length xs \<and> y = xs ! i"
  by (auto simp: idx_def)

lemma idx_in_range [simp]: "i < length xs \<Longrightarrow> idx xs i = Ok (xs ! i)"
  by (simp add: idx_def)

lemma get_Some_iff: "get xs i = Some y \<longleftrightarrow> i < length xs \<and> y = xs ! i"
  by (auto simp: get_def)

lemma get_None_iff: "get xs i = None \<longleftrightarrow> length xs \<le> i"
  by (auto simp: get_def)

lemma omap_Ok_iff:
  "omap f xs = Ok ys \<longleftrightarrow> length ys = length xs \<and> (\<forall>i < length xs. f (xs ! i) = Ok (ys ! i))"
proof (induction xs arbitrary: ys)
  case Nil
  then show ?case by auto
next
  case (Cons x xs)
  show ?case
  proof (cases ys)
    case Nil
    then show ?thesis by simp
  next
    case (Cons z zs)
    then show ?thesis
      by (auto simp: Cons.IH nth_Cons split: nat.splits)
  qed
qed

lemma omap_total: "(\<And>x. x \<in> set xs \<Longrightarrow> f x = Ok (h x)) \<Longrightarrow> omap f xs = Ok (map h xs)"
  by (induction xs) auto

section \<open>Little-endian byte encodings\<close>

definition u16_to_le :: "u16 \<Rightarrow> u8 list" where
  "u16_to_le w = [ucast w, ucast (drop_bit 8 w)]"

definition u32_to_le :: "u32 \<Rightarrow> u8 list" where
  "u32_to_le w = [ucast w, ucast (drop_bit 8 w), ucast (drop_bit 16 w), ucast (drop_bit 24 w)]"

definition u64_to_le :: "u64 \<Rightarrow> u8 list" where
  "u64_to_le w = [ucast w, ucast (drop_bit 8 w), ucast (drop_bit 16 w), ucast (drop_bit 24 w),
     ucast (drop_bit 32 w), ucast (drop_bit 40 w), ucast (drop_bit 48 w), ucast (drop_bit 56 w)]"

definition u16_of_le :: "u8 \<Rightarrow> u8 \<Rightarrow> u16" where
  "u16_of_le a b = ucast a OR push_bit 8 (ucast b)"

definition u32_of_le :: "u8 \<Rightarrow> u8 \<Rightarrow> u8 \<Rightarrow> u8 \<Rightarrow> u32" where
  "u32_of_le a b c d =
     ucast a OR push_bit 8 (ucast b) OR push_bit 16 (ucast c) OR push_bit 24 (ucast d)"

lemma u16_to_le_length [simp]: "length (u16_to_le w) = 2"
  by (simp add: u16_to_le_def)

lemma u32_to_le_length [simp]: "length (u32_to_le w) = 4"
  by (simp add: u32_to_le_def)

lemma u64_to_le_length [simp]: "length (u64_to_le w) = 8"
  by (simp add: u64_to_le_def)

lemma u16_of_le_to_le [simp]: "u16_of_le (ucast w) (ucast (drop_bit 8 w)) = w"
  by (rule bit_word_eqI) (auto simp: u16_of_le_def bit_simps)

lemma u32_of_le_to_le [simp]:
  "u32_of_le (ucast w) (ucast (drop_bit 8 w)) (ucast (drop_bit 16 w)) (ucast (drop_bit 24 w)) = w"
proof (rule bit_word_eqI)
  fix n assume n: "n < LENGTH(32)"
  consider "n < 8" | "8 \<le> n" "n < 16" | "16 \<le> n" "n < 24" | "24 \<le> n" by linarith
  then show "bit (u32_of_le (ucast w) (ucast (drop_bit 8 w)) (ucast (drop_bit 16 w))
      (ucast (drop_bit 24 w))) n = bit w n"
    using n by cases (auto simp: u32_of_le_def bit_simps)
qed

lemma bit_u8_high [simp]:
  "\<not> bit (a :: u8) (8 + n)" "\<not> bit (a :: u8) (16 + n)" "\<not> bit (a :: u8) (24 + n)"
  using bit_imp_le_length [of a] by fastforce+

lemma u16_to_le_of_le [simp]: "u16_to_le (u16_of_le a b) = [a, b]"
  by (auto simp: u16_to_le_def u16_of_le_def bit_simps intro!: bit_word_eqI)

lemma u32_to_le_of_le [simp]: "u32_to_le (u32_of_le a b c d) = [a, b, c, d]"
  by (auto simp: u32_to_le_def u32_of_le_def bit_simps intro!: bit_word_eqI)

lemma u16_to_le_inj [simp]: "u16_to_le v = u16_to_le w \<longleftrightarrow> v = w"
proof
  assume *: "u16_to_le v = u16_to_le w"
  have "v = u16_of_le (hd (u16_to_le v)) (u16_to_le v ! 1)"
    unfolding u16_to_le_def by simp
  also have "\<dots> = w"
    unfolding * unfolding u16_to_le_def by simp
  finally show "v = w" .
qed simp

lemma u32_to_le_inj [simp]: "u32_to_le v = u32_to_le w \<longleftrightarrow> v = w"
proof
  assume *: "u32_to_le v = u32_to_le w"
  have "v = u32_of_le (hd (u32_to_le v)) (u32_to_le v ! 1) (u32_to_le v ! 2) (u32_to_le v ! 3)"
    unfolding u32_to_le_def by simp
  also have "\<dots> = w"
    unfolding * unfolding u32_to_le_def by simp
  finally show "v = w" .
qed simp

lemma u64_to_le_inj [simp]: "u64_to_le v = u64_to_le w \<longleftrightarrow> v = w"
proof
  assume *: "u64_to_le v = u64_to_le w"
  show "v = w"
  proof (rule bit_word_eqI)
    fix n assume n: "n < LENGTH(64)"
    have byte: "bit (ucast (drop_bit k x) :: u8) (n - k) = bit x n" if "k \<le> n" "n < k + 8" for k and x :: u64
      using that n by (auto simp: bit_simps)
    consider "n < 8" | "8 \<le> n" "n < 16" | "16 \<le> n" "n < 24" | "24 \<le> n" "n < 32" | "32 \<le> n" "n < 40"
      | "40 \<le> n" "n < 48" | "48 \<le> n" "n < 56" | "56 \<le> n" by linarith
    then show "bit v n = bit w n"
      using * n byte [of 0 v] byte [of 0 w] byte [of 8 v] byte [of 8 w] byte [of 16 v] byte [of 16 w]
        byte [of 24 v] byte [of 24 w] byte [of 32 v] byte [of 32 w] byte [of 40 v] byte [of 40 w]
        byte [of 48 v] byte [of 48 w] byte [of 56 v] byte [of 56 w]
      by cases (simp_all add: u64_to_le_def)
  qed
qed simp

section \<open>Fallible operations on a state\<close>

text \<open>
  A method that takes \<open>&mut self\<close> and returns a \<open>Result\<close> maps a state to the new state and an
  outcome; an error or a panic keeps the changes made before it. \<open>sbind\<close> is the sequencing by \<open>?\<close>,
  \<open>slift\<close> a call that does not change the state.
\<close>

definition sbind ::
    "'s \<times> ('a, 'e) outcome \<Rightarrow> ('a \<Rightarrow> 's \<Rightarrow> 's \<times> ('b, 'e) outcome) \<Rightarrow> 's \<times> ('b, 'e) outcome"
where
  "sbind r f = (case r of (s, Ok x) \<Rightarrow> f x s | (s, Err e) \<Rightarrow> (s, Err e) | (s, Panic) \<Rightarrow> (s, Panic))"

definition slift :: "('a, 'e) outcome \<Rightarrow> 's \<Rightarrow> 's \<times> ('a, 'e) outcome" where
  "slift r s = (s, r)"

text \<open>A call on a part of the state, with its errors converted.\<close>

definition on_part ::
    "('s \<Rightarrow> 'p) \<Rightarrow> ('p \<Rightarrow> 's \<Rightarrow> 's) \<Rightarrow> ('e \<Rightarrow> 'f) \<Rightarrow> ('p \<Rightarrow> 'p \<times> ('a, 'e) outcome) \<Rightarrow> 's \<Rightarrow> 's \<times> ('a, 'f) outcome"
where
  "on_part getp putp conv f s = (let (p, r) = f (getp s) in (putp p s, map_err conv r))"

primrec for_each :: "('a \<Rightarrow> 's \<Rightarrow> 's \<times> (unit, 'e) outcome) \<Rightarrow> 'a list \<Rightarrow> 's \<Rightarrow> 's \<times> (unit, 'e) outcome" where
  "for_each f [] s = (s, Ok ())"
| "for_each f (x # xs) s = sbind (f x s) (\<lambda>_. for_each f xs)"

lemma sbind_simps [simp]:
  "sbind (s, Ok x) f = f x s"
  "sbind (s, Err e) f = (s, Err e)"
  "sbind (s, Panic) f = (s, Panic)"
  by (simp_all add: sbind_def)

lemma slift_simp [simp]: "slift r s = (s, r)"
  by (simp add: slift_def)

lemma for_each_inv:
  assumes "\<And>x t t' r. x \<in> set xs \<Longrightarrow> P t \<Longrightarrow> f x t = (t', r) \<Longrightarrow> P t'" "P s" "for_each f xs s = (s', r)"
  shows "P s'"
  using assms
proof (induction xs arbitrary: s)
  case (Cons x xs)
  obtain t q where q: "f x s = (t, q)" by (cases "f x s")
  then have "P t" using Cons.prems(1) [of x s t q] Cons.prems(2) by simp
  then show ?case
    using Cons.IH [of t] Cons.prems(1,3) q by (cases q) auto
qed simp

end
