(* ===== verification/Whittle_Graph.thy ===== *)
theory Whittle_Graph
  imports Prelude
begin

text \<open>
  The data of \<open>crates/gz-engine-whittle/src/graph.rs\<close>: operation codes, graph bodies in
  structure-of-arrays form, their validation, the mark-and-compact pass \<open>compact_graph\<close>, and the
  \<open>WAV1\<close> byte format. Every function is a translation of the Rust function of the same name; the
  lemmas here are the local ones (validation, termination and shape of the loops). The meaning of a
  graph and the correctness of compaction are in the theories that build on this one.
\<close>

section \<open>Operation codes\<close>

datatype op_code = InputOp | ConstOp | AndOp | OrOp | NotOp | OutputOp

datatype graph_error = InvalidInput string | BadOp int

definition NO_NODE :: u32 where
  "NO_NODE = 0xFFFFFFFF"

text \<open>An \<open>i8\<close> is an \<open>int\<close> in \<open>-128..127\<close>; a byte is cast to it by \<open>sint\<close>.\<close>

definition from_i8 :: "int \<Rightarrow> (op_code, graph_error) outcome" where
  "from_i8 v =
     (if v = 0 then Ok InputOp
      else if v = 1 then Ok ConstOp
      else if v = 2 then Ok AndOp
      else if v = 3 then Ok OrOp
      else if v = 4 then Ok NotOp
      else if v = 5 then Ok OutputOp
      else Err (BadOp v))"

primrec as_i8 :: "op_code \<Rightarrow> int" where
  "as_i8 InputOp = 0"
| "as_i8 ConstOp = 1"
| "as_i8 AndOp = 2"
| "as_i8 OrOp = 3"
| "as_i8 NotOp = 4"
| "as_i8 OutputOp = 5"

section \<open>Graph bodies\<close>

record graph_body =
  g_arity :: u16
  g_capacity :: u16
  g_output :: u32
  g_op :: "op_code list"
  g_arg0 :: "u32 list"
  g_arg1 :: "u32 list"

text \<open>
  \<open>GraphBody::input\<close>. The bound \<open>arity + 1\<close> is a \<open>u16\<close> addition: with overflow checks (a debug
  build, \<open>dbg\<close>) it panics at \<open>arity = 65535\<close>, without them it wraps to 0.
\<close>

definition input_graph :: "bool \<Rightarrow> u16 \<Rightarrow> u16 \<Rightarrow> u16 \<Rightarrow> (graph_body, graph_error) outcome" where
  "input_graph dbg arity capacity input_index =
     (if arity = 0 then Err (InvalidInput ''arity must be greater than zero'')
      else if arity \<le> input_index then Err (InvalidInput ''input_index out of range'')
      else if dbg \<and> arity = 0xFFFF then Panic
      else if capacity < arity + 1 then Err (InvalidInput ''capacity too small'')
      else Ok \<lparr> g_arity = arity, g_capacity = capacity, g_output = ucast arity,
                g_op = replicate (unat arity) InputOp @ [OutputOp],
                g_arg0 = map of_nat [0..<unat arity] @ [ucast input_index],
                g_arg1 = replicate (unat arity) NO_NODE @ [NO_NODE] \<rparr>)"

text \<open>The loop of \<open>GraphBody::validate\<close> over the input slots.\<close>

definition input_slots_ok :: "graph_body \<Rightarrow> bool" where
  "input_slots_ok g =
     list_all (\<lambda>i. g_op g ! i = InputOp \<and> g_arg0 g ! i = of_nat i) [0..<unat (g_arity g)]"

definition validate :: "graph_body \<Rightarrow> (unit, graph_error) outcome" where
  "validate g =
     (let n = length (g_op g) in
      if n = 0 then Err (InvalidInput ''graph must contain nodes'')
      else if length (g_arg0 g) \<noteq> n \<or> length (g_arg1 g) \<noteq> n
        then Err (InvalidInput ''graph arrays differ in length'')
      else if unat (g_capacity g) < n then Err (InvalidInput ''capacity below node count'')
      else if n \<le> unat (g_output g) then Err (InvalidInput ''output_node out of range'')
      else if n < unat (g_arity g) then Err (InvalidInput ''arity exceeds node count'')
      else if \<not> input_slots_ok g then Err (InvalidInput ''input nodes must occupy ids 0..arity-1'')
      else Ok ())"

definition new_graph ::
    "u16 \<Rightarrow> u16 \<Rightarrow> u32 \<Rightarrow> op_code list \<Rightarrow> u32 list \<Rightarrow> u32 list \<Rightarrow> (graph_body, graph_error) outcome"
where
  "new_graph arity capacity output_node op arg0 arg1 =
     (let body = \<lparr> g_arity = arity, g_capacity = capacity, g_output = output_node,
                   g_op = op, g_arg0 = arg0, g_arg1 = arg1 \<rparr>
      in obind (validate body) (\<lambda>_. Ok body))"

section \<open>Children and the mark loop\<close>

definition children :: "graph_body \<Rightarrow> u32 \<Rightarrow> (u32 list, graph_error) outcome" where
  "children g node =
     (let index = unat node in
      case get (g_op g) index of
        None \<Rightarrow> Err (InvalidInput ''node out of range'')
      | Some code \<Rightarrow>
          (case code of
             InputOp \<Rightarrow> Ok []
           | ConstOp \<Rightarrow> Ok []
           | NotOp \<Rightarrow> obind (idx (g_arg0 g) index) (\<lambda>a. Ok [a])
           | OutputOp \<Rightarrow> obind (idx (g_arg0 g) index) (\<lambda>a. Ok [a])
           | AndOp \<Rightarrow> obind (idx (g_arg0 g) index) (\<lambda>a. obind (idx (g_arg1 g) index) (\<lambda>b. Ok [a, b]))
           | OrOp \<Rightarrow> obind (idx (g_arg0 g) index) (\<lambda>a. obind (idx (g_arg1 g) index) (\<lambda>b. Ok [a, b]))))"

text \<open>A \<open>Vec\<close> used as a stack is a list with its top first, so extending it reverses.\<close>

definition push_children :: "graph_body \<Rightarrow> u32 \<Rightarrow> u32 list \<Rightarrow> (u32 list, graph_error) outcome" where
  "push_children g node stack = obind (children g node) (\<lambda>cs. Ok (rev cs @ stack))"

text \<open>
  The \<open>while let Some(node) = stack.pop()\<close> loop of \<open>compact_graph\<close>. An index into the mark vector
  that is out of its range panics, as the slice access would; it does not happen, since the vector
  has the length of \<open>op\<close>.
\<close>

lemma count_list_update_False:
  "i < length xs \<Longrightarrow> \<not> xs ! i \<Longrightarrow> count_list (xs[i := True]) False < count_list xs False"
proof (induction xs arbitrary: i)
  case (Cons x xs)
  then show ?case by (cases i) auto
qed simp

function mark_reachable ::
    "graph_body \<Rightarrow> bool list \<Rightarrow> u32 list \<Rightarrow> (bool list, graph_error) outcome"
where
  "mark_reachable g reachable [] = Ok reachable"
| "mark_reachable g reachable (node # stack) =
     (let index = unat node in
      if length (g_op g) \<le> index then Err (InvalidInput ''bad node reference'')
      else if length reachable \<le> index then Panic
      else if reachable ! index then mark_reachable g reachable stack
      else (case push_children g node stack of
              Ok stack' \<Rightarrow> mark_reachable g (reachable[index := True]) stack'
            | Err e \<Rightarrow> Err e
            | Panic \<Rightarrow> Panic))"
  by pat_completeness auto
termination
  by (relation "measures [\<lambda>(g, r, s). count_list r False, \<lambda>(g, r, s). length s]")
    (auto simp: count_list_update_False)

section \<open>Compaction\<close>

text \<open>The loop that collects the kept nodes and tracks whether they are the identity.\<close>

fun keep_loop :: "nat \<Rightarrow> nat \<Rightarrow> bool list \<Rightarrow> u32 list \<Rightarrow> bool \<Rightarrow> u32 list \<times> bool" where
  "keep_loop arity i [] keep identity = (keep, identity)"
| "keep_loop arity i (is_reachable # rest) keep identity =
     (if i < arity \<or> is_reachable
      then keep_loop arity (Suc i) rest (keep @ [of_nat i]) (identity \<and> i = length keep)
      else keep_loop arity (Suc i) rest keep identity)"

definition remap_of :: "nat \<Rightarrow> u32 list \<Rightarrow> u32 list" where
  "remap_of n keep =
     foldl (\<lambda>remap (new, old). remap[unat old := of_nat new]) (replicate n NO_NODE) (enumerate 0 keep)"

definition remapped :: "u32 list \<Rightarrow> u32 \<Rightarrow> (u32, graph_error) outcome" where
  "remapped remap node =
     (case get remap (unat node) of
        None \<Rightarrow> Err (InvalidInput ''bad node reference'')
      | Some mapped \<Rightarrow>
          if mapped = NO_NODE then Err (InvalidInput ''unreachable child reference'') else Ok mapped)"

text \<open>The body of the rebuilding loop: the code and the two new arguments of one kept node.\<close>

definition compact_node ::
    "graph_body \<Rightarrow> u32 list \<Rightarrow> u32 \<Rightarrow> (op_code \<times> u32 \<times> u32, graph_error) outcome"
where
  "compact_node g remap old =
     (let index = unat old; code = g_op g ! index in
      case code of
        InputOp \<Rightarrow> Ok (code, g_arg0 g ! index, NO_NODE)
      | ConstOp \<Rightarrow> Ok (code, (if g_arg0 g ! index \<noteq> 0 then 1 else 0), NO_NODE)
      | NotOp \<Rightarrow> obind (remapped remap (g_arg0 g ! index)) (\<lambda>a. Ok (code, a, NO_NODE))
      | OutputOp \<Rightarrow> obind (remapped remap (g_arg0 g ! index)) (\<lambda>a. Ok (code, a, NO_NODE))
      | AndOp \<Rightarrow> obind (remapped remap (g_arg0 g ! index)) (\<lambda>a.
                obind (remapped remap (g_arg1 g ! index)) (\<lambda>b. Ok (code, a, b)))
      | OrOp \<Rightarrow> obind (remapped remap (g_arg0 g ! index)) (\<lambda>a.
                obind (remapped remap (g_arg1 g ! index)) (\<lambda>b. Ok (code, a, b))))"

definition compact_graph :: "graph_body \<Rightarrow> (graph_body, graph_error) outcome" where
  "compact_graph g =
     obind (validate g) (\<lambda>_.
     obind (mark_reachable g (replicate (length (g_op g)) False) [g_output g]) (\<lambda>reachable.
     let (keep, identity) = keep_loop (unat (g_arity g)) 0 reachable [] True in
     if identity \<and> length keep = length (g_op g) then Ok g
     else
       let remap = remap_of (length (g_op g)) keep in
       obind (omap (compact_node g remap) keep) (\<lambda>nodes.
       obind (remapped remap (g_output g)) (\<lambda>output_node.
         new_graph (g_arity g) (g_capacity g) output_node
           (map fst nodes) (map (fst \<circ> snd) nodes) (map (snd \<circ> snd) nodes)))))"

section \<open>The WAV1 byte format\<close>

definition WAV1 :: "u8 list" where
  "WAV1 = [87, 65, 86, 49]"

definition wav1_node :: "op_code \<Rightarrow> u32 \<Rightarrow> u32 \<Rightarrow> u8 list" where
  "wav1_node code a b = [word_of_int (as_i8 code)] @ u32_to_le a @ u32_to_le b"

text \<open>
  The loop indexes \<open>arg0\<close> and \<open>arg1\<close> by the positions of \<open>op\<close> and panics when one is shorter.
\<close>

definition serialize_wav1_parts ::
    "u16 \<Rightarrow> u16 \<Rightarrow> u32 \<Rightarrow> op_code list \<Rightarrow> u32 list \<Rightarrow> u32 list \<Rightarrow> (u8 list, 'e) outcome"
where
  "serialize_wav1_parts arity capacity output_node op arg0 arg1 =
     obind (omap (\<lambda>i. obind (idx op i) (\<lambda>code. obind (idx arg0 i) (\<lambda>a. obind (idx arg1 i) (\<lambda>b.
                      Ok (wav1_node code a b))))) [0..<length op]) (\<lambda>nodes.
     Ok (WAV1 @ u16_to_le arity @ u16_to_le capacity @ u32_to_le (of_nat (length op)) @
         u32_to_le output_node @ concat nodes))"

definition serialize_wav1 :: "graph_body \<Rightarrow> (u8 list, 'e) outcome" where
  "serialize_wav1 g =
     serialize_wav1_parts (g_arity g) (g_capacity g) (g_output g) (g_op g) (g_arg0 g) (g_arg1 g)"

text \<open>One node of the decoding loop: nine bytes at \<open>offset\<close>, then the rest of the loop.\<close>

definition u32_at :: "u8 list \<Rightarrow> nat \<Rightarrow> u32" where
  "u32_at bytes off = u32_of_le (bytes ! off) (bytes ! (off + 1)) (bytes ! (off + 2)) (bytes ! (off + 3))"

fun decode_nodes ::
    "nat \<Rightarrow> u8 list \<Rightarrow> nat \<Rightarrow> (op_code list \<times> u32 list \<times> u32 list, graph_error) outcome"
where
  "decode_nodes 0 bytes offset = Ok ([], [], [])"
| "decode_nodes (Suc k) bytes offset =
     obind (from_i8 (sint (bytes ! offset))) (\<lambda>code.
     obind (decode_nodes k bytes (offset + 9)) (\<lambda>(op, arg0, arg1).
       Ok (code # op, u32_at bytes (offset + 1) # arg0, u32_at bytes (offset + 5) # arg1)))"

definition deserialize_wav1 :: "u8 list \<Rightarrow> (graph_body, graph_error) outcome" where
  "deserialize_wav1 bytes =
     (if length bytes < 16 \<or> take 4 bytes \<noteq> WAV1 then Err (InvalidInput ''bad WAV1 graph artifact'')
      else
        let arity = u16_of_le (bytes ! 4) (bytes ! 5);
            capacity = u16_of_le (bytes ! 6) (bytes ! 7);
            node_count = unat (u32_at bytes 8);
            output_node = u32_at bytes 12;
            expected_len = 16 + node_count * 9
        in if length bytes \<noteq> expected_len
           then Err (InvalidInput ''wrong WAV1 graph artifact length'')
           else obind (decode_nodes node_count bytes 16) (\<lambda>(op, arg0, arg1).
                  new_graph arity capacity output_node op arg0 arg1))"

section \<open>Validation\<close>

definition valid_graph :: "graph_body \<Rightarrow> bool" where
  "valid_graph g \<longleftrightarrow>
     0 < length (g_op g) \<and> length (g_arg0 g) = length (g_op g) \<and> length (g_arg1 g) = length (g_op g) \<and>
     length (g_op g) \<le> unat (g_capacity g) \<and> unat (g_output g) < length (g_op g) \<and>
     unat (g_arity g) \<le> length (g_op g) \<and>
     (\<forall>i < unat (g_arity g). g_op g ! i = InputOp \<and> g_arg0 g ! i = of_nat i)"

lemma input_slots_ok_iff:
  "input_slots_ok g \<longleftrightarrow> (\<forall>i < unat (g_arity g). g_op g ! i = InputOp \<and> g_arg0 g ! i = of_nat i)"
  by (auto simp: input_slots_ok_def list_all_iff)

lemma validate_Ok_iff [simp]: "validate g = Ok u \<longleftrightarrow> valid_graph g"
  by (auto simp: validate_def valid_graph_def Let_def input_slots_ok_iff)

lemma new_graph_Ok_iff:
  "new_graph ar cap out op a0 a1 = Ok g \<longleftrightarrow>
     g = \<lparr> g_arity = ar, g_capacity = cap, g_output = out, g_op = op, g_arg0 = a0, g_arg1 = a1 \<rparr> \<and>
     valid_graph g"
  by (auto simp: new_graph_def Let_def)

lemma valid_graphD:
  assumes "valid_graph g"
  shows "length (g_arg0 g) = length (g_op g)" "length (g_arg1 g) = length (g_op g)"
    "length (g_op g) \<le> unat (g_capacity g)" "unat (g_output g) < length (g_op g)"
    "unat (g_arity g) \<le> length (g_op g)"
    "\<And>i. i < unat (g_arity g) \<Longrightarrow> g_op g ! i = InputOp"
    "\<And>i. i < unat (g_arity g) \<Longrightarrow> g_arg0 g ! i = of_nat i"
  using assms by (auto simp: valid_graph_def)

text \<open>The capacity is a \<open>u16\<close>, so every node number of a valid graph is far below \<open>NO_NODE\<close>.\<close>

lemma valid_graph_small:
  assumes "valid_graph g"
  shows "length (g_op g) < 65536"
proof -
  have "unat (g_capacity g) < 2 ^ LENGTH(16)" by (rule unsigned_less)
  with valid_graphD(3) [OF assms] show ?thesis by simp
qed

lemma unat_of_nat_u32 [simp]: "n < 65536 \<Longrightarrow> unat (of_nat n :: u32) = n"
  by (simp add: unat_of_nat take_bit_nat_eq_self)

lemma of_nat_u32_eq_iff: "m < 65536 \<Longrightarrow> n < 65536 \<Longrightarrow> (of_nat m :: u32) = of_nat n \<longleftrightarrow> m = n"
  using unat_of_nat_u32 by metis

lemma unat_NO_NODE [simp]: "unat NO_NODE = 4294967295"
  by (simp add: NO_NODE_def)

lemma small_neq_NO_NODE [simp]:
  assumes "n < 65536"
  shows "(of_nat n :: u32) \<noteq> NO_NODE"
proof
  assume "(of_nat n :: u32) = NO_NODE"
  then have "unat (of_nat n :: u32) = unat NO_NODE" by simp
  with assms show False by simp
qed

text \<open>The freshly built input graph is accepted by \<open>validate\<close> whenever it is built without wrapping.\<close>

lemma input_graph_valid:
  assumes "input_graph dbg ar cap i = Ok g" and "ar \<noteq> 0xFFFF"
  shows "valid_graph g"
proof -
  have "(0xFFFF :: u16) = - 1" by simp
  with assms(2) have "ar \<noteq> - 1" by metis
  then have "1 + ar \<noteq> 0" by (metis add.right_inverse add_left_cancel)
  then have "unat (ar + 1) = Suc (unat ar)" by (simp add: unatSuc add.commute)
  moreover from assms have "ar + 1 \<le> cap" and "0 < unat ar"
    and g: "g = \<lparr> g_arity = ar, g_capacity = cap, g_output = ucast ar,
                g_op = replicate (unat ar) InputOp @ [OutputOp],
                g_arg0 = map of_nat [0..<unat ar] @ [ucast i],
                g_arg1 = replicate (unat ar) NO_NODE @ [NO_NODE] \<rparr>"
    by (auto simp: input_graph_def not_less unat_gt_0 split: if_splits)
  ultimately show ?thesis
    by (auto simp: valid_graph_def nth_append word_le_nat_alt)
qed

section \<open>Round trips of the WAV1 format\<close>

lemma from_i8_Ok_iff [simp]: "from_i8 v = Ok c \<longleftrightarrow> v = as_i8 c"
  by (cases c) (auto simp: from_i8_def)

lemma sint_as_i8 [simp]: "sint (word_of_int (as_i8 c) :: u8) = as_i8 c"
  by (cases c) simp_all

definition wav1_nodes :: "op_code list \<Rightarrow> u32 list \<Rightarrow> u32 list \<Rightarrow> u8 list" where
  "wav1_nodes op arg0 arg1 = concat (map (\<lambda>(c, a, b). wav1_node c a b) (zip op (zip arg0 arg1)))"

lemma wav1_nodes_Cons [simp]:
  "wav1_nodes (c # op) (a # arg0) (b # arg1) = wav1_node c a b @ wav1_nodes op arg0 arg1"
  by (simp add: wav1_nodes_def)

lemma wav1_nodes_Nil [simp]: "wav1_nodes [] arg0 arg1 = []"
  by (simp add: wav1_nodes_def)

lemma wav1_node_length [simp]: "length (wav1_node c a b) = 9"
  by (simp add: wav1_node_def)

lemma wav1_nodes_length:
  "length arg0 = length op \<Longrightarrow> length arg1 = length op \<Longrightarrow>
     length (wav1_nodes op arg0 arg1) = 9 * length op"
proof (induction op arbitrary: arg0 arg1)
  case (Cons c op)
  then show ?case by (cases arg0; cases arg1) auto
qed simp

lemma serialize_wav1_parts_Ok:
  assumes "length arg0 = length op" "length arg1 = length op"
  shows "serialize_wav1_parts ar cap out op arg0 arg1 =
    Ok (WAV1 @ u16_to_le ar @ u16_to_le cap @ u32_to_le (of_nat (length op)) @ u32_to_le out @
        wav1_nodes op arg0 arg1)"
proof -
  have nodes: "map (\<lambda>i. wav1_node (op ! i) (arg0 ! i) (arg1 ! i)) [0..<length op] =
      map (\<lambda>(c, a, b). wav1_node c a b) (zip op (zip arg0 arg1))"
    using assms by (intro nth_equalityI) auto
  show ?thesis
    unfolding serialize_wav1_parts_def
    by (subst omap_total [where h = "\<lambda>i. wav1_node (op ! i) (arg0 ! i) (arg1 ! i)"])
      (use assms nodes in \<open>auto simp: wav1_nodes_def\<close>)
qed

lemma u32_at_append [simp]: "u32_at (pre @ u32_to_le w @ post) (length pre) = w"
  by (simp add: u32_at_def u32_to_le_def nth_append)

lemma u32_at_append2 [simp]: "off = length pre \<Longrightarrow> u32_at (pre @ u32_to_le w @ post) off = w"
  by simp

lemma decode_nodes_wav1_nodes:
  assumes "length arg0 = length op" "length arg1 = length op"
  shows "decode_nodes (length op) (pre @ wav1_nodes op arg0 arg1) (length pre) = Ok (op, arg0, arg1)"
  using assms
proof (induction op arbitrary: pre arg0 arg1)
  case (Cons c op)
  from Cons.prems obtain a arg0' b arg1' where
    [simp]: "arg0 = a # arg0'" "arg1 = b # arg1'" by (cases arg0; cases arg1) auto
  let ?rest = "wav1_nodes op arg0' arg1'" and ?p = "pre @ wav1_node c a b"
  have "decode_nodes (length op) (?p @ ?rest) (length ?p) = Ok (op, arg0', arg1')"
    using Cons.prems by (intro Cons.IH) simp_all
  then have tail: "decode_nodes (length op) (pre @ wav1_node c a b @ ?rest) (length pre + 9) =
      Ok (op, arg0', arg1')" by simp
  have "u32_at ((pre @ [word_of_int (as_i8 c)]) @ u32_to_le a @ u32_to_le b @ ?rest)
      (length pre + 1) = a"
    by (rule u32_at_append2) simp
  moreover have "u32_at ((pre @ [word_of_int (as_i8 c)] @ u32_to_le a) @ u32_to_le b @ ?rest)
      (length pre + 5) = b"
    by (rule u32_at_append2) simp
  ultimately show ?case
    using tail by (simp add: wav1_node_def nth_append)
qed simp

lemma take_9_nth:
  assumes "off + 9 \<le> length xs"
  shows "drop off xs = [xs ! off, xs ! (off + 1), xs ! (off + 2), xs ! (off + 3), xs ! (off + 4),
     xs ! (off + 5), xs ! (off + 6), xs ! (off + 7), xs ! (off + 8)] @ drop (off + 9) xs"
proof -
  have step: "i < length xs \<Longrightarrow> drop i xs = xs ! i # drop (i + 1) xs" for i
    by (simp add: Cons_nth_drop_Suc)
  show ?thesis
    using assms step [of off] step [of "off + 1"] step [of "off + 2"] step [of "off + 3"]
      step [of "off + 4"] step [of "off + 5"] step [of "off + 6"] step [of "off + 7"]
      step [of "off + 8"]
    by (simp add: eval_nat_numeral)
qed

lemma decode_nodes_inverse:
  assumes "decode_nodes k bytes off = Ok (op, arg0, arg1)" "length bytes = off + 9 * k"
  shows "length op = k \<and> length arg0 = k \<and> length arg1 = k \<and> drop off bytes = wav1_nodes op arg0 arg1"
  using assms
proof (induction k arbitrary: off op arg0 arg1)
  case (Suc k)
  from Suc.prems(1) obtain c op' arg0' arg1' where
    c: "sint (bytes ! off) = as_i8 c" and
    rest: "decode_nodes k bytes (off + 9) = Ok (op', arg0', arg1')" and
    eqs: "op = c # op'" "arg0 = u32_at bytes (off + 1) # arg0'" "arg1 = u32_at bytes (off + 5) # arg1'"
    by (auto split: prod.splits)
  from Suc.IH [OF rest] Suc.prems(2) have tail: "drop (off + 9) bytes = wav1_nodes op' arg0' arg1'"
    and lens: "length op' = k" "length arg0' = k" "length arg1' = k" by simp_all
  have "(word_of_int (sint (bytes ! off)) :: u8) = bytes ! off" by simp
  then have "word_of_int (as_i8 c) = bytes ! off" by (simp only: c)
  moreover have "off + 9 \<le> length bytes" using Suc.prems(2) by simp
  ultimately show ?case
    using take_9_nth [of off bytes] tail lens
    by (simp add: eqs wav1_node_def u32_at_def eval_nat_numeral)
qed simp

definition wav1_header :: "graph_body \<Rightarrow> u8 list" where
  "wav1_header g = WAV1 @ u16_to_le (g_arity g) @ u16_to_le (g_capacity g) @
     u32_to_le (of_nat (length (g_op g))) @ u32_to_le (g_output g)"

lemma wav1_header_length [simp]: "length (wav1_header g) = 16"
  by (simp add: wav1_header_def WAV1_def)

lemma serialize_wav1_valid:
  assumes "valid_graph g"
  shows "serialize_wav1 g = Ok (wav1_header g @ wav1_nodes (g_op g) (g_arg0 g) (g_arg1 g))"
  using assms
  by (simp add: serialize_wav1_def wav1_header_def serialize_wav1_parts_Ok valid_graphD)

lemma wav1_header_fields:
  fixes g :: graph_body and post :: "u8 list"
  defines "bytes \<equiv> wav1_header g @ post"
  shows "take 4 bytes = WAV1" "u16_of_le (bytes ! 4) (bytes ! 5) = g_arity g"
    "u16_of_le (bytes ! 6) (bytes ! 7) = g_capacity g"
    "u32_at bytes 8 = of_nat (length (g_op g))" "u32_at bytes 12 = g_output g"
  by (simp_all add: bytes_def wav1_header_def WAV1_def u16_to_le_def u32_to_le_def u32_at_def)

lemma wav1_header_magic [simp]: "take 4 (wav1_header g) = WAV1"
  by (simp add: wav1_header_def WAV1_def)

lemma deserialize_serialize:
  assumes "valid_graph g"
  shows "deserialize_wav1 (wav1_header g @ wav1_nodes (g_op g) (g_arg0 g) (g_arg1 g)) = Ok g"
proof -
  let ?nodes = "wav1_nodes (g_op g) (g_arg0 g) (g_arg1 g)"
  have len: "length ?nodes = 9 * length (g_op g)"
    using assms by (simp add: wav1_nodes_length valid_graphD)
  have "decode_nodes (length (g_op g)) (wav1_header g @ ?nodes) 16 = Ok (g_op g, g_arg0 g, g_arg1 g)"
    using decode_nodes_wav1_nodes [of "g_arg0 g" "g_op g" "g_arg1 g" "wav1_header g"] assms
    by (simp add: valid_graphD)
  then show ?thesis
    using assms len valid_graph_small [OF assms]
    by (simp add: deserialize_wav1_def wav1_header_fields Let_def new_graph_Ok_iff)
qed

lemma bytes_split_16:
  assumes "16 \<le> length bytes"
  shows "bytes = take 4 bytes @ [bytes ! 4, bytes ! 5, bytes ! 6, bytes ! 7, bytes ! 8, bytes ! 9,
     bytes ! 10, bytes ! 11, bytes ! 12, bytes ! 13, bytes ! 14, bytes ! 15] @ drop 16 bytes"
proof -
  have step: "i < length bytes \<Longrightarrow> drop i bytes = bytes ! i # drop (Suc i) bytes" for i
    by (simp add: Cons_nth_drop_Suc)
  have "drop 4 bytes = [bytes ! 4, bytes ! 5, bytes ! 6, bytes ! 7, bytes ! 8, bytes ! 9,
     bytes ! 10, bytes ! 11, bytes ! 12, bytes ! 13, bytes ! 14, bytes ! 15] @ drop 16 bytes"
    using assms step [of 4] step [of 5] step [of 6] step [of 7] step [of 8] step [of 9]
      step [of 10] step [of 11] step [of 12] step [of 13] step [of 14] step [of 15]
    by simp
  then show ?thesis by (metis append_take_drop_id)
qed

lemma serialize_deserialize:
  assumes "deserialize_wav1 bytes = Ok g"
  shows "valid_graph g \<and> bytes = wav1_header g @ wav1_nodes (g_op g) (g_arg0 g) (g_arg1 g)"
proof -
  let ?n = "unat (u32_at bytes 8)"
  from assms obtain op arg0 arg1 where
    16: "16 \<le> length bytes" and magic: "take 4 bytes = WAV1" and len: "length bytes = 16 + 9 * ?n" and
    dec: "decode_nodes ?n bytes 16 = Ok (op, arg0, arg1)" and
    new: "new_graph (u16_of_le (bytes ! 4) (bytes ! 5)) (u16_of_le (bytes ! 6) (bytes ! 7))
       (u32_at bytes 12) op arg0 arg1 = Ok g"
    by (auto simp: deserialize_wav1_def Let_def not_less mult.commute split: if_splits prod.splits)
  from new have valid: "valid_graph g" and g: "g_arity g = u16_of_le (bytes ! 4) (bytes ! 5)"
    "g_capacity g = u16_of_le (bytes ! 6) (bytes ! 7)" "g_output g = u32_at bytes 12"
    "g_op g = op" "g_arg0 g = arg0" "g_arg1 g = arg1"
    by (auto simp: new_graph_Ok_iff)
  from decode_nodes_inverse [OF dec] len
  have nodes: "drop 16 bytes = wav1_nodes op arg0 arg1" and n: "of_nat (length op) = u32_at bytes 8"
    by simp_all
  have "wav1_header g = take 4 bytes @ [bytes ! 4, bytes ! 5, bytes ! 6, bytes ! 7, bytes ! 8, bytes ! 9,
     bytes ! 10, bytes ! 11, bytes ! 12, bytes ! 13, bytes ! 14, bytes ! 15]"
    by (simp add: wav1_header_def g n magic u32_at_def)
  with bytes_split_16 [OF 16] nodes g valid show ?thesis by simp
qed

text \<open>
  C24: the WAV1 decoder accepts exactly the encodings of the graphs that pass validation, and
  decoding is the inverse of encoding: \<open>deserialize_wav1\<close> returns \<open>g\<close> on \<open>bytes\<close> if and only if
  \<open>g\<close> is valid and \<open>bytes\<close> is what \<open>serialize_wav1\<close> writes for it. In particular the format is
  canonical: a valid graph has one encoding only, which is what makes the graph hash an identity.
\<close>

theorem wav1_roundtrip:
  "deserialize_wav1 bytes = Ok g \<longleftrightarrow>
     valid_graph g \<and> serialize_wav1 g = (Ok bytes :: (u8 list, graph_error) outcome)"
proof
  assume *: "deserialize_wav1 bytes = Ok g"
  then have "valid_graph g" and b: "bytes = wav1_header g @ wav1_nodes (g_op g) (g_arg0 g) (g_arg1 g)"
    by (simp_all only: serialize_deserialize)
  then show "valid_graph g \<and> serialize_wav1 g = (Ok bytes :: (u8 list, graph_error) outcome)"
    by (simp only: serialize_wav1_valid)
next
  assume "valid_graph g \<and> serialize_wav1 g = (Ok bytes :: (u8 list, graph_error) outcome)"
  then have v: "valid_graph g" and s: "serialize_wav1 g = (Ok bytes :: (u8 list, graph_error) outcome)"
    by blast+
  have "serialize_wav1 g = (Ok (wav1_header g @ wav1_nodes (g_op g) (g_arg0 g) (g_arg1 g))
      :: (u8 list, graph_error) outcome)"
    using v by (rule serialize_wav1_valid)
  with s have "bytes = wav1_header g @ wav1_nodes (g_op g) (g_arg0 g) (g_arg1 g)"
    by (metis outcome.inject(1))
  then show "deserialize_wav1 bytes = Ok g"
    by (simp only: deserialize_serialize [OF v])
qed

end
