(* ===== verification/Whittle_Semantics.thy ===== *)
theory Whittle_Semantics
  imports Whittle_Graph
begin

text \<open>
  What a Whittle graph means. The Rust code only rewrites graphs and never evaluates them; this
  theory gives the specification the rewriting is measured against: the Boolean value of a node
  under an assignment of the inputs (\<open>evals\<close>), the value at the output node (\<open>denotes\<close>), and the
  nodes that have a value at all because no cycle or dangling reference is below them
  (\<open>grounded\<close>). Graph homomorphisms, the shared proof principle of compaction, extension and
  redirection, preserve all of it.
\<close>

section \<open>Successors and values\<close>

definition args_of :: "graph_body \<Rightarrow> nat \<Rightarrow> u32 list" where
  "args_of g i =
     (case g_op g ! i of
        InputOp \<Rightarrow> []
      | ConstOp \<Rightarrow> []
      | NotOp \<Rightarrow> [g_arg0 g ! i]
      | OutputOp \<Rightarrow> [g_arg0 g ! i]
      | AndOp \<Rightarrow> [g_arg0 g ! i, g_arg1 g ! i]
      | OrOp \<Rightarrow> [g_arg0 g ! i, g_arg1 g ! i])"

definition succs :: "graph_body \<Rightarrow> nat \<Rightarrow> nat list" where
  "succs g i = map unat (args_of g i)"

definition node_value :: "graph_body \<Rightarrow> (u32 \<Rightarrow> bool) \<Rightarrow> nat \<Rightarrow> bool list \<Rightarrow> bool" where
  "node_value g env i vs =
     (case g_op g ! i of
        InputOp \<Rightarrow> env (g_arg0 g ! i)
      | ConstOp \<Rightarrow> g_arg0 g ! i \<noteq> 0
      | NotOp \<Rightarrow> \<not> vs ! 0
      | OutputOp \<Rightarrow> vs ! 0
      | AndOp \<Rightarrow> vs ! 0 \<and> vs ! 1
      | OrOp \<Rightarrow> vs ! 0 \<or> vs ! 1)"

inductive evals :: "graph_body \<Rightarrow> (u32 \<Rightarrow> bool) \<Rightarrow> nat \<Rightarrow> bool \<Rightarrow> bool"
  for g :: graph_body and env :: "u32 \<Rightarrow> bool" where
  node: "i < length (g_op g) \<Longrightarrow> list_all2 (evals g env) (succs g i) vs \<Longrightarrow>
     b = node_value g env i vs \<Longrightarrow> evals g env i b"

definition denotes :: "graph_body \<Rightarrow> (u32 \<Rightarrow> bool) \<Rightarrow> bool \<Rightarrow> bool" where
  "denotes g env b \<longleftrightarrow> evals g env (unat (g_output g)) b"

inductive grounded :: "graph_body \<Rightarrow> nat \<Rightarrow> bool" for g :: graph_body where
  node: "i < length (g_op g) \<Longrightarrow> (\<And>j. j \<in> set (succs g i) \<Longrightarrow> grounded g j) \<Longrightarrow> grounded g i"

definition child :: "graph_body \<Rightarrow> (nat \<times> nat) set" where
  "child g = {(i, j). i < length (g_op g) \<and> j \<in> set (succs g i)}"

text \<open>
  A graph is well founded when every node of it is grounded; this is the property of an acyclic
  circuit whose references are all in range.
\<close>

definition well_founded :: "graph_body \<Rightarrow> bool" where
  "well_founded g \<longleftrightarrow> (\<forall>i < length (g_op g). grounded g i)"

text \<open>An executable evaluator with a depth bound, used to compute on concrete graphs.\<close>

fun eval_node :: "nat \<Rightarrow> graph_body \<Rightarrow> (u32 \<Rightarrow> bool) \<Rightarrow> nat \<Rightarrow> bool option" where
  "eval_node 0 g env i = None"
| "eval_node (Suc k) g env i =
     (if i < length (g_op g)
      then (let rs = map (eval_node k g env) (succs g i) in
            if list_all (\<lambda>r. r \<noteq> None) rs then Some (node_value g env i (map the rs)) else None)
      else None)"

section \<open>Evaluation is a partial function, total on grounded nodes\<close>

lemma evalsE:
  assumes "evals g env i b"
  obtains vs where "i < length (g_op g)" "list_all2 (evals g env) (succs g i) vs"
    "b = node_value g env i vs"
  using assms by cases

lemma evals_det: "evals g env i b \<Longrightarrow> evals g env i b' \<Longrightarrow> b = b'"
proof (induction arbitrary: b' rule: evals.induct)
  case (node i vs b)
  from node.prems obtain vs' where "list_all2 (evals g env) (succs g i) vs'"
    and b': "b' = node_value g env i vs'"
    by (rule evalsE)
  then have len': "length vs' = length (succs g i)"
    and nth': "\<And>k. k < length (succs g i) \<Longrightarrow> evals g env (succs g i ! k) (vs' ! k)"
    by (simp_all add: list_all2_conv_all_nth)
  have "vs = vs'"
  proof (rule nth_equalityI)
    show "length vs = length vs'"
      using node.IH len' by (simp add: list_all2_lengthD)
    fix k assume "k < length vs"
    then have k: "k < length (succs g i)"
      using node.IH by (simp add: list_all2_lengthD)
    from list_all2_nthD [OF node.IH k] nth' [OF k] show "vs ! k = vs' ! k" by blast
  qed
  with node.hyps b' show ?case by simp
qed

lemma evals_grounded: "evals g env i b \<Longrightarrow> grounded g i"
proof (induction rule: evals.induct)
  case (node i vs b)
  show ?case
  proof (rule grounded.node [OF node.hyps(1)])
    fix j assume "j \<in> set (succs g i)"
    with node.IH show "grounded g j"
      by (auto simp: list_all2_conv_all_nth in_set_conv_nth)
  qed
qed

lemma grounded_evals: "grounded g i \<Longrightarrow> \<exists>b. evals g env i b"
proof (induction rule: grounded.induct)
  case (node i)
  define vs where "vs = map (\<lambda>j. SOME b. evals g env j b) (succs g i)"
  have "list_all2 (evals g env) (succs g i) vs"
    unfolding vs_def list_all2_conv_all_nth
    using node.IH by (auto intro: someI_ex)
  then show ?case
    using node.hyps(1) by (blast intro: evals.node)
qed

lemma grounded_iff_evals: "grounded g i \<longleftrightarrow> (\<exists>b. evals g env i b)"
  using evals_grounded grounded_evals by blast

lemma evals_in_range: "evals g env i b \<Longrightarrow> i < length (g_op g)"
  by (auto elim: evals.cases)

lemma grounded_in_range: "grounded g i \<Longrightarrow> i < length (g_op g)"
  by (auto elim: grounded.cases)

lemma grounded_succ: "grounded g i \<Longrightarrow> j \<in> set (succs g i) \<Longrightarrow> grounded g j"
  by (auto elim: grounded.cases)

lemma grounded_rtrancl: "(i, j) \<in> (child g)\<^sup>* \<Longrightarrow> grounded g i \<Longrightarrow> grounded g j"
  by (induction rule: rtrancl_induct) (auto simp: child_def intro: grounded_succ)

lemma grounded_no_cycle: "grounded g i \<Longrightarrow> (i, i) \<notin> (child g)\<^sup>+"
proof (induction rule: grounded.induct)
  case (node i)
  show ?case
  proof
    assume "(i, i) \<in> (child g)\<^sup>+"
    then obtain j where step: "(i, j) \<in> child g" and ret: "(j, i) \<in> (child g)\<^sup>*"
      by (meson tranclD)
    from ret step have "(j, j) \<in> (child g)\<^sup>+"
      by (meson rtrancl_into_trancl1)
    with node.IH [of j] step show False
      by (simp add: child_def)
  qed
qed

lemma eval_node_sound: "eval_node k g env i = Some b \<Longrightarrow> evals g env i b"
proof (induction k arbitrary: i b)
  case (Suc k)
  then have range: "i < length (g_op g)"
    and all: "\<forall>j \<in> set (succs g i). eval_node k g env j \<noteq> None"
    and b: "b = node_value g env i (map (the \<circ> eval_node k g env) (succs g i))"
    by (auto simp: Let_def list_all_iff split: if_splits)
  have "list_all2 (evals g env) (succs g i) (map (the \<circ> eval_node k g env) (succs g i))"
    using all Suc.IH by (auto simp: list_all2_conv_all_nth)
  from evals.node [OF range this b] show ?case .
qed simp

section \<open>Rules for the single operations\<close>

lemma succs_simps:
  "g_op g ! i = InputOp \<Longrightarrow> succs g i = []"
  "g_op g ! i = ConstOp \<Longrightarrow> succs g i = []"
  "g_op g ! i = NotOp \<Longrightarrow> succs g i = [unat (g_arg0 g ! i)]"
  "g_op g ! i = OutputOp \<Longrightarrow> succs g i = [unat (g_arg0 g ! i)]"
  "g_op g ! i = AndOp \<Longrightarrow> succs g i = [unat (g_arg0 g ! i), unat (g_arg1 g ! i)]"
  "g_op g ! i = OrOp \<Longrightarrow> succs g i = [unat (g_arg0 g ! i), unat (g_arg1 g ! i)]"
  by (simp_all add: succs_def args_of_def)

lemma evals_inputI:
  "i < length (g_op g) \<Longrightarrow> g_op g ! i = InputOp \<Longrightarrow> evals g env i (env (g_arg0 g ! i))"
  by (rule evals.node [where vs = "[]"]) (simp_all add: succs_simps node_value_def)

lemma evals_constI:
  "i < length (g_op g) \<Longrightarrow> g_op g ! i = ConstOp \<Longrightarrow> evals g env i (g_arg0 g ! i \<noteq> 0)"
  by (rule evals.node [where vs = "[]"]) (simp_all add: succs_simps node_value_def)

lemma evals_notI:
  "i < length (g_op g) \<Longrightarrow> g_op g ! i = NotOp \<Longrightarrow> evals g env (unat (g_arg0 g ! i)) a \<Longrightarrow>
     evals g env i (\<not> a)"
  by (rule evals.node [where vs = "[a]"]) (simp_all add: succs_simps node_value_def)

lemma evals_andI:
  "i < length (g_op g) \<Longrightarrow> g_op g ! i = AndOp \<Longrightarrow> evals g env (unat (g_arg0 g ! i)) a \<Longrightarrow>
     evals g env (unat (g_arg1 g ! i)) b \<Longrightarrow> evals g env i (a \<and> b)"
  by (rule evals.node [where vs = "[a, b]"]) (simp_all add: succs_simps node_value_def)

lemma evals_orI:
  "i < length (g_op g) \<Longrightarrow> g_op g ! i = OrOp \<Longrightarrow> evals g env (unat (g_arg0 g ! i)) a \<Longrightarrow>
     evals g env (unat (g_arg1 g ! i)) b \<Longrightarrow> evals g env i (a \<or> b)"
  by (rule evals.node [where vs = "[a, b]"]) (simp_all add: succs_simps node_value_def)

lemma evals_constD: "evals g env i b \<Longrightarrow> g_op g ! i = ConstOp \<Longrightarrow> b = (g_arg0 g ! i \<noteq> 0)"
  by (auto elim: evalsE simp: succs_simps node_value_def)

lemma evals_notD:
  "evals g env i b \<Longrightarrow> g_op g ! i = NotOp \<Longrightarrow> \<exists>a. evals g env (unat (g_arg0 g ! i)) a \<and> b = (\<not> a)"
  by (erule evalsE) (auto simp: succs_simps node_value_def list_all2_Cons1)

lemma evals_andD:
  assumes "evals g env i c" "g_op g ! i = AndOp"
  shows "\<exists>a b. evals g env (unat (g_arg0 g ! i)) a \<and> evals g env (unat (g_arg1 g ! i)) b \<and> c = (a \<and> b)"
proof -
  from assms obtain vs where "list_all2 (evals g env) (succs g i) vs" and c: "c = node_value g env i vs"
    by (auto elim: evalsE)
  with assms(2) obtain a b where "vs = [a, b]" "evals g env (unat (g_arg0 g ! i)) a"
    "evals g env (unat (g_arg1 g ! i)) b"
    by (auto simp: succs_simps list_all2_Cons1)
  with c assms(2) show ?thesis
    by (intro exI [of _ a] exI [of _ b]) (simp add: node_value_def)
qed

lemma evals_orD:
  assumes "evals g env i c" "g_op g ! i = OrOp"
  shows "\<exists>a b. evals g env (unat (g_arg0 g ! i)) a \<and> evals g env (unat (g_arg1 g ! i)) b \<and> c = (a \<or> b)"
proof -
  from assms obtain vs where "list_all2 (evals g env) (succs g i) vs" and c: "c = node_value g env i vs"
    by (auto elim: evalsE)
  with assms(2) obtain a b where "vs = [a, b]" "evals g env (unat (g_arg0 g ! i)) a"
    "evals g env (unat (g_arg1 g ! i)) b"
    by (auto simp: succs_simps list_all2_Cons1)
  with c assms(2) show ?thesis
    by (intro exI [of _ a] exI [of _ b]) (simp add: node_value_def)
qed

section \<open>Homomorphisms\<close>

text \<open>
  \<open>graph_hom g h S f\<close>: on the set \<open>S\<close> of nodes of \<open>g\<close>, closed under successors, \<open>f\<close> maps each
  node to a node of \<open>h\<close> with the same operation and leaf data and with the images of its
  successors.
\<close>

definition graph_hom :: "graph_body \<Rightarrow> graph_body \<Rightarrow> nat set \<Rightarrow> (nat \<Rightarrow> nat) \<Rightarrow> bool" where
  "graph_hom g h S f \<longleftrightarrow>
     (\<forall>i \<in> S. i < length (g_op g) \<and> f i < length (g_op h) \<and> g_op h ! f i = g_op g ! i \<and>
        (g_op g ! i = InputOp \<longrightarrow> g_arg0 h ! f i = g_arg0 g ! i) \<and>
        (g_op g ! i = ConstOp \<longrightarrow> (g_arg0 h ! f i = 0 \<longleftrightarrow> g_arg0 g ! i = 0)) \<and>
        succs h (f i) = map f (succs g i) \<and> set (succs g i) \<subseteq> S)"

lemma graph_homD:
  assumes "graph_hom g h S f" "i \<in> S"
  shows "i < length (g_op g)" "f i < length (g_op h)" "succs h (f i) = map f (succs g i)"
    "set (succs g i) \<subseteq> S"
  using assms unfolding graph_hom_def by blast+

lemma graph_hom_node_value:
  assumes "graph_hom g h S f" "i \<in> S"
  shows "node_value h env (f i) vs = node_value g env i vs"
proof -
  from assms have "g_op h ! f i = g_op g ! i" "g_op g ! i = InputOp \<Longrightarrow> g_arg0 h ! f i = g_arg0 g ! i"
    "g_op g ! i = ConstOp \<Longrightarrow> (g_arg0 h ! f i = 0 \<longleftrightarrow> g_arg0 g ! i = 0)"
    unfolding graph_hom_def by blast+
  then show ?thesis by (auto simp: node_value_def split: op_code.splits)
qed

lemma graph_hom_evals_fwd:
  assumes hom: "graph_hom g h S f"
  shows "evals g env i b \<Longrightarrow> i \<in> S \<Longrightarrow> evals h env (f i) b"
proof (induction rule: evals.induct)
  case (node i vs b)
  note homD = graph_homD [OF hom node.prems]
  have "list_all2 (evals h env) (map f (succs g i)) vs"
    using node.IH homD(4) by (auto simp: list_all2_conv_all_nth subset_iff)
  then show ?case
    using homD node.hyps graph_hom_node_value [OF hom node.prems]
    by (intro evals.node [where vs = vs]) simp_all
qed

lemma graph_hom_evals_bwd:
  assumes hom: "graph_hom g h S f"
  shows "evals h env j b \<Longrightarrow> i \<in> S \<Longrightarrow> j = f i \<Longrightarrow> evals g env i b"
proof (induction arbitrary: i rule: evals.induct)
  case (node j vs b)
  note homD = graph_homD [OF hom node.prems(1)]
  have "list_all2 (evals g env) (succs g i) vs"
    using node.IH homD(3,4) node.prems(2) by (auto simp: list_all2_conv_all_nth subset_iff)
  then show ?case
    using homD node.hyps graph_hom_node_value [OF hom node.prems(1)] node.prems(2)
    by (intro evals.node [where vs = vs]) simp_all
qed

lemma graph_hom_evals:
  "graph_hom g h S f \<Longrightarrow> i \<in> S \<Longrightarrow> evals h env (f i) b \<longleftrightarrow> evals g env i b"
  using graph_hom_evals_fwd graph_hom_evals_bwd by blast

lemma graph_hom_grounded:
  "graph_hom g h S f \<Longrightarrow> i \<in> S \<Longrightarrow> grounded h (f i) \<longleftrightarrow> grounded g i"
  using graph_hom_evals by (simp add: grounded_iff_evals [where env = "\<lambda>_. True"])

end
