(* ===== verification/Whittle_Compact.thy ===== *)
theory Whittle_Compact
  imports Whittle_Semantics
begin

text \<open>
  Correctness of \<open>compact_graph\<close> (\<open>graph.rs\<close>): the mark loop finds exactly the nodes reachable from
  the output, the kept nodes are renumbered by a graph homomorphism, and so the compacted graph is
  valid, means the same, and is a fixed point of compaction.
\<close>

section \<open>The mark loop\<close>

definition marks :: "bool list \<Rightarrow> nat set" where
  "marks r = {i. i < length r \<and> r ! i}"

lemma marks_update: "i < length r \<Longrightarrow> marks (r[i := True]) = insert i (marks r)"
  by (auto simp: marks_def nth_list_update)

lemma marks_replicate_False [simp]: "marks (replicate n False) = {}"
  by (auto simp: marks_def)

lemma children_valid:
  assumes "valid_graph g" "unat node < length (g_op g)"
  shows "children g node = Ok (args_of g (unat node))"
  using assms
  by (cases "g_op g ! unat node") (simp_all add: children_def args_of_def get_def Let_def valid_graphD)

lemma push_children_valid:
  assumes "valid_graph g" "unat node < length (g_op g)"
  shows "push_children g node stack = Ok (rev (args_of g (unat node)) @ stack)"
  using assms by (simp add: push_children_def children_valid)

lemma succs_image: "unat ` set (rev (args_of g i) @ stack) = set (succs g i) \<union> unat ` set stack"
  by (auto simp: succs_def)

lemma reach_Cons:
  "(child g)\<^sup>* `` (unat ` set (node # stack)) =
     (child g)\<^sup>* `` {unat node} \<union> (child g)\<^sup>* `` (unat ` set stack)"
  by auto

lemma reach_pushed:
  assumes "unat node < length (g_op g)"
  shows "(child g)\<^sup>* `` (unat ` set (rev (args_of g (unat node)) @ stack)) \<subseteq>
    (child g)\<^sup>* `` (unat ` set (node # stack))"
proof -
  have "(child g)\<^sup>* `` set (succs g (unat node)) \<subseteq> (child g)\<^sup>* `` {unat node}"
    using assms by (auto simp: child_def intro: converse_rtrancl_into_rtrancl)
  then show ?thesis unfolding succs_image reach_Cons Image_Un by blast
qed

lemma mark_reachable_sound:
  assumes "valid_graph g" "mark_reachable g r stack = Ok r'" "length r = length (g_op g)"
    and "\<forall>i \<in> marks r. set (succs g i) \<subseteq> marks r \<union> unat ` set stack"
  shows "length r' = length (g_op g) \<and> marks r \<subseteq> marks r' \<and> unat ` set stack \<subseteq> marks r' \<and>
    (\<forall>i \<in> marks r'. set (succs g i) \<subseteq> marks r') \<and>
    marks r' \<subseteq> marks r \<union> (child g)\<^sup>* `` (unat ` set stack)"
  using assms
proof (induction g r stack arbitrary: r' rule: mark_reachable.induct)
  case (1 g r)
  then show ?case by simp
next
  case (2 g r node stack)
  let ?i = "unat node"
  from "2.prems" have range: "?i < length (g_op g)" "?i < length r"
    by (auto simp: Let_def not_le split: if_splits)
  show ?case
  proof (cases "r ! ?i")
    case True
    with range have marked: "?i \<in> marks r" by (simp add: marks_def)
    from True range "2.prems"(2) have mark: "mark_reachable g r stack = Ok r'"
      by (simp add: Let_def)
    have "\<forall>i \<in> marks r. set (succs g i) \<subseteq> marks r \<union> unat ` set stack"
      using "2.prems"(4) marked by auto
    with mark have IH: "length r' = length (g_op g) \<and> marks r \<subseteq> marks r' \<and> unat ` set stack \<subseteq> marks r' \<and>
        (\<forall>i \<in> marks r'. set (succs g i) \<subseteq> marks r') \<and>
        marks r' \<subseteq> marks r \<union> (child g)\<^sup>* `` (unat ` set stack)"
      using "2.IH"(1) [OF refl _ _ True] "2.prems"(1,3) range by (simp add: not_le)
    then have "marks r' \<subseteq> marks r \<union> (child g)\<^sup>* `` (unat ` set (node # stack))"
      unfolding reach_Cons by blast
    moreover have "unat ` set (node # stack) \<subseteq> marks r'"
      using IH marked by auto
    ultimately show ?thesis using IH by blast
  next
    case False
    let ?r = "r[?i := True]" and ?stack = "rev (args_of g ?i) @ stack"
    have push: "push_children g node stack = Ok ?stack"
      using "2.prems"(1) range(1) by (rule push_children_valid)
    have "mark_reachable g ?r ?stack = Ok r'"
      using False range "2.prems"(2) by (simp add: Let_def push)
    moreover have "\<forall>i \<in> marks ?r. set (succs g i) \<subseteq> marks ?r \<union> unat ` set ?stack"
      using "2.prems"(4) range(2) unfolding succs_image by (auto simp: marks_update)
    ultimately have IH: "length r' = length (g_op g) \<and> marks ?r \<subseteq> marks r' \<and>
        unat ` set ?stack \<subseteq> marks r' \<and> (\<forall>i \<in> marks r'. set (succs g i) \<subseteq> marks r') \<and>
        marks r' \<subseteq> marks ?r \<union> (child g)\<^sup>* `` (unat ` set ?stack)"
      using "2.IH"(2) [OF refl _ _ False push, of r'] "2.prems" range by (simp add: not_le)
    have "?i \<in> (child g)\<^sup>* `` (unat ` set (node # stack))"
      unfolding reach_Cons by blast
    moreover note reach_pushed [OF range(1), of stack]
    moreover from IH have "marks r' \<subseteq> insert ?i (marks r) \<union> (child g)\<^sup>* `` (unat ` set ?stack)"
      using range(2) by (simp only: marks_update)
    ultimately have "marks r' \<subseteq> marks r \<union> (child g)\<^sup>* `` (unat ` set (node # stack))" by blast
    moreover have "marks r \<subseteq> marks r'" "?i \<in> marks r'"
      using IH range(2) by (simp_all add: marks_update)
    moreover have "unat ` set stack \<subseteq> marks r'"
      using IH by auto
    ultimately show ?thesis using IH by simp
  qed
qed

lemma mark_reachable_total:
  assumes "valid_graph g" "length r = length (g_op g)"
    and "(child g)\<^sup>* `` (unat ` set stack) \<subseteq> {..<length (g_op g)}"
  shows "\<exists>r'. mark_reachable g r stack = Ok r'"
  using assms
proof (induction g r stack rule: mark_reachable.induct)
  case (1 g r)
  then show ?case by simp
next
  case (2 g r node stack)
  let ?i = "unat node"
  have range: "?i < length (g_op g)" "?i < length r"
    using "2.prems" by auto
  show ?case
  proof (cases "r ! ?i")
    case True
    have "(child g)\<^sup>* `` (unat ` set stack) \<subseteq> {..<length (g_op g)}"
      using "2.prems"(3) by auto
    then have "\<exists>r'. mark_reachable g r stack = Ok r'"
      using "2.IH"(1) [OF refl _ _ True] "2.prems"(1,2) range by (simp add: not_le)
    with True range show ?thesis by (simp add: Let_def)
  next
    case False
    have push: "push_children g node stack = Ok (rev (args_of g ?i) @ stack)"
      using "2.prems"(1) range(1) by (rule push_children_valid)
    from reach_pushed [OF range(1)]
    have "(child g)\<^sup>* `` (unat ` set (rev (args_of g ?i) @ stack)) \<subseteq> {..<length (g_op g)}"
      using "2.prems"(3) by (rule subset_trans)
    with range "2.prems" "2.IH"(2) [OF refl _ _ False push] False show ?thesis
      by (simp add: not_le Let_def push)
  qed
qed

definition reach :: "graph_body \<Rightarrow> nat set" where
  "reach g = (child g)\<^sup>* `` {unat (g_output g)}"

definition closed_refs :: "graph_body \<Rightarrow> bool" where
  "closed_refs g \<longleftrightarrow> reach g \<subseteq> {..<length (g_op g)}"

lemma mark_from_output:
  assumes "valid_graph g" and "mark_reachable g (replicate (length (g_op g)) False) [g_output g] = Ok r"
  shows "length r = length (g_op g)" "marks r = reach g" "closed_refs g"
proof -
  from mark_reachable_sound [OF assms(1,2)]
  have r: "length r = length (g_op g)" "unat (g_output g) \<in> marks r"
    "\<forall>i \<in> marks r. set (succs g i) \<subseteq> marks r" "marks r \<subseteq> reach g"
    by (auto simp: reach_def)
  have "(unat (g_output g), j) \<in> (child g)\<^sup>* \<Longrightarrow> j \<in> marks r" for j
    by (induction rule: rtrancl_induct) (use r in \<open>auto simp: child_def\<close>)
  with r show "length r = length (g_op g)" "marks r = reach g" "closed_refs g"
    by (auto simp: reach_def closed_refs_def marks_def)
qed

lemma mark_from_output_Ok:
  assumes "valid_graph g" "closed_refs g"
  obtains r where "mark_reachable g (replicate (length (g_op g)) False) [g_output g] = Ok r"
  using mark_reachable_total [of g "replicate (length (g_op g)) False" "[g_output g]"] assms
  by (auto simp: closed_refs_def reach_def)

lemma mark_reachable_no_panic:
  assumes "valid_graph g" "length r = length (g_op g)"
  shows "mark_reachable g r stack \<noteq> Panic"
  using assms
  by (induction g r stack rule: mark_reachable.induct)
    (auto simp: Let_def not_le push_children_valid)

lemma mark_reachable_error:
  assumes "valid_graph g" "length r = length (g_op g)" "mark_reachable g r stack = Err e"
  shows "e = InvalidInput ''bad node reference''"
  using assms
  by (induction g r stack rule: mark_reachable.induct)
    (auto simp: Let_def not_le push_children_valid split: if_splits)

section \<open>The keep loop and the renumbering\<close>

definition kept_list :: "nat \<Rightarrow> bool list \<Rightarrow> nat list" where
  "kept_list ar r = filter (\<lambda>j. j < ar \<or> r ! j) [0..<length r]"

lemma keep_loop_fst:
  "fst (keep_loop ar i rs keep identity) =
     keep @ map (of_nat \<circ> fst) (filter (\<lambda>(j, x). j < ar \<or> x) (enumerate i rs))"
  by (induction rs arbitrary: i keep identity) auto

lemma keep_loop_all:
  "length keep = i \<Longrightarrow> \<forall>j < length rs. i + j < ar \<or> rs ! j \<Longrightarrow>
     snd (keep_loop ar i rs keep True)"
proof (induction rs arbitrary: i keep)
  case (Cons x rs)
  have "i < ar \<or> x" using Cons.prems(2) by force
  moreover have "\<forall>j < length rs. Suc i + j < ar \<or> rs ! j"
  proof (intro allI impI)
    fix j assume "j < length rs"
    with Cons.prems(2) [rule_format, of "Suc j"] show "Suc i + j < ar \<or> rs ! j" by simp
  qed
  ultimately show ?case
    using Cons.IH [of "keep @ [of_nat i]" "Suc i"] Cons.prems(1) by simp
qed simp

lemma keep_loop_start:
  "fst (keep_loop ar 0 r [] True) = map of_nat (kept_list ar r)"
proof -
  have "enumerate 0 r = map (\<lambda>j. (j, r ! j)) [0..<length r]"
    by (intro nth_equalityI) (auto simp: nth_enumerate_eq)
  then show ?thesis
    by (simp add: keep_loop_fst kept_list_def filter_map comp_def)
qed

lemma remap_fold_notin:
  assumes "j \<notin> set ks" "\<forall>k \<in> set ks. k < 65536"
  shows "foldl (\<lambda>remap (new, old). remap[unat old := of_nat new]) r
    (enumerate s (map of_nat ks :: u32 list)) ! j = r ! j"
  using assms by (induction ks arbitrary: s r) auto

lemma remap_fold_in:
  assumes "distinct ks" "\<forall>k \<in> set ks. k < length r \<and> k < 65536" "i < length ks"
  shows "foldl (\<lambda>remap (new, old). remap[unat old := of_nat new]) r
    (enumerate s (map of_nat ks :: u32 list)) ! (ks ! i) = of_nat (s + i)"
  using assms
proof (induction ks arbitrary: s r i)
  case (Cons k ks)
  show ?case
  proof (cases i)
    case 0
    with Cons.prems show ?thesis by (simp add: remap_fold_notin)
  next
    case (Suc i')
    with Cons.IH [of "r[k := of_nat s]" i' "Suc s"] Cons.prems show ?thesis by simp
  qed
qed simp

lemma remap_fold_length:
  "length (foldl (\<lambda>remap (new, old). remap[unat old := of_nat new]) r xs) = length r"
  by (induction xs arbitrary: r) (auto split: prod.splits)

lemma remap_of_length [simp]: "length (remap_of n keep) = n"
  by (simp add: remap_of_def remap_fold_length)

lemma remap_of_nth:
  assumes "distinct ks" "\<forall>k \<in> set ks. k < n \<and> k < 65536" "i < length ks"
  shows "remap_of n (map of_nat ks) ! (ks ! i) = of_nat i"
  using remap_fold_in [of ks "replicate n NO_NODE" i 0] assms by (simp add: remap_of_def)


lemma kept_list_set: "set (kept_list ar r) = {j. j < length r \<and> (j < ar \<or> r ! j)}"
  by (auto simp: kept_list_def)

lemma kept_list_distinct [simp]: "distinct (kept_list ar r)"
  by (simp add: kept_list_def)

lemma kept_list_length: "length (kept_list ar r) \<le> length r"
  using length_filter_le [of "\<lambda>j. j < ar \<or> r ! j" "[0..<length r]"] by (simp add: kept_list_def)

lemma kept_list_prefix:
  assumes "ar \<le> length r" "i < ar"
  shows "i < length (kept_list ar r) \<and> kept_list ar r ! i = i"
proof -
  have "[0..<length r] = [0..<ar] @ [ar..<length r]"
    using assms(1) by (metis le_add_diff_inverse less_eq_nat.simps(1) upt_add_eq_append)
  then have "kept_list ar r = [0..<ar] @ filter (\<lambda>j. j < ar \<or> r ! j) [ar..<length r]"
    by (simp add: kept_list_def)
  with assms(2) show ?thesis by (simp add: nth_append)
qed

section \<open>The rebuilt graph\<close>

definition new_arg0 :: "graph_body \<Rightarrow> u32 list \<Rightarrow> nat \<Rightarrow> u32" where
  "new_arg0 g remap j =
     (case g_op g ! j of
        InputOp \<Rightarrow> g_arg0 g ! j
      | ConstOp \<Rightarrow> (if g_arg0 g ! j \<noteq> 0 then 1 else 0)
      | _ \<Rightarrow> remap ! unat (g_arg0 g ! j))"

definition new_arg1 :: "graph_body \<Rightarrow> u32 list \<Rightarrow> nat \<Rightarrow> u32" where
  "new_arg1 g remap j =
     (case g_op g ! j of
        AndOp \<Rightarrow> remap ! unat (g_arg1 g ! j)
      | OrOp \<Rightarrow> remap ! unat (g_arg1 g ! j)
      | _ \<Rightarrow> NO_NODE)"

definition rebuilt :: "graph_body \<Rightarrow> u32 list \<Rightarrow> nat list \<Rightarrow> graph_body" where
  "rebuilt g remap ks =
     \<lparr> g_arity = g_arity g, g_capacity = g_capacity g, g_output = remap ! unat (g_output g),
       g_op = map (\<lambda>j. g_op g ! j) ks, g_arg0 = map (new_arg0 g remap) ks,
       g_arg1 = map (new_arg1 g remap) ks \<rparr>"

text \<open>
  What the kept nodes of a valid graph satisfy: they are distinct nodes in ascending order starting
  with the inputs, closed under successors, and contain the output.
\<close>

definition keeps :: "graph_body \<Rightarrow> nat list \<Rightarrow> bool" where
  "keeps g ks \<longleftrightarrow> valid_graph g \<and> distinct ks \<and> set ks \<subseteq> {..<length (g_op g)} \<and>
     length ks \<le> length (g_op g) \<and> unat (g_output g) \<in> set ks \<and>
     (\<forall>j \<in> set ks. set (succs g j) \<subseteq> set ks) \<and>
     (\<forall>i < unat (g_arity g). i < length ks \<and> ks ! i = i)"

lemma keeps_remap:
  assumes "keeps g ks" "j \<in> set ks"
  obtains k where "k < length ks" "k < 65536" "ks ! k = j"
    "remap_of (length (g_op g)) (map of_nat ks) ! j = of_nat k"
proof -
  from assms(2) obtain k where k: "k < length ks" "ks ! k = j"
    by (auto simp: in_set_conv_nth)
  from assms(1) have small: "\<forall>k \<in> set ks. k < length (g_op g) \<and> k < 65536" and "distinct ks"
    and "length ks < 65536"
    using valid_graph_small [of g] by (auto simp: keeps_def)
  with k that remap_of_nth [of ks "length (g_op g)" k] show ?thesis by auto
qed

lemma keeps_remapped:
  assumes "keeps g ks" "unat a \<in> set ks"
  shows "remapped (remap_of (length (g_op g)) (map of_nat ks)) a =
    Ok (remap_of (length (g_op g)) (map of_nat ks) ! unat a)"
proof -
  obtain k where k: "k < 65536"
    "remap_of (length (g_op g)) (map of_nat ks) ! unat a = of_nat k"
    using keeps_remap [OF assms] by metis
  moreover have "unat a < length (g_op g)"
    using assms by (auto simp: keeps_def)
  ultimately show ?thesis by (simp add: remapped_def get_def)
qed

lemma keeps_compact_node:
  assumes "keeps g ks" "j \<in> set ks"
  defines "remap \<equiv> remap_of (length (g_op g)) (map of_nat ks)"
  shows "compact_node g remap (of_nat j) = Ok (g_op g ! j, new_arg0 g remap j, new_arg1 g remap j)"
proof -
  have "j < 65536"
    using assms valid_graph_small [of g] by (auto simp: keeps_def)
  moreover have "remapped remap a = Ok (remap ! unat a)" if "unat a \<in> set (succs g j)" for a
    unfolding remap_def using assms that by (intro keeps_remapped) (auto simp: keeps_def)
  ultimately show ?thesis
    by (cases "g_op g ! j")
      (simp_all add: compact_node_def Let_def new_arg0_def new_arg1_def succs_simps)
qed

lemma keeps_hom:
  assumes "keeps g ks"
  defines "remap \<equiv> remap_of (length (g_op g)) (map of_nat ks)"
  shows "graph_hom g (rebuilt g remap ks) (set ks) (\<lambda>j. unat (remap ! j))"
  unfolding graph_hom_def
proof (intro ballI)
  fix j assume j: "j \<in> set ks"
  obtain k where k: "k < length ks" "k < 65536" "ks ! k = j" "remap ! j = of_nat k"
    unfolding remap_def using keeps_remap [OF assms(1) j] .
  have "succs (rebuilt g remap ks) k = map (\<lambda>j. unat (remap ! j)) (succs g j)"
    using k by (cases "g_op g ! j")
      (simp_all add: succs_def args_of_def rebuilt_def new_arg0_def new_arg1_def)
  moreover have "j < length (g_op g)" "set (succs g j) \<subseteq> set ks"
    using assms(1) j by (auto simp: keeps_def)
  ultimately show "j < length (g_op g) \<and> unat (remap ! j) < length (g_op (rebuilt g remap ks)) \<and>
      g_op (rebuilt g remap ks) ! unat (remap ! j) = g_op g ! j \<and>
      (g_op g ! j = InputOp \<longrightarrow> g_arg0 (rebuilt g remap ks) ! unat (remap ! j) = g_arg0 g ! j) \<and>
      (g_op g ! j = ConstOp \<longrightarrow>
        (g_arg0 (rebuilt g remap ks) ! unat (remap ! j) = 0 \<longleftrightarrow> g_arg0 g ! j = 0)) \<and>
      succs (rebuilt g remap ks) (unat (remap ! j)) = map (\<lambda>j. unat (remap ! j)) (succs g j) \<and>
      set (succs g j) \<subseteq> set ks"
    using k by (simp add: rebuilt_def new_arg0_def)
qed

lemma keeps_valid:
  assumes "keeps g ks"
  defines "remap \<equiv> remap_of (length (g_op g)) (map of_nat ks)"
  shows "valid_graph (rebuilt g remap ks)"
proof -
  have out: "unat (g_output g) \<in> set ks" and pre: "\<forall>i < unat (g_arity g). i < length ks \<and> ks ! i = i"
    and valid: "valid_graph g" and len: "length ks \<le> length (g_op g)"
    using assms(1) by (auto simp: keeps_def)
  have ar: "unat (g_arity g) \<le> length ks"
    using pre by (metis not_le order_less_irrefl)
  obtain k where "k < length ks" "k < 65536" "remap ! unat (g_output g) = of_nat k"
    unfolding remap_def using keeps_remap [OF assms(1) out] .
  then show ?thesis
    using valid len pre ar
    by (auto simp: valid_graph_def rebuilt_def new_arg0_def)
qed

lemma kept_list_reach:
  assumes "valid_graph g" "mark_reachable g (replicate (length (g_op g)) False) [g_output g] = Ok r"
  shows "set (kept_list (unat (g_arity g)) r) = {..<unat (g_arity g)} \<union> reach g"
proof -
  note mark = mark_from_output [OF assms]
  have ar: "unat (g_arity g) \<le> length r" using valid_graphD(5) [OF assms(1)] mark(1) by simp
  have reach: "reach g = {j. j < length r \<and> r ! j}"
    using mark(2) unfolding marks_def by (rule sym)
  show ?thesis
    unfolding kept_list_set reach by (rule set_eqI) (use ar in auto)
qed

lemma reach_succs:
  assumes "valid_graph g" "closed_refs g" "j \<in> {..<unat (g_arity g)} \<union> reach g"
  shows "set (succs g j) \<subseteq> reach g"
proof (cases "j < unat (g_arity g)")
  case True
  then have "g_op g ! j = InputOp" using assms(1) by (simp add: valid_graphD)
  then show ?thesis by (simp add: succs_simps)
next
  case False
  with assms have j: "j \<in> reach g" "j < length (g_op g)" by (auto simp: closed_refs_def)
  then show ?thesis
    by (auto simp: reach_def child_def intro: rtrancl_into_rtrancl)
qed

lemma keeps_kept_list:
  assumes "valid_graph g" "mark_reachable g (replicate (length (g_op g)) False) [g_output g] = Ok r"
  shows "keeps g (kept_list (unat (g_arity g)) r)"
proof -
  let ?ks = "kept_list (unat (g_arity g)) r"
  note mark = mark_from_output [OF assms] and set_ks = kept_list_reach [OF assms]
  have ar: "unat (g_arity g) \<le> length r" using valid_graphD(5) [OF assms(1)] mark(1) by simp
  have "set ?ks \<subseteq> {..<length (g_op g)}"
    using mark(1) by (auto simp: kept_list_set)
  moreover have "\<forall>j \<in> set ?ks. set (succs g j) \<subseteq> set ?ks"
    using reach_succs [OF assms(1) mark(3)] unfolding set_ks by blast
  moreover have "unat (g_output g) \<in> set ?ks"
    unfolding set_ks by (simp add: reach_def)
  ultimately show ?thesis
    using assms(1) kept_list_length [of "unat (g_arity g)" r] kept_list_prefix [OF ar] mark(1)
    by (simp add: keeps_def)
qed

lemma keep_loop_identity:
  assumes "length (kept_list ar r) = length r"
  shows "keep_loop ar 0 r [] True = (map of_nat (kept_list ar r), True)"
proof -
  have "set (kept_list ar r) = {..<length r}"
    by (rule card_subset_eq) (use assms in \<open>auto simp: kept_list_set distinct_card [symmetric]\<close>)
  then have "\<forall>j < length r. 0 + j < ar \<or> r ! j" by (auto simp: kept_list_set)
  then have "snd (keep_loop ar 0 r [] True)" by (intro keep_loop_all) simp_all
  with keep_loop_start [of ar r] show ?thesis by (metis prod.collapse)
qed

lemma compact_graph_eq:
  assumes "valid_graph g" "mark_reachable g (replicate (length (g_op g)) False) [g_output g] = Ok r"
  defines "ks \<equiv> kept_list (unat (g_arity g)) r"
  shows "compact_graph g = Ok (if length ks = length (g_op g) then g
       else rebuilt g (remap_of (length (g_op g)) (map of_nat ks)) ks)"
proof (cases "length ks = length (g_op g)")
  case True
  then have "keep_loop (unat (g_arity g)) 0 r [] True = (map of_nat ks, True)"
    unfolding ks_def using mark_from_output(1) [OF assms(1,2)] by (intro keep_loop_identity) simp
  with True assms(1,2) show ?thesis
    by (simp add: compact_graph_def)
next
  case False
  let ?remap = "remap_of (length (g_op g)) (map of_nat ks)"
  have keeps: "keeps g ks" unfolding ks_def by (rule keeps_kept_list [OF assms(1,2)])
  obtain identity where loop: "keep_loop (unat (g_arity g)) 0 r [] True = (map of_nat ks, identity)"
    using keep_loop_start [of "unat (g_arity g)" r] by (metis ks_def prod.collapse)
  have "omap (compact_node g ?remap) (map of_nat ks) =
      Ok (map (\<lambda>j. (g_op g ! j, new_arg0 g ?remap j, new_arg1 g ?remap j)) ks)"
    using keeps_compact_node [OF keeps] by (simp add: omap_Ok_iff)
  moreover have "remapped ?remap (g_output g) = Ok (?remap ! unat (g_output g))"
    using keeps by (intro keeps_remapped) (auto simp: keeps_def)
  moreover have "new_graph (g_arity g) (g_capacity g) (?remap ! unat (g_output g))
      (map ((!) (g_op g)) ks) (map (new_arg0 g ?remap) ks) (map (new_arg1 g ?remap) ks) =
      Ok (rebuilt g ?remap ks)"
    using keeps_valid [OF keeps] by (simp add: new_graph_Ok_iff rebuilt_def)
  ultimately show ?thesis
    using False assms(1,2) by (simp add: compact_graph_def loop comp_def)
qed


section \<open>Compaction is correct\<close>

definition kept :: "graph_body \<Rightarrow> nat set" where
  "kept g = {..<unat (g_arity g)} \<union> reach g"

definition compact_form :: "graph_body \<Rightarrow> bool" where
  "compact_form g \<longleftrightarrow> valid_graph g \<and> {..<length (g_op g)} = kept g"

text \<open>
  The specification of one successful run: the result is the image of the kept nodes under a
  renumbering that is a homomorphism and a bijection.
\<close>

lemma compact_graph_spec:
  assumes "valid_graph g" "closed_refs g"
  obtains g' f where "compact_graph g = Ok g'" "valid_graph g'" "graph_hom g g' (kept g) f"
    "f ` kept g = {..<length (g_op g')}" "unat (g_output g') = f (unat (g_output g))"
    "g_arity g' = g_arity g" "g_capacity g' = g_capacity g" "length (g_op g') \<le> length (g_op g)"
    "\<forall>i < unat (g_arity g). f i = i"
proof -
  obtain r where r: "mark_reachable g (replicate (length (g_op g)) False) [g_output g] = Ok r"
    using mark_from_output_Ok [OF assms] .
  define ks where "ks = kept_list (unat (g_arity g)) r"
  define remap where "remap = remap_of (length (g_op g)) (map of_nat ks)"
  define f where "f = (\<lambda>j. unat (remap ! j))"
  have keeps: "keeps g ks" unfolding ks_def by (rule keeps_kept_list [OF assms(1) r])
  have set_ks: "set ks = kept g" unfolding ks_def kept_def by (rule kept_list_reach [OF assms(1) r])
  have len: "length ks \<le> length (g_op g)" and dist: "distinct ks" and sub: "set ks \<subseteq> {..<length (g_op g)}"
    using keeps by (simp_all add: keeps_def)
  show ?thesis
  proof (cases "length ks = length (g_op g)")
    case True
    have "set ks = {..<length (g_op g)}"
      by (rule card_subset_eq) (use sub True dist in \<open>simp_all add: distinct_card\<close>)
    moreover have "graph_hom g g (set ks) id"
      using keeps sub by (auto simp: graph_hom_def keeps_def)
    ultimately show ?thesis
      using compact_graph_eq [OF assms(1) r] True that [of g id] assms(1) set_ks
      by (simp add: ks_def)
  next
    case False
    have nth: "f (ks ! k) = k" if "k < length ks" for k
    proof -
      have "length ks < 65536" using len valid_graph_small [OF assms(1)] by simp
      moreover have "\<forall>k \<in> set ks. k < length (g_op g) \<and> k < 65536"
        using sub valid_graph_small [OF assms(1)] by auto
      ultimately show ?thesis
        using remap_of_nth [OF dist, of "length (g_op g)" k] that by (simp add: f_def remap_def)
    qed
    have "f ` set ks = {..<length ks}"
    proof (intro set_eqI iffI)
      fix x assume "x \<in> f ` set ks"
      then show "x \<in> {..<length ks}" by (auto simp: in_set_conv_nth nth)
    next
      fix x assume "x \<in> {..<length ks}"
      then show "x \<in> f ` set ks" using nth [of x] by (metis image_eqI lessThan_iff nth_mem)
    qed
    moreover have "f i = i" if "i < unat (g_arity g)" for i
      using nth [of i] keeps that by (auto simp: keeps_def)
    moreover have "graph_hom g (rebuilt g remap ks) (set ks) f"
      unfolding f_def remap_def by (rule keeps_hom [OF keeps])
    ultimately show ?thesis
      using compact_graph_eq [OF assms(1) r] False keeps_valid [OF keeps] len
      by (intro that [of "rebuilt g remap ks" f])
        (simp_all add: ks_def [symmetric] remap_def [symmetric] set_ks rebuilt_def f_def)
  qed
qed

lemma compact_graph_closed:
  assumes "compact_graph g = Ok g'"
  shows "valid_graph g" "closed_refs g"
  using assms mark_from_output(3) by (auto simp: compact_graph_def)

lemma graph_hom_reach:
  assumes "graph_hom g h S f" "i \<in> S"
  shows "(child h)\<^sup>* `` {f i} = f ` ((child g)\<^sup>* `` {i})"
proof -
  have fwd: "(i, j) \<in> (child g)\<^sup>* \<Longrightarrow> j \<in> S \<and> (f i, f j) \<in> (child h)\<^sup>*" for j
  proof (induction rule: rtrancl_induct)
    case (step j k)
    then have "k \<in> set (succs g j)" "j \<in> S" by (simp_all add: child_def)
    then show ?case
      using graph_homD [OF assms(1) \<open>j \<in> S\<close>] step.IH
      by (auto simp: child_def intro: rtrancl_into_rtrancl)
  qed (use assms(2) in simp)
  have bwd: "(f i, y) \<in> (child h)\<^sup>* \<Longrightarrow> \<exists>j. (i, j) \<in> (child g)\<^sup>* \<and> y = f j" for y
  proof (induction rule: rtrancl_induct)
    case (step y z)
    then obtain j where j: "(i, j) \<in> (child g)\<^sup>*" "y = f j" by blast
    with fwd have "j \<in> S" by blast
    note homD = graph_homD [OF assms(1) this]
    from step.hyps(2) j homD(3) obtain k where "k \<in> set (succs g j)" "z = f k"
      by (auto simp: child_def)
    with j homD(1) show ?case
      by (auto simp: child_def intro: rtrancl_into_rtrancl)
  qed blast
  show ?thesis using fwd bwd by blast
qed

lemma grounded_inputs:
  assumes "valid_graph g" "i \<in> {..<unat (g_arity g)}"
  shows "grounded g i"
proof (rule grounded.node)
  show "i < length (g_op g)" using assms(2) valid_graphD(5) [OF assms(1)] by simp
  have "g_op g ! i = InputOp" using assms(2) valid_graphD(6) [OF assms(1)] by simp
  then show "\<And>j. j \<in> set (succs g i) \<Longrightarrow> grounded g j" by (simp add: succs_simps)
qed

lemma compact_result:
  assumes "compact_graph g = Ok g'"
  shows "compact_form g'" "\<And>env b. denotes g' env b \<longleftrightarrow> denotes g env b"
    "length (g_op g') \<le> length (g_op g)" "g_arity g' = g_arity g" "g_capacity g' = g_capacity g"
    "well_founded g' \<longleftrightarrow> (\<forall>i \<in> reach g. grounded g i)"
proof -
  obtain h f where "compact_graph g = Ok h" "valid_graph h" and hom: "graph_hom g h (kept g) f"
    and img: "f ` kept g = {..<length (g_op h)}" and out: "unat (g_output h) = f (unat (g_output g))"
    and same: "g_arity h = g_arity g" "g_capacity h = g_capacity g"
    and len: "length (g_op h) \<le> length (g_op g)"
    and prefix: "\<forall>i < unat (g_arity g). f i = i"
    using compact_graph_closed [OF assms] by (rule compact_graph_spec)
  with assms have h: "h = g'" and valid': "valid_graph g'" by simp_all
  note hom = hom [unfolded h] and img = img [unfolded h] and out = out [unfolded h]
    and same = same [unfolded h] and len = len [unfolded h]
  have out_kept: "unat (g_output g) \<in> kept g" by (simp add: kept_def reach_def)
  have reach': "reach g' = f ` reach g"
    using graph_hom_reach [OF hom out_kept] out by (simp add: reach_def)
  moreover have "f ` {..<unat (g_arity g)} = id ` {..<unat (g_arity g)}"
    by (rule image_cong) (simp_all add: prefix)
  ultimately have "kept g' = f ` kept g"
    using same by (simp add: kept_def image_Un)
  with img valid' show "compact_form g'" by (simp add: compact_form_def)
  show "denotes g' env b \<longleftrightarrow> denotes g env b" for env b
    using graph_hom_evals [OF hom out_kept] out by (simp add: denotes_def)
  show "length (g_op g') \<le> length (g_op g)" "g_arity g' = g_arity g" "g_capacity g' = g_capacity g"
    using len same by simp_all
  have "(\<forall>i \<in> reach g. grounded g i) \<longleftrightarrow> (\<forall>i \<in> kept g. grounded g i)"
    using grounded_inputs [OF compact_graph_closed(1) [OF assms]] unfolding kept_def by blast
  also have "\<dots> \<longleftrightarrow> (\<forall>i \<in> kept g. grounded g' (f i))"
    using graph_hom_grounded [OF hom] by simp
  also have "\<dots> \<longleftrightarrow> (\<forall>i \<in> f ` kept g. grounded g' i)"
    by blast
  also have "\<dots> \<longleftrightarrow> well_founded g'"
    unfolding well_founded_def img by blast
  finally show "well_founded g' \<longleftrightarrow> (\<forall>i \<in> reach g. grounded g i)" by simp
qed

lemma compact_form_closed: "compact_form g \<Longrightarrow> closed_refs g"
  by (auto simp: compact_form_def kept_def closed_refs_def)

lemma compact_form_fixpoint:
  assumes "compact_form g"
  shows "compact_graph g = Ok g"
proof -
  have valid: "valid_graph g" and all: "{..<length (g_op g)} = kept g"
    using assms by (simp_all add: compact_form_def)
  obtain r where r: "mark_reachable g (replicate (length (g_op g)) False) [g_output g] = Ok r"
    using mark_from_output_Ok [OF valid compact_form_closed [OF assms]] .
  let ?ks = "kept_list (unat (g_arity g)) r"
  have "set ?ks = {..<length (g_op g)}"
    using kept_list_reach [OF valid r] all by (simp add: kept_def)
  then have "length ?ks = length (g_op g)"
    using distinct_card [of ?ks] by simp
  then show ?thesis using compact_graph_eq [OF valid r] by simp
qed

text \<open>
  C5: \<open>compact_graph\<close> is semantics-preserving garbage collection. Whenever it returns a graph, that
  graph passes validation, its output computes the same Boolean function of the inputs (and has a
  value for exactly the same assignments), it has at most as many nodes, every node is an input
  slot or reachable from the output, and compacting it again changes nothing.
\<close>

theorem compact_graph_correct:
  assumes "compact_graph g = Ok g'"
  shows "valid_graph g' \<and> (\<forall>env b. denotes g' env b \<longleftrightarrow> denotes g env b) \<and>
    length (g_op g') \<le> length (g_op g) \<and>
    (\<forall>i. i < length (g_op g') \<longleftrightarrow> i < unat (g_arity g') \<or> i \<in> reach g') \<and>
    compact_graph g' = Ok g'"
proof (intro conjI)
  have form: "compact_form g'" using assms by (rule compact_result)
  then show "valid_graph g'" by (simp add: compact_form_def)
  show "\<forall>env b. denotes g' env b \<longleftrightarrow> denotes g env b"
    using compact_result(2) [OF assms] by blast
  show "length (g_op g') \<le> length (g_op g)" using assms by (rule compact_result)
  show "\<forall>i. i < length (g_op g') \<longleftrightarrow> i < unat (g_arity g') \<or> i \<in> reach g'"
    using form unfolding compact_form_def kept_def by blast
  show "compact_graph g' = Ok g'" using form by (rule compact_form_fixpoint)
qed

definition ex_dead_const :: graph_body where
  "ex_dead_const = \<lparr> g_arity = 1, g_capacity = 8, g_output = 3,
     g_op = [InputOp, ConstOp, AndOp, OutputOp],
     g_arg0 = [0, 7, 0, 2], g_arg1 = [NO_NODE, NO_NODE, 0, NO_NODE] \<rparr>"

theorem compact_graph_correct_witness:
  "compact_graph ex_dead_const = Ok (ex_dead_const \<lparr> g_output := 2, g_op := [InputOp, AndOp, OutputOp],
      g_arg0 := [0, 0, 1], g_arg1 := [NO_NODE, 0, NO_NODE] \<rparr>) \<and>
   valid_graph (ex_dead_const \<lparr> g_output := 2, g_op := [InputOp, AndOp, OutputOp],
      g_arg0 := [0, 0, 1], g_arg1 := [NO_NODE, 0, NO_NODE] \<rparr>)"
proof -
  have *: "compact_graph ex_dead_const = Ok (ex_dead_const \<lparr> g_output := 2,
      g_op := [InputOp, AndOp, OutputOp], g_arg0 := [0, 0, 1], g_arg1 := [NO_NODE, 0, NO_NODE] \<rparr>)"
    by code_simp
  from * compact_graph_correct [OF *] show ?thesis by blast
qed

text \<open>
  C25: which graphs compaction accepts. It returns a graph exactly when the input passes validation
  and every node reachable from the output exists; it never panics, and so its error
  \<open>unreachable child reference\<close> is dead code: a kept node never refers to a dropped one.
\<close>

theorem compact_graph_outcomes:
  "((\<exists>g'. compact_graph g = Ok g') \<longleftrightarrow> valid_graph g \<and> closed_refs g) \<and> compact_graph g \<noteq> Panic \<and>
   compact_graph g \<noteq> Err (InvalidInput ''unreachable child reference'')"
proof (cases "valid_graph g")
  case False
  then have "\<exists>e. validate g = Err (InvalidInput e) \<and> e \<noteq> ''unreachable child reference''"
    by (auto simp: validate_def valid_graph_def Let_def input_slots_ok_iff)
  with False show ?thesis by (auto simp: compact_graph_def)
next
  case valid: True
  show ?thesis
  proof (cases "closed_refs g")
    case True
    with valid show ?thesis by (metis compact_graph_spec outcome.distinct(1,3))
  next
    case False
    let ?m = "mark_reachable g (replicate (length (g_op g)) False) [g_output g]"
    have "?m \<noteq> Ok r" for r using mark_from_output(3) [OF valid] False by blast
    moreover have "?m \<noteq> Panic" by (rule mark_reachable_no_panic [OF valid]) simp
    ultimately obtain e where e: "?m = Err e" by (cases ?m) blast+
    then have "e = InvalidInput ''bad node reference''"
      by (rule mark_reachable_error [OF valid, rotated]) simp
    moreover have "validate g = Ok ()" using valid by simp
    ultimately have "compact_graph g = Err (InvalidInput ''bad node reference'')"
      using e by (simp only: compact_graph_def obind_simps)
    with valid False show ?thesis by simp
  qed
qed

end
