(* ===== verification/Whittle_Rules.thy ===== *)
theory Whittle_Rules
  imports Whittle_Graph
begin

text \<open>
  The rule set and the candidate enumeration of \<open>crates/gz-engine-whittle/src/rules.rs\<close>: the 44 rule
  identifiers with their numbers, names, inverses and node costs, the deduplicating candidate
  \<open>Builder\<close>, the signal tables, and the enumeration loops of \<open>enumerate_graph_limited\<close>, one
  definition per loop body. The functions that extend the builder are steps
  \<open>builder \<Rightarrow> (builder, rule_error) outcome\<close>; \<open>run_steps\<close> is the sequence of statements joined
  by \<open>?\<close>.
\<close>

section \<open>Rule identifiers\<close>

datatype rule_id =
    AndFalse | AndTrue | OrFalse | OrTrue | NotFalse | NotTrue | AndIdempotent | OrIdempotent |
    AndComplement | OrComplement | DoubleNegation | CommuteAnd | CommuteOr | AssociateAndLeft |
    AssociateAndRight | AssociateOrLeft | AssociateOrRight | AbsorbOrAnd | AbsorbAndOr |
    DeMorganNotAnd | DeMorganNotOr | DeMorganOrNots | DeMorganAndNots | DistributeOrFactor |
    DistributeOrExpand | DistributeAndFactor | DistributeAndExpand | ConsensusOrAdd |
    ConsensusOrRemove | ConsensusAndAdd | ConsensusAndRemove | AndFalseInverse | AndTrueInverse |
    OrFalseInverse | OrTrueInverse | NotFalseInverse | NotTrueInverse | AndIdempotentInverse |
    OrIdempotentInverse | AndComplementInverse | OrComplementInverse | DoubleNegationInverse |
    AbsorbOrAndInverse | AbsorbAndOrInverse

datatype rule_error =
    UnknownRule u16
  | BadMatchLength
  | InvalidCandidate string
  | CapacityExceeded
  | Graph graph_error

text \<open>The arms of \<open>RuleId::from_u16\<close> in order; arm \<open>i\<close> is at position \<open>i\<close>.\<close>

definition rule_table :: "rule_id list" where
  "rule_table =
    [AndFalse, AndTrue, OrFalse, OrTrue, NotFalse, NotTrue, AndIdempotent, OrIdempotent,
     AndComplement, OrComplement, DoubleNegation, CommuteAnd, CommuteOr, AssociateAndLeft,
     AssociateAndRight, AssociateOrLeft, AssociateOrRight, AbsorbOrAnd, AbsorbAndOr,
     DeMorganNotAnd, DeMorganNotOr, DeMorganOrNots, DeMorganAndNots, DistributeOrFactor,
     DistributeOrExpand, DistributeAndFactor, DistributeAndExpand, ConsensusOrAdd,
     ConsensusOrRemove, ConsensusAndAdd, ConsensusAndRemove, AndFalseInverse, AndTrueInverse,
     OrFalseInverse, OrTrueInverse, NotFalseInverse, NotTrueInverse, AndIdempotentInverse,
     OrIdempotentInverse, AndComplementInverse, OrComplementInverse, DoubleNegationInverse,
     AbsorbOrAndInverse, AbsorbAndOrInverse]"

definition from_u16 :: "u16 \<Rightarrow> (rule_id, rule_error) outcome" where
  "from_u16 value =
     (if unat value < 44 then Ok (rule_table ! unat value) else Err (UnknownRule value))"

primrec as_u16 :: "rule_id \<Rightarrow> u16" where
  "as_u16 AndFalse = 0"
| "as_u16 AndTrue = 1"
| "as_u16 OrFalse = 2"
| "as_u16 OrTrue = 3"
| "as_u16 NotFalse = 4"
| "as_u16 NotTrue = 5"
| "as_u16 AndIdempotent = 6"
| "as_u16 OrIdempotent = 7"
| "as_u16 AndComplement = 8"
| "as_u16 OrComplement = 9"
| "as_u16 DoubleNegation = 10"
| "as_u16 CommuteAnd = 11"
| "as_u16 CommuteOr = 12"
| "as_u16 AssociateAndLeft = 13"
| "as_u16 AssociateAndRight = 14"
| "as_u16 AssociateOrLeft = 15"
| "as_u16 AssociateOrRight = 16"
| "as_u16 AbsorbOrAnd = 17"
| "as_u16 AbsorbAndOr = 18"
| "as_u16 DeMorganNotAnd = 19"
| "as_u16 DeMorganNotOr = 20"
| "as_u16 DeMorganOrNots = 21"
| "as_u16 DeMorganAndNots = 22"
| "as_u16 DistributeOrFactor = 23"
| "as_u16 DistributeOrExpand = 24"
| "as_u16 DistributeAndFactor = 25"
| "as_u16 DistributeAndExpand = 26"
| "as_u16 ConsensusOrAdd = 27"
| "as_u16 ConsensusOrRemove = 28"
| "as_u16 ConsensusAndAdd = 29"
| "as_u16 ConsensusAndRemove = 30"
| "as_u16 AndFalseInverse = 31"
| "as_u16 AndTrueInverse = 32"
| "as_u16 OrFalseInverse = 33"
| "as_u16 OrTrueInverse = 34"
| "as_u16 NotFalseInverse = 35"
| "as_u16 NotTrueInverse = 36"
| "as_u16 AndIdempotentInverse = 37"
| "as_u16 OrIdempotentInverse = 38"
| "as_u16 AndComplementInverse = 39"
| "as_u16 OrComplementInverse = 40"
| "as_u16 DoubleNegationInverse = 41"
| "as_u16 AbsorbOrAndInverse = 42"
| "as_u16 AbsorbAndOrInverse = 43"

primrec rule_id_name :: "rule_id \<Rightarrow> string" where
  "rule_id_name AndFalse = ''AndFalse''"
| "rule_id_name AndTrue = ''AndTrue''"
| "rule_id_name OrFalse = ''OrFalse''"
| "rule_id_name OrTrue = ''OrTrue''"
| "rule_id_name NotFalse = ''NotFalse''"
| "rule_id_name NotTrue = ''NotTrue''"
| "rule_id_name AndIdempotent = ''AndIdempotent''"
| "rule_id_name OrIdempotent = ''OrIdempotent''"
| "rule_id_name AndComplement = ''AndComplement''"
| "rule_id_name OrComplement = ''OrComplement''"
| "rule_id_name DoubleNegation = ''DoubleNegation''"
| "rule_id_name CommuteAnd = ''CommuteAnd''"
| "rule_id_name CommuteOr = ''CommuteOr''"
| "rule_id_name AssociateAndLeft = ''AssociateAndLeft''"
| "rule_id_name AssociateAndRight = ''AssociateAndRight''"
| "rule_id_name AssociateOrLeft = ''AssociateOrLeft''"
| "rule_id_name AssociateOrRight = ''AssociateOrRight''"
| "rule_id_name AbsorbOrAnd = ''AbsorbOrAnd''"
| "rule_id_name AbsorbAndOr = ''AbsorbAndOr''"
| "rule_id_name DeMorganNotAnd = ''DeMorganNotAnd''"
| "rule_id_name DeMorganNotOr = ''DeMorganNotOr''"
| "rule_id_name DeMorganOrNots = ''DeMorganOrNots''"
| "rule_id_name DeMorganAndNots = ''DeMorganAndNots''"
| "rule_id_name DistributeOrFactor = ''DistributeOrFactor''"
| "rule_id_name DistributeOrExpand = ''DistributeOrExpand''"
| "rule_id_name DistributeAndFactor = ''DistributeAndFactor''"
| "rule_id_name DistributeAndExpand = ''DistributeAndExpand''"
| "rule_id_name ConsensusOrAdd = ''ConsensusOrAdd''"
| "rule_id_name ConsensusOrRemove = ''ConsensusOrRemove''"
| "rule_id_name ConsensusAndAdd = ''ConsensusAndAdd''"
| "rule_id_name ConsensusAndRemove = ''ConsensusAndRemove''"
| "rule_id_name AndFalseInverse = ''AndFalseInverse''"
| "rule_id_name AndTrueInverse = ''AndTrueInverse''"
| "rule_id_name OrFalseInverse = ''OrFalseInverse''"
| "rule_id_name OrTrueInverse = ''OrTrueInverse''"
| "rule_id_name NotFalseInverse = ''NotFalseInverse''"
| "rule_id_name NotTrueInverse = ''NotTrueInverse''"
| "rule_id_name AndIdempotentInverse = ''AndIdempotentInverse''"
| "rule_id_name OrIdempotentInverse = ''OrIdempotentInverse''"
| "rule_id_name AndComplementInverse = ''AndComplementInverse''"
| "rule_id_name OrComplementInverse = ''OrComplementInverse''"
| "rule_id_name DoubleNegationInverse = ''DoubleNegationInverse''"
| "rule_id_name AbsorbOrAndInverse = ''AbsorbOrAndInverse''"
| "rule_id_name AbsorbAndOrInverse = ''AbsorbAndOrInverse''"

definition rule_name :: "u16 \<Rightarrow> string" where
  "rule_name rule_id = (case from_u16 rule_id of Ok r \<Rightarrow> rule_id_name r | _ \<Rightarrow> ''Unknown'')"

primrec inverse_of :: "rule_id \<Rightarrow> rule_id" where
  "inverse_of AndFalse = AndFalseInverse"
| "inverse_of AndTrue = AndTrueInverse"
| "inverse_of OrFalse = OrFalseInverse"
| "inverse_of OrTrue = OrTrueInverse"
| "inverse_of NotFalse = NotFalseInverse"
| "inverse_of NotTrue = NotTrueInverse"
| "inverse_of AndIdempotent = AndIdempotentInverse"
| "inverse_of OrIdempotent = OrIdempotentInverse"
| "inverse_of AndComplement = AndComplementInverse"
| "inverse_of OrComplement = OrComplementInverse"
| "inverse_of DoubleNegation = DoubleNegationInverse"
| "inverse_of CommuteAnd = CommuteAnd"
| "inverse_of CommuteOr = CommuteOr"
| "inverse_of AssociateAndLeft = AssociateAndRight"
| "inverse_of AssociateAndRight = AssociateAndLeft"
| "inverse_of AssociateOrLeft = AssociateOrRight"
| "inverse_of AssociateOrRight = AssociateOrLeft"
| "inverse_of AbsorbOrAnd = AbsorbOrAndInverse"
| "inverse_of AbsorbAndOr = AbsorbAndOrInverse"
| "inverse_of DeMorganNotAnd = DeMorganOrNots"
| "inverse_of DeMorganNotOr = DeMorganAndNots"
| "inverse_of DeMorganOrNots = DeMorganNotAnd"
| "inverse_of DeMorganAndNots = DeMorganNotOr"
| "inverse_of DistributeOrFactor = DistributeOrExpand"
| "inverse_of DistributeOrExpand = DistributeOrFactor"
| "inverse_of DistributeAndFactor = DistributeAndExpand"
| "inverse_of DistributeAndExpand = DistributeAndFactor"
| "inverse_of ConsensusOrAdd = ConsensusOrRemove"
| "inverse_of ConsensusOrRemove = ConsensusOrAdd"
| "inverse_of ConsensusAndAdd = ConsensusAndRemove"
| "inverse_of ConsensusAndRemove = ConsensusAndAdd"
| "inverse_of AndFalseInverse = AndFalse"
| "inverse_of AndTrueInverse = AndTrue"
| "inverse_of OrFalseInverse = OrFalse"
| "inverse_of OrTrueInverse = OrTrue"
| "inverse_of NotFalseInverse = NotFalse"
| "inverse_of NotTrueInverse = NotTrue"
| "inverse_of AndIdempotentInverse = AndIdempotent"
| "inverse_of OrIdempotentInverse = OrIdempotent"
| "inverse_of AndComplementInverse = AndComplement"
| "inverse_of OrComplementInverse = OrComplement"
| "inverse_of DoubleNegationInverse = DoubleNegation"
| "inverse_of AbsorbOrAndInverse = AbsorbOrAnd"
| "inverse_of AbsorbAndOrInverse = AbsorbAndOr"

definition inverse_rule_id :: "u16 \<Rightarrow> u16 option" where
  "inverse_rule_id rule_id =
     (case from_u16 rule_id of Ok rule \<Rightarrow> Some (as_u16 (inverse_of rule)) | _ \<Rightarrow> None)"

definition reverse_constant_folding_rule :: "rule_id \<Rightarrow> bool" where
  "reverse_constant_folding_rule rule =
     (rule \<in> {AndFalseInverse, AndTrueInverse, OrFalseInverse, OrTrueInverse, NotFalseInverse,
        NotTrueInverse})"

primrec replacement_extra_nodes :: "rule_id \<Rightarrow> int" where
  "replacement_extra_nodes AndFalse = 0"
| "replacement_extra_nodes AndTrue = 0"
| "replacement_extra_nodes OrFalse = 0"
| "replacement_extra_nodes OrTrue = 0"
| "replacement_extra_nodes NotFalse = 1"
| "replacement_extra_nodes NotTrue = 1"
| "replacement_extra_nodes AndIdempotent = 0"
| "replacement_extra_nodes OrIdempotent = 0"
| "replacement_extra_nodes AndComplement = 1"
| "replacement_extra_nodes OrComplement = 1"
| "replacement_extra_nodes DoubleNegation = 0"
| "replacement_extra_nodes CommuteAnd = 1"
| "replacement_extra_nodes CommuteOr = 1"
| "replacement_extra_nodes AssociateAndLeft = 2"
| "replacement_extra_nodes AssociateAndRight = 2"
| "replacement_extra_nodes AssociateOrLeft = 2"
| "replacement_extra_nodes AssociateOrRight = 2"
| "replacement_extra_nodes AbsorbOrAnd = 0"
| "replacement_extra_nodes AbsorbAndOr = 0"
| "replacement_extra_nodes DeMorganNotAnd = 3"
| "replacement_extra_nodes DeMorganNotOr = 3"
| "replacement_extra_nodes DeMorganOrNots = 2"
| "replacement_extra_nodes DeMorganAndNots = 2"
| "replacement_extra_nodes DistributeOrFactor = 2"
| "replacement_extra_nodes DistributeOrExpand = 3"
| "replacement_extra_nodes DistributeAndFactor = 2"
| "replacement_extra_nodes DistributeAndExpand = 3"
| "replacement_extra_nodes ConsensusOrAdd = 2"
| "replacement_extra_nodes ConsensusOrRemove = 0"
| "replacement_extra_nodes ConsensusAndAdd = 2"
| "replacement_extra_nodes ConsensusAndRemove = 0"
| "replacement_extra_nodes AndFalseInverse = 1"
| "replacement_extra_nodes AndTrueInverse = 1"
| "replacement_extra_nodes OrFalseInverse = 1"
| "replacement_extra_nodes OrTrueInverse = 1"
| "replacement_extra_nodes NotFalseInverse = 1"
| "replacement_extra_nodes NotTrueInverse = 1"
| "replacement_extra_nodes AndIdempotentInverse = 1"
| "replacement_extra_nodes OrIdempotentInverse = 1"
| "replacement_extra_nodes AndComplementInverse = 1"
| "replacement_extra_nodes OrComplementInverse = 1"
| "replacement_extra_nodes DoubleNegationInverse = 2"
| "replacement_extra_nodes AbsorbOrAndInverse = 2"
| "replacement_extra_nodes AbsorbAndOrInverse = 2"

section \<open>Candidates and the builder\<close>

record raw_candidate =
  rc_rule :: u16
  rc_root :: u32
  rc_match_len :: u8
  rc_matched :: "u32 list"

definition MAX_MATCHED :: nat where
  "MAX_MATCHED = 8"

text \<open>Slicing \<open>matched[..match_len]\<close> panics when the length is beyond the array.\<close>

definition matched_slice :: "raw_candidate \<Rightarrow> (u32 list, 'e) outcome" where
  "matched_slice c =
     (if unat (rc_match_len c) \<le> length (rc_matched c)
      then Ok (take (unat (rc_match_len c)) (rc_matched c)) else Panic)"

definition candidate_key :: "raw_candidate \<Rightarrow> u32 list" where
  "candidate_key c = ucast (rc_rule c) # rc_root c # ucast (rc_match_len c) # rc_matched c"

record builder =
  b_include :: bool
  b_remaining :: int
  b_limit :: "nat option"
  b_items :: "raw_candidate list"
  b_seen :: "u32 list set"

type_synonym step = "builder \<Rightarrow> (builder, rule_error) outcome"

text \<open>A \<open>usize\<close> cast to \<open>i32\<close>, and a node number cast to \<open>i32\<close> and back.\<close>

definition usize_as_i32 :: "nat \<Rightarrow> int" where
  "usize_as_i32 n = sint (of_nat n :: u32)"

definition u32_as_i32 :: "u32 \<Rightarrow> int" where
  "u32_as_i32 w = sint w"

definition i32_as_u32 :: "int \<Rightarrow> u32" where
  "i32_as_u32 i = word_of_int i"

definition builder_new :: "graph_body \<Rightarrow> bool \<Rightarrow> nat option \<Rightarrow> builder" where
  "builder_new g include_reverse limit =
     \<lparr> b_include = include_reverse,
       b_remaining = int (unat (g_capacity g)) - usize_as_i32 (length (g_op g)),
       b_limit = limit, b_items = [], b_seen = {} \<rparr>"

definition builder_is_full :: "builder \<Rightarrow> bool" where
  "builder_is_full b = (case b_limit b of None \<Rightarrow> False | Some limit \<Rightarrow> limit \<le> length (b_items b))"

text \<open>The fixed-size match array: the root, the rest, and zeros up to \<open>MAX_MATCHED\<close>.\<close>

definition make_candidate :: "rule_id \<Rightarrow> u32 \<Rightarrow> u32 list \<Rightarrow> raw_candidate" where
  "make_candidate rule root rest =
     \<lparr> rc_rule = as_u16 rule, rc_root = root, rc_match_len = of_nat (length rest + 1),
       rc_matched = (root # rest) @ replicate (MAX_MATCHED - (length rest + 1)) 0 \<rparr>"

definition builder_add :: "rule_id \<Rightarrow> u32 \<Rightarrow> u32 list \<Rightarrow> step" where
  "builder_add rule root rest b =
     (if builder_is_full b then Ok b
      else if \<not> b_include b \<and> reverse_constant_folding_rule rule then Ok b
      else if b_remaining b < replacement_extra_nodes rule then Ok b
      else if MAX_MATCHED < length rest + 1 then Err BadMatchLength
      else let candidate = make_candidate rule root rest in
           if candidate_key candidate \<in> b_seen b then Ok b
           else Ok (b \<lparr> b_items := b_items b @ [candidate],
                        b_seen := insert (candidate_key candidate) (b_seen b) \<rparr>))"

definition when_step :: "bool \<Rightarrow> step \<Rightarrow> step" where
  "when_step c s b = (if c then s b else Ok b)"

fun run_steps :: "step list \<Rightarrow> step" where
  "run_steps [] b = Ok b"
| "run_steps (s # ss) b = obind (s b) (run_steps ss)"

fun for_steps :: "('a \<Rightarrow> step) \<Rightarrow> 'a list \<Rightarrow> step" where
  "for_steps f [] b = Ok b"
| "for_steps f (x # xs) b = obind (f x b) (for_steps f xs)"

text \<open>\<open>for x in xs { if out.is_full() { break; } body }\<close>\<close>

fun for_until_full :: "('a \<Rightarrow> step) \<Rightarrow> 'a list \<Rightarrow> step" where
  "for_until_full f [] b = Ok b"
| "for_until_full f (x # xs) b =
     (if builder_is_full b then Ok b else obind (f x b) (for_until_full f xs))"

section \<open>Signal tables\<close>

record signal_pair =
  sp_a :: u32
  sp_b :: u32
  sp_valid :: bool

definition default_pair :: signal_pair where
  "default_pair = \<lparr> sp_a = 0, sp_b = 0, sp_valid = False \<rparr>"

record signal_tables =
  not_signals :: "int list"
  and_pairs :: "signal_pair list"
  or_pairs :: "signal_pair list"

text \<open>The remaining local variables of \<open>enumerate_graph_limited\<close>.\<close>

record enum_tables = signal_tables +
  const_signals :: "int list"
  false_const :: int
  true_const :: int

definition init_tables :: "nat \<Rightarrow> enum_tables" where
  "init_tables n =
     \<lparr> not_signals = replicate n (-1), and_pairs = replicate n default_pair,
       or_pairs = replicate n default_pair, const_signals = replicate n (-1),
       false_const = -1, true_const = -1 \<rparr>"

definition signal_ref :: "graph_body \<Rightarrow> u32 \<Rightarrow> bool" where
  "signal_ref g node = (unat node < length (g_op g) \<and> g_op g ! unat node \<noteq> OutputOp)"

text \<open>The body of the second table loop; \<open>signal_refs[node]\<close> is \<open>ops[node] != Output\<close>.\<close>

definition table_step :: "graph_body \<Rightarrow> enum_tables \<Rightarrow> nat \<Rightarrow> enum_tables" where
  "table_step g t node =
     (let left = g_arg0 g ! node; right = g_arg1 g ! node in
      case g_op g ! node of
        ConstOp \<Rightarrow>
          (let value = (if left \<noteq> 0 then 1 else 0) in
           t \<lparr> const_signals := (const_signals t)[node := value],
               false_const := (if value = 0 \<and> false_const t < 0 then usize_as_i32 node else false_const t),
               true_const := (if value \<noteq> 0 \<and> true_const t < 0 then usize_as_i32 node else true_const t) \<rparr>)
      | NotOp \<Rightarrow>
          (if signal_ref g left then t \<lparr> not_signals := (not_signals t)[node := u32_as_i32 left] \<rparr> else t)
      | AndOp \<Rightarrow>
          (if signal_ref g left \<and> signal_ref g right
           then t \<lparr> and_pairs := (and_pairs t)[node := \<lparr> sp_a = left, sp_b = right, sp_valid = True \<rparr>] \<rparr>
           else t)
      | OrOp \<Rightarrow>
          (if signal_ref g left \<and> signal_ref g right
           then t \<lparr> or_pairs := (or_pairs t)[node := \<lparr> sp_a = left, sp_b = right, sp_valid = True \<rparr>] \<rparr>
           else t)
      | InputOp \<Rightarrow> t
      | OutputOp \<Rightarrow> t)"

definition build_tables :: "graph_body \<Rightarrow> enum_tables" where
  "build_tables g =
     foldl (table_step g) (init_tables (length (g_op g))) [0..<length (g_op g)]"

definition pair_for :: "u32 \<Rightarrow> op_code \<Rightarrow> ('x) signal_tables_scheme \<Rightarrow> signal_pair" where
  "pair_for node kind t = (if kind = AndOp then and_pairs t ! unat node else or_pairs t ! unat node)"

definition binary_of :: "u32 \<Rightarrow> op_code \<Rightarrow> u32 \<Rightarrow> u32 \<Rightarrow> ('x) signal_tables_scheme \<Rightarrow> bool" where
  "binary_of node kind left right t =
     (let pair = pair_for node kind t in
      sp_valid pair \<and> ((sp_a pair = left \<and> sp_b pair = right) \<or> (sp_a pair = right \<and> sp_b pair = left)))"

section \<open>Consensus bindings\<close>

definition consensus_add_bindings ::
    "u32 \<Rightarrow> u32 \<Rightarrow> u32 \<Rightarrow> op_code \<Rightarrow> rule_id \<Rightarrow> ('x) signal_tables_scheme \<Rightarrow> step"
where
  "consensus_add_bindings root first second term_op rule t =
     (let first_pair = pair_for first term_op t; second_pair = pair_for second term_op t in
      if \<not> sp_valid first_pair \<or> \<not> sp_valid second_pair then Ok
      else
        let a_orders = [sp_a first_pair, sp_b first_pair];
            b_orders = [sp_b first_pair, sp_a first_pair]
        in for_steps (\<lambda>x.
             if x = 1 \<and> sp_a first_pair = sp_b first_pair then Ok
             else for_steps (\<lambda>y.
               if y = 1 \<and> sp_a second_pair = sp_b second_pair then Ok
               else
                 let not_a = (if y = 0 then sp_a second_pair else sp_b second_pair);
                     inner = not_signals t ! unat not_a
                 in when_step (0 \<le> inner \<and> i32_as_u32 inner = a_orders ! x)
                      (builder_add rule root
                        [first, second, a_orders ! x, b_orders ! x,
                         (if y = 0 then sp_b second_pair else sp_a second_pair), not_a]))
               [0, 1 :: nat])
             [0, 1 :: nat])"

text \<open>The body of the loop over \<open>orders\<close> in \<open>consensus_remove_bindings\<close>, after its first \<open>continue\<close>.\<close>

definition consensus_remove_order ::
    "u32 \<Rightarrow> u32 \<Rightarrow> u32 \<Rightarrow> op_code \<Rightarrow> rule_id \<Rightarrow> ('x) signal_tables_scheme \<Rightarrow> u32 \<Rightarrow> u32 \<Rightarrow> step"
where
  "consensus_remove_order root inner_node consensus_term consensus_op rule t first second =
     (let first_pair = pair_for first consensus_op t; second_pair = pair_for second consensus_op t in
      if \<not> sp_valid first_pair \<or> \<not> sp_valid second_pair then Ok
      else
        let a_orders = [sp_a first_pair, sp_b first_pair];
            b_orders = [sp_b first_pair, sp_a first_pair]
        in for_steps (\<lambda>x.
             if x = 1 \<and> sp_a first_pair = sp_b first_pair then Ok
             else for_steps (\<lambda>y.
               if y = 1 \<and> sp_a second_pair = sp_b second_pair then Ok
               else
                 let not_a = (if y = 0 then sp_a second_pair else sp_b second_pair);
                     c_node = (if y = 0 then sp_b second_pair else sp_a second_pair);
                     inner = not_signals t ! unat not_a
                 in when_step (0 \<le> inner \<and> i32_as_u32 inner = a_orders ! x \<and>
                        binary_of consensus_term consensus_op (b_orders ! x) c_node t)
                      (builder_add rule root
                        [inner_node, consensus_term, first, second, a_orders ! x, b_orders ! x, c_node]))
               [0, 1 :: nat])
             [0, 1 :: nat])"

definition consensus_remove_bindings ::
    "u32 \<Rightarrow> u32 \<Rightarrow> u32 \<Rightarrow> op_code \<Rightarrow> op_code \<Rightarrow> rule_id \<Rightarrow> ('x) signal_tables_scheme \<Rightarrow> step"
where
  "consensus_remove_bindings root inner_node consensus_term inner_op consensus_op rule t =
     (let pair = pair_for inner_node inner_op t in
      if \<not> sp_valid pair then Ok
      else for_steps (\<lambda>(first, second).
        if first = sp_b pair \<and> sp_a pair = sp_b pair then Ok
        else consensus_remove_order root inner_node consensus_term consensus_op rule t first second)
        [(sp_a pair, sp_b pair), (sp_b pair, sp_a pair)])"

section \<open>The enumeration loops\<close>

text \<open>The nested loops over the orders of two pairs, the same in both branches for the dual rules.\<close>

definition factor_bindings ::
    "u32 \<Rightarrow> u32 \<Rightarrow> u32 \<Rightarrow> signal_pair \<Rightarrow> signal_pair \<Rightarrow> rule_id \<Rightarrow> step"
where
  "factor_bindings root left right left_pair right_pair rule =
     when_step (sp_valid left_pair \<and> sp_valid right_pair)
       (for_steps (\<lambda>(la, lb).
          if la = sp_b left_pair \<and> sp_a left_pair = sp_b left_pair then Ok
          else for_steps (\<lambda>(ra, rc).
            if ra = sp_b right_pair \<and> sp_a right_pair = sp_b right_pair then Ok
            else when_step (la = ra) (builder_add rule root [left, right, la, lb, rc]))
            [(sp_a right_pair, sp_b right_pair), (sp_b right_pair, sp_a right_pair)])
          [(sp_a left_pair, sp_b left_pair), (sp_b left_pair, sp_a left_pair)])"

text \<open>The \<open>And\<close> branch and the \<open>Or\<close> branch of the first loop.\<close>

definition emit_and :: "enum_tables \<Rightarrow> u32 \<Rightarrow> u32 \<Rightarrow> u32 \<Rightarrow> step" where
  "emit_and t root left right =
     (let left_const = const_signals t ! unat left; right_const = const_signals t ! unat right;
          left_not = not_signals t ! unat left; right_not = not_signals t ! unat right;
          right_order = (left \<noteq> right);
          left_and = and_pairs t ! unat left; right_and = and_pairs t ! unat right;
          right_or = or_pairs t ! unat right; left_or = or_pairs t ! unat left
      in run_steps [
        when_step (left_const = 0) (builder_add AndFalse root [left]),
        when_step (left_const = 1) (builder_add AndTrue root [left, right]),
        when_step (right_order \<and> right_const = 0) (builder_add AndFalse root [right]),
        when_step (right_order \<and> right_const = 1) (builder_add AndTrue root [right, left]),
        when_step (left = right) (builder_add AndIdempotent root [left]),
        when_step (0 \<le> right_not \<and> i32_as_u32 right_not = left) (builder_add AndComplement root [left, right]),
        when_step (right_order \<and> 0 \<le> left_not \<and> i32_as_u32 left_not = right)
          (builder_add AndComplement root [right, left]),
        builder_add CommuteAnd root [left, right],
        when_step (sp_valid left_and)
          (builder_add AssociateAndRight root [left, sp_a left_and, sp_b left_and, right]),
        when_step (sp_valid right_and)
          (builder_add AssociateAndLeft root [right, left, sp_a right_and, sp_b right_and]),
        when_step (sp_valid right_or) (run_steps [
          when_step (sp_a right_or = left) (builder_add AbsorbAndOr root [left, right, sp_b right_or]),
          when_step (sp_b right_or = left \<and> sp_a right_or \<noteq> sp_b right_or)
            (builder_add AbsorbAndOr root [left, right, sp_a right_or]),
          builder_add DistributeOrExpand root [right, left, sp_a right_or, sp_b right_or]]),
        when_step (right_order \<and> sp_valid left_or) (run_steps [
          when_step (sp_a left_or = right) (builder_add AbsorbAndOr root [right, left, sp_b left_or]),
          when_step (sp_b left_or = right \<and> sp_a left_or \<noteq> sp_b left_or)
            (builder_add AbsorbAndOr root [right, left, sp_a left_or]),
          builder_add DistributeOrExpand root [left, right, sp_a left_or, sp_b left_or]]),
        when_step (0 \<le> left_not \<and> 0 \<le> right_not)
          (builder_add DeMorganAndNots root [left, right, i32_as_u32 left_not, i32_as_u32 right_not]),
        factor_bindings root left right left_or right_or DistributeAndFactor,
        consensus_add_bindings root left right OrOp ConsensusAndAdd t,
        when_step right_order (consensus_add_bindings root right left OrOp ConsensusAndAdd t),
        consensus_remove_bindings root left right AndOp OrOp ConsensusAndRemove t,
        when_step right_order
          (consensus_remove_bindings root right left AndOp OrOp ConsensusAndRemove t)])"

definition emit_or :: "enum_tables \<Rightarrow> u32 \<Rightarrow> u32 \<Rightarrow> u32 \<Rightarrow> step" where
  "emit_or t root left right =
     (let left_const = const_signals t ! unat left; right_const = const_signals t ! unat right;
          left_not = not_signals t ! unat left; right_not = not_signals t ! unat right;
          right_order = (left \<noteq> right);
          left_or = or_pairs t ! unat left; right_or = or_pairs t ! unat right;
          right_and = and_pairs t ! unat right; left_and = and_pairs t ! unat left
      in run_steps [
        when_step (left_const = 0) (builder_add OrFalse root [left, right]),
        when_step (left_const = 1) (builder_add OrTrue root [left]),
        when_step (right_order \<and> right_const = 0) (builder_add OrFalse root [right, left]),
        when_step (right_order \<and> right_const = 1) (builder_add OrTrue root [right]),
        when_step (left = right) (builder_add OrIdempotent root [left]),
        when_step (0 \<le> right_not \<and> i32_as_u32 right_not = left) (builder_add OrComplement root [left, right]),
        when_step (right_order \<and> 0 \<le> left_not \<and> i32_as_u32 left_not = right)
          (builder_add OrComplement root [right, left]),
        builder_add CommuteOr root [left, right],
        when_step (sp_valid left_or)
          (builder_add AssociateOrRight root [left, sp_a left_or, sp_b left_or, right]),
        when_step (sp_valid right_or)
          (builder_add AssociateOrLeft root [right, left, sp_a right_or, sp_b right_or]),
        when_step (sp_valid right_and) (run_steps [
          when_step (sp_a right_and = left) (builder_add AbsorbOrAnd root [left, right, sp_b right_and]),
          when_step (sp_b right_and = left \<and> sp_a right_and \<noteq> sp_b right_and)
            (builder_add AbsorbOrAnd root [left, right, sp_a right_and]),
          builder_add DistributeAndExpand root [right, left, sp_a right_and, sp_b right_and]]),
        when_step (right_order \<and> sp_valid left_and) (run_steps [
          when_step (sp_a left_and = right) (builder_add AbsorbOrAnd root [right, left, sp_b left_and]),
          when_step (sp_b left_and = right \<and> sp_a left_and \<noteq> sp_b left_and)
            (builder_add AbsorbOrAnd root [right, left, sp_a left_and]),
          builder_add DistributeAndExpand root [left, right, sp_a left_and, sp_b left_and]]),
        when_step (0 \<le> left_not \<and> 0 \<le> right_not)
          (builder_add DeMorganOrNots root [left, right, i32_as_u32 left_not, i32_as_u32 right_not]),
        factor_bindings root left right left_and right_and DistributeOrFactor,
        consensus_add_bindings root left right AndOp ConsensusOrAdd t,
        when_step right_order (consensus_add_bindings root right left AndOp ConsensusOrAdd t),
        consensus_remove_bindings root left right OrOp AndOp ConsensusOrRemove t,
        when_step right_order
          (consensus_remove_bindings root right left OrOp AndOp ConsensusOrRemove t)])"

text \<open>The \<open>Not\<close> branch.\<close>

definition emit_not :: "enum_tables \<Rightarrow> u32 \<Rightarrow> u32 \<Rightarrow> step" where
  "emit_not t root left =
     (let value = const_signals t ! unat left; inner = not_signals t ! unat left;
          and_pair = and_pairs t ! unat left; or_pair = or_pairs t ! unat left
      in run_steps [
        when_step (value = 0) (builder_add NotFalse root [left]),
        when_step (value = 1) (builder_add NotTrue root [left]),
        when_step (0 \<le> inner) (builder_add DoubleNegation root [left, i32_as_u32 inner]),
        when_step (sp_valid and_pair) (builder_add DeMorganNotAnd root [left, sp_a and_pair, sp_b and_pair]),
        when_step (sp_valid or_pair) (builder_add DeMorganNotOr root [left, sp_a or_pair, sp_b or_pair])])"

definition emit_root :: "graph_body \<Rightarrow> enum_tables \<Rightarrow> u32 \<Rightarrow> step" where
  "emit_root g t root =
     (let op = g_op g ! unat root; left = g_arg0 g ! unat root; right = g_arg1 g ! unat root in
      if (op = AndOp \<or> op = OrOp) \<and>
         (sp_valid (and_pairs t ! unat root) \<or> sp_valid (or_pairs t ! unat root))
      then (if op = AndOp then emit_and t root left right else emit_or t root left right)
      else if op = NotOp \<and> 0 \<le> not_signals t ! unat root then emit_not t root left
      else Ok)"

text \<open>The loop over complement witnesses, and the body of the second loop.\<close>

definition emit_complements :: "graph_body \<Rightarrow> enum_tables \<Rightarrow> u32 \<Rightarrow> bool \<Rightarrow> u32 list \<Rightarrow> step" where
  "emit_complements g t root value =
     for_until_full (\<lambda>witness.
       let inner = not_signals t ! unat witness in
       if inner < 0 then Ok
       else if \<not> value then builder_add AndComplementInverse root [i32_as_u32 inner, witness]
       else builder_add OrComplementInverse root [i32_as_u32 inner, witness])"

definition emit_inverse :: "graph_body \<Rightarrow> enum_tables \<Rightarrow> u32 list \<Rightarrow> u32 \<Rightarrow> step" where
  "emit_inverse g t roots root =
     (let op = g_op g ! unat root in
      if op = OutputOp then Ok
      else run_steps [
        builder_add AndIdempotentInverse root [],
        builder_add OrIdempotentInverse root [],
        builder_add DoubleNegationInverse root [],
        builder_add AbsorbOrAndInverse root [root],
        builder_add AbsorbAndOrInverse root [root],
        when_step (0 \<le> true_const t) (builder_add AndTrueInverse root [i32_as_u32 (true_const t)]),
        when_step (0 \<le> false_const t) (builder_add OrFalseInverse root [i32_as_u32 (false_const t)]),
        when_step (op = ConstOp)
          (let value = (g_arg0 g ! unat root \<noteq> 0) in
           run_steps [
             (if \<not> value
              then run_steps [
                builder_add AndFalseInverse root [root],
                when_step (0 \<le> true_const t) (builder_add NotTrueInverse root [i32_as_u32 (true_const t)])]
              else run_steps [
                builder_add OrTrueInverse root [root],
                when_step (0 \<le> false_const t) (builder_add NotFalseInverse root [i32_as_u32 (false_const t)])]),
             emit_complements g t root value roots])])"

text \<open>
  The whole enumeration. Building the tables reads \<open>arg0\<close> and \<open>arg1\<close> at every node and panics when
  one of them is shorter than \<open>op\<close>; every later index is a node number below \<open>n\<close> or a table entry,
  which is one. The loops run over \<open>0..n as u32\<close>.
\<close>

definition enumerate_roots :: "graph_body \<Rightarrow> u32 list" where
  "enumerate_roots g = map of_nat [0..<unat (of_nat (length (g_op g)) :: u32)]"

definition enumerate_graph_limited ::
    "graph_body \<Rightarrow> bool \<Rightarrow> nat option \<Rightarrow> (raw_candidate list, rule_error) outcome"
where
  "enumerate_graph_limited g include_reverse limit =
     (if length (g_arg0 g) < length (g_op g) \<or> length (g_arg1 g) < length (g_op g) then Panic
      else
        let t = build_tables g; roots = enumerate_roots g in
        obind (for_until_full (emit_root g t) roots (builder_new g include_reverse limit)) (\<lambda>out.
        obind (for_until_full (emit_inverse g t roots) roots out) (\<lambda>out. Ok (b_items out))))"

definition enumerate_graph :: "graph_body \<Rightarrow> bool \<Rightarrow> (raw_candidate list, rule_error) outcome" where
  "enumerate_graph g include_reverse = enumerate_graph_limited g include_reverse None"

end
