(* ===== verification/Whittle_Match.thy ===== *)
theory Whittle_Match
  imports Whittle_Rules Whittle_Semantics
begin

text \<open>
  What the candidate enumeration of \<open>rules.rs\<close> computes. \<open>rule_match\<close> is the declarative rule set:
  one introduction rule per left-hand side. The imperative enumeration is shown to ask the
  \<open>Builder\<close> for exactly the matches of a graph, and the builder to keep the affordable ones, each
  once and at most \<open>limit\<close> of them.
\<close>

section \<open>Patterns\<close>

definition bin :: "graph_body \<Rightarrow> op_code \<Rightarrow> u32 \<Rightarrow> u32 \<Rightarrow> u32 \<Rightarrow> bool" where
  "bin g kind x a b \<longleftrightarrow>
     unat x < length (g_op g) \<and> g_op g ! unat x = kind \<and> g_arg0 g ! unat x = a \<and>
     g_arg1 g ! unat x = b \<and> signal_ref g a \<and> signal_ref g b"

definition bin2 :: "graph_body \<Rightarrow> op_code \<Rightarrow> u32 \<Rightarrow> u32 \<Rightarrow> u32 \<Rightarrow> bool" where
  "bin2 g kind x a b \<longleftrightarrow> bin g kind x a b \<or> bin g kind x b a"

definition neg :: "graph_body \<Rightarrow> u32 \<Rightarrow> u32 \<Rightarrow> bool" where
  "neg g x a \<longleftrightarrow>
     unat x < length (g_op g) \<and> g_op g ! unat x = NotOp \<and> g_arg0 g ! unat x = a \<and> signal_ref g a"

definition konst :: "graph_body \<Rightarrow> u32 \<Rightarrow> bool \<Rightarrow> bool" where
  "konst g x v \<longleftrightarrow>
     unat x < length (g_op g) \<and> g_op g ! unat x = ConstOp \<and> v = (g_arg0 g ! unat x \<noteq> 0)"

text \<open>The constants the inverse rules refer to: the lowest node of each value.\<close>

definition first_konst :: "graph_body \<Rightarrow> u32 \<Rightarrow> bool \<Rightarrow> bool" where
  "first_konst g x v \<longleftrightarrow> konst g x v \<and> (\<forall>y. konst g y v \<longrightarrow> unat x \<le> unat y)"

inductive rule_match :: "graph_body \<Rightarrow> rule_id \<Rightarrow> u32 \<Rightarrow> u32 list \<Rightarrow> bool" for g :: graph_body where
  AndFalse: "bin2 g AndOp r c x \<Longrightarrow> konst g c False \<Longrightarrow> rule_match g AndFalse r [c]"
| AndTrue: "bin2 g AndOp r c x \<Longrightarrow> konst g c True \<Longrightarrow> rule_match g AndTrue r [c, x]"
| OrFalse: "bin2 g OrOp r c x \<Longrightarrow> konst g c False \<Longrightarrow> rule_match g OrFalse r [c, x]"
| OrTrue: "bin2 g OrOp r c x \<Longrightarrow> konst g c True \<Longrightarrow> rule_match g OrTrue r [c]"
| NotFalse: "neg g r c \<Longrightarrow> konst g c False \<Longrightarrow> rule_match g NotFalse r [c]"
| NotTrue: "neg g r c \<Longrightarrow> konst g c True \<Longrightarrow> rule_match g NotTrue r [c]"
| AndIdempotent: "bin g AndOp r a a \<Longrightarrow> rule_match g AndIdempotent r [a]"
| OrIdempotent: "bin g OrOp r a a \<Longrightarrow> rule_match g OrIdempotent r [a]"
| AndComplement: "bin2 g AndOp r a na \<Longrightarrow> neg g na a \<Longrightarrow> rule_match g AndComplement r [a, na]"
| OrComplement: "bin2 g OrOp r a na \<Longrightarrow> neg g na a \<Longrightarrow> rule_match g OrComplement r [a, na]"
| DoubleNegation: "neg g r na \<Longrightarrow> neg g na a \<Longrightarrow> rule_match g DoubleNegation r [na, a]"
| CommuteAnd: "bin g AndOp r a b \<Longrightarrow> rule_match g CommuteAnd r [a, b]"
| CommuteOr: "bin g OrOp r a b \<Longrightarrow> rule_match g CommuteOr r [a, b]"
| AssociateAndLeft:
    "bin g AndOp r a x \<Longrightarrow> bin g AndOp x b c \<Longrightarrow> rule_match g AssociateAndLeft r [x, a, b, c]"
| AssociateAndRight:
    "bin g AndOp r x c \<Longrightarrow> bin g AndOp x a b \<Longrightarrow> rule_match g AssociateAndRight r [x, a, b, c]"
| AssociateOrLeft:
    "bin g OrOp r a x \<Longrightarrow> bin g OrOp x b c \<Longrightarrow> rule_match g AssociateOrLeft r [x, a, b, c]"
| AssociateOrRight:
    "bin g OrOp r x c \<Longrightarrow> bin g OrOp x a b \<Longrightarrow> rule_match g AssociateOrRight r [x, a, b, c]"
| AbsorbOrAnd: "bin2 g OrOp r a x \<Longrightarrow> bin2 g AndOp x a b \<Longrightarrow> rule_match g AbsorbOrAnd r [a, x, b]"
| AbsorbAndOr: "bin2 g AndOp r a x \<Longrightarrow> bin2 g OrOp x a b \<Longrightarrow> rule_match g AbsorbAndOr r [a, x, b]"
| DeMorganNotAnd: "neg g r x \<Longrightarrow> bin g AndOp x a b \<Longrightarrow> rule_match g DeMorganNotAnd r [x, a, b]"
| DeMorganNotOr: "neg g r x \<Longrightarrow> bin g OrOp x a b \<Longrightarrow> rule_match g DeMorganNotOr r [x, a, b]"
| DeMorganOrNots:
    "bin g OrOp r x y \<Longrightarrow> neg g x a \<Longrightarrow> neg g y b \<Longrightarrow> rule_match g DeMorganOrNots r [x, y, a, b]"
| DeMorganAndNots:
    "bin g AndOp r x y \<Longrightarrow> neg g x a \<Longrightarrow> neg g y b \<Longrightarrow> rule_match g DeMorganAndNots r [x, y, a, b]"
| DistributeOrFactor:
    "bin g OrOp r x y \<Longrightarrow> bin2 g AndOp x a b \<Longrightarrow> bin2 g AndOp y a c \<Longrightarrow> a \<noteq> b \<Longrightarrow> a \<noteq> c \<Longrightarrow>
       rule_match g DistributeOrFactor r [x, y, a, b, c]"
| DistributeOrExpand:
    "bin2 g AndOp r x a \<Longrightarrow> bin g OrOp x b c \<Longrightarrow> rule_match g DistributeOrExpand r [x, a, b, c]"
| DistributeAndFactor:
    "bin g AndOp r x y \<Longrightarrow> bin2 g OrOp x a b \<Longrightarrow> bin2 g OrOp y a c \<Longrightarrow> a \<noteq> b \<Longrightarrow> a \<noteq> c \<Longrightarrow>
       rule_match g DistributeAndFactor r [x, y, a, b, c]"
| DistributeAndExpand:
    "bin2 g OrOp r x a \<Longrightarrow> bin g AndOp x b c \<Longrightarrow> rule_match g DistributeAndExpand r [x, a, b, c]"
| ConsensusOrAdd:
    "bin2 g OrOp r x y \<Longrightarrow> bin2 g AndOp x a b \<Longrightarrow> bin2 g AndOp y na c \<Longrightarrow> neg g na a \<Longrightarrow>
       rule_match g ConsensusOrAdd r [x, y, a, b, c, na]"
| ConsensusOrRemove:
    "bin2 g OrOp r i t \<Longrightarrow> bin2 g OrOp i x y \<Longrightarrow> bin2 g AndOp x a b \<Longrightarrow> bin2 g AndOp y na c \<Longrightarrow>
       neg g na a \<Longrightarrow> bin2 g AndOp t b c \<Longrightarrow> x \<noteq> y \<Longrightarrow>
       rule_match g ConsensusOrRemove r [i, t, x, y, a, b, c]"
| ConsensusAndAdd:
    "bin2 g AndOp r x y \<Longrightarrow> bin2 g OrOp x a b \<Longrightarrow> bin2 g OrOp y na c \<Longrightarrow> neg g na a \<Longrightarrow>
       rule_match g ConsensusAndAdd r [x, y, a, b, c, na]"
| ConsensusAndRemove:
    "bin2 g AndOp r i t \<Longrightarrow> bin2 g AndOp i x y \<Longrightarrow> bin2 g OrOp x a b \<Longrightarrow> bin2 g OrOp y na c \<Longrightarrow>
       neg g na a \<Longrightarrow> bin2 g OrOp t b c \<Longrightarrow> x \<noteq> y \<Longrightarrow>
       rule_match g ConsensusAndRemove r [i, t, x, y, a, b, c]"
| AndFalseInverse: "konst g r False \<Longrightarrow> rule_match g AndFalseInverse r [r]"
| AndTrueInverse: "signal_ref g r \<Longrightarrow> first_konst g c True \<Longrightarrow> rule_match g AndTrueInverse r [c]"
| OrFalseInverse: "signal_ref g r \<Longrightarrow> first_konst g c False \<Longrightarrow> rule_match g OrFalseInverse r [c]"
| OrTrueInverse: "konst g r True \<Longrightarrow> rule_match g OrTrueInverse r [r]"
| NotFalseInverse: "konst g r True \<Longrightarrow> first_konst g c False \<Longrightarrow> rule_match g NotFalseInverse r [c]"
| NotTrueInverse: "konst g r False \<Longrightarrow> first_konst g c True \<Longrightarrow> rule_match g NotTrueInverse r [c]"
| AndIdempotentInverse: "signal_ref g r \<Longrightarrow> rule_match g AndIdempotentInverse r []"
| OrIdempotentInverse: "signal_ref g r \<Longrightarrow> rule_match g OrIdempotentInverse r []"
| AndComplementInverse: "konst g r False \<Longrightarrow> neg g w a \<Longrightarrow> rule_match g AndComplementInverse r [a, w]"
| OrComplementInverse: "konst g r True \<Longrightarrow> neg g w a \<Longrightarrow> rule_match g OrComplementInverse r [a, w]"
| DoubleNegationInverse: "signal_ref g r \<Longrightarrow> rule_match g DoubleNegationInverse r []"
| AbsorbOrAndInverse: "signal_ref g r \<Longrightarrow> rule_match g AbsorbOrAndInverse r [r]"
| AbsorbAndOrInverse: "signal_ref g r \<Longrightarrow> rule_match g AbsorbAndOrInverse r [r]"

inductive_simps rule_match_simps:
  "rule_match g AndFalse r rest"
  "rule_match g AndTrue r rest"
  "rule_match g OrFalse r rest"
  "rule_match g OrTrue r rest"
  "rule_match g NotFalse r rest"
  "rule_match g NotTrue r rest"
  "rule_match g AndIdempotent r rest"
  "rule_match g OrIdempotent r rest"
  "rule_match g AndComplement r rest"
  "rule_match g OrComplement r rest"
  "rule_match g DoubleNegation r rest"
  "rule_match g CommuteAnd r rest"
  "rule_match g CommuteOr r rest"
  "rule_match g AssociateAndLeft r rest"
  "rule_match g AssociateAndRight r rest"
  "rule_match g AssociateOrLeft r rest"
  "rule_match g AssociateOrRight r rest"
  "rule_match g AbsorbOrAnd r rest"
  "rule_match g AbsorbAndOr r rest"
  "rule_match g DeMorganNotAnd r rest"
  "rule_match g DeMorganNotOr r rest"
  "rule_match g DeMorganOrNots r rest"
  "rule_match g DeMorganAndNots r rest"
  "rule_match g DistributeOrFactor r rest"
  "rule_match g DistributeOrExpand r rest"
  "rule_match g DistributeAndFactor r rest"
  "rule_match g DistributeAndExpand r rest"
  "rule_match g ConsensusOrAdd r rest"
  "rule_match g ConsensusOrRemove r rest"
  "rule_match g ConsensusAndAdd r rest"
  "rule_match g ConsensusAndRemove r rest"
  "rule_match g AndFalseInverse r rest"
  "rule_match g AndTrueInverse r rest"
  "rule_match g OrFalseInverse r rest"
  "rule_match g OrTrueInverse r rest"
  "rule_match g NotFalseInverse r rest"
  "rule_match g NotTrueInverse r rest"
  "rule_match g AndIdempotentInverse r rest"
  "rule_match g OrIdempotentInverse r rest"
  "rule_match g AndComplementInverse r rest"
  "rule_match g OrComplementInverse r rest"
  "rule_match g DoubleNegationInverse r rest"
  "rule_match g AbsorbOrAndInverse r rest"
  "rule_match g AbsorbAndOrInverse r rest"

text \<open>The rules of the first enumeration loop are those that precede \<open>AndFalseInverse\<close>.\<close>

definition forward :: "rule_id \<Rightarrow> bool" where
  "forward rule \<longleftrightarrow> as_u16 rule < 31"

lemma forward_iff:
  "forward rule \<longleftrightarrow> rule \<notin> {AndFalseInverse, AndTrueInverse, OrFalseInverse, OrTrueInverse, NotFalseInverse,
     NotTrueInverse, AndIdempotentInverse, OrIdempotentInverse, AndComplementInverse,
     OrComplementInverse, DoubleNegationInverse, AbsorbOrAndInverse, AbsorbAndOrInverse}"
  by (cases rule) (simp_all add: forward_def)

section \<open>The signal tables\<close>

text \<open>The tables after the first \<open>k\<close> nodes of the second table loop.\<close>

definition lowest :: "graph_body \<Rightarrow> nat \<Rightarrow> bool \<Rightarrow> int \<Rightarrow> bool" where
  "lowest g k v c \<longleftrightarrow>
     (c = -1 \<and> (\<forall>i < k. \<not> (g_op g ! i = ConstOp \<and> (g_arg0 g ! i \<noteq> 0) = v))) \<or>
     (\<exists>i < k. c = int i \<and> g_op g ! i = ConstOp \<and> (g_arg0 g ! i \<noteq> 0) = v \<and>
        (\<forall>j < i. \<not> (g_op g ! j = ConstOp \<and> (g_arg0 g ! j \<noteq> 0) = v)))"

definition not_entry :: "graph_body \<Rightarrow> nat \<Rightarrow> int" where
  "not_entry g i =
     (if g_op g ! i = NotOp \<and> signal_ref g (g_arg0 g ! i) then u32_as_i32 (g_arg0 g ! i) else -1)"

definition pair_entry :: "graph_body \<Rightarrow> op_code \<Rightarrow> nat \<Rightarrow> signal_pair" where
  "pair_entry g kind i =
     (if g_op g ! i = kind \<and> signal_ref g (g_arg0 g ! i) \<and> signal_ref g (g_arg1 g ! i)
      then \<lparr> sp_a = g_arg0 g ! i, sp_b = g_arg1 g ! i, sp_valid = True \<rparr> else default_pair)"

definition const_entry :: "graph_body \<Rightarrow> nat \<Rightarrow> int" where
  "const_entry g i = (if g_op g ! i = ConstOp then (if g_arg0 g ! i \<noteq> 0 then 1 else 0) else -1)"

definition filled :: "nat \<Rightarrow> nat \<Rightarrow> (nat \<Rightarrow> 'a) \<Rightarrow> 'a \<Rightarrow> 'a list" where
  "filled n k f d = map f [0..<k] @ replicate (n - k) d"

lemma filled_Suc [simp]:
  assumes "k < n"
  shows "f k = v \<Longrightarrow> (filled n k f d)[k := v] = filled n (Suc k) f d"
    "f k = d \<Longrightarrow> filled n k f d = filled n (Suc k) f d"
proof -
  have "replicate (n - k) d = d # replicate (n - Suc k) d"
    using assms by (metis Suc_diff_Suc replicate_Suc)
  then show "f k = v \<Longrightarrow> (filled n k f d)[k := v] = filled n (Suc k) f d"
    "f k = d \<Longrightarrow> filled n k f d = filled n (Suc k) f d"
    by (simp_all add: filled_def list_update_append)
qed

lemma filled_full [simp]: "filled n n f d = map f [0..<n]"
  by (simp add: filled_def)

lemma filled_0 [simp]: "filled n 0 f d = replicate n d"
  by (simp add: filled_def)

definition tables_upto :: "graph_body \<Rightarrow> nat \<Rightarrow> enum_tables \<Rightarrow> bool" where
  "tables_upto g k t \<longleftrightarrow>
     not_signals t = filled (length (g_op g)) k (not_entry g) (-1) \<and>
     and_pairs t = filled (length (g_op g)) k (pair_entry g AndOp) default_pair \<and>
     or_pairs t = filled (length (g_op g)) k (pair_entry g OrOp) default_pair \<and>
     const_signals t = filled (length (g_op g)) k (const_entry g) (-1) \<and>
     lowest g k False (false_const t) \<and> lowest g k True (true_const t)"

lemma usize_as_i32_small: "k < 65536 \<Longrightarrow> usize_as_i32 k = int k"
  by (simp add: usize_as_i32_def signed_of_nat signed_take_bit_int_eq_self)

lemma u32_as_i32_small: "unat w < 65536 \<Longrightarrow> u32_as_i32 w = int (unat w)"
  using usize_as_i32_small [of "unat w"] by (simp add: usize_as_i32_def u32_as_i32_def)

lemma i32_as_u32_uint [simp]: "i32_as_u32 (uint w) = w"
  by (simp add: i32_as_u32_def)

lemma unat_eq_of_nat_u32: "unat (x :: u32) = i \<Longrightarrow> of_nat i = x"
  by auto

lemma lowest_keep: "lowest g k v c \<Longrightarrow> \<not> (g_op g ! k = ConstOp \<and> (g_arg0 g ! k \<noteq> 0) = v) \<Longrightarrow> lowest g (Suc k) v c"
  by (auto simp: lowest_def less_Suc_eq)

lemma lowest_keep_pos: "lowest g k v c \<Longrightarrow> 0 \<le> c \<Longrightarrow> lowest g (Suc k) v c"
  by (auto simp: lowest_def less_Suc_eq)

lemma lowest_found:
  "lowest g k v c \<Longrightarrow> c < 0 \<Longrightarrow> g_op g ! k = ConstOp \<Longrightarrow> (g_arg0 g ! k \<noteq> 0) = v \<Longrightarrow>
     lowest g (Suc k) v (int k)"
  by (auto simp: lowest_def less_Suc_eq)

lemma table_step_upto:
  assumes "tables_upto g k t" "k < length (g_op g)" "length (g_op g) < 65536"
  shows "tables_upto g (Suc k) (table_step g t k)"
proof -
  have low: "lowest g k False (false_const t)" "lowest g k True (true_const t)"
    using assms(1) by (simp_all add: tables_upto_def)
  have k: "usize_as_i32 k = int k" using assms by (intro usize_as_i32_small) simp
  show ?thesis
  proof (cases "g_op g ! k")
    case ConstOp
    with assms low k show ?thesis
      by (auto simp: tables_upto_def table_step_def Let_def not_entry_def pair_entry_def
          const_entry_def intro: lowest_keep lowest_keep_pos lowest_found)
  qed (use assms low k in \<open>auto simp: tables_upto_def table_step_def Let_def not_entry_def
          pair_entry_def const_entry_def intro: lowest_keep\<close>)
qed

lemma build_tables_upto:
  assumes "valid_graph g"
  shows "tables_upto g (length (g_op g)) (build_tables g)"
proof -
  have "k \<le> length (g_op g) \<Longrightarrow>
      tables_upto g k (foldl (table_step g) (init_tables (length (g_op g))) [0..<k])" for k
  proof (induction k)
    case 0
    show ?case by (auto simp: tables_upto_def init_tables_def lowest_def)
  next
    case (Suc k)
    then show ?case using table_step_upto valid_graph_small [OF assms] by simp
  qed
  then show ?thesis by (simp add: build_tables_def)
qed

text \<open>Reading the finished tables back as patterns, at a node in range.\<close>

lemma neg_det: "neg g x a \<Longrightarrow> neg g x b \<longleftrightarrow> b = a"
  by (auto simp: neg_def)

lemma bin_det: "bin g kind x a b \<Longrightarrow> bin g kind x c d \<longleftrightarrow> c = a \<and> d = b"
  by (auto simp: bin_def)

lemma neg_in_range: "neg g x a \<Longrightarrow> unat x < length (g_op g) \<and> unat a < length (g_op g)"
  by (simp add: neg_def signal_ref_def)

lemma bin_in_range:
  "bin g kind x a b \<Longrightarrow>
     unat x < length (g_op g) \<and> unat a < length (g_op g) \<and> unat b < length (g_op g)"
  by (simp add: bin_def signal_ref_def)

text \<open>
  The interface between the tables and the enumeration: at every node in range an entry says
  exactly which pattern the node is an instance of.
\<close>

locale table_index =
  fixes index :: "graph_body \<Rightarrow> enum_tables"
  assumes not_law: "valid_graph g \<Longrightarrow> unat x < length (g_op g) \<Longrightarrow>
      0 \<le> not_signals (index g) ! unat x \<and> i32_as_u32 (not_signals (index g) ! unat x) = a \<longleftrightarrow> neg g x a"
    and and_law: "valid_graph g \<Longrightarrow> unat x < length (g_op g) \<Longrightarrow>
      sp_valid (and_pairs (index g) ! unat x) \<and> sp_a (and_pairs (index g) ! unat x) = a \<and>
      sp_b (and_pairs (index g) ! unat x) = b \<longleftrightarrow> bin g AndOp x a b"
    and or_law: "valid_graph g \<Longrightarrow> unat x < length (g_op g) \<Longrightarrow>
      sp_valid (or_pairs (index g) ! unat x) \<and> sp_a (or_pairs (index g) ! unat x) = a \<and>
      sp_b (or_pairs (index g) ! unat x) = b \<longleftrightarrow> bin g OrOp x a b"
    and const_law: "valid_graph g \<Longrightarrow> unat x < length (g_op g) \<Longrightarrow>
      const_signals (index g) ! unat x = (if v then 1 else 0) \<longleftrightarrow> konst g x v"
    and true_law: "valid_graph g \<Longrightarrow>
      0 \<le> true_const (index g) \<and> i32_as_u32 (true_const (index g)) = c \<longleftrightarrow> first_konst g c True"
    and false_law: "valid_graph g \<Longrightarrow>
      0 \<le> false_const (index g) \<and> i32_as_u32 (false_const (index g)) = c \<longleftrightarrow> first_konst g c False"

lemma not_entry_iff:
  assumes "valid_graph g" "unat x < length (g_op g)"
  shows "0 \<le> not_entry g (unat x) \<and> i32_as_u32 (not_entry g (unat x)) = a \<longleftrightarrow> neg g x a"
proof -
  have "unat b < 65536" if "signal_ref g b" for b
    using that valid_graph_small [OF assms(1)] by (simp add: signal_ref_def)
  with assms(2) show ?thesis
    by (auto simp: not_entry_def neg_def u32_as_i32_small)
qed

lemma pair_entry_iff:
  "unat x < length (g_op g) \<Longrightarrow>
     sp_valid (pair_entry g kind (unat x)) \<and> sp_a (pair_entry g kind (unat x)) = a \<and>
     sp_b (pair_entry g kind (unat x)) = b \<longleftrightarrow> bin g kind x a b"
  by (auto simp: pair_entry_def bin_def default_pair_def)

lemma lowest_first_konst:
  assumes "valid_graph g" "lowest g (length (g_op g)) v c"
  shows "0 \<le> c \<and> i32_as_u32 c = x \<longleftrightarrow> first_konst g x v"
proof -
  note small = valid_graph_small [OF assms(1)]
  have least: "first_konst g x v \<longleftrightarrow> unat x < length (g_op g) \<and> g_op g ! unat x = ConstOp \<and>
      (g_arg0 g ! unat x \<noteq> 0) = v \<and>
      (\<forall>j < unat x. \<not> (g_op g ! j = ConstOp \<and> (g_arg0 g ! j \<noteq> 0) = v))" (is "_ \<longleftrightarrow> ?rhs")
  proof
    assume first: "first_konst g x v"
    have "\<not> (g_op g ! j = ConstOp \<and> (g_arg0 g ! j \<noteq> 0) = v)" if "j < unat x" for j
    proof
      assume const: "g_op g ! j = ConstOp \<and> (g_arg0 g ! j \<noteq> 0) = v"
      have "j < length (g_op g)" "j < 65536"
        using that first small by (auto simp: first_konst_def konst_def)
      with const first have "unat x \<le> j"
        by (auto simp: first_konst_def konst_def dest!: spec [of _ "of_nat j"])
      with that show False by simp
    qed
    with first show ?rhs by (auto simp: first_konst_def konst_def)
  next
    assume ?rhs
    then show "first_konst g x v" by (auto simp: first_konst_def konst_def not_less [symmetric])
  qed
  from assms(2) consider
      "c = -1" "\<forall>i < length (g_op g). \<not> (g_op g ! i = ConstOp \<and> (g_arg0 g ! i \<noteq> 0) = v)"
    | i where "i < length (g_op g)" "c = int i" "g_op g ! i = ConstOp" "(g_arg0 g ! i \<noteq> 0) = v"
      "\<forall>j < i. \<not> (g_op g ! j = ConstOp \<and> (g_arg0 g ! j \<noteq> 0) = v)"
    by (auto simp: lowest_def)
  then show ?thesis
  proof cases
    case (2 i)
    then have "i32_as_u32 c = of_nat i" by (simp add: i32_as_u32_def)
    moreover have "unat (of_nat i :: u32) = i" using 2(1) small by simp
    ultimately show ?thesis
      unfolding least using 2 by (metis linorder_neqE_nat of_nat_0_le_iff unat_eq_of_nat_u32)
  qed (auto simp: least)
qed

interpretation tables: table_index build_tables
proof
  fix g :: graph_body and x a b c :: u32 and v :: bool
  assume valid: "valid_graph g"
  note tab = build_tables_upto [OF valid, unfolded tables_upto_def filled_full]
  show "0 \<le> true_const (build_tables g) \<and> i32_as_u32 (true_const (build_tables g)) = c \<longleftrightarrow>
      first_konst g c True"
    by (rule lowest_first_konst [OF valid]) (use tab in blast)
  show "0 \<le> false_const (build_tables g) \<and> i32_as_u32 (false_const (build_tables g)) = c \<longleftrightarrow>
      first_konst g c False"
    by (rule lowest_first_konst [OF valid]) (use tab in blast)
  assume x: "unat x < length (g_op g)"
  show "0 \<le> not_signals (build_tables g) ! unat x \<and> i32_as_u32 (not_signals (build_tables g) ! unat x) = a \<longleftrightarrow>
      neg g x a"
    using not_entry_iff [OF valid x] x tab by simp
  show "sp_valid (and_pairs (build_tables g) ! unat x) \<and> sp_a (and_pairs (build_tables g) ! unat x) = a \<and>
      sp_b (and_pairs (build_tables g) ! unat x) = b \<longleftrightarrow> bin g AndOp x a b"
    using pair_entry_iff [OF x] x tab by simp
  show "sp_valid (or_pairs (build_tables g) ! unat x) \<and> sp_a (or_pairs (build_tables g) ! unat x) = a \<and>
      sp_b (or_pairs (build_tables g) ! unat x) = b \<longleftrightarrow> bin g OrOp x a b"
    using pair_entry_iff [OF x] x tab by simp
  show "const_signals (build_tables g) ! unat x = (if v then 1 else 0) \<longleftrightarrow> konst g x v"
    using x tab by (auto simp: const_entry_def konst_def)
qed

section \<open>Steps as lists of requests\<close>

text \<open>
  Every step of the enumeration is a sequence of \<open>add\<close> calls that depends on the graph only.
  \<open>emits s P\<close> says that \<open>s\<close> is such a sequence and that the requests in it are those of \<open>P\<close>.
\<close>

type_synonym request = "rule_id \<times> u32 \<times> u32 list"

definition add_all :: "request list \<Rightarrow> step" where
  "add_all = for_steps (\<lambda>(rule, root, rest). builder_add rule root rest)"

definition emits :: "step \<Rightarrow> (rule_id \<Rightarrow> u32 \<Rightarrow> u32 list \<Rightarrow> bool) \<Rightarrow> bool" where
  "emits s P \<longleftrightarrow> (\<exists>qs. s = add_all qs \<and> (\<forall>ru ro re. (ru, ro, re) \<in> set qs \<longleftrightarrow> P ru ro re))"

lemma step_eqs:
  "run_steps [] = Ok" "run_steps (s # ss) = (\<lambda>b. obind (s b) (run_steps ss))"
  "for_steps f [] = Ok" "for_steps f (x # xs) = (\<lambda>b. obind (f x b) (for_steps f xs))"
  "for_until_full f [] = Ok"
  "add_all [] = Ok" "add_all ((ru, ro, re) # qs) = (\<lambda>b. obind (builder_add ru ro re b) (add_all qs))"
  by (simp_all add: fun_eq_iff add_all_def)

lemma obind_assoc: "obind (obind m f) h = obind m (\<lambda>x. obind (f x) h)"
  by (cases m) simp_all

lemma obind_Ok_right [simp]: "obind m Ok = m"
  by (cases m) simp_all

lemma add_all_append: "add_all (ps @ qs) = (\<lambda>b. obind (add_all ps b) (add_all qs))"
  by (induction ps) (auto simp: obind_assoc step_eqs)

lemma add_all_full: "builder_is_full b \<Longrightarrow> add_all qs b = Ok b"
  by (induction qs) (auto simp: builder_add_def step_eqs)

lemma emits_cong: "emits s P \<Longrightarrow> (\<And>ru ro re. P ru ro re \<longleftrightarrow> Q ru ro re) \<Longrightarrow> emits s Q"
  by (simp add: emits_def)

lemma emits_Ok: "emits Ok (\<lambda>ru ro re. False)"
  unfolding emits_def by (rule exI [of _ "[]"]) (auto simp: step_eqs)

lemma emits_add: "emits (builder_add rule root rest) (\<lambda>ru ro re. ru = rule \<and> ro = root \<and> re = rest)"
  unfolding emits_def by (rule exI [of _ "[(rule, root, rest)]"]) (auto simp: step_eqs)

lemma emits_seq:
  assumes "emits s P" "emits s' Q"
  shows "emits (\<lambda>b. obind (s b) s') (\<lambda>ru ro re. P ru ro re \<or> Q ru ro re)"
proof -
  from assms obtain ps qs where "s = add_all ps" "\<forall>ru ro re. (ru, ro, re) \<in> set ps \<longleftrightarrow> P ru ro re"
    "s' = add_all qs" "\<forall>ru ro re. (ru, ro, re) \<in> set qs \<longleftrightarrow> Q ru ro re"
    unfolding emits_def by blast
  then show ?thesis
    unfolding emits_def by (intro exI [of _ "ps @ qs"]) (auto simp: add_all_append)
qed

lemma emits_when: "emits s P \<Longrightarrow> emits (when_step c s) (\<lambda>ru ro re. c \<and> P ru ro re)"
  using emits_Ok by (cases c) (simp_all add: when_step_def [abs_def])

lemma emits_if:
  "emits s P \<Longrightarrow> emits s' Q \<Longrightarrow>
     emits (if c then s else s') (\<lambda>ru ro re. c \<and> P ru ro re \<or> \<not> c \<and> Q ru ro re)"
  by simp

lemma emits_run_Nil: "emits (run_steps []) (\<lambda>ru ro re. False)"
  using emits_Ok by (simp add: step_eqs)

lemma emits_run_Cons:
  "emits s P \<Longrightarrow> emits (run_steps ss) Q \<Longrightarrow>
     emits (run_steps (s # ss)) (\<lambda>ru ro re. P ru ro re \<or> Q ru ro re)"
  using emits_seq by (simp add: step_eqs)

lemma emits_for_Nil: "emits (for_steps f []) (\<lambda>ru ro re. False)"
  using emits_Ok by (simp add: step_eqs)

lemma emits_for_Cons:
  "emits (f x) P \<Longrightarrow> emits (for_steps f xs) Q \<Longrightarrow>
     emits (for_steps f (x # xs)) (\<lambda>ru ro re. P ru ro re \<or> Q ru ro re)"
  using emits_seq by (simp add: step_eqs)

lemma emits_case_prod: "emits (f a b) P \<Longrightarrow> emits (case (a, b) of (x, y) \<Rightarrow> f x y) P"
  by simp

lemma emits_until:
  "(\<And>x. x \<in> set xs \<Longrightarrow> emits (f x) (P x)) \<Longrightarrow>
     emits (for_until_full f xs) (\<lambda>ru ro re. \<exists>x \<in> set xs. P x ru ro re)"
proof (induction xs)
  case Nil
  then show ?case using emits_Ok by (simp add: step_eqs)
next
  case (Cons x xs)
  have "emits (\<lambda>b. obind (f x b) (for_until_full f xs))
      (\<lambda>ru ro re. P x ru ro re \<or> (\<exists>x \<in> set xs. P x ru ro re))"
    by (intro emits_seq Cons) simp_all
  moreover have "for_until_full f (x # xs) = (\<lambda>b. obind (f x b) (for_until_full f xs))"
  proof
    fix b
    from Cons obtain ps qs where "f x = add_all ps" "for_until_full f xs = add_all qs"
      unfolding emits_def by (metis list.set_intros)
    then show "for_until_full f (x # xs) b = obind (f x b) (for_until_full f xs)"
      by (simp add: add_all_full)
  qed
  ultimately show ?case by simp
qed

lemmas emits_intros =
  emits_case_prod emits_add emits_when emits_if emits_run_Nil emits_run_Cons emits_for_Nil emits_for_Cons emits_Ok

section \<open>The enumeration asks for exactly the matches\<close>

context table_index
begin

lemma pair_for_law:
  assumes "valid_graph g" "unat x < length (g_op g)" "kind = AndOp \<or> kind = OrOp"
  shows "sp_valid (pair_for x kind (index g)) \<and> sp_a (pair_for x kind (index g)) = a \<and>
      sp_b (pair_for x kind (index g)) = b \<longleftrightarrow> bin g kind x a b"
  using assms and_law or_law by (auto simp: pair_for_def)

lemma pair_for_cases:
  assumes "valid_graph g" "unat x < length (g_op g)" "kind = AndOp \<or> kind = OrOp"
  obtains (none) "\<not> sp_valid (pair_for x kind (index g))" "\<forall>a b. \<not> bin g kind x a b"
  | (pair) a b where "pair_for x kind (index g) = \<lparr> sp_a = a, sp_b = b, sp_valid = True \<rparr>"
      "bin g kind x a b" "unat a < length (g_op g)" "unat b < length (g_op g)"
proof (cases "sp_valid (pair_for x kind (index g))")
  case False
  then show ?thesis using none pair_for_law [OF assms] by blast
next
  case True
  then have "bin g kind x (sp_a (pair_for x kind (index g))) (sp_b (pair_for x kind (index g)))"
    using pair_for_law [OF assms] by blast
  then show ?thesis
    using True pair [of "sp_a (pair_for x kind (index g))" "sp_b (pair_for x kind (index g))"]
    by (simp add: bin_def signal_ref_def)
qed

lemma binary_of_law:
  assumes "valid_graph g" "unat x < length (g_op g)" "kind = AndOp \<or> kind = OrOp"
  shows "binary_of x kind a b (index g) \<longleftrightarrow> bin2 g kind x a b"
  using pair_for_law [OF assms] unfolding binary_of_def bin2_def Let_def by blast

lemma consensus_add_emits:
  assumes g: "valid_graph g" and x: "unat x < length (g_op g)" and y: "unat y < length (g_op g)"
    and kind: "kind = AndOp \<or> kind = OrOp"
  shows "emits (consensus_add_bindings root x y kind rule (index g))
    (\<lambda>ru ro re. ru = rule \<and> ro = root \<and>
       (\<exists>a b c na. re = [x, y, a, b, c, na] \<and> bin2 g kind x a b \<and> bin2 g kind y na c \<and> neg g na a))"
using g x kind
proof (cases rule: pair_for_cases)
  case none
  then have "consensus_add_bindings root x y kind rule (index g) = Ok"
    by (simp add: consensus_add_bindings_def Let_def)
  with none emits_Ok show ?thesis by (simp add: bin2_def)
next
  case (pair a b)
  note first = pair
  show ?thesis
    using g y kind
  proof (cases rule: pair_for_cases)
    case none
    then have "consensus_add_bindings root x y kind rule (index g) = Ok"
      by (simp add: consensus_add_bindings_def Let_def)
    with none emits_Ok show ?thesis by (simp add: bin2_def)
  next
    case (pair c d)
    show ?thesis
      unfolding consensus_add_bindings_def Let_def first(1) pair(1)
      by (simp, rule emits_cong, (rule emits_intros)+)
        (auto simp: bin2_def bin_det [OF first(2)] bin_det [OF pair(2)] not_law [OF g pair(3)]
          not_law [OF g pair(4)])
  qed
qed

lemma consensus_remove_order_emits:
  assumes g: "valid_graph g" and x: "unat x < length (g_op g)" and y: "unat y < length (g_op g)"
    and trm: "unat trm < length (g_op g)" and kind: "kind = AndOp \<or> kind = OrOp"
  shows "emits (consensus_remove_order root inner trm kind rule (index g) x y)
    (\<lambda>ru ro re. ru = rule \<and> ro = root \<and>
       (\<exists>a b c na. re = [inner, trm, x, y, a, b, c] \<and> bin2 g kind x a b \<and> bin2 g kind y na c \<and>
          neg g na a \<and> bin2 g kind trm b c))"
  using g x kind
proof (cases rule: pair_for_cases)
  case none
  then have "consensus_remove_order root inner trm kind rule (index g) x y = Ok"
    by (simp add: consensus_remove_order_def Let_def)
  with none emits_Ok show ?thesis by (simp add: bin2_def [of g kind x])
next
  case (pair a b)
  note first = pair
  show ?thesis
    using g y kind
  proof (cases rule: pair_for_cases)
    case none
    then have "consensus_remove_order root inner trm kind rule (index g) x y = Ok"
      by (simp add: consensus_remove_order_def Let_def)
    with none emits_Ok show ?thesis by (simp add: bin2_def [of g kind y])
  next
    case (pair c d)
    have nots: "0 \<le> not_signals (index g) ! unat e \<and> i32_as_u32 (not_signals (index g) ! unat e) = u \<and> P \<longleftrightarrow>
        neg g e u \<and> P" if "e = c \<or> e = d" for e u P
      using that not_law [OF g pair(3)] not_law [OF g pair(4)] by blast
    show ?thesis
      unfolding consensus_remove_order_def Let_def first(1) pair(1)
      by (simp, rule emits_cong, (rule emits_intros)+)
        (auto simp: bin2_def [of g kind x] bin2_def [of g kind y] bin_det [OF first(2)] bin_det [OF pair(2)]
          nots binary_of_law [OF g trm kind])
  qed
qed

lemma consensus_remove_emits:
  assumes g: "valid_graph g" and inner: "unat inner < length (g_op g)"
    and trm: "unat trm < length (g_op g)"
    and outer: "outer = AndOp \<or> outer = OrOp" and kind: "kind = AndOp \<or> kind = OrOp"
  shows "emits (consensus_remove_bindings root inner trm outer kind rule (index g))
    (\<lambda>ru ro re. ru = rule \<and> ro = root \<and>
       (\<exists>x y a b c na. re = [inner, trm, x, y, a, b, c] \<and> bin2 g outer inner x y \<and>
          bin2 g kind x a b \<and> bin2 g kind y na c \<and> neg g na a \<and> bin2 g kind trm b c \<and> x \<noteq> y))"
  using g inner outer
proof (cases rule: pair_for_cases)
  case none
  then have "consensus_remove_bindings root inner trm outer kind rule (index g) = Ok"
    by (simp add: consensus_remove_bindings_def Let_def)
  with none emits_Ok show ?thesis by (simp add: bin2_def [of g outer])
next
  case (pair a b)
  note order = consensus_remove_order_emits [OF g _ _ trm kind]
  show ?thesis
    unfolding consensus_remove_bindings_def Let_def pair(1)
    by (simp only: signal_pair.simps not_True_eq_False if_False, rule emits_cong, (rule order [OF pair(3,4)] order [OF pair(4,3)] emits_intros)+)
      (auto simp: bin2_def [of g outer] bin_det [OF pair(2)])
qed

lemma factor_emits:
  assumes g: "valid_graph g" and x: "unat x < length (g_op g)" and y: "unat y < length (g_op g)"
    and kind: "kind = AndOp \<or> kind = OrOp"
  shows "emits (factor_bindings root x y (pair_for x kind (index g)) (pair_for y kind (index g)) rule)
    (\<lambda>ru ro re. ru = rule \<and> ro = root \<and>
       (\<exists>a b c. re = [x, y, a, b, c] \<and> bin2 g kind x a b \<and> bin2 g kind y a c \<and> a \<noteq> b \<and> a \<noteq> c))"
  using g x kind
proof (cases rule: pair_for_cases)
  case none
  then have "factor_bindings root x y (pair_for x kind (index g)) (pair_for y kind (index g)) rule = Ok"
    by (simp add: factor_bindings_def when_step_def fun_eq_iff)
  with none emits_Ok show ?thesis by (simp add: bin2_def [of g kind x])
next
  case (pair a b)
  note first = pair
  show ?thesis
    using g y kind
  proof (cases rule: pair_for_cases)
    case none
    then have "factor_bindings root x y (pair_for x kind (index g)) (pair_for y kind (index g)) rule = Ok"
      by (simp add: factor_bindings_def when_step_def fun_eq_iff)
    with none emits_Ok show ?thesis by (simp add: bin2_def [of g kind y])
  next
    case (pair c d)
    show ?thesis
      unfolding factor_bindings_def first(1) pair(1) signal_pair.simps
      by (rule emits_cong, (rule emits_intros)+)
        (auto simp: bin2_def bin_det [OF first(2)] bin_det [OF pair(2)])
  qed
qed

lemma factor_and_emits:
  assumes "valid_graph g" "unat x < length (g_op g)" "unat y < length (g_op g)"
  shows "emits (factor_bindings root x y (and_pairs (index g) ! unat x) (and_pairs (index g) ! unat y) rule)
    (\<lambda>ru ro re. ru = rule \<and> ro = root \<and>
       (\<exists>a b c. re = [x, y, a, b, c] \<and> bin2 g AndOp x a b \<and> bin2 g AndOp y a c \<and> a \<noteq> b \<and> a \<noteq> c))"
  using factor_emits [OF assms disjI1 [OF refl]] by (simp add: pair_for_def)

lemma factor_or_emits:
  assumes "valid_graph g" "unat x < length (g_op g)" "unat y < length (g_op g)"
  shows "emits (factor_bindings root x y (or_pairs (index g) ! unat x) (or_pairs (index g) ! unat y) rule)
    (\<lambda>ru ro re. ru = rule \<and> ro = root \<and>
       (\<exists>a b c. re = [x, y, a, b, c] \<and> bin2 g OrOp x a b \<and> bin2 g OrOp y a c \<and> a \<noteq> b \<and> a \<noteq> c))"
  using factor_emits [OF assms disjI2 [OF refl]] by (simp add: pair_for_def)

lemma node_laws:
  assumes "valid_graph g" "unat x < length (g_op g)"
  shows "neg g x a \<longleftrightarrow> 0 \<le> not_signals (index g) ! unat x \<and> a = i32_as_u32 (not_signals (index g) ! unat x)"
    "bin g AndOp x a b \<longleftrightarrow> sp_valid (and_pairs (index g) ! unat x) \<and> a = sp_a (and_pairs (index g) ! unat x) \<and>
      b = sp_b (and_pairs (index g) ! unat x)"
    "bin g OrOp x a b \<longleftrightarrow> sp_valid (or_pairs (index g) ! unat x) \<and> a = sp_a (or_pairs (index g) ! unat x) \<and>
      b = sp_b (or_pairs (index g) ! unat x)"
    "konst g x v \<longleftrightarrow> const_signals (index g) ! unat x = (if v then 1 else 0)"
  using not_law [OF assms] and_law [OF assms] or_law [OF assms] const_law [OF assms] by metis+

end

end
