(* ===== verification/Whittle_Enum.thy ===== *)
theory Whittle_Enum
  imports Whittle_Match
begin

text \<open>
  The loops of \<open>enumerate_graph_limited\<close> (\<open>rules.rs\<close>): every branch asks the builder for exactly the
  matches of the rules it is about, and the candidates that come out are characterised completely.
\<close>

section \<open>The branches\<close>

context table_index
begin

lemma emit_and_emits:
  assumes g: "valid_graph g" and root: "bin g AndOp root l r"
  shows "emits (emit_and (index g) root l r) (\<lambda>ru ro re. ro = root \<and> forward ru \<and> rule_match g ru root re)"
proof -
  have l: "unat l < length (g_op g)" and r: "unat r < length (g_op g)"
    using bin_in_range [OF root] by blast+
  have others: "\<not> bin g OrOp root a b" "\<not> neg g root a" "\<not> konst g root v" for a b v
    using root by (simp_all add: bin_def neg_def konst_def)
  have at_root: "bin g AndOp root = (\<lambda>a b. a = l \<and> b = r)"
    "bin2 g AndOp root = (\<lambda>a b. a = l \<and> b = r \<or> a = r \<and> b = l)" "bin2 g OrOp root = (\<lambda>a b. False)"
    by (auto simp: fun_eq_iff bin2_def bin_det [OF root] others)
  note ops = disjI1 [OF refl] disjI2 [OF refl]
  note adds = consensus_add_emits [OF g l r ops(2)] consensus_add_emits [OF g r l ops(2)]
    consensus_remove_emits [OF g l r ops(1,2)] consensus_remove_emits [OF g r l ops(1,2)]
    factor_or_emits [OF g l r]
  note laws = node_laws [OF g l] node_laws [OF g r]
  show ?thesis
    unfolding emit_and_def Let_def
  proof (rule emits_cong, (rule adds emits_intros)+, goal_cases)
    case (1 ru ro re)
    show ?case
    proof (cases "ru \<in> {ConsensusAndAdd, ConsensusAndRemove, DistributeAndFactor}")
      case True
      then show ?thesis
        by (elim insertE emptyE; simp only: forward_iff insert_iff empty_iff rule_id.distinct simp_thms
            rule_match_simps at_root; auto)
    next
      case False
      then show ?thesis
        by (cases ru; simp only: forward_iff insert_iff empty_iff rule_id.distinct simp_thms
            rule_match_simps others at_root;
            simp add: bin2_def conj_disj_distribL conj_disj_distribR ex_disj_distrib laws; auto)
    qed
  qed
qed

lemma emit_or_emits:
  assumes g: "valid_graph g" and root: "bin g OrOp root l r"
  shows "emits (emit_or (index g) root l r) (\<lambda>ru ro re. ro = root \<and> forward ru \<and> rule_match g ru root re)"
proof -
  have l: "unat l < length (g_op g)" and r: "unat r < length (g_op g)"
    using bin_in_range [OF root] by blast+
  have others: "\<not> bin g AndOp root a b" "\<not> neg g root a" "\<not> konst g root v" for a b v
    using root by (simp_all add: bin_def neg_def konst_def)
  have at_root: "bin g OrOp root = (\<lambda>a b. a = l \<and> b = r)"
    "bin2 g OrOp root = (\<lambda>a b. a = l \<and> b = r \<or> a = r \<and> b = l)" "bin2 g AndOp root = (\<lambda>a b. False)"
    by (auto simp: fun_eq_iff bin2_def bin_det [OF root] others)
  note ops = disjI1 [OF refl] disjI2 [OF refl]
  note adds = consensus_add_emits [OF g l r ops(1)] consensus_add_emits [OF g r l ops(1)]
    consensus_remove_emits [OF g l r ops(2,1)] consensus_remove_emits [OF g r l ops(2,1)]
    factor_and_emits [OF g l r]
  note laws = node_laws [OF g l] node_laws [OF g r]
  show ?thesis
    unfolding emit_or_def Let_def
  proof (rule emits_cong, (rule adds emits_intros)+, goal_cases)
    case (1 ru ro re)
    show ?case
    proof (cases "ru \<in> {ConsensusOrAdd, ConsensusOrRemove, DistributeOrFactor}")
      case True
      then show ?thesis
        by (elim insertE emptyE; simp only: forward_iff insert_iff empty_iff rule_id.distinct simp_thms
            rule_match_simps at_root; auto)
    next
      case False
      then show ?thesis
        by (cases ru; simp only: forward_iff insert_iff empty_iff rule_id.distinct simp_thms
            rule_match_simps others at_root;
            simp add: bin2_def conj_disj_distribL conj_disj_distribR ex_disj_distrib laws; auto)
    qed
  qed
qed

lemma emit_not_emits:
  assumes g: "valid_graph g" and root: "neg g root l"
  shows "emits (emit_not (index g) root l) (\<lambda>ru ro re. ro = root \<and> forward ru \<and> rule_match g ru root re)"
proof -
  have l: "unat l < length (g_op g)" using neg_in_range [OF root] by blast
  have others: "\<not> bin g AndOp root a b" "\<not> bin g OrOp root a b" "\<not> konst g root v" for a b v
    using root by (simp_all add: bin_def neg_def konst_def)
  have at_root: "neg g root = (\<lambda>a. a = l)" "bin2 g AndOp root = (\<lambda>a b. False)" "bin2 g OrOp root = (\<lambda>a b. False)"
    by (auto simp: fun_eq_iff bin2_def neg_det [OF root] others)
  show ?thesis
    unfolding emit_not_def Let_def
  proof (rule emits_cong, (rule emits_intros)+, goal_cases)
    case (1 ru ro re)
    show ?case
      by (cases ru; simp only: forward_iff insert_iff empty_iff rule_id.distinct simp_thms
          rule_match_simps others at_root; auto simp: node_laws [OF g l] at_root)
  qed
qed

lemma emit_root_emits:
  assumes g: "valid_graph g" and root: "unat root < length (g_op g)"
  shows "emits (emit_root g (index g) root) (\<lambda>ru ro re. ro = root \<and> forward ru \<and> rule_match g ru root re)"
proof -
  let ?l = "g_arg0 g ! unat root" and ?r = "g_arg1 g ! unat root"
  consider (conj) "bin g AndOp root ?l ?r" | (disj) "bin g OrOp root ?l ?r" | (neg) "neg g root ?l"
    | (none) "\<forall>a b. \<not> bin g AndOp root a b" "\<forall>a b. \<not> bin g OrOp root a b" "\<forall>a. \<not> neg g root a"
    by (auto simp: bin_def neg_def)
  then show ?thesis
  proof cases
    case conj
    then have "g_op g ! unat root = AndOp" "sp_valid (and_pairs (index g) ! unat root)"
      using node_laws(2) [OF g root] by (auto simp: bin_def)
    then have "emit_root g (index g) root = emit_and (index g) root ?l ?r"
      by (simp add: emit_root_def Let_def)
    with emit_and_emits [OF g conj] show ?thesis by simp
  next
    case disj
    then have "g_op g ! unat root = OrOp" "sp_valid (or_pairs (index g) ! unat root)"
      using node_laws(3) [OF g root] by (auto simp: bin_def)
    then have "emit_root g (index g) root = emit_or (index g) root ?l ?r"
      by (simp add: emit_root_def Let_def)
    with emit_or_emits [OF g disj] show ?thesis by simp
  next
    case neg
    then have "g_op g ! unat root = NotOp" "0 \<le> not_signals (index g) ! unat root"
      using node_laws(1) [OF g root] by (auto simp: neg_def)
    then have "emit_root g (index g) root = emit_not (index g) root ?l"
      by (simp add: emit_root_def Let_def)
    with emit_not_emits [OF g neg] show ?thesis by simp
  next
    case none
    then have "emit_root g (index g) root = Ok"
      using node_laws(1-3) [OF g root] by (simp add: emit_root_def Let_def)
    moreover have "\<not> rule_match g ru root re" if "forward ru" for ru re
      using none that by (auto simp: forward_iff bin2_def elim!: rule_match.cases)
    ultimately show ?thesis using emits_cong [OF emits_Ok] by auto
  qed
qed

lemma emit_complements_emits:
  assumes g: "valid_graph g" and xs: "\<forall>w \<in> set xs. unat w < length (g_op g)"
  shows "emits (emit_complements g (index g) root value xs)
    (\<lambda>ru ro re. ru = (if value then OrComplementInverse else AndComplementInverse) \<and> ro = root \<and>
       (\<exists>w \<in> set xs. \<exists>a. re = [a, w] \<and> neg g w a))"
  unfolding emit_complements_def
proof (rule emits_cong, rule emits_until, unfold Let_def, (rule emits_intros)+, goal_cases)
  case (1 ru ro re)
  have "neg g w a \<longleftrightarrow> \<not> not_signals (index g) ! unat w < 0 \<and> a = i32_as_u32 (not_signals (index g) ! unat w)"
    if "w \<in> set xs" for w a
    using node_laws(1) [OF g] xs that by (simp add: not_less)
  then show ?case by (cases "value") auto
qed

lemma emit_inverse_emits:
  assumes g: "valid_graph g" and root: "unat root < length (g_op g)"
    and xs: "\<forall>w. w \<in> set xs \<longleftrightarrow> unat w < length (g_op g)"
  shows "emits (emit_inverse g (index g) xs root) (\<lambda>ru ro re. ro = root \<and> \<not> forward ru \<and> rule_match g ru root re)"
proof -
  have "\<forall>w \<in> set xs. unat w < length (g_op g)" using xs by blast
  note comps = emit_complements_emits [OF g this]
  have sig: "signal_ref g root \<longleftrightarrow> g_op g ! unat root \<noteq> OutputOp"
    using root by (simp add: signal_ref_def)
  have const: "konst g root v \<longleftrightarrow> g_op g ! unat root = ConstOp \<and> v = (g_arg0 g ! unat root \<noteq> 0)" for v
    using root by (simp add: konst_def)
  have in_xs: "neg g w a \<Longrightarrow> w \<in> set xs" for w a
    using xs neg_in_range by blast
  show ?thesis
    unfolding emit_inverse_def Let_def
  proof (rule emits_cong, (rule comps emits_intros)+, goal_cases)
    case (1 ru ro re)
    show ?case
      by (cases ru; simp only: forward_iff insert_iff empty_iff rule_id.distinct simp_thms rule_match_simps
          sig const true_law [OF g, symmetric] false_law [OF g, symmetric]; auto dest: in_xs)
  qed
qed

end

section \<open>The whole enumeration\<close>

lemma enumerate_roots_set:
  assumes "valid_graph g"
  shows "x \<in> set (enumerate_roots g) \<longleftrightarrow> unat x < length (g_op g)"
proof -
  note small = valid_graph_small [OF assms]
  have "x \<in> set (enumerate_roots g) \<longleftrightarrow> (\<exists>i < length (g_op g). x = of_nat i)"
    using small by (auto simp: enumerate_roots_def)
  also have "\<dots> \<longleftrightarrow> unat x < length (g_op g)"
    using small by (metis dual_order.strict_trans unat_eq_of_nat_u32 unat_of_nat_u32)
  finally show ?thesis .
qed

lemma enumerate_requests:
  assumes g: "valid_graph g"
  obtains qs where "\<forall>ru ro re. (ru, ro, re) \<in> set qs \<longleftrightarrow> rule_match g ru ro re"
    "\<forall>inc limit. enumerate_graph_limited g inc limit =
       obind (add_all qs (builder_new g inc limit)) (\<lambda>out. Ok (b_items out))"
proof -
  let ?t = "build_tables g" and ?xs = "enumerate_roots g"
  have xs: "\<forall>w. w \<in> set ?xs \<longleftrightarrow> unat w < length (g_op g)"
    using enumerate_roots_set [OF g] by blast
  have root_range: "unat ro < length (g_op g)" if "rule_match g ru ro re" for ru ro re
    using that by cases (auto simp: bin2_def bin_def neg_def konst_def signal_ref_def)
  have "emits (\<lambda>b. obind (for_until_full (emit_root g ?t) ?xs b) (for_until_full (emit_inverse g ?t ?xs) ?xs))
      (rule_match g)"
    by (rule emits_cong, rule emits_seq, rule emits_until, rule tables.emit_root_emits [OF g],
        use xs in blast, rule emits_until, rule tables.emit_inverse_emits [OF g _ xs])
      (use xs root_range in blast)+
  then obtain qs where "\<forall>ru ro re. (ru, ro, re) \<in> set qs \<longleftrightarrow> rule_match g ru ro re"
    and eq: "(\<lambda>b. obind (for_until_full (emit_root g ?t) ?xs b) (for_until_full (emit_inverse g ?t ?xs) ?xs)) = add_all qs"
    unfolding emits_def by blast
  moreover have "enumerate_graph_limited g inc limit =
       obind (add_all qs (builder_new g inc limit)) (\<lambda>out. Ok (b_items out))" for inc limit
    using valid_graphD(1,2) [OF g] by (simp add: enumerate_graph_limited_def Let_def obind_assoc eq [symmetric])
  ultimately show ?thesis using that by blast
qed

section \<open>The builder\<close>

lemma as_u16_inj [simp]: "as_u16 r = as_u16 s \<longleftrightarrow> r = s"
  by (cases r; cases s) simp_all

lemma unat_ucast_u8_u32 [simp]: "unat (ucast (w :: u8) :: u32) = unat w"
proof -
  have "unat w < 2 ^ LENGTH(8)" by (rule unsigned_less)
  then show ?thesis by (simp add: unsigned_ucast_eq take_bit_nat_eq_self)
qed

lemma ucast_u16_u32_inj: "(ucast (v :: u16) :: u32) = ucast w \<longleftrightarrow> v = w"
  by (metis unat_ucast_u16_u32 word_eq_iff_unsigned)

lemma ucast_u8_u32_inj: "(ucast (v :: u8) :: u32) = ucast w \<longleftrightarrow> v = w"
  by (metis unat_ucast_u8_u32 word_eq_iff_unsigned)

lemma candidate_key_inj [simp]: "candidate_key c = candidate_key d \<longleftrightarrow> c = d"
  by (auto simp: candidate_key_def ucast_u16_u32_inj ucast_u8_u32_inj)

lemma make_candidate_inj:
  assumes "length re < MAX_MATCHED" "length re' < MAX_MATCHED"
  shows "make_candidate ru ro re = make_candidate ru' ro' re' \<longleftrightarrow> ru = ru' \<and> ro = ro' \<and> re = re'"
proof
  assume eq: "make_candidate ru ro re = make_candidate ru' ro' re'"
  have "unat (of_nat (length xs + 1) :: u8) = length xs + 1" if "length xs < MAX_MATCHED" for xs :: "u32 list"
    using that by (simp add: unat_of_nat take_bit_nat_eq_self MAX_MATCHED_def del: of_nat_Suc)
  then have "length re = length re'"
    using eq assms unfolding make_candidate_def by (metis add_right_cancel raw_candidate.ext_inject)
  with eq show "ru = ru' \<and> ro = ro' \<and> re = re'"
    by (simp add: make_candidate_def)
qed simp

lemma rule_match_length: "rule_match g ru ro re \<Longrightarrow> length re < MAX_MATCHED"
  by (auto elim!: rule_match.cases simp: MAX_MATCHED_def)

definition admissible :: "builder \<Rightarrow> rule_id \<Rightarrow> bool" where
  "admissible b rule \<longleftrightarrow>
     (b_include b \<or> \<not> reverse_constant_folding_rule rule) \<and> replacement_extra_nodes rule \<le> b_remaining b"

text \<open>The builder invariant: the keys seen are those of the items, and no item occurs twice.\<close>

definition builder_inv :: "builder \<Rightarrow> bool" where
  "builder_inv b \<longleftrightarrow> b_seen b = candidate_key ` set (b_items b) \<and> distinct (b_items b)"

lemma builder_new_inv: "builder_inv (builder_new g inc limit)"
  by (simp add: builder_inv_def builder_new_def)

lemma builder_add_cases:
  assumes "builder_inv b" "length re < MAX_MATCHED"
  obtains (skip) "builder_add ru ro re b = Ok b"
      "builder_is_full b \<or> \<not> admissible b ru \<or> make_candidate ru ro re \<in> set (b_items b)"
  | (take) b' where "builder_add ru ro re b = Ok b'" "b_items b' = b_items b @ [make_candidate ru ro re]"
      "b_include b' = b_include b" "b_remaining b' = b_remaining b" "b_limit b' = b_limit b" "builder_inv b'"
      "\<not> builder_is_full b" "admissible b ru" "make_candidate ru ro re \<notin> set (b_items b)"
proof -
  have seen: "candidate_key c \<in> b_seen b \<longleftrightarrow> c \<in> set (b_items b)" for c
    using assms(1) by (auto simp: builder_inv_def)
  show ?thesis
  proof (cases "builder_is_full b \<or> \<not> admissible b ru \<or> make_candidate ru ro re \<in> set (b_items b)")
    case True
    then show ?thesis
      using assms(2) skip by (auto simp: builder_add_def admissible_def Let_def seen)
  next
    case False
    let ?b = "b \<lparr> b_items := b_items b @ [make_candidate ru ro re],
                 b_seen := insert (candidate_key (make_candidate ru ro re)) (b_seen b) \<rparr>"
    have "builder_add ru ro re b = Ok ?b"
      using False assms(2) by (auto simp: builder_add_def admissible_def Let_def seen)
    moreover have "builder_inv ?b"
      using False assms(1) by (simp add: builder_inv_def)
    ultimately show ?thesis using False take [of ?b] by simp
  qed
qed

lemma add_all_unlimited:
  assumes "builder_inv b" "b_limit b = None" "\<forall>(ru, ro, re) \<in> set qs. length re < MAX_MATCHED"
  shows "\<exists>b'. add_all qs b = Ok b' \<and> builder_inv b' \<and> b_limit b' = None \<and>
     set (b_items b') = set (b_items b) \<union>
       {make_candidate ru ro re | ru ro re. (ru, ro, re) \<in> set qs \<and> admissible b ru}"
  using assms
proof (induction qs arbitrary: b)
  case Nil
  then show ?case by (simp add: step_eqs)
next
  case (Cons q qs)
  obtain ru ro re where q: "q = (ru, ro, re)" by (cases q)
  then have len: "length re < MAX_MATCHED" using Cons.prems by simp
  have not_full: "\<not> builder_is_full b" using Cons.prems(2) by (simp add: builder_is_full_def)
  from Cons.prems(1) len show ?case
  proof (cases rule: builder_add_cases [where ru = ru and ro = ro])
    case skip
    from Cons.IH [of b] Cons.prems obtain b' where b': "add_all qs b = Ok b'" "builder_inv b'"
      "b_limit b' = None" "set (b_items b') = set (b_items b) \<union>
        {make_candidate ru ro re | ru ro re. (ru, ro, re) \<in> set qs \<and> admissible b ru}" by auto
    with skip not_full show ?thesis unfolding q
      by (intro exI [of _ b']) (auto simp: step_eqs)
  next
    case (take c)
    then have adm: "admissible c = admissible b" by (simp add: admissible_def fun_eq_iff)
    from Cons.IH [of c] take Cons.prems obtain b' where b': "add_all qs c = Ok b'" "builder_inv b'"
      "b_limit b' = None" "set (b_items b') = set (b_items c) \<union>
        {make_candidate ru ro re | ru ro re. (ru, ro, re) \<in> set qs \<and> admissible b ru}"
      unfolding adm by auto
    with take show ?thesis unfolding q
      by (intro exI [of _ b']) (auto simp: step_eqs)
  qed
qed

text \<open>A limited builder holds a prefix of what the unlimited one holds.\<close>

lemma add_all_limited:
  assumes "builder_inv b" "builder_inv l" "b_limit b = None" "b_limit l = Some k"
    "b_items l = take k (b_items b)" "b_include l = b_include b" "b_remaining l = b_remaining b"
    "\<forall>(ru, ro, re) \<in> set qs. length re < MAX_MATCHED"
  shows "\<exists>b' l'. add_all qs b = Ok b' \<and> add_all qs l = Ok l' \<and> b_items l' = take k (b_items b')"
  using assms
proof (induction qs arbitrary: b l)
  case Nil
  then show ?case by (simp add: step_eqs)
next
  case (Cons q qs)
  obtain ru ro re where q: "q = (ru, ro, re)" by (cases q)
  then have len: "length re < MAX_MATCHED" using Cons.prems by simp
  have adm: "admissible l = admissible b" using Cons.prems by (simp add: admissible_def fun_eq_iff)
  show ?case
  proof (cases "builder_is_full l")
    case True
    then have full: "k \<le> length (b_items b)" using Cons.prems by (simp add: builder_is_full_def)
    show ?thesis using Cons.prems(1) len
    proof (cases rule: builder_add_cases [where ru = ru and ro = ro])
      case skip
      then show ?thesis using True Cons.IH [of b l] Cons.prems unfolding q
        by (simp add: step_eqs builder_add_def)
    next
      case (take c)
      then show ?thesis using True full Cons.IH [of c l] Cons.prems unfolding q
        by (simp add: step_eqs builder_add_def)
    qed
  next
    case False
    then have less: "length (b_items b) < k" using Cons.prems by (simp add: builder_is_full_def)
    then have same: "b_items l = b_items b" using Cons.prems by simp
    have not_full: "\<not> builder_is_full b" using Cons.prems(3) by (simp add: builder_is_full_def)
    show ?thesis using Cons.prems(2) len
    proof (cases rule: builder_add_cases [where ru = ru and ro = ro])
      case skip
      have "builder_add ru ro re b = Ok b"
        using Cons.prems(1) len
        by (cases rule: builder_add_cases [where ru = ru and ro = ro]) (use skip False same adm not_full in auto)
      with skip show ?thesis using Cons.IH [of b l] Cons.prems unfolding q by (simp add: step_eqs)
    next
      case (take m)
      note l = this
      show ?thesis using Cons.prems(1) len
      proof (cases rule: builder_add_cases [where ru = ru and ro = ro])
        case skip
        then show ?thesis using l same adm not_full by auto
      next
        case (take c)
        with l less same have "b_items m = List.take k (b_items c)" by simp
        with l take show ?thesis using Cons.IH [of c m] Cons.prems unfolding q by (simp add: step_eqs)
      qed
    qed
  qed
qed

lemma enumerate_spec:
  assumes g: "valid_graph g"
  obtains cs where "enumerate_graph g inc = Ok cs" "distinct cs"
    "set cs = {make_candidate ru ro re | ru ro re. rule_match g ru ro re \<and>
       (inc \<or> \<not> reverse_constant_folding_rule ru) \<and>
       int (length (g_op g)) + replacement_extra_nodes ru \<le> int (unat (g_capacity g))}"
    "\<forall>k. enumerate_graph_limited g inc (Some k) = Ok (take k cs)"
proof -
  obtain qs where qs: "\<forall>ru ro re. (ru, ro, re) \<in> set qs \<longleftrightarrow> rule_match g ru ro re"
    "\<forall>inc limit. enumerate_graph_limited g inc limit =
       obind (add_all qs (builder_new g inc limit)) (\<lambda>out. Ok (b_items out))"
    by (rule enumerate_requests [OF g])
  have lens: "\<forall>(ru, ro, re) \<in> set qs. length re < MAX_MATCHED"
    using qs(1) rule_match_length by blast
  let ?b = "builder_new g inc None"
  have b: "builder_inv ?b" "b_limit ?b = None" "b_items ?b = []" "b_include ?b = inc"
    and adm: "admissible ?b ru \<longleftrightarrow> (inc \<or> \<not> reverse_constant_folding_rule ru) \<and>
       int (length (g_op g)) + replacement_extra_nodes ru \<le> int (unat (g_capacity g))" for ru
    using builder_new_inv usize_as_i32_small [OF valid_graph_small [OF g]]
    by (auto simp: builder_new_def admissible_def builder_inv_def)
  obtain b' where b': "add_all qs ?b = Ok b'" "builder_inv b'" "set (b_items b') = set (b_items ?b) \<union>
      {make_candidate ru ro re | ru ro re. (ru, ro, re) \<in> set qs \<and> admissible ?b ru}"
    using add_all_unlimited [OF b(1,2) lens] by blast
  show ?thesis
  proof (rule that [of "b_items b'"])
    show "enumerate_graph g inc = Ok (b_items b')" using qs(2) b'(1) by (simp add: enumerate_graph_def)
    show "distinct (b_items b')" using b'(2) by (simp add: builder_inv_def)
    show "set (b_items b') = {make_candidate ru ro re | ru ro re. rule_match g ru ro re \<and>
       (inc \<or> \<not> reverse_constant_folding_rule ru) \<and>
       int (length (g_op g)) + replacement_extra_nodes ru \<le> int (unat (g_capacity g))}"
      unfolding b'(3) b(3) adm using qs(1) by simp
    have "enumerate_graph_limited g inc (Some k) = Ok (take k (b_items b'))" for k
    proof -
      have "\<exists>b' l'. add_all qs ?b = Ok b' \<and> add_all qs (builder_new g inc (Some k)) = Ok l' \<and>
          b_items l' = take k (b_items b')"
        by (rule add_all_limited [OF b(1) builder_new_inv b(2) _ _ _ _ lens]) (simp_all add: builder_new_def)
      with b'(1) qs(2) show ?thesis by auto
    qed
    then show "\<forall>k. enumerate_graph_limited g inc (Some k) = Ok (take k (b_items b'))" by blast
  qed
qed

text \<open>
  C2: the enumeration is sound, complete and free of duplicates. On a valid graph it returns, without
  error or panic, exactly the candidates of the rule matches whose replacement fits into the
  remaining capacity (without the reverse constant-folding rules unless they are asked for), each
  once; and a limit of \<open>k\<close> yields the first \<open>k\<close> of them, so stopping early never changes the order
  or the choice.
\<close>

theorem enumerate_graph_exact:
  assumes "valid_graph g"
  shows "\<exists>cs. enumerate_graph g inc = Ok cs \<and> distinct cs \<and>
    set cs = {make_candidate ru ro re | ru ro re. rule_match g ru ro re \<and>
       (inc \<or> \<not> reverse_constant_folding_rule ru) \<and>
       int (length (g_op g)) + replacement_extra_nodes ru \<le> int (unat (g_capacity g))} \<and>
    (\<forall>k. enumerate_graph_limited g inc (Some k) = Ok (take k cs))"
  by (rule enumerate_spec [OF assms, of inc]) (intro exI conjI; assumption)

definition ex_and_true :: graph_body where
  "ex_and_true = \<lparr> g_arity = 1, g_capacity = 4, g_output = 3,
     g_op = [InputOp, ConstOp, AndOp, OutputOp],
     g_arg0 = [0, 1, 0, 2], g_arg1 = [NO_NODE, NO_NODE, 1, NO_NODE] \<rparr>"

theorem enumerate_graph_exact_witness:
  "valid_graph ex_and_true \<and>
   (\<exists>cs. enumerate_graph ex_and_true False = Ok cs \<and> make_candidate AndTrue 2 [1, 0] \<in> set cs \<and>
      enumerate_graph_limited ex_and_true False (Some 1) = Ok (take 1 cs))"
proof -
  have "validate ex_and_true = Ok ()" by code_simp
  then have valid: "valid_graph ex_and_true" by simp
  have "rule_match ex_and_true AndTrue 2 [1, 0]"
    by (rule rule_match.AndTrue)
      (simp_all add: bin2_def bin_def konst_def signal_ref_def ex_and_true_def)
  moreover have "unat (g_capacity ex_and_true) = 4" "length (g_op ex_and_true) = 4"
    by (simp_all add: ex_and_true_def)
  moreover have "\<not> reverse_constant_folding_rule AndTrue"
    by (simp add: reverse_constant_folding_rule_def)
  ultimately have "make_candidate AndTrue 2 [1, 0] \<in> {make_candidate ru ro re | ru ro re.
      rule_match ex_and_true ru ro re \<and> (False \<or> \<not> reverse_constant_folding_rule ru) \<and>
      int (length (g_op ex_and_true)) + replacement_extra_nodes ru \<le> int (unat (g_capacity ex_and_true))}"
    by force
  with valid enumerate_graph_exact [OF valid, of False] show ?thesis by blast
qed

end
