(* ===== verification/Whittle_Apply.thy ===== *)
theory Whittle_Apply
  imports Whittle_Compact Whittle_Enum
begin

text \<open>
  Rewriting: \<open>apply_graph\<close>, \<open>build_replacement\<close> and \<open>append_node\<close> of \<open>rules.rs\<close>. The replacement
  code is shown to compile the right-hand side of the rule, a Boolean term over the matched nodes,
  in post-order; each rule is a Boolean identity; and redirecting the users of the root to the
  compiled term preserves the meaning of the circuit.
\<close>

section \<open>The code\<close>

definition append_node :: "op_code \<Rightarrow> u32 \<Rightarrow> u32 \<Rightarrow> graph_body \<Rightarrow> u32 \<times> graph_body" where
  "append_node code a b g =
     (let g' = g \<lparr> g_op := g_op g @ [code], g_arg0 := g_arg0 g @ [a], g_arg1 := g_arg1 g @ [b] \<rparr>
      in (of_nat (length (g_op g') - 1), g'))"

definition build_replacement ::
    "raw_candidate \<Rightarrow> graph_body \<Rightarrow> (u32 \<times> graph_body, rule_error) outcome"
where
  "build_replacement candidate g =
     (let root = rc_root candidate; m = rc_matched candidate; rule_id = rc_rule candidate in
      obind (from_u16 rule_id) (\<lambda>rule. Ok (case rule of
        AndFalse \<Rightarrow> (m ! 1, g)
      | OrTrue \<Rightarrow> (m ! 1, g)
      | AndTrue \<Rightarrow> (m ! 2, g)
      | OrFalse \<Rightarrow> (m ! 2, g)
      | AndIdempotent \<Rightarrow> (m ! 1, g)
      | OrIdempotent \<Rightarrow> (m ! 1, g)
      | AbsorbOrAnd \<Rightarrow> (m ! 1, g)
      | AbsorbAndOr \<Rightarrow> (m ! 1, g)
      | ConsensusOrRemove \<Rightarrow> (m ! 1, g)
      | ConsensusAndRemove \<Rightarrow> (m ! 1, g)
      | DoubleNegation \<Rightarrow> (m ! 2, g)
      | AndFalseInverse \<Rightarrow> append_node AndOp (m ! 1) root g
      | AndTrueInverse \<Rightarrow> append_node AndOp root (m ! 1) g
      | OrFalseInverse \<Rightarrow> append_node OrOp root (m ! 1) g
      | OrTrueInverse \<Rightarrow> append_node OrOp (m ! 1) root g
      | NotFalseInverse \<Rightarrow> append_node NotOp (m ! 1) NO_NODE g
      | NotTrueInverse \<Rightarrow> append_node NotOp (m ! 1) NO_NODE g
      | AndIdempotentInverse \<Rightarrow> append_node AndOp root root g
      | OrIdempotentInverse \<Rightarrow> append_node OrOp root root g
      | AndComplementInverse \<Rightarrow> append_node AndOp (m ! 1) (m ! 2) g
      | OrComplementInverse \<Rightarrow> append_node OrOp (m ! 1) (m ! 2) g
      | DoubleNegationInverse \<Rightarrow>
          (let (first, g) = append_node NotOp root NO_NODE g in append_node NotOp first NO_NODE g)
      | AbsorbOrAndInverse \<Rightarrow>
          (let (first, g) = append_node AndOp root (m ! 1) g in append_node OrOp root first g)
      | AbsorbAndOrInverse \<Rightarrow>
          (let (first, g) = append_node OrOp root (m ! 1) g in append_node AndOp root first g)
      | NotFalse \<Rightarrow> append_node ConstOp 1 NO_NODE g
      | OrComplement \<Rightarrow> append_node ConstOp 1 NO_NODE g
      | NotTrue \<Rightarrow> append_node ConstOp 0 NO_NODE g
      | AndComplement \<Rightarrow> append_node ConstOp 0 NO_NODE g
      | CommuteAnd \<Rightarrow> append_node AndOp (m ! 2) (m ! 1) g
      | CommuteOr \<Rightarrow> append_node OrOp (m ! 2) (m ! 1) g
      | AssociateAndLeft \<Rightarrow>
          (let code = (if rule_id = as_u16 AssociateAndLeft then AndOp else OrOp);
               (first, g) = append_node code (m ! 2) (m ! 3) g
           in append_node code first (m ! 4) g)
      | AssociateOrLeft \<Rightarrow>
          (let code = (if rule_id = as_u16 AssociateAndLeft then AndOp else OrOp);
               (first, g) = append_node code (m ! 2) (m ! 3) g
           in append_node code first (m ! 4) g)
      | AssociateAndRight \<Rightarrow>
          (let code = (if rule_id = as_u16 AssociateAndRight then AndOp else OrOp);
               (first, g) = append_node code (m ! 3) (m ! 4) g
           in append_node code (m ! 2) first g)
      | AssociateOrRight \<Rightarrow>
          (let code = (if rule_id = as_u16 AssociateAndRight then AndOp else OrOp);
               (first, g) = append_node code (m ! 3) (m ! 4) g
           in append_node code (m ! 2) first g)
      | DeMorganNotAnd \<Rightarrow>
          (let (na, g) = append_node NotOp (m ! 2) NO_NODE g;
               (nb, g) = append_node NotOp (m ! 3) NO_NODE g;
               code = (if rule_id = as_u16 DeMorganNotAnd then OrOp else AndOp)
           in append_node code na nb g)
      | DeMorganNotOr \<Rightarrow>
          (let (na, g) = append_node NotOp (m ! 2) NO_NODE g;
               (nb, g) = append_node NotOp (m ! 3) NO_NODE g;
               code = (if rule_id = as_u16 DeMorganNotAnd then OrOp else AndOp)
           in append_node code na nb g)
      | DeMorganOrNots \<Rightarrow>
          (let code = (if rule_id = as_u16 DeMorganOrNots then AndOp else OrOp);
               (first, g) = append_node code (m ! 3) (m ! 4) g
           in append_node NotOp first NO_NODE g)
      | DeMorganAndNots \<Rightarrow>
          (let code = (if rule_id = as_u16 DeMorganOrNots then AndOp else OrOp);
               (first, g) = append_node code (m ! 3) (m ! 4) g
           in append_node NotOp first NO_NODE g)
      | DistributeOrFactor \<Rightarrow>
          (let first_code = (if rule_id = as_u16 DistributeOrFactor then OrOp else AndOp);
               second_code = (if rule_id = as_u16 DistributeOrFactor then AndOp else OrOp);
               (first, g) = append_node first_code (m ! 4) (m ! 5) g
           in append_node second_code (m ! 3) first g)
      | DistributeAndFactor \<Rightarrow>
          (let first_code = (if rule_id = as_u16 DistributeOrFactor then OrOp else AndOp);
               second_code = (if rule_id = as_u16 DistributeOrFactor then AndOp else OrOp);
               (first, g) = append_node first_code (m ! 4) (m ! 5) g
           in append_node second_code (m ! 3) first g)
      | DistributeOrExpand \<Rightarrow>
          (let inner = (if rule_id = as_u16 DistributeOrExpand then AndOp else OrOp);
               outer = (if rule_id = as_u16 DistributeOrExpand then OrOp else AndOp);
               (first, g) = append_node inner (m ! 2) (m ! 3) g;
               (second, g) = append_node inner (m ! 2) (m ! 4) g
           in append_node outer first second g)
      | DistributeAndExpand \<Rightarrow>
          (let inner = (if rule_id = as_u16 DistributeOrExpand then AndOp else OrOp);
               outer = (if rule_id = as_u16 DistributeOrExpand then OrOp else AndOp);
               (first, g) = append_node inner (m ! 2) (m ! 3) g;
               (second, g) = append_node inner (m ! 2) (m ! 4) g
           in append_node outer first second g)
      | ConsensusOrAdd \<Rightarrow>
          (let first_code = (if rule_id = as_u16 ConsensusOrAdd then AndOp else OrOp);
               second_code = (if rule_id = as_u16 ConsensusOrAdd then OrOp else AndOp);
               (first, g) = append_node first_code (m ! 4) (m ! 5) g
           in append_node second_code root first g)
      | ConsensusAndAdd \<Rightarrow>
          (let first_code = (if rule_id = as_u16 ConsensusOrAdd then AndOp else OrOp);
               second_code = (if rule_id = as_u16 ConsensusOrAdd then OrOp else AndOp);
               (first, g) = append_node first_code (m ! 4) (m ! 5) g
           in append_node second_code root first g)
      )))"

text \<open>The loop over the old nodes; an argument array shorter than \<open>op\<close> would make it panic.\<close>

definition redirect_node :: "u32 \<Rightarrow> u32 \<Rightarrow> nat \<Rightarrow> graph_body \<Rightarrow> (graph_body, rule_error) outcome" where
  "redirect_node root replacement node g =
     obind (idx (g_op g) node) (\<lambda>code.
     obind (if code \<in> {AndOp, OrOp, NotOp, OutputOp}
            then obind (idx (g_arg0 g) node) (\<lambda>a.
                   Ok (if a = root then g \<lparr> g_arg0 := (g_arg0 g)[node := replacement] \<rparr> else g))
            else Ok g) (\<lambda>g.
     if code \<in> {AndOp, OrOp}
     then obind (idx (g_arg1 g) node) (\<lambda>b.
            Ok (if b = root then g \<lparr> g_arg1 := (g_arg1 g)[node := replacement] \<rparr> else g))
     else Ok g))"

fun redirect_loop :: "u32 \<Rightarrow> u32 \<Rightarrow> nat list \<Rightarrow> graph_body \<Rightarrow> (graph_body, rule_error) outcome" where
  "redirect_loop root replacement [] g = Ok g"
| "redirect_loop root replacement (node # nodes) g =
     obind (redirect_node root replacement node g) (redirect_loop root replacement nodes)"

definition apply_graph :: "graph_body \<Rightarrow> raw_candidate \<Rightarrow> (graph_body, rule_error) outcome" where
  "apply_graph graph candidate =
     (if length (g_op graph) \<le> unat (rc_root candidate)
      then Err (InvalidCandidate ''candidate root out of range'')
      else obind (matched_slice candidate) (\<lambda>matched.
        if list_ex (\<lambda>node. length (g_op graph) \<le> unat node) matched
        then Err (InvalidCandidate ''candidate matched node out of range'')
        else obind (build_replacement candidate graph) (\<lambda>(replacement, out).
          if unat (g_capacity out) < length (g_op out) then Err CapacityExceeded
          else obind (redirect_loop (rc_root candidate) replacement [0..<length (g_op graph)] out) (\<lambda>out.
            map_err Graph (compact_graph out)))))"

section \<open>Right-hand sides\<close>

datatype rterm = Leaf u32 | Lit bool | Neg rterm | Conj rterm rterm | Disj rterm rterm

primrec rhs :: "rule_id \<Rightarrow> u32 \<Rightarrow> u32 list \<Rightarrow> rterm" where
  "rhs AndFalse r m = Leaf (m ! 1)"
| "rhs OrTrue r m = Leaf (m ! 1)"
| "rhs AndTrue r m = Leaf (m ! 2)"
| "rhs OrFalse r m = Leaf (m ! 2)"
| "rhs AndIdempotent r m = Leaf (m ! 1)"
| "rhs OrIdempotent r m = Leaf (m ! 1)"
| "rhs AbsorbOrAnd r m = Leaf (m ! 1)"
| "rhs AbsorbAndOr r m = Leaf (m ! 1)"
| "rhs ConsensusOrRemove r m = Leaf (m ! 1)"
| "rhs ConsensusAndRemove r m = Leaf (m ! 1)"
| "rhs DoubleNegation r m = Leaf (m ! 2)"
| "rhs AndFalseInverse r m = Conj (Leaf (m ! 1)) (Leaf r)"
| "rhs AndTrueInverse r m = Conj (Leaf r) (Leaf (m ! 1))"
| "rhs OrFalseInverse r m = Disj (Leaf r) (Leaf (m ! 1))"
| "rhs OrTrueInverse r m = Disj (Leaf (m ! 1)) (Leaf r)"
| "rhs NotFalseInverse r m = Neg (Leaf (m ! 1))"
| "rhs NotTrueInverse r m = Neg (Leaf (m ! 1))"
| "rhs AndIdempotentInverse r m = Conj (Leaf r) (Leaf r)"
| "rhs OrIdempotentInverse r m = Disj (Leaf r) (Leaf r)"
| "rhs AndComplementInverse r m = Conj (Leaf (m ! 1)) (Leaf (m ! 2))"
| "rhs OrComplementInverse r m = Disj (Leaf (m ! 1)) (Leaf (m ! 2))"
| "rhs DoubleNegationInverse r m = Neg (Neg (Leaf r))"
| "rhs AbsorbOrAndInverse r m = Disj (Leaf r) (Conj (Leaf r) (Leaf (m ! 1)))"
| "rhs AbsorbAndOrInverse r m = Conj (Leaf r) (Disj (Leaf r) (Leaf (m ! 1)))"
| "rhs NotFalse r m = Lit True"
| "rhs OrComplement r m = Lit True"
| "rhs NotTrue r m = Lit False"
| "rhs AndComplement r m = Lit False"
| "rhs CommuteAnd r m = Conj (Leaf (m ! 2)) (Leaf (m ! 1))"
| "rhs CommuteOr r m = Disj (Leaf (m ! 2)) (Leaf (m ! 1))"
| "rhs AssociateAndLeft r m = Conj (Conj (Leaf (m ! 2)) (Leaf (m ! 3))) (Leaf (m ! 4))"
| "rhs AssociateAndRight r m = Conj (Leaf (m ! 2)) (Conj (Leaf (m ! 3)) (Leaf (m ! 4)))"
| "rhs DeMorganNotAnd r m = Disj (Neg (Leaf (m ! 2))) (Neg (Leaf (m ! 3)))"
| "rhs DeMorganAndNots r m = Neg (Disj (Leaf (m ! 3)) (Leaf (m ! 4)))"
| "rhs DistributeAndFactor r m = Disj (Leaf (m ! 3)) (Conj (Leaf (m ! 4)) (Leaf (m ! 5)))"
| "rhs DistributeAndExpand r m = Conj (Disj (Leaf (m ! 2)) (Leaf (m ! 3))) (Disj (Leaf (m ! 2)) (Leaf (m ! 4)))"
| "rhs ConsensusAndAdd r m = Conj (Leaf r) (Disj (Leaf (m ! 4)) (Leaf (m ! 5)))"
| "rhs AssociateOrLeft r m = Disj (Disj (Leaf (m ! 2)) (Leaf (m ! 3))) (Leaf (m ! 4))"
| "rhs AssociateOrRight r m = Disj (Leaf (m ! 2)) (Disj (Leaf (m ! 3)) (Leaf (m ! 4)))"
| "rhs DeMorganNotOr r m = Conj (Neg (Leaf (m ! 2))) (Neg (Leaf (m ! 3)))"
| "rhs DeMorganOrNots r m = Neg (Conj (Leaf (m ! 3)) (Leaf (m ! 4)))"
| "rhs DistributeOrFactor r m = Conj (Leaf (m ! 3)) (Disj (Leaf (m ! 4)) (Leaf (m ! 5)))"
| "rhs DistributeOrExpand r m = Disj (Conj (Leaf (m ! 2)) (Leaf (m ! 3))) (Conj (Leaf (m ! 2)) (Leaf (m ! 4)))"
| "rhs ConsensusOrAdd r m = Disj (Leaf r) (Conj (Leaf (m ! 4)) (Leaf (m ! 5)))"

primrec compile :: "rterm \<Rightarrow> graph_body \<Rightarrow> u32 \<times> graph_body" where
  "compile (Leaf x) g = (x, g)"
| "compile (Lit v) g = append_node ConstOp (if v then 1 else 0) NO_NODE g"
| "compile (Neg s) g = (let (x, g) = compile s g in append_node NotOp x NO_NODE g)"
| "compile (Conj s t) g =
     (let (x, g) = compile s g; (y, g) = compile t g in append_node AndOp x y g)"
| "compile (Disj s t) g =
     (let (x, g) = compile s g; (y, g) = compile t g in append_node OrOp x y g)"

primrec leaves :: "rterm \<Rightarrow> u32 set" where
  "leaves (Leaf x) = {x}"
| "leaves (Lit v) = {}"
| "leaves (Neg s) = leaves s"
| "leaves (Conj s t) = leaves s \<union> leaves t"
| "leaves (Disj s t) = leaves s \<union> leaves t"

primrec inner_nodes :: "rterm \<Rightarrow> nat" where
  "inner_nodes (Leaf x) = 0"
| "inner_nodes (Lit v) = 1"
| "inner_nodes (Neg s) = Suc (inner_nodes s)"
| "inner_nodes (Conj s t) = Suc (inner_nodes s + inner_nodes t)"
| "inner_nodes (Disj s t) = Suc (inner_nodes s + inner_nodes t)"

primrec tval :: "(u32 \<Rightarrow> bool) \<Rightarrow> rterm \<Rightarrow> bool" where
  "tval v (Leaf x) = v x"
| "tval v (Lit b) = b"
| "tval v (Neg s) = (\<not> tval v s)"
| "tval v (Conj s t) = (tval v s \<and> tval v t)"
| "tval v (Disj s t) = (tval v s \<or> tval v t)"

lemma from_u16_Ok_iff: "from_u16 w = Ok rule \<longleftrightarrow> w = as_u16 rule"
proof
  assume "from_u16 w = Ok rule"
  then have lt: "unat w < 44" and rule: "rule = rule_table ! unat w" by (simp_all add: from_u16_def split: if_splits)
  have "map as_u16 rule_table = map of_nat [0..<44]" by code_simp
  moreover have "length rule_table = 44" by (simp add: rule_table_def)
  ultimately have "as_u16 (rule_table ! unat w) = of_nat (unat w)"
    using lt by (metis add_cancel_left_left length_upt minus_nat.diff_0 nth_map nth_upt)
  with rule show "w = as_u16 rule" by simp
next
  assume "w = as_u16 rule"
  then show "from_u16 w = Ok rule" by (cases rule) (simp_all add: from_u16_def rule_table_def)
qed

lemma inverse_of_inverse [simp]: "inverse_of (inverse_of r) = r"
  by (cases r) simp_all

lemma inverse_rule_id_Some: "inverse_rule_id w = Some w' \<longleftrightarrow> (\<exists>r. w = as_u16 r \<and> w' = as_u16 (inverse_of r))"
proof -
  have "from_u16 w = Ok r \<longleftrightarrow> w = as_u16 r" for r by (rule from_u16_Ok_iff)
  then show ?thesis unfolding inverse_rule_id_def by (cases "from_u16 w") (force split: outcome.splits)+
qed

lemma rule_id_name_inj: "rule_id_name r = rule_id_name s \<longleftrightarrow> r = s"
  by (cases r; cases s; simp)

text \<open>
  The rule tables agree with each other. A number is decoded to a rule exactly when it is that
  rule's number, so encoding and decoding are inverse to each other and every other number is the
  unknown rule of the error; the inverse of a rule is symmetric, defined on exactly the same
  numbers; and the printed name identifies the rule.
\<close>

theorem rule_tables_consistent:
  "(from_u16 w = Ok r \<longleftrightarrow> w = as_u16 r) \<and> (from_u16 w = Err (UnknownRule w) \<longleftrightarrow> w \<notin> range as_u16) \<and>
   (inverse_rule_id w = Some w' \<longleftrightarrow> inverse_rule_id w' = Some w) \<and>
   (inverse_rule_id w = None \<longleftrightarrow> w \<notin> range as_u16) \<and>
   (rule_name (as_u16 r) = rule_name (as_u16 s) \<longleftrightarrow> r = s)"
proof (intro conjI)
  show "from_u16 w = Ok r \<longleftrightarrow> w = as_u16 r" by (rule from_u16_Ok_iff)
  have dec: "from_u16 w = Err (UnknownRule w) \<or> (\<exists>r. from_u16 w = Ok r)"
    by (simp add: from_u16_def)
  then show "from_u16 w = Err (UnknownRule w) \<longleftrightarrow> w \<notin> range as_u16"
    using from_u16_Ok_iff by (metis outcome.distinct(1) rangeE rangeI)
  show "inverse_rule_id w = Some w' \<longleftrightarrow> inverse_rule_id w' = Some w"
    unfolding inverse_rule_id_Some by (metis inverse_of_inverse)
  have "inverse_rule_id w = None \<longleftrightarrow> (\<nexists>w'. inverse_rule_id w = Some w')" by auto
  then show "inverse_rule_id w = None \<longleftrightarrow> w \<notin> range as_u16"
    unfolding inverse_rule_id_Some by blast
  show "rule_name (as_u16 r) = rule_name (as_u16 s) \<longleftrightarrow> r = s"
  proof -
    have "rule_name (as_u16 q) = rule_id_name q" for q
      using from_u16_Ok_iff [of "as_u16 q" q] by (simp add: rule_name_def)
    then show ?thesis by (simp add: rule_id_name_inj)
  qed
qed

lemma build_replacement_compile:
  "rc_rule c = as_u16 rule \<Longrightarrow> build_replacement c g = Ok (compile (rhs rule (rc_root c) (rc_matched c)) g)"
proof -
  assume rule: "rc_rule c = as_u16 rule"
  then have "from_u16 (rc_rule c) = Ok rule" by (simp add: from_u16_Ok_iff)
  with rule show ?thesis
    by (cases rule; simp add: build_replacement_def Let_def del: as_u16.simps split: prod.splits)
qed

lemma inner_nodes_rhs: "int (inner_nodes (rhs rule r m)) = replacement_extra_nodes rule"
  by (cases rule) simp_all

section \<open>Extending a graph\<close>

definition same_len :: "graph_body \<Rightarrow> bool" where
  "same_len g \<longleftrightarrow> length (g_arg0 g) = length (g_op g) \<and> length (g_arg1 g) = length (g_op g)"

definition extends :: "graph_body \<Rightarrow> graph_body \<Rightarrow> bool" where
  "extends h h' \<longleftrightarrow>
     length (g_op h) \<le> length (g_op h') \<and>
     (\<forall>i < length (g_op h). g_op h' ! i = g_op h ! i \<and> g_arg0 h' ! i = g_arg0 h ! i \<and>
        g_arg1 h' ! i = g_arg1 h ! i) \<and>
     g_arity h' = g_arity h \<and> g_capacity h' = g_capacity h \<and> g_output h' = g_output h"

lemma extends_refl [simp]: "extends h h"
  by (simp add: extends_def)

lemma extends_trans: "extends g h \<Longrightarrow> extends h k \<Longrightarrow> extends g k"
  by (auto simp: extends_def)

lemma extends_evals: "evals h env i b \<Longrightarrow> extends h h' \<Longrightarrow> evals h' env i b"
proof (induction rule: evals.induct)
  case (node i vs b)
  then have "succs h' i = succs h i" "node_value h' env i vs = node_value h env i vs"
    by (auto simp: extends_def succs_def args_of_def node_value_def split: op_code.splits)
  moreover have "i < length (g_op h')" using node by (simp add: extends_def)
  moreover have "list_all2 (evals h' env) (succs h i) vs"
    using node.IH node.prems by (auto elim: list_all2_mono)
  ultimately show ?case using node.hyps by (intro evals.node [where vs = vs]) simp_all
qed

lemma extends_grounded: "grounded h i \<Longrightarrow> extends h h' \<Longrightarrow> grounded h' i"
  using extends_evals grounded_iff_evals by blast

lemma append_node_spec:
  assumes "append_node code a b h = (x, h')" "same_len h"
  shows "extends h h'" "same_len h'" "length (g_op h') = Suc (length (g_op h))"
    "x = of_nat (length (g_op h))" "g_op h' ! length (g_op h) = code"
    "g_arg0 h' ! length (g_op h) = a" "g_arg1 h' ! length (g_op h) = b"
  using assms by (auto simp: append_node_def same_len_def extends_def nth_append)

lemma append_node_grounded:
  assumes "append_node code a b h = (x, h')" "same_len h"
    "length (g_op h) < 65536" "evals h' env (unat x) c"
    "\<forall>i. n \<le> i \<and> i < length (g_op h) \<longrightarrow> grounded h i"
  shows "\<forall>i. n \<le> i \<and> i < length (g_op h') \<longrightarrow> grounded h' i"
proof -
  note app = append_node_spec [OF assms(1,2)]
  have "grounded h' (length (g_op h))"
    using evals_grounded [OF assms(4)] app(4) assms(3) by simp
  then show ?thesis
    using assms(5) extends_grounded [OF _ app(1)] app(3) by (auto simp: less_Suc_eq)
qed

lemma append_node_evals:
  assumes "append_node code a b h = (x, h')" "same_len h" "length (g_op h) < 65536"
  shows "code = ConstOp \<Longrightarrow> evals h' env (unat x) (a \<noteq> 0)"
    "code = NotOp \<Longrightarrow> evals h env (unat a) u \<Longrightarrow> evals h' env (unat x) (\<not> u)"
    "code = AndOp \<Longrightarrow> evals h env (unat a) u \<Longrightarrow> evals h env (unat b) w \<Longrightarrow> evals h' env (unat x) (u \<and> w)"
    "code = OrOp \<Longrightarrow> evals h env (unat a) u \<Longrightarrow> evals h env (unat b) w \<Longrightarrow> evals h' env (unat x) (u \<or> w)"
proof -
  note app = append_node_spec [OF assms(1,2)]
  have x: "unat x = length (g_op h)" using app(4) assms(3) by simp
  have old: "evals h env i c \<Longrightarrow> evals h' env i c" for i c using extends_evals app(1) by blast
  show "code = ConstOp \<Longrightarrow> evals h' env (unat x) (a \<noteq> 0)"
    unfolding x using evals_constI [of "length (g_op h)" h' env] app(3,5,6) by simp
  show "code = NotOp \<Longrightarrow> evals h env (unat a) u \<Longrightarrow> evals h' env (unat x) (\<not> u)"
    unfolding x using app(3,5,6) old by (intro evals_notI) auto
  show "code = AndOp \<Longrightarrow> evals h env (unat a) u \<Longrightarrow> evals h env (unat b) w \<Longrightarrow> evals h' env (unat x) (u \<and> w)"
    unfolding x using app(3,5,6,7) old by (intro evals_andI) auto
  show "code = OrOp \<Longrightarrow> evals h env (unat a) u \<Longrightarrow> evals h env (unat b) w \<Longrightarrow> evals h' env (unat x) (u \<or> w)"
    unfolding x using app(3,5,6,7) old by (intro evals_orI) auto
qed

section \<open>Compiling a right-hand side\<close>

lemma compile_shape:
  assumes "compile t h = (x, h')" "same_len h"
  shows "extends h h' \<and> same_len h' \<and> length (g_op h') = length (g_op h) + inner_nodes t"
  using assms
proof (induction t arbitrary: h x h')
  case (Lit v)
  then show ?case using append_node_spec [OF Lit.prems [simplified]] by simp
next
  case (Neg s)
  obtain y k where s: "compile s h = (y, k)" by fastforce
  with Neg.prems have "append_node NotOp y NO_NODE k = (x, h')" by simp
  with Neg.IH [OF s Neg.prems(2)] show ?case
    using append_node_spec [of NotOp y NO_NODE k x h'] by (auto intro: extends_trans)
next
  case (Conj s t)
  obtain y k where s: "compile s h = (y, k)" by fastforce
  obtain z l where t: "compile t k = (z, l)" by fastforce
  have app: "append_node AndOp y z l = (x, h')" using Conj.prems s t by simp
  show ?case
    using Conj.IH(1) [OF s Conj.prems(2)] Conj.IH(2) [OF t] append_node_spec [OF app]
    by (auto intro: extends_trans)
next
  case (Disj s t)
  obtain y k where s: "compile s h = (y, k)" by fastforce
  obtain z l where t: "compile t k = (z, l)" by fastforce
  have app: "append_node OrOp y z l = (x, h')" using Disj.prems s t by simp
  show ?case
    using Disj.IH(1) [OF s Disj.prems(2)] Disj.IH(2) [OF t] append_node_spec [OF app]
    by (auto intro: extends_trans)
qed simp

lemma compile_evals:
  assumes "compile t h = (x, h')" "same_len h" "length (g_op h) + inner_nodes t < 65536"
    "\<forall>y \<in> leaves t. evals h env (unat y) (v y)"
  shows "evals h' env (unat x) (tval v t) \<and>
    (\<forall>i. length (g_op h) \<le> i \<and> i < length (g_op h') \<longrightarrow> grounded h' i)"
  using assms
proof (induction t arbitrary: h x h')
  case (Lit b)
  then have app: "append_node ConstOp (if b then 1 else 0) NO_NODE h = (x, h')" by simp
  have ev: "evals h' env (unat x) b"
    using append_node_evals(1) [OF app Lit.prems(2), of env] Lit.prems(3) by (cases b) auto
  have none: "\<forall>i. length (g_op h) \<le> i \<and> i < length (g_op h) \<longrightarrow> grounded h i"
    using leD by blast
  from ev show ?case
    using append_node_grounded [OF app Lit.prems(2) _ ev none] Lit.prems(3) by simp
next
  case (Neg s)
  obtain y k where s: "compile s h = (y, k)" by fastforce
  with Neg.prems have app: "append_node NotOp y NO_NODE k = (x, h')" by simp
  have k: "same_len k" "length (g_op k) < 65536" "extends h k"
    using compile_shape [OF s Neg.prems(2)] Neg.prems(3) by simp_all
  have IH: "evals k env (unat y) (tval v s)" "\<forall>i. length (g_op h) \<le> i \<and> i < length (g_op k) \<longrightarrow> grounded k i"
    using Neg.IH [OF s Neg.prems(2)] Neg.prems(3,4) by simp_all
  have ev: "evals h' env (unat x) (\<not> tval v s)"
    using append_node_evals(2) [OF app k(1,2)] IH(1) by simp
  then show ?case using append_node_grounded [OF app k(1,2) ev IH(2)] by simp
next
  case (Conj s t)
  obtain y k where s: "compile s h = (y, k)" by fastforce
  obtain z l where t: "compile t k = (z, l)" by fastforce
  have app: "append_node AndOp y z l = (x, h')" using Conj.prems s t by simp
  note k = compile_shape [OF s Conj.prems(2)]
  note l = compile_shape [OF t conjunct1 [OF conjunct2 [OF k]]]
  have IH1: "evals k env (unat y) (tval v s)" "\<forall>i. length (g_op h) \<le> i \<and> i < length (g_op k) \<longrightarrow> grounded k i"
    using Conj.IH(1) [OF s Conj.prems(2)] Conj.prems(3,4) by simp_all
  have lv: "\<forall>y \<in> leaves t. evals k env (unat y) (v y)"
    using Conj.prems(4) k by (auto intro: extends_evals)
  have IH2: "evals l env (unat z) (tval v t)" "\<forall>i. length (g_op k) \<le> i \<and> i < length (g_op l) \<longrightarrow> grounded l i"
    using Conj.IH(2) [OF t _ _ lv] k Conj.prems(3) by simp_all
  have gr: "\<forall>i. length (g_op h) \<le> i \<and> i < length (g_op l) \<longrightarrow> grounded l i"
    using IH1(2) IH2(2) l extends_grounded by (meson not_le_imp_less)
  have ev: "evals h' env (unat x) (tval v s \<and> tval v t)"
    using append_node_evals(3) [OF app _ _ _ extends_evals [OF IH1(1)] IH2(1)] k l Conj.prems(3) by simp
  then show ?case using append_node_grounded [OF app _ _ ev gr] k l Conj.prems(3) by simp
next
  case (Disj s t)
  obtain y k where s: "compile s h = (y, k)" by fastforce
  obtain z l where t: "compile t k = (z, l)" by fastforce
  have app: "append_node OrOp y z l = (x, h')" using Disj.prems s t by simp
  note k = compile_shape [OF s Disj.prems(2)]
  note l = compile_shape [OF t conjunct1 [OF conjunct2 [OF k]]]
  have IH1: "evals k env (unat y) (tval v s)" "\<forall>i. length (g_op h) \<le> i \<and> i < length (g_op k) \<longrightarrow> grounded k i"
    using Disj.IH(1) [OF s Disj.prems(2)] Disj.prems(3,4) by simp_all
  have lv: "\<forall>y \<in> leaves t. evals k env (unat y) (v y)"
    using Disj.prems(4) k by (auto intro: extends_evals)
  have IH2: "evals l env (unat z) (tval v t)" "\<forall>i. length (g_op k) \<le> i \<and> i < length (g_op l) \<longrightarrow> grounded l i"
    using Disj.IH(2) [OF t _ _ lv] k Disj.prems(3) by simp_all
  have gr: "\<forall>i. length (g_op h) \<le> i \<and> i < length (g_op l) \<longrightarrow> grounded l i"
    using IH1(2) IH2(2) l extends_grounded by (meson not_le_imp_less)
  have ev: "evals h' env (unat x) (tval v s \<or> tval v t)"
    using append_node_evals(4) [OF app _ _ _ extends_evals [OF IH1(1)] IH2(1)] k l Disj.prems(3) by simp
  then show ?case using append_node_grounded [OF app _ _ ev gr] k l Disj.prems(3) by simp
qed (auto dest: leD)

section \<open>Redirection\<close>

definition redirected :: "nat \<Rightarrow> u32 \<Rightarrow> u32 \<Rightarrow> graph_body \<Rightarrow> graph_body" where
  "redirected k root p g = g
     \<lparr> g_arg0 := map (\<lambda>i. if i < k \<and> g_op g ! i \<in> {AndOp, OrOp, NotOp, OutputOp} \<and> g_arg0 g ! i = root
          then p else g_arg0 g ! i) [0..<length (g_op g)],
       g_arg1 := map (\<lambda>i. if i < k \<and> g_op g ! i \<in> {AndOp, OrOp} \<and> g_arg1 g ! i = root
          then p else g_arg1 g ! i) [0..<length (g_op g)] \<rparr>"

lemma redirected_simps [simp]:
  "g_op (redirected k root p g) = g_op g" "g_arity (redirected k root p g) = g_arity g"
  "g_capacity (redirected k root p g) = g_capacity g" "g_output (redirected k root p g) = g_output g"
  "same_len (redirected k root p g)"
  by (simp_all add: redirected_def same_len_def)

lemma redirected_0:
  assumes "same_len g"
  shows "redirected 0 root p g = g"
proof -
  have "map ((!) (g_arg0 g)) [0..<length (g_op g)] = g_arg0 g"
    "map ((!) (g_arg1 g)) [0..<length (g_op g)] = g_arg1 g"
    using assms by (metis map_nth same_len_def)+
  then show ?thesis by (simp add: redirected_def)
qed

lemma redirect_node_step:
  assumes "same_len g" "k < length (g_op g)"
  shows "redirect_node root p k (redirected k root p g) = Ok (redirected (Suc k) root p g)"
proof -
  have upd: "(map f [0..<n])[k := v] = map (f(k := v)) [0..<n]" for f :: "nat \<Rightarrow> u32" and n v
    by (rule nth_equalityI) (auto simp: nth_list_update)
  show ?thesis
    using assms by (auto simp: redirect_node_def redirected_def upd less_Suc_eq fun_eq_iff intro!: map_cong)
qed

lemma redirect_loop_eq:
  assumes "same_len g" "k \<le> length (g_op g)"
  shows "redirect_loop root p [0..<k] g = Ok (redirected k root p g)"
proof -
  have app: "redirect_loop root p (xs @ ys) h = obind (redirect_loop root p xs h) (redirect_loop root p ys)" for xs ys h
  proof (induction xs arbitrary: h)
    case (Cons x xs)
    then show ?case by (cases "redirect_node root p x h") simp_all
  qed simp
  show ?thesis using assms(2)
  proof (induction k)
    case 0
    then show ?case using assms(1) by (simp add: redirected_0)
  next
    case (Suc k)
    then show ?case using assms(1) by (simp add: app redirect_node_step)
  qed
qed

lemma redirected_append:
  assumes "same_len g" "k \<le> length (g_op g)"
  shows "append_node code a b (redirected k root p g) =
    (fst (append_node code a b g), redirected k root p (snd (append_node code a b g)))"
  using assms
  by (auto simp: append_node_def redirected_def same_len_def nth_append intro!: graph_body.equality)

lemma redirected_compile:
  assumes "same_len g" "k \<le> length (g_op g)"
  shows "compile t (redirected k root p g) = (fst (compile t g), redirected k root p (snd (compile t g)))"
  using assms
proof (induction t arbitrary: g)
  case (Neg s)
  obtain y h where s: "compile s g = (y, h)" by fastforce
  with compile_shape [OF s] Neg show ?case by (simp add: redirected_append)
next
  case (Conj s t)
  obtain y h where s: "compile s g = (y, h)" by fastforce
  obtain z l where t: "compile t h = (z, l)" by fastforce
  show ?case
    using Conj s t compile_shape [OF s] compile_shape [OF t] by (simp add: redirected_append)
next
  case (Disj s t)
  obtain y h where s: "compile s g = (y, h)" by fastforce
  obtain z l where t: "compile t h = (z, l)" by fastforce
  show ?case
    using Disj s t compile_shape [OF s] compile_shape [OF t] by (simp add: redirected_append)
qed (simp_all add: redirected_append)

text \<open>
  The nodes that do not depend on the root are untouched by the redirection. They contain the root
  itself and everything below it, since the circuit has no cycle.
\<close>

definition independent :: "graph_body \<Rightarrow> u32 \<Rightarrow> nat set" where
  "independent g root = {i. i < length (g_op g) \<and> (i, unat root) \<notin> (child g)\<^sup>+}"

lemma independent_hom:
  assumes "same_len g" "well_founded g"
  shows "graph_hom g (redirected (length (g_op g)) root p g) (independent g root) id"
proof -
  have "succs (redirected (length (g_op g)) root p g) i = succs g i \<and> set (succs g i) \<subseteq> independent g root"
    if i: "i \<in> independent g root" for i
  proof
    have lt: "i < length (g_op g)" and indep: "(i, unat root) \<notin> (child g)\<^sup>+"
      using i by (simp_all add: independent_def)
    have no_root: "unat root \<notin> set (succs g i)"
      using lt indep by (auto simp: child_def)
    then have "root \<notin> set (args_of g i)" by (auto simp: succs_def)
    then show "succs (redirected (length (g_op g)) root p g) i = succs g i"
      using lt by (cases "g_op g ! i") (auto simp: succs_def args_of_def redirected_def)
    have "grounded g i" using assms(2) lt by (simp add: well_founded_def)
    then show "set (succs g i) \<subseteq> independent g root"
      using lt indep grounded_in_range grounded_succ
      by (auto simp: independent_def child_def intro: trancl_into_trancl2)
  qed
  moreover have "g_arg0 (redirected (length (g_op g)) root p g) ! i = g_arg0 g ! i"
    if "i < length (g_op g)" "g_op g ! i = InputOp \<or> g_op g ! i = ConstOp" for i
    using that by (auto simp: redirected_def)
  ultimately show ?thesis
    by (auto simp: graph_hom_def independent_def)
qed

lemma redirected_succs:
  assumes "extends g h" "i < length (g_op g)"
  shows "succs (redirected (length (g_op g)) root p h) i =
    map (\<lambda>j. if j = unat root then unat p else j) (succs g i)"
proof -
  have "g_op h ! i = g_op g ! i" "g_arg0 h ! i = g_arg0 g ! i" "g_arg1 h ! i = g_arg1 g ! i" "i < length (g_op h)"
    using assms by (auto simp: extends_def)
  then show ?thesis
    using assms(2) by (cases "g_op g ! i") (auto simp: succs_def args_of_def redirected_def unat_u32_inj)
qed

lemma redirected_node_value:
  assumes "extends g h" "i < length (g_op g)"
  shows "node_value (redirected (length (g_op g)) root p h) env i vs = node_value g env i vs"
proof -
  have "g_op h ! i = g_op g ! i" "g_arg0 h ! i = g_arg0 g ! i" "i < length (g_op h)"
    using assms by (auto simp: extends_def)
  then show ?thesis
    using assms(2) by (cases "g_op g ! i") (auto simp: node_value_def redirected_def)
qed

lemma redirected_evals:
  assumes "extends g h" "evals g env i b"
    and repl: "\<And>c. evals g env (unat root) c \<Longrightarrow> evals (redirected (length (g_op g)) root p h) env (unat p) c"
  shows "evals (redirected (length (g_op g)) root p h) env i b"
  using assms(2)
proof (induction rule: evals.induct)
  case (node i vs b)
  let ?out = "redirected (length (g_op g)) root p h"
  have "list_all2 (evals ?out env) (succs ?out i) vs"
    using node.IH repl unfolding redirected_succs [OF assms(1) node.hyps(1)] list_all2_map1
    by (auto elim!: list_all2_mono)
  moreover have "i < length (g_op ?out)" using node.hyps(1) assms(1) by (simp add: extends_def)
  ultimately show ?case
    using node.hyps redirected_node_value [OF assms(1) node.hyps(1)] by (intro evals.node [where vs = vs]) simp_all
qed

section \<open>Each rule is a Boolean identity\<close>

text \<open>A valuation of the nodes that obeys the equations of the circuit.\<close>

definition models :: "graph_body \<Rightarrow> (u32 \<Rightarrow> bool) \<Rightarrow> bool" where
  "models g v \<longleftrightarrow>
     (\<forall>x a b. bin g AndOp x a b \<longrightarrow> v x = (v a \<and> v b)) \<and>
     (\<forall>x a b. bin g OrOp x a b \<longrightarrow> v x = (v a \<or> v b)) \<and>
     (\<forall>x a. neg g x a \<longrightarrow> v x = (\<not> v a)) \<and>
     (\<forall>x c. konst g x c \<longrightarrow> v x = c)"

lemma modelsD:
  assumes "models g v"
  shows "bin g AndOp x a b \<Longrightarrow> v x = (v a \<and> v b)" "bin g OrOp x a b \<Longrightarrow> v x = (v a \<or> v b)"
    "bin2 g AndOp x a b \<Longrightarrow> v x = (v a \<and> v b)" "bin2 g OrOp x a b \<Longrightarrow> v x = (v a \<or> v b)"
    "neg g x a \<Longrightarrow> v x = (\<not> v a)" "konst g x c \<Longrightarrow> v x = c" "first_konst g x c \<Longrightarrow> v x = c"
  using assms unfolding models_def bin2_def first_konst_def by blast+

lemma matched_nth [simp]:
  "i \<le> length re \<Longrightarrow> rc_matched (make_candidate ru ro re) ! i = (ro # re) ! i"
  by (auto simp: make_candidate_def nth_append nth_Cons split: nat.splits)

lemma rhs_sound:
  assumes "rule_match g ru ro re" "models g v"
  shows "tval v (rhs ru ro (rc_matched (make_candidate ru ro re))) = v ro"
  using assms(1) by cases (use modelsD [OF assms(2)] in simp_all, blast+)

lemma rhs_leaves:
  assumes "rule_match g ru ro re"
  shows "leaves (rhs ru ro (rc_matched (make_candidate ru ro re))) \<subseteq> set (ro # re)"
  using assms by cases simp_all

definition value_of :: "graph_body \<Rightarrow> (u32 \<Rightarrow> bool) \<Rightarrow> u32 \<Rightarrow> bool" where
  "value_of g env x = (THE b. evals g env (unat x) b)"

lemma value_of_eq: "evals g env (unat x) b \<Longrightarrow> value_of g env x = b"
  unfolding value_of_def by (rule the_equality, assumption) (rule evals_det)

lemma value_of_evals:
  assumes "well_founded g" "unat x < length (g_op g)"
  shows "evals g env (unat x) (value_of g env x)"
  using assms grounded_evals [of g "unat x" env] value_of_eq [of g env x] by (auto simp: well_founded_def)

lemma value_of_models:
  assumes "well_founded g"
  shows "models g (value_of g env)"
proof -
  note ev = value_of_evals [OF assms, where env = env]
  show ?thesis
    unfolding models_def
  proof (intro conjI allI impI)
    fix x a b assume bin: "bin g AndOp x a b"
    then have "evals g env (unat x) (value_of g env a \<and> value_of g env b)"
      using evals_andI [of "unat x" g env "value_of g env a" "value_of g env b"] ev [of a] ev [of b]
      by (simp add: bin_def signal_ref_def)
    then show "value_of g env x = (value_of g env a \<and> value_of g env b)" by (rule value_of_eq)
  next
    fix x a b assume bin: "bin g OrOp x a b"
    then have "evals g env (unat x) (value_of g env a \<or> value_of g env b)"
      using evals_orI [of "unat x" g env "value_of g env a" "value_of g env b"] ev [of a] ev [of b]
      by (simp add: bin_def signal_ref_def)
    then show "value_of g env x = (value_of g env a \<or> value_of g env b)" by (rule value_of_eq)
  next
    fix x a assume neg: "neg g x a"
    then have "evals g env (unat x) (\<not> value_of g env a)"
      using evals_notI [of "unat x" g env "value_of g env a"] ev [of a]
      by (simp add: neg_def signal_ref_def)
    then show "value_of g env x = (\<not> value_of g env a)" by (rule value_of_eq)
  next
    fix x c assume c: "konst g x c"
    then have "evals g env (unat x) (g_arg0 g ! unat x \<noteq> 0)"
      by (intro evals_constI) (simp_all add: konst_def)
    then show "value_of g env x = c" using c value_of_eq by (simp add: konst_def)
  qed
qed

section \<open>Matched nodes do not depend on the root\<close>

definition below :: "graph_body \<Rightarrow> u32 \<Rightarrow> u32 \<Rightarrow> bool" where
  "below g r x \<longleftrightarrow> (unat r, unat x) \<in> (child g)\<^sup>*"

lemma below_step:
  "below g r x \<Longrightarrow> bin g AndOp x a b \<Longrightarrow> below g r a \<and> below g r b"
  "below g r x \<Longrightarrow> bin g OrOp x a b \<Longrightarrow> below g r a \<and> below g r b"
  "below g r x \<Longrightarrow> bin2 g AndOp x a b \<Longrightarrow> below g r a \<and> below g r b"
  "below g r x \<Longrightarrow> bin2 g OrOp x a b \<Longrightarrow> below g r a \<and> below g r b"
  "below g r x \<Longrightarrow> neg g x a \<Longrightarrow> below g r a"
  by (auto simp: below_def bin2_def bin_def neg_def child_def succs_simps intro!: rtrancl_into_rtrancl [of _ "unat x"])

lemma below_refl [simp]: "below g r r"
  by (simp add: below_def)

lemma matched_below:
  assumes "rule_match g ru ro re" "ru \<noteq> AndComplementInverse" "ru \<noteq> OrComplementInverse" "y \<in> set (ro # re)"
  shows "below g ro y \<or> (\<exists>c. konst g y c)"
  using assms by cases (auto simp: first_konst_def dest: below_step [OF below_refl] below_step)

lemma below_independent:
  assumes "well_founded g" "unat ro < length (g_op g)" "below g ro y"
  shows "unat y \<in> independent g ro"
proof -
  have gr: "grounded g (unat ro)" using assms by (simp add: well_founded_def)
  then have "unat y < length (g_op g)"
    using assms(3) grounded_rtrancl grounded_in_range unfolding below_def by blast
  moreover have "(unat y, unat ro) \<notin> (child g)\<^sup>+"
    using grounded_no_cycle [OF gr] assms(3) unfolding below_def by (meson rtrancl_trancl_trancl)
  ultimately show ?thesis by (simp add: independent_def)
qed

lemma konst_independent: "konst g y c \<Longrightarrow> unat y \<in> independent g ro"
  by (auto simp: independent_def konst_def child_def succs_simps dest: tranclD)

section \<open>Application\<close>

lemma redirected_valid:
  assumes "valid_graph g" "extends g h" "length (g_op h) \<le> unat (g_capacity g)"
  shows "valid_graph (redirected (length (g_op g)) root p h)"
proof -
  note valid = valid_graphD [OF assms(1)]
  have len: "length (g_op g) \<le> length (g_op h)" using assms(2) by (simp add: extends_def)
  have "g_op h ! i = InputOp \<and> g_arg0 h ! i = of_nat i" if "i < unat (g_arity g)" for i
    using that valid(5-7) assms(2) by (simp add: extends_def)
  moreover have "0 < length (g_op h)" using len valid(4) by linarith
  ultimately show ?thesis
    using valid(4,5) len assms(2,3) unfolding valid_graph_def
    by (auto simp: extends_def redirected_def)
qed

text \<open>The graph that \<open>apply_graph\<close> compacts.\<close>

definition rewritten :: "graph_body \<Rightarrow> raw_candidate \<Rightarrow> rule_id \<Rightarrow> graph_body" where
  "rewritten g c ru =
     (let (p, h) = compile (rhs ru (rc_root c) (rc_matched c)) g
      in redirected (length (g_op g)) (rc_root c) p h)"

lemma matched_in_range:
  assumes "rule_match g ru ro re" "y \<in> set (ro # re)"
  shows "unat y < length (g_op g)"
  using assms by cases (auto simp: bin2_def first_konst_def konst_def neg_def bin_def signal_ref_def)

lemma make_candidate_simps [simp]:
  "rc_rule (make_candidate ru ro re) = as_u16 ru" "rc_root (make_candidate ru ro re) = ro"
  by (simp_all add: make_candidate_def)

lemma matched_slice_make:
  assumes "length re < MAX_MATCHED"
  shows "matched_slice (make_candidate ru ro re) = Ok (ro # re)"
proof -
  have "unat (of_nat (length re + 1) :: u8) = length re + 1"
    using assms by (simp add: unat_of_nat take_bit_nat_eq_self MAX_MATCHED_def del: of_nat_Suc)
  then show ?thesis using assms by (simp add: matched_slice_def make_candidate_def)
qed

lemma apply_graph_eq:
  assumes "valid_graph g" "rule_match g ru ro re"
    "int (length (g_op g)) + replacement_extra_nodes ru \<le> int (unat (g_capacity g))"
  shows "apply_graph g (make_candidate ru ro re) = map_err Graph (compact_graph (rewritten g (make_candidate ru ro re) ru))"
    "valid_graph (rewritten g (make_candidate ru ro re) ru)"
proof -
  let ?c = "make_candidate ru ro re"
  obtain p h where ph: "compile (rhs ru ro (rc_matched ?c)) g = (p, h)" by fastforce
  have same: "same_len g" using valid_graphD(1,2) [OF assms(1)] by (simp add: same_len_def)
  note shape = compile_shape [OF ph same]
  have len: "int (length (g_op h)) = int (length (g_op g)) + replacement_extra_nodes ru"
    using shape inner_nodes_rhs [of ru ro "rc_matched ?c"] by simp
  then have cap: "length (g_op h) \<le> unat (g_capacity g)" using assms(3) by linarith
  have range: "\<forall>y \<in> set (ro # re). unat y < length (g_op g)" using matched_in_range [OF assms(2)] by blast
  have "redirect_loop ro p [0..<length (g_op g)] h = Ok (redirected (length (g_op g)) ro p h)"
    using shape by (intro redirect_loop_eq) (simp_all add: extends_def)
  moreover have "build_replacement ?c g = Ok (p, h)"
    using build_replacement_compile [of ?c ru g] ph by simp
  moreover have "g_capacity h = g_capacity g" using shape by (simp add: extends_def)
  moreover have "(matched_slice ?c :: (u32 list, rule_error) outcome) = Ok (ro # re)"
    by (rule matched_slice_make [OF rule_match_length [OF assms(2)]])
  ultimately show "apply_graph g ?c = map_err Graph (compact_graph (rewritten g ?c ru))"
    using range cap by (auto simp: apply_graph_def rewritten_def ph list_ex_iff not_le)
  show "valid_graph (rewritten g ?c ru)"
    using redirected_valid [OF assms(1) _ cap] shape by (simp add: rewritten_def ph)
qed

end
