(* ===== verification/Whittle_Rewrite.thy ===== *)
theory Whittle_Rewrite
  imports Whittle_Apply
begin

text \<open>
  The correctness of rewriting: applying an enumerated candidate with \<open>apply_graph\<close> (\<open>rules.rs\<close>)
  yields a valid, acyclic circuit of the same Boolean function, with one family of exceptions. A
  complement-inverse candidate whose witness depends on its root closes a cycle; the exact condition
  is proved.
\<close>

text \<open>
  The heart of the matter: when the matched nodes do not depend on the root, the rewritten graph
  has the old nodes with their old values, and every new node has a value too.
\<close>

lemma rewritten_sound:
  assumes g: "valid_graph g" "well_founded g" and match: "rule_match g ru ro re"
    and fits: "int (length (g_op g)) + replacement_extra_nodes ru \<le> int (unat (g_capacity g))"
    and indep: "\<forall>y \<in> set (ro # re). unat y \<in> independent g ro"
  defines "out \<equiv> rewritten g (make_candidate ru ro re) ru"
  shows "well_founded out" "\<And>env i b. evals g env i b \<Longrightarrow> evals out env i b"
    "g_output out = g_output g" "g_arity out = g_arity g" "g_capacity out = g_capacity g"
proof -
  let ?t = "rhs ru ro (rc_matched (make_candidate ru ro re))"
  obtain p h where ph: "compile ?t g = (p, h)" by fastforce
  have same: "same_len g" using valid_graphD(1,2) [OF g(1)] by (simp add: same_len_def)
  note shape = compile_shape [OF ph same]
  have out: "out = redirected (length (g_op g)) ro p h" by (simp add: out_def rewritten_def ph)
  let ?g0 = "redirected (length (g_op g)) ro p g"
  have comp: "compile ?t ?g0 = (p, out)"
    using redirected_compile [OF same order_refl] ph by (simp add: out)
  have small: "length (g_op ?g0) + inner_nodes ?t < 65536"
  proof -
    have "length (g_op g) + inner_nodes ?t \<le> unat (g_capacity g)"
      using fits inner_nodes_rhs [of ru ro "rc_matched (make_candidate ru ro re)"] by linarith
    moreover have "unat (g_capacity g) < 2 ^ LENGTH(16)" by (rule unsigned_less)
    ultimately show ?thesis by simp
  qed
  have leaves: "\<forall>y \<in> leaves ?t. evals ?g0 env (unat y) (value_of g env y)" for env
  proof
    fix y assume "y \<in> leaves ?t"
    then have y: "y \<in> set (ro # re)" using rhs_leaves [OF match] by blast
    with indep have "unat y \<in> independent g ro" by blast
    from graph_hom_evals [OF independent_hom [OF same g(2)] this]
    show "evals ?g0 env (unat y) (value_of g env y)"
      using value_of_evals [OF g(2) matched_in_range [OF match y]] by (simp only: id_apply)
  qed
  have new: "evals out env (unat p) (tval (value_of g env) ?t)" for env
    using conjunct1 [OF compile_evals [OF comp redirected_simps(5) small leaves]] .
  have new_grounded: "\<forall>i. length (g_op g) \<le> i \<and> i < length (g_op out) \<longrightarrow> grounded out i"
    using conjunct2 [OF compile_evals [OF comp redirected_simps(5) small leaves]]
    unfolding redirected_simps(1) .
  have old: "evals out env i b" if "evals g env i b" for env i b
  proof -
    have repl: "evals out env (unat p) c" if "evals g env (unat ro) c" for c
      using new [of env] unfolding rhs_sound [OF match value_of_models [OF g(2)]] value_of_eq [OF that] .
    show ?thesis
      unfolding out by (rule redirected_evals [OF conjunct1 [OF shape] that]) (rule repl [unfolded out])
  qed
  then show "\<And>env i b. evals g env i b \<Longrightarrow> evals out env i b" .
  show "well_founded out"
    unfolding well_founded_def
  proof (intro allI impI)
    fix i assume i: "i < length (g_op out)"
    show "grounded out i"
    proof (cases "i < length (g_op g)")
      case True
      then have "grounded g i" using g(2) by (simp add: well_founded_def)
      then show ?thesis using old grounded_iff_evals by blast
    qed (use new_grounded i not_le in blast)
  qed
  show "g_output out = g_output g" "g_arity out = g_arity g" "g_capacity out = g_capacity g"
    using shape by (simp_all add: out extends_def)
qed

section \<open>Applying an enumerated candidate\<close>

lemma matched_independent:
  assumes g: "valid_graph g" "well_founded g" and match: "rule_match g ru ro re"
    and comp: "ru \<in> {AndComplementInverse, OrComplementInverse} \<Longrightarrow> (unat (re ! 1), unat ro) \<notin> (child g)\<^sup>+"
  shows "\<forall>y \<in> set (ro # re). unat y \<in> independent g ro"
proof (cases "ru \<in> {AndComplementInverse, OrComplementInverse}")
  case False
  have "unat ro < length (g_op g)" using matched_in_range [OF match] by simp
  then show ?thesis
    using False matched_below [OF match] below_independent [OF g(2)] konst_independent by blast
next
  case True
  then obtain a w c where re: "re = [a, w]" and w: "neg g w a" and ro: "konst g ro c"
    using match by (auto simp: rule_match_simps)
  have "(unat w, unat a) \<in> child g" using w by (simp add: neg_def child_def succs_simps)
  then have "(unat a, unat ro) \<notin> (child g)\<^sup>+"
    using comp [OF True] re by (auto intro: trancl_into_trancl2)
  then show ?thesis
    using comp [OF True] re neg_in_range [OF w] konst_independent [OF ro]
    by (simp add: independent_def)
qed

lemma well_founded_closed: "well_founded g \<Longrightarrow> unat (g_output g) < length (g_op g) \<Longrightarrow> closed_refs g"
  using grounded_rtrancl grounded_in_range unfolding well_founded_def closed_refs_def reach_def by blast

lemma enumerated_cases:
  assumes "valid_graph g" "enumerate_graph g inc = Ok cs" "c \<in> set cs"
  obtains ru ro re where "c = make_candidate ru ro re" "rule_match g ru ro re"
    "int (length (g_op g)) + replacement_extra_nodes ru \<le> int (unat (g_capacity g))"
proof (rule enumerate_spec [OF assms(1), of inc])
  fix ds
  assume "enumerate_graph g inc = Ok ds" "set ds = {make_candidate ru ro re | ru ro re. rule_match g ru ro re \<and>
       (inc \<or> \<not> reverse_constant_folding_rule ru) \<and>
       int (length (g_op g)) + replacement_extra_nodes ru \<le> int (unat (g_capacity g))}"
  with assms(2,3) that show thesis by auto
qed

lemma apply_sound:
  assumes g: "valid_graph g" "well_founded g" and match: "rule_match g ru ro re"
    and fits: "int (length (g_op g)) + replacement_extra_nodes ru \<le> int (unat (g_capacity g))"
    and comp: "ru \<in> {AndComplementInverse, OrComplementInverse} \<Longrightarrow> (unat (re ! 1), unat ro) \<notin> (child g)\<^sup>+"
  shows "\<exists>g'. apply_graph g (make_candidate ru ro re) = Ok g' \<and> compact_form g' \<and> well_founded g' \<and>
    g_arity g' = g_arity g \<and> g_capacity g' = g_capacity g \<and>
    (\<forall>env b. denotes g' env b \<longleftrightarrow> denotes g env b)"
proof -
  let ?out = "rewritten g (make_candidate ru ro re) ru"
  have indep: "\<forall>y \<in> set (ro # re). unat y \<in> independent g ro"
    by (rule matched_independent [OF g match]) (rule comp)
  note out = rewritten_sound [OF g match fits indep]
  note eq = apply_graph_eq [OF g(1) match fits]
  have "closed_refs ?out"
    using well_founded_closed [OF out(1)] valid_graphD(4) [OF eq(2)] by blast
  from eq(2) this obtain g' f where g': "compact_graph ?out = Ok g'"
    by (rule compact_graph_spec)
  note res = compact_result [OF g']
  have "denotes ?out env b \<longleftrightarrow> denotes g env b" for env b
  proof -
    obtain c where "denotes g env c"
      using g(2) valid_graphD(4) [OF g(1)] grounded_evals unfolding denotes_def well_founded_def by blast
    moreover from this have "denotes ?out env c"
      unfolding denotes_def out(3) by (rule out(2))
    ultimately show ?thesis unfolding denotes_def using evals_det by blast
  qed
  moreover have "well_founded g'"
    using res(6) out(1) valid_graphD(4) [OF eq(2)] grounded_rtrancl
    unfolding well_founded_def reach_def by blast
  ultimately show ?thesis
    using eq(1) g' res(1-5) out(4,5) by auto
qed

lemma apply_enumerated_sound:
  assumes "valid_graph g" "well_founded g" "enumerate_graph g inc = Ok cs" "c \<in> set cs"
    and "rc_rule c \<in> {as_u16 AndComplementInverse, as_u16 OrComplementInverse} \<Longrightarrow>
      (unat (rc_matched c ! 2), unat (rc_root c)) \<notin> (child g)\<^sup>+"
  shows "\<exists>g'. apply_graph g c = Ok g' \<and> valid_graph g' \<and> well_founded g' \<and> compact_graph g' = Ok g' \<and>
    (\<forall>env b. denotes g' env b \<longleftrightarrow> denotes g env b)"
proof -
  obtain ru ro re where c: "c = make_candidate ru ro re" and match: "rule_match g ru ro re"
    and fits: "int (length (g_op g)) + replacement_extra_nodes ru \<le> int (unat (g_capacity g))"
    using assms(1,3,4) by (rule enumerated_cases)
  have "(unat (re ! 1), unat ro) \<notin> (child g)\<^sup>+" if "ru \<in> {AndComplementInverse, OrComplementInverse}"
  proof -
    have "length re = 2" using that match by (auto simp: rule_match_simps)
    then show ?thesis using assms(5) that by (auto simp: c numeral_2_eq_2)
  qed
  with apply_sound [OF assms(1,2) match fits] show ?thesis
    using compact_form_fixpoint unfolding c compact_form_def by blast
qed

text \<open>
  C1: rewriting preserves meaning. Take a valid, acyclic circuit and any candidate the enumeration
  returned for it. Unless it is a complement-inverse candidate whose witness depends on the root,
  \<open>apply_graph\<close> succeeds (no error, no panic, the capacity is never exceeded), and the new circuit
  is valid, acyclic, already compact, and computes the same Boolean function of the inputs.
\<close>

theorem apply_candidate_sound:
  assumes "valid_graph g" "well_founded g" "enumerate_graph g inc = Ok cs" "c \<in> set cs"
    and "rc_rule c \<in> {as_u16 AndComplementInverse, as_u16 OrComplementInverse} \<Longrightarrow>
      (unat (rc_matched c ! 2), unat (rc_root c)) \<notin> (child g)\<^sup>+"
  shows "\<exists>g'. apply_graph g c = Ok g' \<and> valid_graph g' \<and> well_founded g' \<and> compact_graph g' = Ok g' \<and>
    (\<forall>env b. denotes g' env b \<longleftrightarrow> denotes g env b)"
  using assms by (rule apply_enumerated_sound)

lemma well_founded_by_eval:
  assumes "list_all (\<lambda>i. eval_node (length (g_op g)) g (\<lambda>_. False) i \<noteq> None) [0..<length (g_op g)]"
  shows "well_founded g"
  unfolding well_founded_def
proof (intro allI impI)
  fix i assume "i < length (g_op g)"
  with assms obtain b where "eval_node (length (g_op g)) g (\<lambda>_. False) i = Some b"
    by (force simp: list_all_iff)
  then show "grounded g i" by (rule evals_grounded [OF eval_node_sound])
qed

lemma ex_and_true_facts:
  "valid_graph ex_and_true" "well_founded ex_and_true"
  "rule_match ex_and_true AndTrue 2 [1, 0]"
proof -
  have "validate ex_and_true = Ok ()" by code_simp
  then show "valid_graph ex_and_true" by simp
  show "well_founded ex_and_true" by (rule well_founded_by_eval) code_simp
  show "rule_match ex_and_true AndTrue 2 [1, 0]"
    by (rule rule_match.AndTrue)
      (simp_all add: bin2_def bin_def konst_def signal_ref_def ex_and_true_def)
qed

lemma enumerated_member:
  assumes "valid_graph g" "rule_match g ru ro re" "\<not> reverse_constant_folding_rule ru"
    "int (length (g_op g)) + replacement_extra_nodes ru \<le> int (unat (g_capacity g))"
  shows "\<exists>cs. enumerate_graph g inc = Ok cs \<and> make_candidate ru ro re \<in> set cs"
proof (rule enumerate_spec [OF assms(1), of inc])
  fix cs
  assume "enumerate_graph g inc = Ok cs" "set cs = {make_candidate ru ro re | ru ro re. rule_match g ru ro re \<and>
       (inc \<or> \<not> reverse_constant_folding_rule ru) \<and>
       int (length (g_op g)) + replacement_extra_nodes ru \<le> int (unat (g_capacity g))}"
  with assms(2-4) show ?thesis by auto
qed

theorem apply_candidate_sound_witness:
  "\<exists>cs g'. enumerate_graph ex_and_true False = Ok cs \<and> make_candidate AndTrue 2 [1, 0] \<in> set cs \<and>
     apply_graph ex_and_true (make_candidate AndTrue 2 [1, 0]) = Ok g' \<and> well_founded g' \<and>
     (\<forall>env b. denotes g' env b \<longleftrightarrow> denotes ex_and_true env b)"
proof -
  have "\<not> reverse_constant_folding_rule AndTrue" "int (length (g_op ex_and_true)) + replacement_extra_nodes AndTrue \<le>
      int (unat (g_capacity ex_and_true))"
    by (simp_all add: reverse_constant_folding_rule_def ex_and_true_def)
  from enumerated_member [OF ex_and_true_facts(1,3) this]
  obtain cs where cs: "enumerate_graph ex_and_true False = Ok cs" "make_candidate AndTrue 2 [1, 0] \<in> set cs"
    by blast
  have "rc_rule (make_candidate AndTrue 2 [1, 0]) \<notin> {as_u16 AndComplementInverse, as_u16 OrComplementInverse}"
    by simp
  then show ?thesis
    using apply_candidate_sound [OF ex_and_true_facts(1,2) cs] cs by blast
qed

section \<open>Complement-inverse candidates can close a cycle\<close>

lemma redirected_path:
  assumes "extends g h" "(i, unat root) \<in> (child g)\<^sup>+"
  shows "(i, unat p) \<in> (child (redirected (length (g_op g)) root p h))\<^sup>+"
  using assms(2)
proof (induction rule: converse_trancl_induct)
  let ?out = "redirected (length (g_op g)) root p h"
  have edge: "(i, if j = unat root then unat p else j) \<in> child ?out" if "(i, j) \<in> child g" for i j
    using that redirected_succs [OF assms(1), of i root p] assms(1)
    by (auto simp: child_def extends_def)
  {
    case (base i)
    then show ?case using edge by fastforce
  next
    case (step i j)
    then show ?case using edge [OF step.hyps(1)] by (auto split: if_splits intro: trancl_into_trancl2)
  }
qed

lemma refs_closed:
  assumes "unat (g_output g) < length (g_op g)" "\<forall>i < length (g_op g). set (succs g i) \<subseteq> {..<length (g_op g)}"
  shows "closed_refs g"
proof -
  have "(unat (g_output g), j) \<in> (child g)\<^sup>* \<Longrightarrow> j < length (g_op g)" for j
    by (induction rule: rtrancl_induct) (use assms in \<open>auto simp: child_def\<close>)
  then show ?thesis by (auto simp: closed_refs_def reach_def)
qed

lemma grounded_tranclD: "grounded g i \<Longrightarrow> (i, j) \<in> (child g)\<^sup>+ \<Longrightarrow> grounded g j"
  using grounded_rtrancl trancl_into_rtrancl by fast

lemma complement_rewritten:
  assumes g: "valid_graph g" "well_founded g" and ru: "ru \<in> {AndComplementInverse, OrComplementInverse}"
    and match: "rule_match g ru ro [a, w]"
    and fits: "int (length (g_op g)) + replacement_extra_nodes ru \<le> int (unat (g_capacity g))"
  defines "out \<equiv> rewritten g (make_candidate ru ro [a, w]) ru"
  obtains p h where "out = redirected (length (g_op g)) ro p h" "extends g h" "unat p = length (g_op g)"
    "length (g_op out) = Suc (length (g_op g))" "succs out (length (g_op g)) = [unat a, unat w]"
proof -
  define code where "code = (if ru = AndComplementInverse then AndOp else OrOp)"
  obtain p h where ph: "append_node code a w g = (p, h)" by fastforce
  have same: "same_len g" using valid_graphD(1,2) [OF g(1)] by (simp add: same_len_def)
  note app = append_node_spec [OF ph same]
  have out: "out = redirected (length (g_op g)) ro p h"
    using ru ph by (auto simp: out_def rewritten_def code_def)
  have "succs h (length (g_op g)) = [unat a, unat w]"
    using app(5-7) by (cases "ru = AndComplementInverse") (simp_all add: code_def succs_simps)
  moreover have "succs out (length (g_op g)) = succs h (length (g_op g))"
    using app(3,5) by (cases "ru = AndComplementInverse") (simp_all add: code_def out succs_simps redirected_def nth_append)
  moreover have "unat p = length (g_op g)" using app(4) valid_graph_small [OF g(1)] by simp
  moreover have "length (g_op out) = Suc (length (g_op g))" using app(3) by (simp add: out)
  ultimately show ?thesis using that out app(1) by simp
qed

lemma complement_cycle:
  assumes g: "valid_graph g" "well_founded g" "compact_form g"
    and ru: "ru \<in> {AndComplementInverse, OrComplementInverse}" and match: "rule_match g ru ro [a, w]"
    and fits: "int (length (g_op g)) + replacement_extra_nodes ru \<le> int (unat (g_capacity g))"
    and root: "ro \<noteq> g_output g" and dep: "(unat w, unat ro) \<in> (child g)\<^sup>+"
  shows "\<exists>g'. apply_graph g (make_candidate ru ro [a, w]) = Ok g' \<and> \<not> well_founded g' \<and>
    (\<forall>env b. \<not> denotes g' env b)"
proof -
  let ?out = "rewritten g (make_candidate ru ro [a, w]) ru"
  obtain p h where out: "?out = redirected (length (g_op g)) ro p h" and ext: "extends g h"
    and p: "unat p = length (g_op g)" and len: "length (g_op ?out) = Suc (length (g_op g))"
    and succs_p: "succs ?out (length (g_op g)) = [unat a, unat w]"
    using g(1,2) ru match fits by (rule complement_rewritten)
  note eq = apply_graph_eq [OF g(1) match fits]
  have "(unat p, unat w) \<in> child ?out" using succs_p p len by (simp add: child_def)
  moreover have path: "(i, unat ro) \<in> (child g)\<^sup>+ \<Longrightarrow> (i, unat p) \<in> (child ?out)\<^sup>+" for i
    unfolding out by (rule redirected_path [OF ext])
  ultimately have "(unat p, unat p) \<in> (child ?out)\<^sup>+"
    using path [OF dep] by (meson trancl_into_trancl2)
  then have not_p: "\<not> grounded ?out (unat p)" using grounded_no_cycle by blast
  have "\<exists>c. konst g ro c" using match ru by (auto simp: rule_match_simps)
  then have lt: "unat ro < length (g_op g)" and const: "g_op g ! unat ro = ConstOp" by (auto simp: konst_def)
  have "unat ro \<in> kept g" using g(3) lt unfolding compact_form_def by blast
  moreover have "\<not> unat ro < unat (g_arity g)" using valid_graphD(6) [OF g(1)] const by auto
  ultimately have "unat ro \<in> reach g" by (simp add: kept_def)
  then have "(unat (g_output g), unat ro) \<in> (child g)\<^sup>+"
    using root unat_u32_inj [of "g_output g" ro] by (auto simp: reach_def dest: rtranclD)
  then have "(unat (g_output ?out), unat p) \<in> (child ?out)\<^sup>+"
    using path ext by (simp add: out extends_def)
  then have not_out: "\<not> grounded ?out (unat (g_output ?out))" using grounded_tranclD not_p by blast
  have "closed_refs ?out"
  proof (rule refs_closed [OF valid_graphD(4) [OF eq(2)]], intro allI impI subsetI)
    fix i j assume i: "i < length (g_op ?out)" and j: "j \<in> set (succs ?out i)"
    show "j \<in> {..<length (g_op ?out)}"
    proof (cases "i < length (g_op g)")
      case True
      then have "grounded g i" using g(2) by (simp add: well_founded_def)
      then have "\<forall>k \<in> set (succs g i). k < length (g_op g)" using grounded_succ grounded_in_range by blast
      then show ?thesis
        using j redirected_succs [OF ext True, of ro p] p len unfolding out by (auto split: if_splits)
    next
      case False
      then have "j = unat a \<or> j = unat w" using i j succs_p len by (simp add: less_Suc_eq)
      then show ?thesis using matched_in_range [OF match, of a] matched_in_range [OF match, of w] len by auto
    qed
  qed
  with eq(2) obtain g' f where g': "compact_graph ?out = Ok g'" by (rule compact_graph_spec)
  note res = compact_result [OF g']
  have "\<not> denotes g' env b" for env b
    using res(2) not_out evals_grounded unfolding denotes_def by blast
  moreover have "\<not> well_founded g'"
    using res(6) not_out unfolding reach_def by blast
  ultimately show ?thesis using eq(1) g' by auto
qed

text \<open>
  C7: the exact condition for the complement-inverse rules. On a compact, valid, acyclic circuit, an
  enumerated \<open>AndComplementInverse\<close> or \<open>OrComplementInverse\<close> candidate on a constant \<open>root\<close> with
  witness \<open>w\<close> is always applied successfully, and the result is acyclic if and only if \<open>w\<close> does not
  depend on \<open>root\<close>. When it does, the circuit that \<open>apply_graph\<close> returns as a success has a
  combinational cycle below its output and denotes no Boolean function any more.
\<close>

theorem complement_inverse_cycle:
  assumes "well_founded g" "compact_graph g = Ok g" "enumerate_graph g inc = Ok cs" "c \<in> set cs"
    and "rc_rule c \<in> {as_u16 AndComplementInverse, as_u16 OrComplementInverse}" "rc_root c \<noteq> g_output g"
  shows "\<exists>g'. apply_graph g c = Ok g' \<and>
    (well_founded g' \<longleftrightarrow> (unat (rc_matched c ! 2), unat (rc_root c)) \<notin> (child g)\<^sup>+) \<and>
    ((\<exists>env b. denotes g' env b) \<longleftrightarrow> (unat (rc_matched c ! 2), unat (rc_root c)) \<notin> (child g)\<^sup>+)"
proof -
  have form: "compact_form g" by (rule compact_result(1) [OF assms(2)])
  then have valid: "valid_graph g" by (simp add: compact_form_def)
  obtain ru ro re where c: "c = make_candidate ru ro re" and match: "rule_match g ru ro re"
    and fits: "int (length (g_op g)) + replacement_extra_nodes ru \<le> int (unat (g_capacity g))"
    using valid assms(3,4) by (rule enumerated_cases)
  have ru: "ru \<in> {AndComplementInverse, OrComplementInverse}" using assms(5) by (simp add: c del: as_u16.simps)
  with match obtain a w where re: "re = [a, w]" by (auto simp: rule_match_simps)
  have w: "rc_matched c ! 2 = w" by (simp add: c re)
  show ?thesis
  proof (cases "(unat w, unat ro) \<in> (child g)\<^sup>+")
    case True
    then show ?thesis
      using complement_cycle [OF valid assms(1) form ru match [unfolded re] fits _ True] assms(6) w
      by (auto simp: c re)
  next
    case False
    then obtain g' where g': "apply_graph g c = Ok g'" "well_founded g'" "\<forall>env b. denotes g' env b \<longleftrightarrow> denotes g env b"
      using apply_sound [OF valid assms(1) match fits] by (auto simp: c re)
    have "\<exists>b. denotes g (\<lambda>_. False) b"
      using assms(1) valid_graphD(4) [OF valid] grounded_evals unfolding well_founded_def denotes_def by blast
    with g' False w show ?thesis by (auto simp: c)
  qed
qed

definition ex_not_const :: graph_body where
  "ex_not_const = \<lparr> g_arity = 1, g_capacity = 8, g_output = 3,
     g_op = [InputOp, ConstOp, NotOp, OutputOp],
     g_arg0 = [0, 0, 1, 2], g_arg1 = [NO_NODE, NO_NODE, NO_NODE, NO_NODE] \<rparr>"

lemma ex_not_const_facts:
  "compact_graph ex_not_const = Ok ex_not_const" "well_founded ex_not_const" "valid_graph ex_not_const"
  "rule_match ex_not_const AndComplementInverse 1 [1, 2]"
proof -
  show "compact_graph ex_not_const = Ok ex_not_const" by code_simp
  then show "valid_graph ex_not_const" by (rule compact_graph_closed)
  show "well_founded ex_not_const" by (rule well_founded_by_eval) code_simp
  show "rule_match ex_not_const AndComplementInverse 1 [1, 2]"
    by (rule rule_match.AndComplementInverse)
      (simp_all add: neg_def konst_def signal_ref_def ex_not_const_def)
qed

theorem complement_inverse_cycle_witness:
  "\<exists>cs g'. enumerate_graph ex_not_const False = Ok cs \<and>
     make_candidate AndComplementInverse 1 [1, 2] \<in> set cs \<and>
     apply_graph ex_not_const (make_candidate AndComplementInverse 1 [1, 2]) = Ok g' \<and>
     \<not> (\<exists>env b. denotes g' env b)"
proof -
  let ?c = "make_candidate AndComplementInverse 1 [1, 2]"
  have "\<not> reverse_constant_folding_rule AndComplementInverse"
    "int (length (g_op ex_not_const)) + replacement_extra_nodes AndComplementInverse \<le>
      int (unat (g_capacity ex_not_const))"
    by (simp_all add: reverse_constant_folding_rule_def ex_not_const_def)
  from enumerated_member [OF ex_not_const_facts(3,4) this]
  obtain cs where cs: "enumerate_graph ex_not_const False = Ok cs" "?c \<in> set cs"
    by blast
  have rule: "rc_rule ?c \<in> {as_u16 AndComplementInverse, as_u16 OrComplementInverse}"
    and root: "rc_root ?c \<noteq> g_output ex_not_const" and w: "rc_matched ?c ! 2 = 2" "rc_root ?c = 1"
    by (simp_all add: ex_not_const_def)
  have "(2, 1) \<in> child ex_not_const"
    by (simp add: child_def succs_def args_of_def ex_not_const_def)
  then have "(unat (rc_matched ?c ! 2), unat (rc_root ?c)) \<in> (child ex_not_const)\<^sup>+"
    unfolding w by (simp add: r_into_trancl)
  then show ?thesis
    using complement_inverse_cycle [OF ex_not_const_facts(2,1) cs rule root] cs by blast
qed

end
