(* ===== verification/Engine_Core.thy ===== *)
theory Engine_Core
  imports Prelude
begin

text \<open>
  The vocabulary of the engine interface crate \<open>crates/gz-engine\<close>: identifiers and their hexadecimal
  form (\<open>hash.rs\<close>), errors with bounded messages (\<open>error.rs\<close>), measurement options (\<open>options.rs\<close>)
  and the portable references of a search step (\<open>refs.rs\<close>). The eight identifier types are byte
  arrays that differ only in name and length; the model has one byte-list type for all of them.
\<close>

type_synonym digest = "u8 list"

section \<open>Hexadecimal identifiers\<close>

text \<open>A string is its list of UTF-8 bytes, which is what the parser works on.\<close>

datatype hex_error = InvalidLength nat nat | InvalidCharacter nat u8

definition hex_value :: "u8 \<Rightarrow> u8 option" where
  "hex_value byte =
     (if 48 \<le> byte \<and> byte \<le> 57 then Some (byte - 48)
      else if 97 \<le> byte \<and> byte \<le> 102 then Some (byte - 97 + 10)
      else if 65 \<le> byte \<and> byte \<le> 70 then Some (byte - 65 + 10)
      else None)"

text \<open>One iteration of the parsing loop.\<close>

definition parse_hex_byte :: "u8 list \<Rightarrow> nat \<Rightarrow> (u8, hex_error) outcome" where
  "parse_hex_byte hex index =
     (let hi_index = index * 2; lo_index = hi_index + 1 in
      obind (idx hex hi_index) (\<lambda>h.
      case hex_value h of
        None \<Rightarrow> Err (InvalidCharacter hi_index h)
      | Some hi \<Rightarrow>
          obind (idx hex lo_index) (\<lambda>l.
          case hex_value l of
            None \<Rightarrow> Err (InvalidCharacter lo_index l)
          | Some lo \<Rightarrow> Ok (push_bit 4 hi OR lo))))"

definition parse_hex_array :: "nat \<Rightarrow> u8 list \<Rightarrow> (u8 list, hex_error) outcome" where
  "parse_hex_array n hex =
     (if length hex \<noteq> n * 2 then Err (InvalidLength (n * 2) (length hex))
      else omap (parse_hex_byte hex) [0..<n])"

text \<open>\<open>write!(f, "{byte:02x}")\<close> prints two lower-case digits.\<close>

definition hex_digit :: "u8 \<Rightarrow> u8" where
  "hex_digit v = (if v < 10 then 48 + v else 97 + (v - 10))"

definition write_hex :: "u8 list \<Rightarrow> u8 list" where
  "write_hex bytes = concat (map (\<lambda>b. [hex_digit (drop_bit 4 b), hex_digit (b AND 15)]) bytes)"

section \<open>Errors\<close>

type_synonym error_message = string

datatype operation_kind = RootOp | HashOp | CandidatesOp | CandidateInfoOp | ApplyOp | MeasureOp | ExportGraphOp

datatype engine_error =
    UnknownGraph "digest option"
  | UnknownCandidate "digest option"
  | StaleCandidate digest digest digest
  | Timeout operation_kind u64
  | Internal u32 error_message

definition ERROR_MESSAGE_MAX_LEN :: nat where
  "ERROR_MESSAGE_MAX_LEN = 512"

datatype error_message_too_long = ErrorMessageTooLong nat nat

definition error_message_new :: "string \<Rightarrow> (error_message, error_message_too_long) outcome" where
  "error_message_new message =
     (if ERROR_MESSAGE_MAX_LEN < length message
      then Err (ErrorMessageTooLong ERROR_MESSAGE_MAX_LEN (length message)) else Ok message)"

section \<open>Options\<close>

record measure_options =
  mo_config_hash :: digest
  mo_samples :: u32
  mo_timeout_ms :: "u64 option"
  mo_deterministic :: bool

datatype measure_options_error = ZeroSamples | ZeroTimeout

definition measure_options_new ::
    "digest \<Rightarrow> u32 \<Rightarrow> u64 option \<Rightarrow> bool \<Rightarrow> (measure_options, measure_options_error) outcome"
where
  "measure_options_new config_hash samples timeout_ms deterministic =
     (if samples = 0 then Err ZeroSamples
      else if timeout_ms = Some 0 then Err ZeroTimeout
      else Ok \<lparr> mo_config_hash = config_hash, mo_samples = samples, mo_timeout_ms = timeout_ms,
                mo_deterministic = deterministic \<rparr>)"

section \<open>Portable references\<close>

record portable_graph_id =
  pg_graph_hash :: digest
  pg_engine_id :: digest
  pg_engine_version :: digest

record replay_graph_context =
  rgc_graph :: portable_graph_id
  rgc_action_set_hash :: digest

record portable_candidate_ref =
  pcr_context :: replay_graph_context
  pcr_candidate_hash :: digest

datatype portable_search_action_ref = Candidate portable_candidate_ref | Stop replay_graph_context

primrec action_context :: "portable_search_action_ref \<Rightarrow> replay_graph_context" where
  "action_context (Candidate candidate) = pcr_context candidate"
| "action_context (Stop context) = context"

record search_step_ref =
  ss_before :: replay_graph_context
  ss_action :: portable_search_action_ref
  ss_after :: replay_graph_context

datatype search_step_ref_error =
    ActionContextMismatch replay_graph_context replay_graph_context
  | StopAfterMismatch replay_graph_context replay_graph_context

definition search_step_ref_new ::
    "replay_graph_context \<Rightarrow> portable_search_action_ref \<Rightarrow> replay_graph_context \<Rightarrow>
       (search_step_ref, search_step_ref_error) outcome"
where
  "search_step_ref_new before action after =
     (let context = action_context action in
      if context \<noteq> before then Err (ActionContextMismatch before context)
      else if (case action of Stop _ \<Rightarrow> True | _ \<Rightarrow> False) \<and> after \<noteq> before
        then Err (StopAfterMismatch before after)
      else Ok \<lparr> ss_before = before, ss_action = action, ss_after = after \<rparr>)"

section \<open>Hexadecimal round trips\<close>

definition lower_hex :: "u8 \<Rightarrow> u8" where
  "lower_hex b = (if 65 \<le> b \<and> b \<le> 70 then b + 32 else b)"

definition nibbles :: "u8 list" where
  "nibbles = map of_nat [0..<16]"

definition hex_bytes :: "u8 list" where
  "hex_bytes = map of_nat ([48..<58] @ [65..<71] @ [97..<103])"

lemma byte_in_list:
  fixes b :: u8
  assumes "unat b \<in> set xs"
  shows "b \<in> set (map of_nat xs)"
proof -
  have "b = of_nat (unat b)" by simp
  with assms show ?thesis unfolding set_map by (rule image_eqI [rotated])
qed

lemma nibble_iff: "v \<in> set nibbles \<longleftrightarrow> v < 16"
proof
  assume "v < 16"
  then have "unat v \<in> set [0..<16]" by (simp add: word_less_nat_alt)
  then show "v \<in> set nibbles" unfolding nibbles_def by (rule byte_in_list)
next
  have "list_all (\<lambda>v. v < 16) nibbles" by code_simp
  then show "v \<in> set nibbles \<Longrightarrow> v < 16" by (simp add: list_all_iff)
qed

lemma hex_value_bytes:
  assumes "hex_value b = Some v"
  shows "b \<in> set hex_bytes"
proof -
  from assms consider "48 \<le> b" "b \<le> 57" | "97 \<le> b" "b \<le> 102" | "65 \<le> b" "b \<le> 70"
    by (auto simp: hex_value_def split: if_splits)
  then have "unat b \<in> set ([48..<58] @ [65..<71] @ [97..<103])"
    unfolding set_append set_upt by cases (auto simp: word_le_nat_alt)
  then show ?thesis unfolding hex_bytes_def by (rule byte_in_list)
qed

lemma lower_hex_bytes:
  assumes "lower_hex b = hex_digit v" "v \<in> set nibbles"
  shows "b \<in> set hex_bytes"
proof (cases "65 \<le> b \<and> b \<le> 70")
  case True
  then have "unat b \<in> set ([48..<58] @ [65..<71] @ [97..<103])"
    unfolding set_append set_upt by (auto simp: word_le_nat_alt)
  then show ?thesis unfolding hex_bytes_def by (rule byte_in_list)
next
  case False
  have "list_all (\<lambda>v. list_ex (\<lambda>b. b = hex_digit v) hex_bytes) nibbles" by code_simp
  with assms False show ?thesis by (auto simp: list_all_iff list_ex_iff lower_hex_def)
qed

lemma hex_value_table:
  "b \<in> set hex_bytes \<Longrightarrow> \<exists>v \<in> set nibbles. hex_value b = Some v \<and> lower_hex b = hex_digit v"
proof -
  have "list_all (\<lambda>b. list_ex (\<lambda>v. hex_value b = Some v \<and> lower_hex b = hex_digit v) nibbles) hex_bytes"
    by code_simp
  then show "b \<in> set hex_bytes \<Longrightarrow> \<exists>v \<in> set nibbles. hex_value b = Some v \<and> lower_hex b = hex_digit v"
    by (simp add: list_all_iff list_ex_iff)
qed

lemma hex_digit_inj: "v \<in> set nibbles \<Longrightarrow> w \<in> set nibbles \<Longrightarrow> hex_digit v = hex_digit w \<Longrightarrow> v = w"
proof -
  have "list_all (\<lambda>v. list_all (\<lambda>w. hex_digit v = hex_digit w \<longrightarrow> v = w) nibbles) nibbles" by code_simp
  then show "v \<in> set nibbles \<Longrightarrow> w \<in> set nibbles \<Longrightarrow> hex_digit v = hex_digit w \<Longrightarrow> v = w"
    unfolding list_all_iff by blast
qed

lemma hex_value_Some_iff: "hex_value b = Some v \<longleftrightarrow> v \<in> set nibbles \<and> lower_hex b = hex_digit v"
  using hex_value_bytes [of b v] lower_hex_bytes [of b v] hex_value_table [of b] hex_digit_inj
  by (metis option.inject)

lemma nibble_bit: "v < 16 \<Longrightarrow> bit v n \<Longrightarrow> n < 4" for v :: u8
proof -
  assume "v < 16" "bit v n"
  then have "take_bit 4 (unat v) = unat v" by (simp add: word_less_nat_alt take_bit_nat_eq_self)
  then have "take_bit 4 v = v" by (metis unsigned_take_bit_eq word_eq_iff_unsigned)
  with \<open>bit v n\<close> show "n < 4" by (metis bit_take_bit_iff)
qed

lemma mask_4: "(15 :: u8) = mask 4"
  by (simp add: mask_eq_exp_minus_1)

lemma nibble_split:
  "drop_bit 4 b \<in> set nibbles \<and> b AND 15 \<in> set nibbles \<and> push_bit 4 (drop_bit 4 b) OR (b AND 15) = b"
  for b :: u8
proof -
  have "unat b < 2 ^ LENGTH(8)" by (rule unsigned_less)
  then have "drop_bit 4 (unat b) < 16" "take_bit 4 (unat b) < 16"
    by (simp_all add: drop_bit_eq_div take_bit_eq_mod div_less_iff_less_mult)
  then have "unat (drop_bit 4 b) < 16" "unat (take_bit 4 b) < 16"
    by (simp_all only: unat_drop_bit_eq unsigned_take_bit_eq)
  then have "drop_bit 4 b < 16" "b AND 15 < 16"
    by (simp_all add: word_less_nat_alt mask_4 flip: take_bit_eq_mask)
  moreover have "push_bit 4 (drop_bit 4 b) OR (b AND 15) = b"
    by (rule bit_word_eqI) (auto simp: mask_4 bit_simps)
  ultimately show ?thesis by (simp add: nibble_iff)
qed

lemma nibble_join:
  assumes "hi \<in> set nibbles" "lo \<in> set nibbles"
  shows "drop_bit 4 (push_bit 4 hi OR lo) = hi \<and> (push_bit 4 hi OR lo) AND 15 = lo"
proof
  have bits: "bit hi n \<Longrightarrow> n < 4" "bit lo n \<Longrightarrow> n < 4" for n
    using assms nibble_bit by (auto simp: nibble_iff)
  show "drop_bit 4 (push_bit 4 hi OR lo) = hi"
    by (rule bit_word_eqI) (use bits in \<open>fastforce simp: bit_simps\<close>)
  show "(push_bit 4 hi OR lo) AND 15 = lo"
    by (rule bit_word_eqI) (use bits in \<open>auto simp: mask_4 bit_simps\<close>)
qed

lemma parse_hex_byte_Ok_iff:
  assumes "index * 2 + 1 < length hex"
  shows "parse_hex_byte hex index = Ok b \<longleftrightarrow>
    lower_hex (hex ! (index * 2)) = hex_digit (drop_bit 4 b) \<and>
    lower_hex (hex ! (index * 2 + 1)) = hex_digit (b AND 15)"
proof -
  have "parse_hex_byte hex index = Ok b \<longleftrightarrow> (\<exists>hi lo. hex_value (hex ! (index * 2)) = Some hi \<and>
      hex_value (hex ! (index * 2 + 1)) = Some lo \<and> b = push_bit 4 hi OR lo)"
    using assms by (auto simp: parse_hex_byte_def Let_def split: option.splits)
  then show ?thesis
    unfolding hex_value_Some_iff using nibble_split [of b] nibble_join by metis
qed

lemma write_hex_length [simp]: "length (write_hex bytes) = 2 * length bytes"
  by (induction bytes) (simp_all add: write_hex_def)

lemma write_hex_nth:
  "i < length bytes \<Longrightarrow> write_hex bytes ! (i * 2) = hex_digit (drop_bit 4 (bytes ! i)) \<and>
     write_hex bytes ! (i * 2 + 1) = hex_digit (bytes ! i AND 15)"
proof (induction bytes arbitrary: i)
  case (Cons b bytes)
  then show ?case by (cases i) (simp_all add: write_hex_def)
qed simp

lemma parse_hex_array_Ok_iff:
  "parse_hex_array n s = Ok bs \<longleftrightarrow> length bs = n \<and> map lower_hex s = write_hex bs"
proof (cases "length s = n * 2")
  case len: True
  have pairs: "map lower_hex s = write_hex bs \<longleftrightarrow> (\<forall>i < n. lower_hex (s ! (i * 2)) = write_hex bs ! (i * 2) \<and>
      lower_hex (s ! (i * 2 + 1)) = write_hex bs ! (i * 2 + 1))" if "length bs = n"
  proof
    assume "map lower_hex s = write_hex bs"
    then have "\<forall>k < length s. lower_hex (s ! k) = write_hex bs ! k" by (metis nth_map)
    with len show "\<forall>i < n. lower_hex (s ! (i * 2)) = write_hex bs ! (i * 2) \<and>
      lower_hex (s ! (i * 2 + 1)) = write_hex bs ! (i * 2 + 1)" by simp
  next
    assume all: "\<forall>i < n. lower_hex (s ! (i * 2)) = write_hex bs ! (i * 2) \<and>
      lower_hex (s ! (i * 2 + 1)) = write_hex bs ! (i * 2 + 1)"
    show "map lower_hex s = write_hex bs"
    proof (rule nth_equalityI)
      show "length (map lower_hex s) = length (write_hex bs)" using len that by simp
      fix k assume "k < length (map lower_hex s)"
      then have k: "k < n * 2" using len by simp
      then have "k div 2 < n" by auto
      moreover have "k = k div 2 * 2 \<or> k = k div 2 * 2 + 1" by presburger
      ultimately show "map lower_hex s ! k = write_hex bs ! k"
        using all k len by (metis length_map nth_map)
    qed
  qed
  have "parse_hex_array n s = Ok bs \<longleftrightarrow> length bs = n \<and> (\<forall>i < n. parse_hex_byte s i = Ok (bs ! i))"
    using len by (simp add: parse_hex_array_def omap_Ok_iff)
  also have "\<dots> \<longleftrightarrow> length bs = n \<and> (\<forall>i < n. lower_hex (s ! (i * 2)) = write_hex bs ! (i * 2) \<and>
      lower_hex (s ! (i * 2 + 1)) = write_hex bs ! (i * 2 + 1))"
    using len write_hex_nth [of _ bs] by (auto simp: parse_hex_byte_Ok_iff)
  finally show ?thesis using pairs by blast
next
  case False
  then have "map lower_hex s \<noteq> write_hex bs" if "length bs = n"
    using that by (metis length_map mult.commute write_hex_length)
  with False show ?thesis by (auto simp: parse_hex_array_def)
qed

lemma lower_hex_digit: "v \<in> set nibbles \<Longrightarrow> lower_hex (hex_digit v) = hex_digit v"
proof -
  have "list_all (\<lambda>v. lower_hex (hex_digit v) = hex_digit v) nibbles" by code_simp
  then show "v \<in> set nibbles \<Longrightarrow> lower_hex (hex_digit v) = hex_digit v"
    unfolding list_all_iff by blast
qed

lemma map_lower_write_hex: "map lower_hex (write_hex bs) = write_hex bs"
  by (induction bs) (use nibble_split in \<open>auto simp: write_hex_def lower_hex_digit\<close>)

text \<open>
  Printing and parsing identifiers. The printed form of an identifier parses back to it, and a
  string is accepted for an identifier of \<open>n\<close> bytes exactly when it is, up to the case of its
  letters, the printed form of the result; every other string is an error (never a panic).
\<close>

theorem hex_roundtrip:
  "parse_hex_array (length bs) (write_hex bs) = Ok bs \<and>
   (parse_hex_array n s = Ok cs \<longleftrightarrow> length cs = n \<and> map lower_hex s = write_hex cs) \<and>
   parse_hex_array n s \<noteq> Panic"
proof (intro conjI)
  show "parse_hex_array (length bs) (write_hex bs) = Ok bs"
    by (simp add: parse_hex_array_Ok_iff map_lower_write_hex)
  show "parse_hex_array n s = Ok cs \<longleftrightarrow> length cs = n \<and> map lower_hex s = write_hex cs"
    by (rule parse_hex_array_Ok_iff)
  have "omap (parse_hex_byte s) xs \<noteq> Panic" if "\<forall>i \<in> set xs. i * 2 + 1 < length s" for xs
    using that
  proof (induction xs)
    case (Cons i xs)
    then have "parse_hex_byte s i \<noteq> Panic"
      by (auto simp: parse_hex_byte_def Let_def split: option.splits)
    with Cons show ?case by (cases "parse_hex_byte s i"; cases "omap (parse_hex_byte s) xs") simp_all
  qed simp
  then show "parse_hex_array n s \<noteq> Panic" by (auto simp: parse_hex_array_def)
qed

text \<open>
  A search step reference records only coherent steps. It is built exactly when the action
  belongs to the graph it is applied in, and a stop leads nowhere else; the fields are then those
  given.
\<close>

theorem search_step_ref_coherent:
  "search_step_ref_new before action after = Ok step \<longleftrightarrow>
     step = \<lparr> ss_before = before, ss_action = action, ss_after = after \<rparr> \<and>
     action_context action = before \<and> (case action of Stop _ \<Rightarrow> after = before | Candidate _ \<Rightarrow> True)"
  by (cases action) (auto simp: search_step_ref_new_def Let_def)

end
