(* ===== verification/Slot_Pool.thy ===== *)
theory Slot_Pool
  imports Prelude
begin

text \<open>
  The allocation scheme shared by the arenas of \<open>crates/gz-engine-whittle/src/engine.rs\<close>: a vector of
  slots, some of them vacant, and a stack of the vacant indices that is used before the vector
  grows. \<open>pool_ok\<close> is the invariant between the two; each of the four ways the code touches a pool
  preserves it.
\<close>

text \<open>The number of indices a \<open>u32\<close> can express.\<close>

definition SLOTS :: nat where
  "SLOTS = 2 ^ 32"

definition pool_ok :: "('a \<Rightarrow> bool) \<Rightarrow> u32 list \<Rightarrow> 'a list \<Rightarrow> bool" where
  "pool_ok occupied free slots \<longleftrightarrow>
     distinct free \<and> length slots \<le> SLOTS \<and>
     (\<forall>i. i \<in> unat ` set free \<longleftrightarrow> i < length slots \<and> \<not> occupied (slots ! i))"

lemma unat_u32_less: "unat (w :: u32) < SLOTS"
proof -
  have "unat w < 2 ^ LENGTH(32)" by (rule unsigned_less)
  then show ?thesis by (simp add: SLOTS_def)
qed

lemma unat_of_nat_small: "n < SLOTS \<Longrightarrow> unat (of_nat n :: u32) = n"
  by (simp add: SLOTS_def unat_of_nat take_bit_nat_eq_self)

lemma pool_ok_empty: "pool_ok occupied [] []"
  by (simp add: pool_ok_def)

lemma pool_ok_free:
  assumes "pool_ok occupied free slots" "i \<in> set free"
  shows "unat i < length slots" "\<not> occupied (slots ! unat i)"
  using assms unfolding pool_ok_def by blast+

lemma pool_okD:
  assumes "pool_ok occupied free slots"
  shows "distinct free" "length slots \<le> SLOTS"
    "j \<in> unat ` set free \<longleftrightarrow> j < length slots \<and> \<not> occupied (slots ! j)"
  using assms unfolding pool_ok_def by blast+

lemma pool_okI:
  assumes "distinct free" "length slots \<le> SLOTS"
    "\<And>j. j \<in> unat ` set free \<longleftrightarrow> j < length slots \<and> \<not> occupied (slots ! j)"
  shows "pool_ok occupied free slots"
  using assms unfolding pool_ok_def by blast

lemma pool_ok_pop:
  assumes "pool_ok occupied (i # free) slots" "occupied s"
  shows "pool_ok occupied free (slots[unat i := s])"
proof (rule pool_okI)
  show "distinct free" "length (slots[unat i := s]) \<le> SLOTS" using pool_okD(1,2) [OF assms(1)] by simp_all
  have i: "unat i < length slots" using assms(1) by (rule pool_ok_free) simp
  have notin: "unat i \<notin> unat ` set free"
    using pool_okD(1) [OF assms(1)] by (auto simp: unat_u32_inj)
  fix j
  show "j \<in> unat ` set free \<longleftrightarrow> j < length (slots[unat i := s]) \<and> \<not> occupied (slots[unat i := s] ! j)"
  proof (cases "j = unat i")
    case True
    then show ?thesis using notin i assms(2) by simp
  next
    case False
    then have "j \<in> unat ` set free \<longleftrightarrow> j \<in> unat ` set (i # free)" by simp
    with False show ?thesis using pool_okD(3) [OF assms(1), of j] by simp
  qed
qed

lemma pool_ok_push:
  assumes "pool_ok occupied [] slots" "occupied s" "length slots < SLOTS"
  shows "pool_ok occupied [] (slots @ [s])"
  using assms by (auto simp: pool_ok_def nth_append less_Suc_eq)

lemma pool_ok_release:
  assumes "pool_ok occupied free slots" "unat i < length slots" "occupied (slots ! unat i)" "\<not> occupied s"
  shows "pool_ok occupied (i # free) (slots[unat i := s])"
proof (rule pool_okI)
  have "i \<notin> set free" using assms(1,3) pool_ok_free(2) by blast
  then show "distinct (i # free)" "length (slots[unat i := s]) \<le> SLOTS"
    using pool_okD(1,2) [OF assms(1)] by simp_all
  fix j
  show "j \<in> unat ` set (i # free) \<longleftrightarrow> j < length (slots[unat i := s]) \<and> \<not> occupied (slots[unat i := s] ! j)"
  proof (cases "j = unat i")
    case True
    then show ?thesis using assms(2,4) by simp
  next
    case False
    then have "j \<in> unat ` set (i # free) \<longleftrightarrow> j \<in> unat ` set free" by simp
    with False show ?thesis using pool_okD(3) [OF assms(1), of j] by simp
  qed
qed

lemma pool_ok_update:
  assumes "pool_ok occupied free slots" "j < length slots \<Longrightarrow> occupied s = occupied (slots ! j)"
  shows "pool_ok occupied free (slots[j := s])"
proof (cases "j < length slots")
  case True
  have "occupied (slots[j := s] ! k) = occupied (slots ! k)" for k
    using assms(2) True by (cases "k = j") simp_all
  with assms(1) show ?thesis by (simp add: pool_ok_def)
next
  case False
  then show ?thesis using assms(1) by (simp add: list_update_beyond)
qed

section \<open>Reference-counting stores\<close>

text \<open>
  The contract of a store that counts references: every operation reports the keys it gained a
  reference to and the keys it dropped one of, and the counts follow the reports. \<open>used\<close> is the number
  of slots in use, which an operation raises by at most its \<open>weight\<close>; the laws are promised while it
  stays within \<open>limit\<close>. The client lemma is the balance over a whole sequence of operations.
\<close>

primrec run_script :: "('o \<Rightarrow> 's \<Rightarrow> 's \<times> 'k list \<times> 'k list) \<Rightarrow> 'o list \<Rightarrow> 's \<Rightarrow> 's \<times> 'k list \<times> 'k list" where
  "run_script run [] s = (s, [], [])"
| "run_script run (x # xs) s =
     (let (s', gained, dropped) = run x s;
          (s'', gained', dropped') = run_script run xs s'
      in (s'', gained @ gained', dropped @ dropped'))"

locale ref_store =
  fixes inv :: "'s \<Rightarrow> bool" and refs :: "'s \<Rightarrow> 'k \<Rightarrow> nat" and used :: "'s \<Rightarrow> nat"
    and weight :: "'o \<Rightarrow> nat" and limit :: nat
    and run :: "'o \<Rightarrow> 's \<Rightarrow> 's \<times> 'k list \<times> 'k list"
  assumes run_law: "inv s \<Longrightarrow> used s + weight x \<le> limit \<Longrightarrow> run x s = (s', gained, dropped) \<Longrightarrow>
      inv s' \<and> used s' \<le> used s + weight x \<and>
      (\<forall>k. refs s' k + count_list dropped k = refs s k + count_list gained k)"
begin

lemma balance:
  assumes "inv s" "used s + sum_list (map weight xs) \<le> limit" "run_script run xs s = (s', gained, dropped)"
  shows "inv s' \<and> (\<forall>k. refs s' k + count_list dropped k = refs s k + count_list gained k)"
  using assms
proof (induction xs arbitrary: s gained dropped)
  case (Cons x xs)
  obtain t g d g' d' where x: "run x s = (t, g, d)" and xs: "run_script run xs t = (s', g', d')"
    and eq: "gained = g @ g'" "dropped = d @ d'"
    using Cons.prems(3) by (auto split: prod.splits)
  have law: "inv t" "used t \<le> used s + weight x" "\<And>k. refs t k + count_list d k = refs s k + count_list g k"
    using run_law [OF Cons.prems(1) _ x] Cons.prems(2) by simp_all
  then have "used t + sum_list (map weight xs) \<le> limit" using Cons.prems(2) by simp
  from Cons.IH [OF law(1) this xs]
  have "inv s'" and rest: "\<And>k. refs s' k + count_list d' k = refs t k + count_list g' k" by simp_all
  moreover have "refs s' k + count_list dropped k = refs s k + count_list gained k" for k
    using law(3) [of k] rest [of k] by (simp add: eq)
  ultimately show ?case by blast
qed simp

end

end
