(* ===== verification/Whittle_Arena.thy ===== *)
theory Whittle_Arena
  imports Whittle_Compact Engine_Core Slot_Pool
begin

text \<open>
  The graph store of \<open>crates/gz-engine-whittle/src/engine.rs\<close>: content hashes, slot handles, and
  \<open>GraphArena\<close>, a reference-counted store of graphs that holds one copy of each compacted graph. The
  hash function \<open>blake3\<close> is a parameter. \<open>dbg\<close> selects the build: with debug assertions a handle
  carries the generation of its slot and a stale handle panics, without them it does not.
\<close>

section \<open>Content hashes\<close>

definition bytes_of :: "string \<Rightarrow> u8 list" where
  "bytes_of s = map of_char s"

definition hash_chunk :: "u8 list \<Rightarrow> u8 list" where
  "hash_chunk chunk = u64_to_le (of_nat (length chunk)) @ chunk"

definition hash32 :: "(u8 list \<Rightarrow> digest) \<Rightarrow> u8 list \<Rightarrow> u8 list list \<Rightarrow> digest" where
  "hash32 blake3 domain chunks = blake3 (hash_chunk domain @ concat (map hash_chunk chunks))"

definition whittle_engine_id :: "(u8 list \<Rightarrow> digest) \<Rightarrow> digest" where
  "whittle_engine_id blake3 = take 16 (hash32 blake3 (bytes_of ''gz-engine-whittle'') [])"

definition whittle_engine_version :: "(u8 list \<Rightarrow> digest) \<Rightarrow> digest" where
  "whittle_engine_version blake3 =
     take 16 (hash32 blake3 (bytes_of ''whittle-rules-v1'') [u16_to_le 44, bytes_of ''WAV1'', [1]])"

definition action_set_hash :: "(u8 list \<Rightarrow> digest) \<Rightarrow> digest \<Rightarrow> bool \<Rightarrow> digest" where
  "action_set_hash blake3 engine_version include_reverse =
     hash32 blake3 (bytes_of ''whittle-action-set-v1'')
       [engine_version, [if include_reverse then 1 else 0]]"

definition graph_hash :: "(u8 list \<Rightarrow> digest) \<Rightarrow> digest \<Rightarrow> digest \<Rightarrow> u8 list \<Rightarrow> digest" where
  "graph_hash blake3 engine_id engine_version canonical =
     hash32 blake3 (bytes_of ''whittle-graph-v1'') [engine_id, engine_version, canonical]"

datatype measure_mode = NegativeCost

definition measure_config_hash :: "(u8 list \<Rightarrow> digest) \<Rightarrow> measure_mode \<Rightarrow> digest" where
  "measure_config_hash blake3 mode =
     hash32 blake3 (bytes_of ''whittle-measure-config-v1'') [case mode of NegativeCost \<Rightarrow> [0]]"

section \<open>Errors\<close>

fun show_nat :: "nat \<Rightarrow> string" where
  "show_nat n = (if n < 10 then [char_of (48 + n)] else show_nat (n div 10) @ [char_of (48 + n mod 10)])"

definition show_int :: "int \<Rightarrow> string" where
  "show_int i = (if i < 0 then ''-'' @ show_nat (nat (- i)) else show_nat (nat i))"

primrec graph_error_string :: "graph_error \<Rightarrow> string" where
  "graph_error_string (InvalidInput message) = message"
| "graph_error_string (BadOp v) = ''bad op '' @ show_int v"

definition internal_error :: "u32 \<Rightarrow> string \<Rightarrow> engine_error" where
  "internal_error code message =
     Internal code (case error_message_new message of Ok m \<Rightarrow> m | _ \<Rightarrow> ''whittle internal error'')"

definition internal_graph :: "graph_error \<Rightarrow> engine_error" where
  "internal_graph error = internal_error 1 (graph_error_string error)"

section \<open>Handles and slots\<close>

record slot_id =
  sid_index :: u32
  sid_generation :: u32

definition id_from_raw :: "u32 \<Rightarrow> slot_id" where
  "id_from_raw value = \<lparr> sid_index = value, sid_generation = 0 \<rparr>"

text \<open>Without debug assertions an identifier has no generation; it is kept at 0.\<close>

definition id_from_slot :: "bool \<Rightarrow> u32 \<Rightarrow> u32 \<Rightarrow> slot_id" where
  "id_from_slot dbg index generation =
     \<lparr> sid_index = index, sid_generation = (if dbg then generation else 0) \<rparr>"

record whittle_graph = graph_body +
  wg_hash :: digest

definition wg_body :: "whittle_graph \<Rightarrow> graph_body" where
  "wg_body g = graph_body.truncate g"

definition wg_cost :: "whittle_graph \<Rightarrow> u32" where
  "wg_cost g = of_nat (length (g_op g))"

record graph_slot =
  gs_graph :: "whittle_graph option"
  gs_generation :: u32

definition graph_slot_new :: "whittle_graph \<Rightarrow> graph_slot" where
  "graph_slot_new graph = \<lparr> gs_graph = Some graph, gs_generation = 0 \<rparr>"

definition generation_matches :: "bool \<Rightarrow> u32 \<Rightarrow> slot_id \<Rightarrow> bool" where
  "generation_matches dbg generation gid = (\<not> dbg \<or> generation = sid_generation gid)"

definition bump_generation :: "bool \<Rightarrow> u32 \<Rightarrow> u32" where
  "bump_generation dbg generation = (if dbg then generation + 1 else generation)"

section \<open>The graph arena\<close>

record graph_arena =
  ga_items :: "graph_slot list"
  ga_free :: "u32 list"
  ga_by_hash :: "digest \<rightharpoonup> slot_id"
  ga_hash_refs :: "digest \<rightharpoonup> u32"
  ga_engine_id :: digest
  ga_engine_version :: digest

definition graph_arena_new :: "digest \<Rightarrow> digest \<Rightarrow> graph_arena" where
  "graph_arena_new engine_id engine_version =
     \<lparr> ga_items = [], ga_free = [], ga_by_hash = Map.empty, ga_hash_refs = Map.empty,
       ga_engine_id = engine_id, ga_engine_version = engine_version \<rparr>"

text \<open>
  The slot a new graph goes to. A vacant slot is reused; its index is checked by the slice access
  and, in a debug build, that it is vacant.
\<close>

definition graph_alloc ::
    "bool \<Rightarrow> whittle_graph \<Rightarrow> graph_arena \<Rightarrow> graph_arena \<times> (slot_id, 'e) outcome"
where
  "graph_alloc dbg graph a =
     (case ga_free a of
        index # free \<Rightarrow>
          (if length (ga_items a) \<le> unat index then (a \<lparr> ga_free := free \<rparr>, Panic)
           else
             let slot = ga_items a ! unat index in
             if dbg \<and> gs_graph slot \<noteq> None then (a \<lparr> ga_free := free \<rparr>, Panic)
             else (a \<lparr> ga_free := free,
                       ga_items := (ga_items a)[unat index := slot \<lparr> gs_graph := Some graph \<rparr>] \<rparr>,
                   Ok (id_from_slot dbg index (gs_generation slot))))
      | [] \<Rightarrow>
          (a \<lparr> ga_items := ga_items a @ [graph_slot_new graph] \<rparr>,
           Ok (id_from_slot dbg (of_nat (length (ga_items a))) 0)))"

text \<open>\<open>*hash_refs.entry(hash).or_insert(0) += 1\<close> overflows only in a debug build.\<close>

definition graph_insert ::
    "bool \<Rightarrow> (u8 list \<Rightarrow> digest) \<Rightarrow> graph_body \<Rightarrow> graph_arena \<Rightarrow>
       graph_arena \<times> (slot_id, graph_error) outcome"
where
  "graph_insert dbg blake3 body a =
     (case obind (compact_graph body) (\<lambda>compact.
             obind (serialize_wav1 compact) (\<lambda>canonical. Ok (compact, canonical))) of
        Err e \<Rightarrow> (a, Err e)
      | Panic \<Rightarrow> (a, Panic)
      | Ok (compact, canonical) \<Rightarrow>
          let hash = graph_hash blake3 (ga_engine_id a) (ga_engine_version a) canonical in
          (case ga_by_hash a hash of
             Some gid \<Rightarrow>
               (case ga_hash_refs a hash of
                  None \<Rightarrow> (a, Err (InvalidInput ''missing graph refcount''))
                | Some refs \<Rightarrow>
                    if refs = 0xFFFFFFFF then (a, Err (InvalidInput ''graph refcount overflow''))
                    else (a \<lparr> ga_hash_refs := (ga_hash_refs a)(hash \<mapsto> refs + 1) \<rparr>, Ok gid))
           | None \<Rightarrow>
               let graph = graph_body.extend compact (whittle_graph.fields hash) in
               (case graph_alloc dbg graph a of
                  (a', Ok gid) \<Rightarrow>
                    (let refs = (case ga_hash_refs a' hash of None \<Rightarrow> 0 | Some refs \<Rightarrow> refs);
                         a'' = a' \<lparr> ga_by_hash := (ga_by_hash a')(hash \<mapsto> gid) \<rparr>
                     in if dbg \<and> refs = 0xFFFFFFFF then (a'', Panic)
                        else (a'' \<lparr> ga_hash_refs := (ga_hash_refs a')(hash \<mapsto> refs + 1) \<rparr>, Ok gid))
                | (a', Err e) \<Rightarrow> (a', Err e)
                | (a', Panic) \<Rightarrow> (a', Panic))))"

definition graph_get :: "bool \<Rightarrow> graph_arena \<Rightarrow> slot_id \<Rightarrow> (whittle_graph option, 'e) outcome" where
  "graph_get dbg a gid =
     (case get (ga_items a) (unat (sid_index gid)) of
        None \<Rightarrow> Ok None
      | Some slot \<Rightarrow>
          if generation_matches dbg (gs_generation slot) gid then Ok (gs_graph slot) else Panic)"

definition graph_retain_hash ::
    "digest \<Rightarrow> graph_arena \<Rightarrow> graph_arena \<times> (slot_id option, engine_error) outcome"
where
  "graph_retain_hash hash a =
     (case ga_by_hash a hash of
        None \<Rightarrow> (a, Ok None)
      | Some gid \<Rightarrow>
          (case ga_hash_refs a hash of
             None \<Rightarrow> (a, Err (internal_error 5 ''missing Whittle graph hash refcount''))
           | Some refs \<Rightarrow>
               if refs = 0xFFFFFFFF then (a, Err (internal_error 5 ''Whittle graph refcount overflow''))
               else (a \<lparr> ga_hash_refs := (ga_hash_refs a)(hash \<mapsto> refs + 1) \<rparr>, Ok (Some gid))))"

definition graph_release_protected ::
    "bool \<Rightarrow> slot_id \<Rightarrow> slot_id \<Rightarrow> graph_arena \<Rightarrow>
       graph_arena \<times> (digest \<times> bool, engine_error) outcome"
where
  "graph_release_protected dbg gid protected a =
     (case get (ga_items a) (unat (sid_index gid)) of
        None \<Rightarrow> (a, Err (UnknownGraph None))
      | Some slot \<Rightarrow>
          if \<not> generation_matches dbg (gs_generation slot) gid then (a, Panic)
          else (case gs_graph slot of
             None \<Rightarrow> (a, Err (UnknownGraph None))
           | Some graph \<Rightarrow>
               let hash = wg_hash graph in
               (case ga_hash_refs a hash of
                  None \<Rightarrow> (a, Err (internal_error 5 ''missing Whittle graph hash refcount''))
                | Some refs \<Rightarrow>
                    if 1 < refs
                    then (a \<lparr> ga_hash_refs := (ga_hash_refs a)(hash \<mapsto> refs - 1) \<rparr>, Ok (hash, False))
                    else if gid = protected
                    then (a, Err (internal_error 4 ''cannot free the Whittle root graph''))
                    else (a \<lparr> ga_items := (ga_items a)[unat (sid_index gid) :=
                                slot \<lparr> gs_graph := None,
                                       gs_generation := bump_generation dbg (gs_generation slot) \<rparr>],
                              ga_free := sid_index gid # ga_free a,
                              ga_hash_refs := (ga_hash_refs a)(hash := None),
                              ga_by_hash := (ga_by_hash a)(hash := None) \<rparr>,
                          Ok (hash, True)))))"

section \<open>The arena invariant\<close>

definition canonical :: "graph_body \<Rightarrow> u8 list" where
  "canonical body = (case serialize_wav1 body :: (u8 list, unit) outcome of Ok bytes \<Rightarrow> bytes | _ \<Rightarrow> [])"

definition body_hash :: "(u8 list \<Rightarrow> digest) \<Rightarrow> graph_arena \<Rightarrow> graph_body \<Rightarrow> digest" where
  "body_hash blake3 a body = graph_hash blake3 (ga_engine_id a) (ga_engine_version a) (canonical body)"

text \<open>The handle the arena gives out for the graph in slot \<open>i\<close>.\<close>

definition slot_handle :: "bool \<Rightarrow> graph_arena \<Rightarrow> nat \<Rightarrow> slot_id" where
  "slot_handle dbg a i = id_from_slot dbg (of_nat i) (gs_generation (ga_items a ! i))"

text \<open>
  \<open>holds a i h\<close>: slot \<open>i\<close> holds a graph with hash \<open>h\<close>. The index by hash and the reference counts are
  defined exactly for the stored hashes, the index names the slot, and no count is zero.
\<close>

definition holds :: "graph_arena \<Rightarrow> nat \<Rightarrow> digest \<Rightarrow> bool" where
  "holds a i h \<longleftrightarrow> i < length (ga_items a) \<and> (\<exists>g. gs_graph (ga_items a ! i) = Some g \<and> wg_hash g = h)"

definition graph_arena_inv :: "bool \<Rightarrow> (u8 list \<Rightarrow> digest) \<Rightarrow> graph_arena \<Rightarrow> bool" where
  "graph_arena_inv dbg blake3 a \<longleftrightarrow>
     pool_ok (\<lambda>s. gs_graph s \<noteq> None) (ga_free a) (ga_items a) \<and>
     (\<forall>h gid. ga_by_hash a h = Some gid \<longleftrightarrow> (\<exists>i. holds a i h \<and> gid = slot_handle dbg a i)) \<and>
     (\<forall>h i j. holds a i h \<longrightarrow> holds a j h \<longrightarrow> i = j) \<and>
     (\<forall>h. ga_hash_refs a h = None \<longleftrightarrow> ga_by_hash a h = None) \<and>
     (\<forall>h. ga_hash_refs a h \<noteq> Some 0) \<and>
     (\<forall>s \<in> set (ga_items a). \<forall>g. gs_graph s = Some g \<longrightarrow>
        compact_form (wg_body g) \<and> wg_hash g = body_hash blake3 a (wg_body g))"

definition graph_refs :: "graph_arena \<Rightarrow> digest \<Rightarrow> nat" where
  "graph_refs a h = (case ga_hash_refs a h of None \<Rightarrow> 0 | Some r \<Rightarrow> unat r)"

lemma graph_arena_invD:
  assumes "graph_arena_inv dbg blake3 a"
  shows "pool_ok (\<lambda>s. gs_graph s \<noteq> None) (ga_free a) (ga_items a)"
    "ga_by_hash a h = Some gid \<longleftrightarrow> (\<exists>i. holds a i h \<and> gid = slot_handle dbg a i)"
    "holds a i h \<Longrightarrow> holds a j h \<Longrightarrow> i = j"
    "ga_hash_refs a h = None \<longleftrightarrow> ga_by_hash a h = None"
    "ga_hash_refs a h \<noteq> Some 0"
    "s \<in> set (ga_items a) \<Longrightarrow> gs_graph s = Some g \<Longrightarrow>
       compact_form (wg_body g) \<and> wg_hash g = body_hash blake3 a (wg_body g)"
  using assms unfolding graph_arena_inv_def by blast+

lemma graph_arena_invI:
  assumes "pool_ok (\<lambda>s. gs_graph s \<noteq> None) (ga_free a) (ga_items a)"
    "\<And>h gid. ga_by_hash a h = Some gid \<longleftrightarrow> (\<exists>i. holds a i h \<and> gid = slot_handle dbg a i)"
    "\<And>h i j. holds a i h \<Longrightarrow> holds a j h \<Longrightarrow> i = j"
    "\<And>h. ga_hash_refs a h = None \<longleftrightarrow> ga_by_hash a h = None"
    "\<And>h. ga_hash_refs a h \<noteq> Some 0"
    "\<And>s g. s \<in> set (ga_items a) \<Longrightarrow> gs_graph s = Some g \<Longrightarrow>
       compact_form (wg_body g) \<and> wg_hash g = body_hash blake3 a (wg_body g)"
  shows "graph_arena_inv dbg blake3 a"
  using assms unfolding graph_arena_inv_def by blast

lemma graph_arena_new_inv: "graph_arena_inv dbg blake3 (graph_arena_new engine_id engine_version)"
  by (rule graph_arena_invI) (simp_all add: graph_arena_new_def pool_ok_empty holds_def)

lemma serialize_canonical: "valid_graph g \<Longrightarrow> serialize_wav1 g = Ok (canonical g)"
  unfolding canonical_def by (simp add: serialize_wav1_valid)

text \<open>Changing only the counts keeps the invariant, as long as the domain and positivity are kept.\<close>

lemma graph_arena_inv_refs:
  assumes "graph_arena_inv dbg blake3 a" "ga_hash_refs a h \<noteq> None" "r \<noteq> 0"
  shows "graph_arena_inv dbg blake3 (a \<lparr> ga_hash_refs := (ga_hash_refs a)(h \<mapsto> r) \<rparr>)" (is "graph_arena_inv _ _ ?a")
proof (rule graph_arena_invI)
  note inv = graph_arena_invD [OF assms(1)]
  have [simp]: "holds ?a = holds a" "slot_handle dbg ?a = slot_handle dbg a" "body_hash blake3 ?a = body_hash blake3 a"
    by (simp_all add: fun_eq_iff holds_def slot_handle_def body_hash_def)
  show "pool_ok (\<lambda>s. gs_graph s \<noteq> None) (ga_free ?a) (ga_items ?a)" using inv(1) by simp
  show "ga_by_hash ?a h = Some gid \<longleftrightarrow> (\<exists>i. holds ?a i h \<and> gid = slot_handle dbg ?a i)" for h gid
    using inv(2) by simp
  show "holds ?a i h \<Longrightarrow> holds ?a j h \<Longrightarrow> i = j" for h i j using inv(3) by simp
  show "ga_hash_refs ?a k = None \<longleftrightarrow> ga_by_hash ?a k = None" for k
    using inv(4) [of k] assms(2) by auto
  show "ga_hash_refs ?a k \<noteq> Some 0" for k using inv(5) [of k] assms(3) by simp
  show "s \<in> set (ga_items ?a) \<Longrightarrow> gs_graph s = Some g \<Longrightarrow>
       compact_form (wg_body g) \<and> wg_hash g = body_hash blake3 ?a (wg_body g)" for s g
    using inv(6) by simp
qed

section \<open>Inserting a graph\<close>

text \<open>The arena after a graph was put into slot \<open>i\<close>, which was vacant or new.\<close>

lemma graph_arena_inv_store:
  assumes inv: "graph_arena_inv dbg blake3 a"
    and pool: "pool_ok (\<lambda>s. gs_graph s \<noteq> None) free items"
    and i: "i < length items" "gs_graph (items ! i) = Some g"
    and vacant: "i < length (ga_items a) \<Longrightarrow> gs_graph (ga_items a ! i) = None"
    and same: "\<And>j. j \<noteq> i \<Longrightarrow> get items j = get (ga_items a) j"
    and g: "compact_form (wg_body g)" "wg_hash g = body_hash blake3 a (wg_body g)"
    and fresh: "ga_by_hash a (wg_hash g) = None"
    and gid: "gid = id_from_slot dbg (of_nat i) (gs_generation (items ! i))"
    and refs: "refs = (ga_hash_refs a)(wg_hash g \<mapsto> 1)"
  shows "graph_arena_inv dbg blake3 (a \<lparr> ga_free := free, ga_items := items,
    ga_by_hash := (ga_by_hash a)(wg_hash g \<mapsto> gid), ga_hash_refs := refs \<rparr>)" (is "graph_arena_inv _ _ ?a")
proof (rule graph_arena_invI)
  note old = graph_arena_invD [OF inv]
  have nh: "\<not> holds a j (wg_hash g)" for j using old(2) [of "wg_hash g"] fresh by auto
  have ni: "\<not> holds a i k" for k using vacant by (auto simp: holds_def)
  have hold: "holds ?a j k \<longleftrightarrow> (if j = i then k = wg_hash g else holds a j k)" for j k
  proof (cases "j = i")
    case True then show ?thesis using i by (auto simp: holds_def)
  next
    case False
    then show ?thesis using same [OF False] by (auto simp: holds_def get_def split: if_splits)
  qed
  have handle: "slot_handle dbg ?a j = (if j = i then gid else slot_handle dbg a j)" if "j = i \<or> holds a j k" for j k
    using that same [of j] ni by (auto simp: slot_handle_def gid holds_def get_def split: if_splits)
  show "pool_ok (\<lambda>s. gs_graph s \<noteq> None) (ga_free ?a) (ga_items ?a)" using pool by simp
  show "ga_by_hash ?a h = Some d \<longleftrightarrow> (\<exists>j. holds ?a j h \<and> d = slot_handle dbg ?a j)" for h d
  proof (cases "h = wg_hash g")
    case True
    then have "(\<exists>j. holds ?a j h \<and> d = slot_handle dbg ?a j) \<longleftrightarrow> d = slot_handle dbg ?a i"
      using nh by (auto simp: hold)
    then show ?thesis using True handle [of i] by auto
  next
    case False
    have "holds ?a j h \<and> d = slot_handle dbg ?a j \<longleftrightarrow> holds a j h \<and> d = slot_handle dbg a j" for j
      using False handle [of j h] ni [of h] by (auto simp: hold)
    then show ?thesis using False old(2) [of h d] by simp
  qed
  show "holds ?a j h \<Longrightarrow> holds ?a k h \<Longrightarrow> j = k" for h j k
    using old(3) [of j h k] nh by (auto simp: hold split: if_splits)
  show "ga_hash_refs ?a k = None \<longleftrightarrow> ga_by_hash ?a k = None" for k
    using old(4) [of k] by (simp add: refs)
  show "ga_hash_refs ?a k \<noteq> Some 0" for k using old(5) [of k] by (simp add: refs)
  fix s f
  assume s: "s \<in> set (ga_items ?a)" "gs_graph s = Some f"
  then obtain j where j: "j < length items" "items ! j = s" by (auto simp: in_set_conv_nth)
  have "compact_form (wg_body f) \<and> wg_hash f = body_hash blake3 a (wg_body f)"
  proof (cases "j = i")
    case True
    then show ?thesis using j i s g by auto
  next
    case False
    then have "s \<in> set (ga_items a)" using same [OF False] j by (auto simp: get_def split: if_splits)
    then show ?thesis using old(6) s by blast
  qed
  then show "compact_form (wg_body f) \<and> wg_hash f = body_hash blake3 ?a (wg_body f)"
    by (simp add: body_hash_def)
qed

text \<open>What \<open>graph_alloc\<close> and the two map updates of \<open>graph_insert\<close> do on a fresh hash.\<close>

lemma graph_alloc_spec:
  assumes inv: "graph_arena_inv dbg blake3 a" and room: "length (ga_items a) < SLOTS"
    and g: "compact_form (wg_body g)" "wg_hash g = body_hash blake3 a (wg_body g)"
    and fresh: "ga_by_hash a (wg_hash g) = None"
  obtains items free gid i where
    "graph_alloc dbg g a = (a \<lparr> ga_free := free, ga_items := items \<rparr>, Ok gid)"
    "get items (unat (sid_index gid)) = Some (items ! i)" "gs_graph (items ! i) = Some g"
    "generation_matches dbg (gs_generation (items ! i)) gid"
    "length items \<le> Suc (length (ga_items a))"
    "graph_arena_inv dbg blake3 (a \<lparr> ga_free := free, ga_items := items,
       ga_by_hash := (ga_by_hash a)(wg_hash g \<mapsto> gid), ga_hash_refs := (ga_hash_refs a)(wg_hash g \<mapsto> 1) \<rparr>)"
proof (cases "ga_free a")
  case Nil
  let ?items = "ga_items a @ [graph_slot_new g]" and ?gid = "id_from_slot dbg (of_nat (length (ga_items a))) 0"
  note pool = graph_arena_invD(1) [OF inv]
  have at: "?items ! length (ga_items a) = graph_slot_new g" by simp
  show thesis
  proof (rule that)
    show "graph_alloc dbg g a = (a \<lparr> ga_free := [], ga_items := ?items \<rparr>, Ok ?gid)"
      using Nil by (simp add: graph_alloc_def)
    show "get ?items (unat (sid_index ?gid)) = Some (?items ! length (ga_items a))"
      using room by (simp add: id_from_slot_def unat_of_nat_small get_def)
    show "gs_graph (?items ! length (ga_items a)) = Some g" by (simp add: graph_slot_new_def)
    show "generation_matches dbg (gs_generation (?items ! length (ga_items a))) ?gid"
      by (simp add: graph_slot_new_def generation_matches_def id_from_slot_def)
    show "length ?items \<le> Suc (length (ga_items a))" by simp
    show "graph_arena_inv dbg blake3 (a \<lparr> ga_free := [], ga_items := ?items,
       ga_by_hash := (ga_by_hash a)(wg_hash g \<mapsto> ?gid), ga_hash_refs := (ga_hash_refs a)(wg_hash g \<mapsto> 1) \<rparr>)"
      by (rule graph_arena_inv_store [where i = "length (ga_items a)"])
        (use inv g fresh pool room Nil in \<open>auto simp: graph_slot_new_def get_def nth_append
          intro: pool_ok_push\<close>)
  qed
next
  case (Cons index rest)
  let ?slot = "ga_items a ! unat index"
  let ?items = "(ga_items a)[unat index := ?slot \<lparr> gs_graph := Some g \<rparr>]"
    and ?gid = "id_from_slot dbg index (gs_generation ?slot)"
  note pool = graph_arena_invD(1) [OF inv, unfolded Cons]
  have i: "unat index < length (ga_items a)" "gs_graph ?slot = None"
    using pool_ok_free [OF pool, of index] by simp_all
  have pool': "pool_ok (\<lambda>s. gs_graph s \<noteq> None) rest ?items" by (rule pool_ok_pop [OF pool]) simp
  show thesis
  proof (rule that)
    show "graph_alloc dbg g a = (a \<lparr> ga_free := rest, ga_items := ?items \<rparr>, Ok ?gid)"
      using Cons i by (simp add: graph_alloc_def Let_def)
    show "get ?items (unat (sid_index ?gid)) = Some (?items ! unat index)"
      using i by (simp add: id_from_slot_def get_def)
    show "gs_graph (?items ! unat index) = Some g" using i by simp
    show "generation_matches dbg (gs_generation (?items ! unat index)) ?gid"
      using i by (simp add: generation_matches_def id_from_slot_def)
    show "length ?items \<le> Suc (length (ga_items a))" by simp
    show "graph_arena_inv dbg blake3 (a \<lparr> ga_free := rest, ga_items := ?items,
       ga_by_hash := (ga_by_hash a)(wg_hash g \<mapsto> ?gid), ga_hash_refs := (ga_hash_refs a)(wg_hash g \<mapsto> 1) \<rparr>)"
      by (rule graph_arena_inv_store [OF inv pool', where i = "unat index"])
        (use g fresh i in \<open>simp_all add: get_def\<close>)
  qed
qed

lemma wg_extend [simp]:
  "wg_body (graph_body.extend c (whittle_graph.fields h)) = c"
  "wg_hash (graph_body.extend c (whittle_graph.fields h)) = h"
  by (simp_all add: wg_body_def graph_body.defs whittle_graph.defs)

text \<open>The handle by which the arena knows a hash leads to the graph with that hash.\<close>

lemma graph_arena_lookup:
  assumes "graph_arena_inv dbg blake3 a" "ga_by_hash a h = Some gid"
  obtains g where "graph_get dbg a gid = Ok (Some g)" "wg_hash g = h" "compact_form (wg_body g)"
    "h = body_hash blake3 a (wg_body g)"
proof -
  from graph_arena_invD(2) [OF assms(1)] assms(2) obtain i g where
    i: "i < length (ga_items a)" "gs_graph (ga_items a ! i) = Some g" "wg_hash g = h" "gid = slot_handle dbg a i"
    by (auto simp: holds_def)
  have "i < SLOTS" using i(1) pool_okD(2) [OF graph_arena_invD(1) [OF assms(1)]] by simp
  then have "graph_get dbg a gid = Ok (Some g)"
    using i by (simp add: graph_get_def slot_handle_def id_from_slot_def unat_of_nat_small get_def generation_matches_def)
  moreover have "compact_form (wg_body g) \<and> wg_hash g = body_hash blake3 a (wg_body g)"
    using i by (intro graph_arena_invD(6) [OF assms(1)]) auto
  ultimately show thesis using i(3) by (intro that [of g]) simp_all
qed

lemma graph_get_conv:
  assumes "graph_get dbg a gid = Ok (Some g)"
  shows "get (ga_items a) (unat (sid_index gid)) = Some (ga_items a ! unat (sid_index gid))"
    "unat (sid_index gid) < length (ga_items a)" "gs_graph (ga_items a ! unat (sid_index gid)) = Some g"
    "generation_matches dbg (gs_generation (ga_items a ! unat (sid_index gid))) gid"
  using assms by (auto simp: graph_get_def get_def split: if_splits)

lemma graph_get_holds:
  assumes "graph_get dbg a gid = Ok (Some g)"
  shows "holds a (unat (sid_index gid)) (wg_hash g)"
  using graph_get_conv [OF assms] by (simp add: holds_def)

definition refs_max :: nat where
  "refs_max = 2 ^ 32 - 1"

lemma unat_refs_max: "unat r = refs_max \<longleftrightarrow> r = 0xFFFFFFFF" for r :: u32
proof -
  have "unat (0xFFFFFFFF :: u32) = refs_max" by (simp add: refs_max_def)
  then show ?thesis by (metis unat_u32_inj)
qed

lemma unat_u32_suc: "r \<noteq> 0xFFFFFFFF \<Longrightarrow> unat (r + 1) = Suc (unat r)" for r :: u32
proof -
  assume "r \<noteq> 0xFFFFFFFF"
  then have "unat r \<noteq> refs_max" by (simp add: unat_refs_max)
  with unat_u32_less [of r] have "Suc (unat r) < SLOTS" by (simp add: refs_max_def SLOTS_def)
  then show ?thesis by (simp add: unat_word_ariths SLOTS_def)
qed

lemma u32_suc_nonzero: "r \<noteq> 0xFFFFFFFF \<Longrightarrow> r + 1 \<noteq> 0" for r :: u32
  using unat_u32_suc [of r] by auto

text \<open>
  The cases of an insertion. A rejected graph and a full count leave the arena as it is; a known hash
  gains a reference; a new one is stored with one reference.
\<close>

lemma graph_insert_error:
  assumes "compact_graph body = Err e"
  shows "graph_insert dbg blake3 body a = (a, Err e)"
  using assms by (simp add: graph_insert_def)

lemma graph_insert_spec:
  assumes inv: "graph_arena_inv dbg blake3 a" and room: "length (ga_items a) < SLOTS"
    and c: "compact_graph body = Ok c" and h: "h = body_hash blake3 a c" and few: "graph_refs a h < refs_max"
  obtains a' gid where "graph_insert dbg blake3 body a = (a', Ok gid)"
    "graph_arena_inv dbg blake3 a'" "ga_by_hash a' = (ga_by_hash a)(h \<mapsto> gid)"
    "graph_refs a' = (graph_refs a)(h := Suc (graph_refs a h))"
    "length (ga_items a') \<le> Suc (length (ga_items a))"
    "ga_engine_id a' = ga_engine_id a" "ga_engine_version a' = ga_engine_version a"
    "ga_by_hash a h = None \<or> ga_by_hash a h = Some gid"
proof -
  have form: "compact_form c" using c by (rule compact_result)
  then have ser: "serialize_wav1 c = (Ok (canonical c) :: (u8 list, graph_error) outcome)"
    by (simp add: serialize_canonical compact_form_def)
  have hash: "graph_hash blake3 (ga_engine_id a) (ga_engine_version a) (canonical c) = h"
    by (simp add: h body_hash_def)
  show thesis
  proof (cases "ga_by_hash a h")
    case (Some gid)
    then obtain r where r: "ga_hash_refs a h = Some r"
      using graph_arena_invD(4) [OF inv, of h] by fastforce
    with few have nr: "r \<noteq> 0xFFFFFFFF" by (auto simp: graph_refs_def unat_refs_max [symmetric])
    let ?a = "a \<lparr> ga_hash_refs := (ga_hash_refs a)(h \<mapsto> r + 1) \<rparr>"
    show thesis
    proof (rule that)
      show "graph_insert dbg blake3 body a = (?a, Ok gid)"
        using c ser Some r nr by (simp add: graph_insert_def hash Let_def)
      show "graph_arena_inv dbg blake3 ?a"
        using inv r nr by (intro graph_arena_inv_refs) (auto simp: u32_suc_nonzero)
      show "graph_refs ?a = (graph_refs a)(h := Suc (graph_refs a h))"
        using r nr by (auto simp: graph_refs_def fun_eq_iff unat_u32_suc)
    qed (use Some in auto)
  next
    case None
    let ?g = "graph_body.extend c (whittle_graph.fields h)"
    have noref: "ga_hash_refs a h = None" using None graph_arena_invD(4) [OF inv, of h] by simp
    obtain items free gid i where alloc:
      "graph_alloc dbg ?g a = (a \<lparr> ga_free := free, ga_items := items \<rparr>, Ok gid :: (slot_id, graph_error) outcome)"
      "length items \<le> Suc (length (ga_items a))"
      "graph_arena_inv dbg blake3 (a \<lparr> ga_free := free, ga_items := items,
         ga_by_hash := (ga_by_hash a)(wg_hash ?g \<mapsto> gid), ga_hash_refs := (ga_hash_refs a)(wg_hash ?g \<mapsto> 1) \<rparr>)"
      by (rule graph_alloc_spec [OF inv room, of ?g]) (use form h None in simp_all)
    let ?a = "a \<lparr> ga_free := free, ga_items := items,
         ga_by_hash := (ga_by_hash a)(h \<mapsto> gid), ga_hash_refs := (ga_hash_refs a)(h \<mapsto> 1) \<rparr>"
    show thesis
    proof (rule that)
      show "graph_insert dbg blake3 body a = (?a, Ok gid)"
        using c ser None noref alloc(1) by (simp add: graph_insert_def hash Let_def)
      show "graph_arena_inv dbg blake3 ?a" using alloc(3) by simp
      show "graph_refs ?a = (graph_refs a)(h := Suc (graph_refs a h))"
        using noref by (auto simp: graph_refs_def fun_eq_iff)
    qed (use alloc(2) None in auto)
  qed
qed

section \<open>Retaining and releasing\<close>

lemma graph_retain_spec:
  assumes inv: "graph_arena_inv dbg blake3 a" and known: "ga_by_hash a h = Some gid" and few: "graph_refs a h < refs_max"
  obtains a' where "graph_retain_hash h a = (a', Ok (Some gid))" "graph_arena_inv dbg blake3 a'"
    "ga_by_hash a' = ga_by_hash a" "ga_items a' = ga_items a"
    "graph_refs a' = (graph_refs a)(h := Suc (graph_refs a h))"
    "ga_engine_id a' = ga_engine_id a" "ga_engine_version a' = ga_engine_version a"
proof -
  obtain r where r: "ga_hash_refs a h = Some r"
    using known graph_arena_invD(4) [OF inv, of h] by fastforce
  with few have nr: "r \<noteq> 0xFFFFFFFF" by (auto simp: graph_refs_def unat_refs_max [symmetric])
  let ?a = "a \<lparr> ga_hash_refs := (ga_hash_refs a)(h \<mapsto> r + 1) \<rparr>"
  show thesis
  proof (rule that)
    show "graph_retain_hash h a = (?a, Ok (Some gid))" using known r nr by (simp add: graph_retain_hash_def)
    show "graph_arena_inv dbg blake3 ?a"
      using inv r nr by (intro graph_arena_inv_refs) (auto simp: u32_suc_nonzero)
    show "graph_refs ?a = (graph_refs a)(h := Suc (graph_refs a h))"
      using r nr by (auto simp: graph_refs_def fun_eq_iff unat_u32_suc)
  qed simp_all
qed

text \<open>A live handle is the handle the index has for the hash of its graph.\<close>

definition id_ok :: "bool \<Rightarrow> slot_id \<Rightarrow> bool" where
  "id_ok dbg gid \<longleftrightarrow> dbg \<or> sid_generation gid = 0"

lemma graph_get_indexed:
  assumes "graph_arena_inv dbg blake3 a" "graph_get dbg a gid = Ok (Some g)" "id_ok dbg gid"
  shows "ga_by_hash a (wg_hash g) = Some gid"
proof -
  have "gid = slot_handle dbg a (unat (sid_index gid))"
    using graph_get_conv(4) [OF assms(2)] assms(3)
    by (auto simp: slot_handle_def id_from_slot_def id_ok_def generation_matches_def)
  then show ?thesis
    using graph_arena_invD(2) [OF assms(1)] graph_get_holds [OF assms(2)] by blast
qed

lemma graph_get_refs:
  assumes "graph_arena_inv dbg blake3 a" "graph_get dbg a gid = Ok (Some g)"
  obtains r where "ga_hash_refs a (wg_hash g) = Some r" "r \<noteq> 0" "graph_refs a (wg_hash g) = unat r"
proof -
  have "ga_by_hash a (wg_hash g) \<noteq> None"
    using graph_arena_invD(2) [OF assms(1)] graph_get_holds [OF assms(2)] by (metis option.distinct(1))
  then obtain r where "ga_hash_refs a (wg_hash g) = Some r" using graph_arena_invD(4) [OF assms(1), of "wg_hash g"] by auto
  moreover from this have "r \<noteq> 0" using graph_arena_invD(5) [OF assms(1), of "wg_hash g"] by auto
  ultimately show thesis using that by (simp add: graph_refs_def)
qed

lemma graph_release_shared:
  assumes inv: "graph_arena_inv dbg blake3 a" and g: "graph_get dbg a gid = Ok (Some g)"
    and shared: "1 < graph_refs a (wg_hash g)"
  obtains a' where "graph_release_protected dbg gid protected a = (a', Ok (wg_hash g, False))"
    "graph_arena_inv dbg blake3 a'" "ga_by_hash a' = ga_by_hash a" "ga_items a' = ga_items a"
    "graph_refs a' = (graph_refs a)(wg_hash g := graph_refs a (wg_hash g) - 1)"
    "ga_engine_id a' = ga_engine_id a" "ga_engine_version a' = ga_engine_version a"
proof -
  obtain r where r: "ga_hash_refs a (wg_hash g) = Some r" "r \<noteq> 0" "graph_refs a (wg_hash g) = unat r"
    using graph_get_refs [OF inv g] by blast
  then have lt: "1 < r" using shared by (simp add: word_less_nat_alt)
  have dec: "unat (r - 1) = unat r - 1" using r(2) by (simp add: unat_minus_one)
  let ?a = "a \<lparr> ga_hash_refs := (ga_hash_refs a)(wg_hash g \<mapsto> r - 1) \<rparr>"
  show thesis
  proof (rule that)
    show "graph_release_protected dbg gid protected a = (?a, Ok (wg_hash g, False))"
      using graph_get_conv [OF g] r(1) lt by (simp add: graph_release_protected_def Let_def)
    show "graph_arena_inv dbg blake3 ?a"
      using inv r(1) lt dec shared r(3) by (intro graph_arena_inv_refs) auto
    show "graph_refs ?a = (graph_refs a)(wg_hash g := graph_refs a (wg_hash g) - 1)"
      using r dec by (auto simp: graph_refs_def fun_eq_iff)
  qed simp_all
qed

lemma graph_release_last:
  assumes inv: "graph_arena_inv dbg blake3 a" and g: "graph_get dbg a gid = Ok (Some g)"
    and last: "graph_refs a (wg_hash g) = 1" and np: "gid \<noteq> protected"
  obtains a' where "graph_release_protected dbg gid protected a = (a', Ok (wg_hash g, True))"
    "graph_arena_inv dbg blake3 a'" "ga_by_hash a' = (ga_by_hash a)(wg_hash g := None)"
    "length (ga_items a') = length (ga_items a)"
    "graph_refs a' = (graph_refs a)(wg_hash g := 0)"
    "ga_engine_id a' = ga_engine_id a" "ga_engine_version a' = ga_engine_version a"
proof -
  let ?i = "unat (sid_index gid)" and ?h = "wg_hash g"
  let ?slot = "ga_items a ! ?i"
  let ?new = "?slot \<lparr> gs_graph := None, gs_generation := bump_generation dbg (gs_generation ?slot) \<rparr>"
  note conv = graph_get_conv [OF g] and old = graph_arena_invD [OF inv]
  obtain r where r: "ga_hash_refs a ?h = Some r" "graph_refs a ?h = unat r"
    using graph_get_refs [OF inv g] by blast
  then have lt: "\<not> 1 < r" using last by (simp add: word_less_nat_alt)
  let ?a = "a \<lparr> ga_items := (ga_items a)[?i := ?new], ga_free := sid_index gid # ga_free a,
     ga_hash_refs := (ga_hash_refs a)(?h := None), ga_by_hash := (ga_by_hash a)(?h := None) \<rparr>"
  have hi: "holds a ?i ?h" using g by (rule graph_get_holds)
  have uniq: "holds a ?i k \<longleftrightarrow> k = ?h" for k using conv by (auto simp: holds_def)
  have hold: "holds ?a j k \<longleftrightarrow> j \<noteq> ?i \<and> holds a j k" for j k
    using conv by (cases "j = ?i") (auto simp: holds_def)
  have handle: "slot_handle dbg ?a j = slot_handle dbg a j" if "j \<noteq> ?i" for j
    using that by (simp add: slot_handle_def)
  have other: "holds ?a j k \<longleftrightarrow> k \<noteq> ?h \<and> holds a j k" for j k
    using hold old(3) [of j ?h ?i] hi uniq by auto
  show thesis
  proof (rule that)
    show "graph_release_protected dbg gid protected a = (?a, Ok (?h, True))"
      using conv r(1) lt np by (simp add: graph_release_protected_def Let_def)
    show "graph_arena_inv dbg blake3 ?a"
    proof (rule graph_arena_invI)
      show "pool_ok (\<lambda>s. gs_graph s \<noteq> None) (ga_free ?a) (ga_items ?a)"
        using pool_ok_release [OF old(1), of "sid_index gid" ?new] conv by simp
      show "ga_by_hash ?a k = Some d \<longleftrightarrow> (\<exists>j. holds ?a j k \<and> d = slot_handle dbg ?a j)" for k d
      proof -
        have "holds ?a j k \<and> d = slot_handle dbg ?a j \<longleftrightarrow> k \<noteq> ?h \<and> holds a j k \<and> d = slot_handle dbg a j" for j
          using handle [of j] hold [of j k] other [of j k] by auto
        then show ?thesis using old(2) [of k d] by auto
      qed
      show "holds ?a j k \<Longrightarrow> holds ?a l k \<Longrightarrow> j = l" for j k l using old(3) [of j k l] by (simp add: hold)
      show "ga_hash_refs ?a k = None \<longleftrightarrow> ga_by_hash ?a k = None" for k using old(4) [of k] by simp
      show "ga_hash_refs ?a k \<noteq> Some 0" for k using old(5) [of k] by simp
      fix s f
      assume s: "s \<in> set (ga_items ?a)" "gs_graph s = Some f"
      have "set (ga_items ?a) \<subseteq> insert ?new (set (ga_items a))" by (simp add: set_update_subset_insert)
      with s have "s = ?new \<or> s \<in> set (ga_items a)" by blast
      then have "s \<in> set (ga_items a)" using s(2) by auto
      then show "compact_form (wg_body f) \<and> wg_hash f = body_hash blake3 ?a (wg_body f)"
        using old(6) s(2) by (simp add: body_hash_def)
    qed
    show "graph_refs ?a = (graph_refs a)(?h := 0)" by (auto simp: graph_refs_def fun_eq_iff)
  qed simp_all
qed

section \<open>Accounting over sequences of operations\<close>

text \<open>
  The operations of the arena as one step function that reports which hashes gained and which
  dropped a reference, in the form the contract \<open>ref_store\<close> asks for.
\<close>

datatype graph_op = InsertGraph graph_body | RetainHash digest | ReleaseGraph slot_id

definition graph_step ::
    "bool \<Rightarrow> (u8 list \<Rightarrow> digest) \<Rightarrow> slot_id \<Rightarrow> graph_op \<Rightarrow> graph_arena \<Rightarrow> graph_arena \<times> digest list \<times> digest list"
where
  "graph_step dbg blake3 protected x a =
     (case x of
        InsertGraph body \<Rightarrow>
          (case graph_insert dbg blake3 body a of
             (a', Ok gid) \<Rightarrow>
               (a', (case graph_get dbg a' gid :: (whittle_graph option, unit) outcome of
                       Ok (Some g) \<Rightarrow> [wg_hash g] | _ \<Rightarrow> []), [])
           | (a', _) \<Rightarrow> (a', [], []))
      | RetainHash h \<Rightarrow>
          (case graph_retain_hash h a of (a', Ok (Some _)) \<Rightarrow> (a', [h], []) | (a', _) \<Rightarrow> (a', [], []))
      | ReleaseGraph gid \<Rightarrow>
          (case graph_release_protected dbg gid protected a of
             (a', Ok (h, _)) \<Rightarrow> (a', [], [h])
           | (a', _) \<Rightarrow> (a', [], [])))"

definition graph_op_weight :: "graph_op \<Rightarrow> nat" where
  "graph_op_weight x = (case x of InsertGraph _ \<Rightarrow> 1 | _ \<Rightarrow> 0)"

lemma graph_refs_le: "graph_refs a h \<le> refs_max"
proof (cases "ga_hash_refs a h")
  case (Some r)
  then show ?thesis using unat_u32_less [of r] by (simp add: graph_refs_def refs_max_def SLOTS_def)
qed (simp add: graph_refs_def)

lemma graph_refs_pos:
  assumes "graph_arena_inv dbg blake3 a"
  shows "0 < graph_refs a h \<longleftrightarrow> ga_by_hash a h \<noteq> None"
proof (cases "ga_hash_refs a h")
  case None
  then show ?thesis using graph_arena_invD(4) [OF assms, of h] by (simp add: graph_refs_def)
next
  case (Some r)
  then have "r \<noteq> 0" "ga_by_hash a h \<noteq> None"
    using graph_arena_invD(4,5) [OF assms, of h] by auto
  then show ?thesis using Some by (simp add: graph_refs_def unat_gt_0)
qed

lemma graph_refs_max_word: "graph_refs a h = refs_max \<Longrightarrow> ga_hash_refs a h = Some 0xFFFFFFFF"
proof -
  assume "graph_refs a h = refs_max"
  moreover from this obtain r where "ga_hash_refs a h = Some r"
    by (cases "ga_hash_refs a h") (simp_all add: graph_refs_def refs_max_def)
  ultimately show "ga_hash_refs a h = Some 0xFFFFFFFF" by (simp add: graph_refs_def unat_refs_max)
qed

lemma graph_insert_full:
  assumes inv: "graph_arena_inv dbg blake3 a" and c: "compact_graph body = Ok c"
    and full: "graph_refs a (body_hash blake3 a c) = refs_max"
  shows "graph_insert dbg blake3 body a = (a, Err (InvalidInput ''graph refcount overflow''))"
proof -
  have ser: "serialize_wav1 c = (Ok (canonical c) :: (u8 list, graph_error) outcome)"
    using compact_result(1) [OF c] by (simp add: serialize_canonical compact_form_def)
  have "0 < graph_refs a (body_hash blake3 a c)" using full by (simp add: refs_max_def)
  then obtain gid where "ga_by_hash a (body_hash blake3 a c) = Some gid"
    using graph_refs_pos [OF inv] by auto
  then show ?thesis
    using c ser graph_refs_max_word [OF full] by (simp add: graph_insert_def body_hash_def Let_def)
qed

lemma graph_step_insert:
  assumes "graph_arena_inv dbg blake3 a" "length (ga_items a) < SLOTS"
    "graph_step dbg blake3 protected (InsertGraph body) a = (a', gained, dropped)"
  shows "graph_arena_inv dbg blake3 a' \<and> length (ga_items a') \<le> Suc (length (ga_items a)) \<and>
    (\<forall>k. graph_refs a' k + count_list dropped k = graph_refs a k + count_list gained k)"
proof (cases "compact_graph body")
  case (Ok c)
  let ?h = "body_hash blake3 a c"
  consider "graph_refs a ?h = refs_max" | "graph_refs a ?h < refs_max"
    using graph_refs_le [of a ?h] by linarith
  then show ?thesis
  proof cases
    case 1
    then show ?thesis using assms graph_insert_full [OF assms(1) Ok] by (simp add: graph_step_def)
  next
    case 2
    obtain b gid where ins: "graph_insert dbg blake3 body a = (b, Ok gid)" and b: "graph_arena_inv dbg blake3 b"
      and "ga_by_hash b = (ga_by_hash a)(?h \<mapsto> gid)" "graph_refs b = (graph_refs a)(?h := Suc (graph_refs a ?h))"
      "length (ga_items b) \<le> Suc (length (ga_items a))"
      using graph_insert_spec [OF assms(1,2) Ok refl 2] by metis
    moreover from this obtain g where "graph_get dbg b gid = (Ok (Some g) :: (whittle_graph option, unit) outcome)" "wg_hash g = ?h"
      using graph_arena_lookup [OF b, of ?h gid] by (metis fun_upd_same)
    ultimately show ?thesis using assms(3) by (auto simp: graph_step_def)
  qed
next
  case (Err e)
  then show ?thesis using assms by (simp add: graph_step_def graph_insert_error)
next
  case Panic
  then show ?thesis using assms by (simp add: graph_step_def graph_insert_def)
qed

lemma graph_step_retain:
  assumes "graph_arena_inv dbg blake3 a" "graph_step dbg blake3 protected (RetainHash h) a = (a', gained, dropped)"
  shows "graph_arena_inv dbg blake3 a' \<and> length (ga_items a') \<le> length (ga_items a) \<and>
    (\<forall>k. graph_refs a' k + count_list dropped k = graph_refs a k + count_list gained k)"
proof (cases "ga_by_hash a h")
  case None
  then show ?thesis using assms by (simp add: graph_step_def graph_retain_hash_def)
next
  case (Some gid)
  consider "graph_refs a h = refs_max" | "graph_refs a h < refs_max"
    using graph_refs_le [of a h] by linarith
  then show ?thesis
  proof cases
    case 1
    then show ?thesis using assms Some graph_refs_max_word [OF 1] by (simp add: graph_step_def graph_retain_hash_def)
  next
    case 2
    obtain b where "graph_retain_hash h a = (b, Ok (Some gid))" "graph_arena_inv dbg blake3 b"
      "ga_items b = ga_items a" "graph_refs b = (graph_refs a)(h := Suc (graph_refs a h))"
      using graph_retain_spec [OF assms(1) Some 2] by metis
    then show ?thesis using assms(2) by (auto simp: graph_step_def)
  qed
qed

lemma graph_release_fails:
  assumes "\<nexists>g. graph_get dbg a gid = (Ok (Some g) :: (whittle_graph option, unit) outcome)"
  shows "graph_release_protected dbg gid protected a = (a, Err (UnknownGraph None)) \<or>
    graph_release_protected dbg gid protected a = (a, Panic)"
  using assms by (auto simp: graph_release_protected_def graph_get_def split: option.splits if_splits)

lemma graph_release_root:
  assumes inv: "graph_arena_inv dbg blake3 a" and g: "graph_get dbg a protected = Ok (Some g)"
    and last: "graph_refs a (wg_hash g) = 1"
  shows "graph_release_protected dbg protected protected a =
    (a, Err (internal_error 4 ''cannot free the Whittle root graph''))"
proof -
  obtain r where "ga_hash_refs a (wg_hash g) = Some r" "graph_refs a (wg_hash g) = unat r"
    using graph_get_refs [OF inv g] by blast
  then show ?thesis
    using graph_get_conv [OF g] last by (simp add: graph_release_protected_def Let_def word_less_nat_alt)
qed

lemma graph_step_release:
  assumes inv: "graph_arena_inv dbg blake3 a" and step: "graph_step dbg blake3 protected (ReleaseGraph gid) a = (a', gained, dropped)"
  shows "graph_arena_inv dbg blake3 a' \<and> length (ga_items a') \<le> length (ga_items a) \<and>
    (\<forall>k. graph_refs a' k + count_list dropped k = graph_refs a k + count_list gained k)"
proof (cases "\<exists>g. graph_get dbg a gid = (Ok (Some g) :: (whittle_graph option, unit) outcome)")
  case False
  then show ?thesis
    using graph_release_fails [OF False, of protected] inv step by (auto simp: graph_step_def)
next
  case True
  then obtain g where g: "graph_get dbg a gid = (Ok (Some g) :: (whittle_graph option, unit) outcome)" by blast
  have "0 < graph_refs a (wg_hash g)"
    using graph_get_refs [OF inv g] by (metis unat_gt_0)
  then consider "1 < graph_refs a (wg_hash g)" | "graph_refs a (wg_hash g) = 1" "gid \<noteq> protected"
    | "graph_refs a (wg_hash g) = 1" "gid = protected" by linarith
  then show ?thesis
  proof cases
    case 1
    obtain b where "graph_release_protected dbg gid protected a = (b, Ok (wg_hash g, False))"
      "graph_arena_inv dbg blake3 b" "ga_items b = ga_items a"
      "graph_refs b = (graph_refs a)(wg_hash g := graph_refs a (wg_hash g) - 1)"
      using graph_release_shared [OF inv g 1, of protected] by metis
    then show ?thesis using step 1 by (auto simp: graph_step_def)
  next
    case 2
    obtain b where "graph_release_protected dbg gid protected a = (b, Ok (wg_hash g, True))"
      "graph_arena_inv dbg blake3 b" "length (ga_items b) = length (ga_items a)"
      "graph_refs b = (graph_refs a)(wg_hash g := 0)"
      using graph_release_last [OF inv g 2] by metis
    then show ?thesis using step 2 by (auto simp: graph_step_def)
  next
    case 3
    then show ?thesis
      using graph_release_root [OF inv g [unfolded 3(2)] 3(1)] inv step by (simp add: graph_step_def)
  qed
qed

lemma graph_step_law:
  assumes "graph_arena_inv dbg blake3 a" "length (ga_items a) + graph_op_weight x \<le> SLOTS"
    "graph_step dbg blake3 protected x a = (a', gained, dropped)"
  shows "graph_arena_inv dbg blake3 a' \<and> length (ga_items a') \<le> length (ga_items a) + graph_op_weight x \<and>
    (\<forall>k. graph_refs a' k + count_list dropped k = graph_refs a k + count_list gained k)"
proof (cases x)
  case (InsertGraph body)
  then show ?thesis using assms graph_step_insert [OF assms(1)] by (simp add: graph_op_weight_def)
next
  case (RetainHash h)
  then show ?thesis using assms graph_step_retain by (simp add: graph_op_weight_def)
next
  case (ReleaseGraph gid)
  then show ?thesis using assms graph_step_release by (simp add: graph_op_weight_def)
qed

interpretation graphs: ref_store "graph_arena_inv dbg blake3" graph_refs "\<lambda>a. length (ga_items a)"
    graph_op_weight SLOTS "graph_step dbg blake3 protected" for dbg blake3 protected
  by unfold_locales (rule graph_step_law)

section \<open>Content addressing\<close>

lemma hash_chunk_append_inj:
  assumes "hash_chunk c @ r = hash_chunk d @ s" "length c < 2 ^ 64" "length d < 2 ^ 64"
  shows "c = d" "r = s"
proof -
  from assms(1) have "u64_to_le (of_nat (length c)) = u64_to_le (of_nat (length d))" and rest: "c @ r = d @ s"
    by (simp_all add: hash_chunk_def append_eq_append_conv)
  then have "(of_nat (length c) :: u64) = of_nat (length d)" by (simp only: u64_to_le_inj)
  then have "unat (of_nat (length c) :: u64) = unat (of_nat (length d) :: u64)" by simp
  then have "length c = length d"
    using assms(2,3) by (simp add: unat_of_nat take_bit_nat_eq_self)
  with rest show "c = d" "r = s" by simp_all
qed

lemma canonical_inj:
  assumes "valid_graph f" "valid_graph g" "canonical f = canonical g"
  shows "f = g"
proof -
  have "canonical k = wav1_header k @ wav1_nodes (g_op k) (g_arg0 k) (g_arg1 k)" if "valid_graph k" for k
    using that by (simp add: canonical_def serialize_wav1_valid)
  then show ?thesis using assms deserialize_serialize by (metis outcome.inject(1))
qed

lemma body_hash_inj:
  assumes "inj blake3" "valid_graph f" "valid_graph g" "body_hash blake3 a f = body_hash blake3 a g"
  shows "f = g"
proof -
  from assms(1,4) have "hash_chunk (canonical f) = hash_chunk (canonical g)"
    by (simp add: body_hash_def graph_hash_def hash32_def inj_eq)
  then have "drop 8 (hash_chunk (canonical f)) = drop 8 (hash_chunk (canonical g))" by simp
  then have "canonical f = canonical g" by (simp add: hash_chunk_def)
  with assms show ?thesis by (intro canonical_inj)
qed

text \<open>
  C11: reference accounting of the graph arena. Over any sequence of insertions, retentions and
  releases (successful or not) that needs at most \<open>2^32\<close> slots, the count of a hash is the number of
  references handed out for it less the number given back, and the arena keeps a graph with that
  hash exactly while the two differ: nothing is freed early and nothing is leaked.
\<close>

theorem graph_arena_accounting:
  assumes "sum_list (map graph_op_weight xs) \<le> SLOTS"
    and "run_script (graph_step dbg blake3 protected) xs (graph_arena_new engine_id engine_version) = (a, gained, dropped)"
  shows "graph_arena_inv dbg blake3 a \<and> graph_refs a h + count_list dropped h = count_list gained h \<and>
    ((\<exists>i. holds a i h) \<longleftrightarrow> count_list dropped h \<noteq> count_list gained h)"
proof -
  let ?new = "graph_arena_new engine_id engine_version"
  have "length (ga_items ?new) + sum_list (map graph_op_weight xs) \<le> SLOTS" "graph_refs ?new h = 0"
    using assms(1) by (simp_all add: graph_arena_new_def graph_refs_def)
  then have inv: "graph_arena_inv dbg blake3 a" and bal: "graph_refs a h + count_list dropped h = count_list gained h"
    using graphs.balance [OF graph_arena_new_inv _ assms(2)] by (metis add_0)+
  moreover have "(\<exists>i. holds a i h) \<longleftrightarrow> ga_by_hash a h \<noteq> None"
    using graph_arena_invD(2) [OF inv] by blast
  ultimately show ?thesis using graph_refs_pos [OF inv, of h] by auto
qed

definition sample_body :: graph_body where
  "sample_body = \<lparr> g_arity = 1, g_capacity = 16, g_output = 2, g_op = [InputOp, NotOp, OutputOp],
     g_arg0 = [0, 0, 1], g_arg1 = [NO_NODE, NO_NODE, NO_NODE] \<rparr>"

definition sample_hash :: digest where
  "sample_hash = body_hash (\<lambda>b. b) (graph_arena_new [] []) sample_body"

definition sample_script :: "graph_op list" where
  "sample_script = [InsertGraph sample_body, RetainHash sample_hash, ReleaseGraph (id_from_raw 0)]"

theorem graph_arena_accounting_witness:
  "\<exists>a. run_script (graph_step True (\<lambda>b. b) (id_from_raw 7)) sample_script (graph_arena_new [] []) =
       (a, [sample_hash, sample_hash], [sample_hash]) \<and> graph_refs a sample_hash = 1 \<and> (\<exists>i. holds a i sample_hash)"
proof -
  let ?run = "run_script (graph_step True (\<lambda>b. b) (id_from_raw 7)) sample_script (graph_arena_new [] [])"
  have "snd ?run = ([sample_hash, sample_hash], [sample_hash])" by code_simp
  then obtain a where run: "?run = (a, [sample_hash, sample_hash], [sample_hash])" by (metis prod.collapse)
  moreover have "sum_list (map graph_op_weight sample_script) \<le> SLOTS"
    by (simp add: sample_script_def graph_op_weight_def SLOTS_def)
  ultimately show ?thesis using graph_arena_accounting [OF _ run, of sample_hash] by auto
qed

lemma whittle_graph_eqI: "wg_body f = wg_body g \<Longrightarrow> wg_hash f = wg_hash g \<Longrightarrow> f = g" for f g :: whittle_graph
  by (cases f; cases g) (simp add: wg_body_def graph_body.defs)

text \<open>
  C27: the arena is content-addressed. If the hash function has no collisions, a successful insertion
  returns a handle that leads to the compacted graph, every handle that was live before still leads
  to the graph it led to, and an old handle is returned exactly when its graph is the same.
\<close>

theorem graph_insert_content:
  assumes inj: "inj blake3" and inv: "graph_arena_inv dbg blake3 a" and room: "length (ga_items a) < SLOTS"
    and ins: "graph_insert dbg blake3 body a = (a', Ok gid)"
  shows "\<exists>g. compact_graph body = Ok (wg_body g) \<and> graph_get dbg a' gid = (Ok (Some g) :: (_, unit) outcome) \<and>
    (\<forall>d f. id_ok dbg d \<longrightarrow> graph_get dbg a d = (Ok (Some f) :: (_, unit) outcome) \<longrightarrow>
       graph_get dbg a' d = (Ok (Some f) :: (_, unit) outcome) \<and> (d = gid \<longleftrightarrow> wg_body f = wg_body g))"
proof -
  obtain c where c: "compact_graph body = Ok c"
    using ins by (cases "compact_graph body") (simp_all add: graph_insert_def)
  let ?h = "body_hash blake3 a c"
  have few: "graph_refs a ?h < refs_max"
    using graph_insert_full [OF inv c] graph_refs_le [of a ?h] ins by fastforce
  have inv': "graph_arena_inv dbg blake3 a'" and idx: "ga_by_hash a' = (ga_by_hash a)(?h \<mapsto> gid)"
    and ids: "ga_engine_id a' = ga_engine_id a" "ga_engine_version a' = ga_engine_version a"
    and new: "ga_by_hash a ?h = None \<or> ga_by_hash a ?h = Some gid"
    using graph_insert_spec [OF inv room c refl few] ins by (metis Pair_inject outcome.inject(1))+
  have hash: "body_hash blake3 a' = body_hash blake3 a" by (simp add: fun_eq_iff body_hash_def ids)
  obtain g where g: "graph_get dbg a' gid = (Ok (Some g) :: (_, unit) outcome)" "wg_hash g = ?h"
    "compact_form (wg_body g)" "?h = body_hash blake3 a' (wg_body g)"
    using graph_arena_lookup [OF inv', of ?h gid] idx by (metis fun_upd_same)
  have body: "wg_body g = c"
    using body_hash_inj [OF inj _ _ g(4) [unfolded hash]] compact_result(1) [OF c] g(3)
    by (simp add: compact_form_def)
  have "graph_get dbg a' d = (Ok (Some f) :: (_, unit) outcome) \<and> (d = gid \<longleftrightarrow> wg_body f = wg_body g)"
    if d: "id_ok dbg d" "graph_get dbg a d = (Ok (Some f) :: (_, unit) outcome)" for d f
  proof
    have at: "ga_by_hash a (wg_hash f) = Some d" using inv d(2,1) by (rule graph_get_indexed)
    have f: "compact_form (wg_body f)" "wg_hash f = body_hash blake3 a (wg_body f)"
      using graph_arena_invD(6) [OF inv nth_mem graph_get_conv(3) [OF d(2)]] graph_get_conv(2) [OF d(2)] by simp_all
    have at': "ga_by_hash a' (wg_hash f) = Some d" using at new idx by auto
    obtain f' where f': "graph_get dbg a' d = (Ok (Some f') :: (_, unit) outcome)" "wg_hash f' = wg_hash f"
      "compact_form (wg_body f')" "wg_hash f = body_hash blake3 a' (wg_body f')"
      using graph_arena_lookup [OF inv' at'] by metis
    have "wg_body f' = wg_body f"
      using body_hash_inj [OF inj, of "wg_body f'" "wg_body f" a] f f'(3,4) hash by (simp add: compact_form_def)
    then have "f' = f" using f'(2) by (rule whittle_graph_eqI)
    with f' show get': "graph_get dbg a' d = (Ok (Some f) :: (_, unit) outcome)" by simp
    show "d = gid \<longleftrightarrow> wg_body f = wg_body g"
    proof
      assume "d = gid"
      with get' g(1) show "wg_body f = wg_body g" by simp
    next
      assume "wg_body f = wg_body g"
      then have "wg_hash f = ?h" using f(2) body by simp
      with at' idx show "d = gid" by simp
    qed
  qed
  with c body g(1) show ?thesis by blast
qed

theorem graph_insert_content_witness:
  "\<exists>a g. graph_insert True (\<lambda>b. b) sample_body (graph_arena_new [] []) = (a, Ok (id_from_raw 0)) \<and>
     graph_get True a (id_from_raw 0) = (Ok (Some g) :: (_, unit) outcome) \<and> compact_graph sample_body = Ok (wg_body g)"
proof -
  have "snd (graph_insert True (\<lambda>b. b) sample_body (graph_arena_new [] [])) = Ok (id_from_raw 0)" by code_simp
  then obtain a where ins: "graph_insert True (\<lambda>b. b) sample_body (graph_arena_new [] []) = (a, Ok (id_from_raw 0))"
    by (metis prod.collapse)
  have "inj (\<lambda>b :: u8 list. b)" "length (ga_items (graph_arena_new [] [])) < SLOTS"
    by (simp_all add: graph_arena_new_def SLOTS_def)
  with graph_insert_content [OF _ graph_arena_new_inv _ ins] ins show ?thesis by blast
qed

end
