(* ===== verification/Whittle_Candidates.thy ===== *)
theory Whittle_Candidates
  imports Whittle_Rules Whittle_Arena
begin

text \<open>
  \<open>CandidateArena\<close> of \<open>crates/gz-engine-whittle/src/engine.rs\<close>: the candidates of one enumeration are
  stored together as a batch, and every candidate has a reference-counted handle that names its batch
  and its record there. The last handle of a batch frees the batch. As in the graph arena, the stack
  of vacant indices has its top at the head of the list.
\<close>

section \<open>Handles and batches\<close>

record cand_location =
  cl_batch :: u32
  cl_record :: u32

record cand_batch =
  cb_graph_hash :: digest
  cb_records :: "raw_candidate list"
  cb_live_handles :: nat

record cand_slot =
  cs_location :: "cand_location option"
  cs_refs :: u32
  cs_generation :: u32

definition cand_slot_new :: "cand_location \<Rightarrow> cand_slot" where
  "cand_slot_new location = \<lparr> cs_location = Some location, cs_refs = 1, cs_generation = 0 \<rparr>"

record whittle_candidate =
  wc_graph_hash :: digest
  wc_raw :: raw_candidate

record cand_arena =
  ca_handles :: "cand_slot list"
  ca_free_handles :: "u32 list"
  ca_batches :: "cand_batch option list"
  ca_free_batches :: "u32 list"

definition cand_arena_default :: cand_arena where
  "cand_arena_default = \<lparr> ca_handles = [], ca_free_handles = [], ca_batches = [], ca_free_batches = [] \<rparr>"

text \<open>\<open>u32::try_from(usize)\<close>.\<close>

definition u32_try_from :: "nat \<Rightarrow> u32 option" where
  "u32_try_from n = (if n < SLOTS then Some (of_nat n) else None)"

lemma u32_try_from_code [code]:
  "u32_try_from n = (if int n < 4294967296 then Some (of_nat n) else None)"
  by (simp add: u32_try_from_def SLOTS_def)

definition cand_insert_handle ::
    "bool \<Rightarrow> cand_location \<Rightarrow> cand_arena \<Rightarrow> cand_arena \<times> (slot_id, engine_error) outcome"
where
  "cand_insert_handle dbg location a =
     (case ca_free_handles a of
        index # free \<Rightarrow>
          (if length (ca_handles a) \<le> unat index then (a \<lparr> ca_free_handles := free \<rparr>, Panic)
           else
             let slot = ca_handles a ! unat index in
             if dbg \<and> cs_location slot \<noteq> None then (a \<lparr> ca_free_handles := free \<rparr>, Panic)
             else (a \<lparr> ca_free_handles := free,
                       ca_handles := (ca_handles a)[unat index :=
                         slot \<lparr> cs_location := Some location, cs_refs := 1 \<rparr>] \<rparr>,
                   Ok (id_from_slot dbg index (cs_generation slot))))
      | [] \<Rightarrow>
          (case u32_try_from (length (ca_handles a)) of
             None \<Rightarrow> (a, Err (internal_error 7 ''Whittle candidate handle arena exceeds u32''))
           | Some index \<Rightarrow>
               (a \<lparr> ca_handles := ca_handles a @ [cand_slot_new location] \<rparr>, Ok (id_from_slot dbg index 0))))"

text \<open>The loop over the records of a new batch; it stops at the first error.\<close>

primrec cand_insert_handles ::
    "bool \<Rightarrow> u32 \<Rightarrow> nat list \<Rightarrow> cand_arena \<Rightarrow> cand_arena \<times> (slot_id list, engine_error) outcome"
where
  "cand_insert_handles dbg batch [] a = (a, Ok [])"
| "cand_insert_handles dbg batch (record_index # rest) a =
     (case cand_insert_handle dbg \<lparr> cl_batch = batch, cl_record = of_nat record_index \<rparr> a of
        (a', Ok gid) \<Rightarrow>
          (case cand_insert_handles dbg batch rest a' of
             (a'', Ok ids) \<Rightarrow> (a'', Ok (gid # ids))
           | (a'', Err e) \<Rightarrow> (a'', Err e)
           | (a'', Panic) \<Rightarrow> (a'', Panic))
      | (a', Err e) \<Rightarrow> (a', Err e)
      | (a', Panic) \<Rightarrow> (a', Panic))"

text \<open>Where a new batch goes.\<close>

definition cand_alloc_batch ::
    "bool \<Rightarrow> cand_batch \<Rightarrow> cand_arena \<Rightarrow> cand_arena \<times> (u32, engine_error) outcome"
where
  "cand_alloc_batch dbg batch a =
     (case ca_free_batches a of
        index # free \<Rightarrow>
          (if length (ca_batches a) \<le> unat index \<or> dbg \<and> ca_batches a ! unat index \<noteq> None
           then (a \<lparr> ca_free_batches := free \<rparr>, Panic)
           else (a \<lparr> ca_free_batches := free, ca_batches := (ca_batches a)[unat index := Some batch] \<rparr>, Ok index))
      | [] \<Rightarrow>
          (case u32_try_from (length (ca_batches a)) of
             None \<Rightarrow> (a, Err (internal_error 7 ''Whittle candidate batch arena exceeds u32''))
           | Some index \<Rightarrow> (a \<lparr> ca_batches := ca_batches a @ [Some batch] \<rparr>, Ok index)))"

definition cand_insert_batch ::
    "bool \<Rightarrow> digest \<Rightarrow> raw_candidate list \<Rightarrow> cand_arena \<Rightarrow> cand_arena \<times> (slot_id list, engine_error) outcome"
where
  "cand_insert_batch dbg ghash raw a =
     (if raw = [] then (a, Ok [])
      else case u32_try_from (length raw) of
        None \<Rightarrow> (a, Err (internal_error 7 ''Whittle candidate batch exceeds u32''))
      | Some record_count \<Rightarrow>
          (case cand_alloc_batch dbg
                  \<lparr> cb_graph_hash = ghash, cb_records = raw, cb_live_handles = length raw \<rparr> a of
             (a', Ok batch) \<Rightarrow> cand_insert_handles dbg batch [0..<unat record_count] a'
           | (a', Err e) \<Rightarrow> (a', Err e)
           | (a', Panic) \<Rightarrow> (a', Panic)))"

definition cand_retain :: "bool \<Rightarrow> slot_id \<Rightarrow> cand_arena \<Rightarrow> cand_arena \<times> (unit, engine_error) outcome" where
  "cand_retain dbg cid a =
     (case get (ca_handles a) (unat (sid_index cid)) of
        None \<Rightarrow> (a, Err (UnknownCandidate None))
      | Some slot \<Rightarrow>
          if \<not> generation_matches dbg (cs_generation slot) cid then (a, Panic)
          else if cs_location slot = None then (a, Err (UnknownCandidate None))
          else if cs_refs slot = 0xFFFFFFFF
          then (a, Err (internal_error 6 ''Whittle candidate refcount overflow''))
          else (a \<lparr> ca_handles := (ca_handles a)[unat (sid_index cid) := slot \<lparr> cs_refs := cs_refs slot + 1 \<rparr>] \<rparr>,
                Ok ()))"

definition cand_get :: "bool \<Rightarrow> cand_arena \<Rightarrow> slot_id \<Rightarrow> (whittle_candidate option, 'e) outcome" where
  "cand_get dbg a cid =
     (case get (ca_handles a) (unat (sid_index cid)) of
        None \<Rightarrow> Ok None
      | Some slot \<Rightarrow>
          if \<not> generation_matches dbg (cs_generation slot) cid then Panic
          else (case cs_location slot of
             None \<Rightarrow> Ok None
           | Some location \<Rightarrow>
               (case get (ca_batches a) (unat (cl_batch location)) of
                  Some (Some batch) \<Rightarrow>
                    Ok (map_option (\<lambda>raw. \<lparr> wc_graph_hash = cb_graph_hash batch, wc_raw = raw \<rparr>)
                          (get (cb_records batch) (unat (cl_record location))))
                | _ \<Rightarrow> Ok None)))"

text \<open>
  \<open>release\<close>, from the point where the last reference is gone: the handle is freed first, then the
  batch loses a handle; the three errors leave the handle freed.
\<close>

definition cand_drop_batch ::
    "cand_location \<Rightarrow> cand_arena \<Rightarrow> cand_arena \<times> (unit, engine_error) outcome"
where
  "cand_drop_batch location a =
     (case get (ca_batches a) (unat (cl_batch location)) of
        None \<Rightarrow> (a, Err (internal_error 7 ''Whittle candidate handle references missing batch''))
      | Some None \<Rightarrow> (a, Err (internal_error 7 ''Whittle candidate handle references released batch''))
      | Some (Some batch) \<Rightarrow>
          if cb_live_handles batch = 0
          then (a, Err (internal_error 7 ''Whittle candidate batch refcount underflow''))
          else
            let live = cb_live_handles batch - 1 in
            if live = 0
            then (a \<lparr> ca_batches := (ca_batches a)[unat (cl_batch location) := None],
                      ca_free_batches := cl_batch location # ca_free_batches a \<rparr>, Ok ())
            else (a \<lparr> ca_batches := (ca_batches a)[unat (cl_batch location) :=
                        Some (batch \<lparr> cb_live_handles := live \<rparr>)] \<rparr>, Ok ()))"

definition cand_release ::
    "bool \<Rightarrow> slot_id \<Rightarrow> cand_arena \<Rightarrow> cand_arena \<times> (whittle_candidate option, engine_error) outcome"
where
  "cand_release dbg cid a =
     (case cand_get dbg a cid of
        Panic \<Rightarrow> (a, Panic)
      | Err e \<Rightarrow> (a, Err e)
      | Ok None \<Rightarrow> (a, Err (UnknownCandidate None))
      | Ok (Some candidate) \<Rightarrow>
          (case get (ca_handles a) (unat (sid_index cid)) of
             None \<Rightarrow> (a, Panic)
           | Some slot \<Rightarrow>
               if 1 < cs_refs slot
               then (a \<lparr> ca_handles := (ca_handles a)[unat (sid_index cid) := slot \<lparr> cs_refs := cs_refs slot - 1 \<rparr>] \<rparr>,
                     Ok None)
               else (case cs_location slot of
                  None \<Rightarrow> (a, Err (UnknownCandidate None))
                | Some location \<Rightarrow>
                    (case cand_drop_batch location
                            (a \<lparr> ca_handles := (ca_handles a)[unat (sid_index cid) :=
                                   slot \<lparr> cs_location := None, cs_refs := 0,
                                          cs_generation := bump_generation dbg (cs_generation slot) \<rparr>],
                                 ca_free_handles := sid_index cid # ca_free_handles a \<rparr>) of
                       (a', Ok _) \<Rightarrow> (a', Ok (Some candidate))
                     | (a', Err e) \<Rightarrow> (a', Err e)
                     | (a', Panic) \<Rightarrow> (a', Panic)))))"

definition cand_live_count :: "cand_arena \<Rightarrow> nat" where
  "cand_live_count a = length (ca_handles a) - length (ca_free_handles a)"

definition cand_ref_count :: "cand_arena \<Rightarrow> u64" where
  "cand_ref_count a = sum_list (map (\<lambda>slot. ucast (cs_refs slot)) (ca_handles a))"

section \<open>The arena invariant\<close>

definition located :: "cand_arena \<Rightarrow> nat \<Rightarrow> cand_location \<Rightarrow> bool" where
  "located a i loc \<longleftrightarrow> i < length (ca_handles a) \<and> cs_location (ca_handles a ! i) = Some loc"

definition batch_at :: "cand_arena \<Rightarrow> nat \<Rightarrow> cand_batch option" where
  "batch_at a k = (case get (ca_batches a) k of Some b \<Rightarrow> b | None \<Rightarrow> None)"

definition handles_of :: "cand_arena \<Rightarrow> nat \<Rightarrow> nat set" where
  "handles_of a k = {i. \<exists>loc. located a i loc \<and> unat (cl_batch loc) = k}"

text \<open>
  Every handle in use points into a live batch, no two to the same record, and a live batch counts the
  handles that point into it. \<open>pending k\<close> is the number of handles of batch \<open>k\<close> that are still to be
  made; it is zero but inside \<open>insert_batch\<close>.
\<close>

definition cand_inv :: "(nat \<Rightarrow> nat) \<Rightarrow> cand_arena \<Rightarrow> bool" where
  "cand_inv pending a \<longleftrightarrow>
     pool_ok (\<lambda>s. cs_location s \<noteq> None) (ca_free_handles a) (ca_handles a) \<and>
     pool_ok (\<lambda>b. b \<noteq> None) (ca_free_batches a) (ca_batches a) \<and>
     (\<forall>i loc. located a i loc \<longrightarrow>
        (\<exists>b. batch_at a (unat (cl_batch loc)) = Some b \<and> unat (cl_record loc) < length (cb_records b))) \<and>
     (\<forall>i j loc. located a i loc \<longrightarrow> located a j loc \<longrightarrow> i = j) \<and>
     (\<forall>k b. batch_at a k = Some b \<longrightarrow>
        cb_live_handles b = card (handles_of a k) + pending k \<and> 0 < cb_live_handles b) \<and>
     (\<forall>s \<in> set (ca_handles a). cs_refs s = 0 \<longleftrightarrow> cs_location s = None)"

lemma cand_invD:
  assumes "cand_inv pending a"
  shows "pool_ok (\<lambda>s. cs_location s \<noteq> None) (ca_free_handles a) (ca_handles a)"
    "pool_ok (\<lambda>b. b \<noteq> None) (ca_free_batches a) (ca_batches a)"
    "located a i loc \<Longrightarrow>
       \<exists>b. batch_at a (unat (cl_batch loc)) = Some b \<and> unat (cl_record loc) < length (cb_records b)"
    "located a i loc \<Longrightarrow> located a j loc \<Longrightarrow> i = j"
    "batch_at a k = Some b \<Longrightarrow> cb_live_handles b = card (handles_of a k) + pending k"
    "batch_at a k = Some b \<Longrightarrow> 0 < cb_live_handles b"
    "s \<in> set (ca_handles a) \<Longrightarrow> cs_refs s = 0 \<longleftrightarrow> cs_location s = None"
  using assms unfolding cand_inv_def by blast+

lemma cand_invI:
  assumes "pool_ok (\<lambda>s. cs_location s \<noteq> None) (ca_free_handles a) (ca_handles a)"
    "pool_ok (\<lambda>b. b \<noteq> None) (ca_free_batches a) (ca_batches a)"
    "\<And>i loc. located a i loc \<Longrightarrow>
       \<exists>b. batch_at a (unat (cl_batch loc)) = Some b \<and> unat (cl_record loc) < length (cb_records b)"
    "\<And>i j loc. located a i loc \<Longrightarrow> located a j loc \<Longrightarrow> i = j"
    "\<And>k b. batch_at a k = Some b \<Longrightarrow> cb_live_handles b = card (handles_of a k) + pending k"
    "\<And>k b. batch_at a k = Some b \<Longrightarrow> 0 < cb_live_handles b"
    "\<And>s. s \<in> set (ca_handles a) \<Longrightarrow> cs_refs s = 0 \<longleftrightarrow> cs_location s = None"
  shows "cand_inv pending a"
  using assms unfolding cand_inv_def by blast

lemma cand_inv_default: "cand_inv (\<lambda>_. 0) cand_arena_default"
  by (rule cand_invI) (simp_all add: cand_arena_default_def pool_ok_empty located_def batch_at_def get_def)

lemma handles_of_finite: "finite (handles_of a k)"
  by (rule finite_subset [of _ "{..<length (ca_handles a)}"]) (auto simp: handles_of_def located_def)

text \<open>The references behind a handle, and the location it stands for.\<close>

definition cand_refs :: "bool \<Rightarrow> cand_arena \<Rightarrow> slot_id \<Rightarrow> nat" where
  "cand_refs dbg a cid =
     (case get (ca_handles a) (unat (sid_index cid)) of
        None \<Rightarrow> 0
      | Some slot \<Rightarrow>
          if cid = id_from_slot dbg (sid_index cid) (cs_generation slot) then unat (cs_refs slot) else 0)"

definition names :: "bool \<Rightarrow> cand_arena \<Rightarrow> slot_id \<Rightarrow> cand_location \<Rightarrow> bool" where
  "names dbg a cid loc \<longleftrightarrow>
     (\<exists>slot. get (ca_handles a) (unat (sid_index cid)) = Some slot \<and> cs_location slot = Some loc \<and>
        generation_matches dbg (cs_generation slot) cid)"

lemma names_located: "names dbg a cid loc \<Longrightarrow> located a (unat (sid_index cid)) loc"
  by (auto simp: names_def located_def get_Some_iff)

lemma cand_get_names:
  assumes "cand_inv pending a" "names dbg a cid loc"
  obtains b where "batch_at a (unat (cl_batch loc)) = Some b" "unat (cl_record loc) < length (cb_records b)"
    "cand_get dbg a cid = Ok (Some \<lparr> wc_graph_hash = cb_graph_hash b, wc_raw = cb_records b ! unat (cl_record loc) \<rparr>)"
proof -
  obtain b where b: "batch_at a (unat (cl_batch loc)) = Some b" "unat (cl_record loc) < length (cb_records b)"
    using cand_invD(3) [OF assms(1) names_located [OF assms(2)]] by blast
  moreover from b(1) have "get (ca_batches a) (unat (cl_batch loc)) = Some (Some b)"
    by (simp add: batch_at_def split: option.splits)
  ultimately show thesis
    using that assms(2) by (auto simp: names_def cand_get_def get_def [of "cb_records b"])
qed

lemma cand_get_Some_iff:
  assumes "cand_inv pending a"
  shows "(\<exists>c. cand_get dbg a cid = Ok (Some c)) \<longleftrightarrow> (\<exists>loc. names dbg a cid loc)"
proof
  assume "\<exists>c. cand_get dbg a cid = Ok (Some c)"
  then show "\<exists>loc. names dbg a cid loc"
    by (auto simp: cand_get_def names_def split: option.splits if_splits)
next
  assume "\<exists>loc. names dbg a cid loc"
  then show "\<exists>c. cand_get dbg a cid = Ok (Some c)" using cand_get_names [OF assms] by metis
qed

section \<open>Inserting\<close>

text \<open>The arena after slot \<open>i\<close>, which was vacant or new, was given a location.\<close>

lemma cand_inv_store:
  assumes inv: "cand_inv pending a"
    and pool: "pool_ok (\<lambda>s. cs_location s \<noteq> None) free handles"
    and i: "i < length handles" "cs_location (handles ! i) = Some loc" "cs_refs (handles ! i) \<noteq> 0"
    and vacant: "\<And>l. \<not> located a i l"
    and same: "\<And>j. j \<noteq> i \<Longrightarrow> get handles j = get (ca_handles a) j"
    and batch: "batch_at a (unat (cl_batch loc)) = Some b" "unat (cl_record loc) < length (cb_records b)"
    and fresh: "\<And>j. \<not> located a j loc" and more: "0 < pending (unat (cl_batch loc))"
  shows "cand_inv (pending(unat (cl_batch loc) := pending (unat (cl_batch loc)) - 1))
    (a \<lparr> ca_free_handles := free, ca_handles := handles \<rparr>)" (is "cand_inv _ ?a")
proof (rule cand_invI)
  note old = cand_invD [OF inv]
  have loc: "located ?a j l \<longleftrightarrow> located a j l \<or> j = i \<and> l = loc" for j l
  proof (cases "j = i")
    case True then show ?thesis using i vacant by (auto simp: located_def)
  next
    case False
    then show ?thesis using same [OF False] by (auto simp: located_def get_def split: if_splits)
  qed
  have batches [simp]: "batch_at ?a = batch_at a" by (simp add: fun_eq_iff batch_at_def)
  have hs: "handles_of ?a k = (if k = unat (cl_batch loc) then insert i (handles_of a k) else handles_of a k)" for k
    by (auto simp: handles_of_def loc)
  have ni: "i \<notin> handles_of a k" for k using vacant by (auto simp: handles_of_def)
  show "pool_ok (\<lambda>s. cs_location s \<noteq> None) (ca_free_handles ?a) (ca_handles ?a)" using pool by simp
  show "pool_ok (\<lambda>b. b \<noteq> None) (ca_free_batches ?a) (ca_batches ?a)" using old(2) by simp
  show "located ?a j l \<Longrightarrow>
    \<exists>b. batch_at ?a (unat (cl_batch l)) = Some b \<and> unat (cl_record l) < length (cb_records b)" for j l
    using old(3) [of j l] batch by (auto simp: loc)
  show "located ?a j l \<Longrightarrow> located ?a k l \<Longrightarrow> j = k" for j k l
    using old(4) [of j l k] fresh by (auto simp: loc)
  show "batch_at ?a k = Some c \<Longrightarrow> cb_live_handles c = card (handles_of ?a k) +
      (pending(unat (cl_batch loc) := pending (unat (cl_batch loc)) - 1)) k" for k c
    using old(5) [of k c] more ni [of k] handles_of_finite [of a k] by (auto simp: hs)
  show "batch_at ?a k = Some c \<Longrightarrow> 0 < cb_live_handles c" for k c using old(6) [of k c] by simp
  fix s
  assume "s \<in> set (ca_handles ?a)"
  then obtain j where j: "j < length handles" "s = handles ! j" by (auto simp: in_set_conv_nth)
  show "cs_refs s = 0 \<longleftrightarrow> cs_location s = None"
  proof (cases "j = i")
    case True then show ?thesis using i j by simp
  next
    case False
    then have "s \<in> set (ca_handles a)" using same [OF False] j by (auto simp: get_def split: if_splits)
    then show ?thesis by (rule old(7))
  qed
qed

text \<open>What a client sees of the new handle \<open>cid\<close> for slot \<open>i\<close>.\<close>

lemma cand_store_view:
  fixes a handles free i
  defines "a' \<equiv> a \<lparr> ca_free_handles := free, ca_handles := handles \<rparr>"
  assumes i: "i < length handles" "i < SLOTS" "cs_location (handles ! i) = Some loc" "cs_refs (handles ! i) = 1"
    and vacant: "\<And>s. get (ca_handles a) i = Some s \<Longrightarrow> cs_location s = None \<and> cs_refs s = 0"
    and same: "\<And>j. j \<noteq> i \<Longrightarrow> get handles j = get (ca_handles a) j"
    and cid: "cid = id_from_slot dbg (of_nat i) (cs_generation (handles ! i))"
  shows "located a' j l \<longleftrightarrow> located a j l \<or> j = unat (sid_index cid) \<and> l = loc"
    "names dbg a' cid loc" "names dbg a c l \<Longrightarrow> names dbg a' c l"
    "cand_refs dbg a' = (cand_refs dbg a)(cid := 1)" "cand_refs dbg a cid = 0"
proof -
  have sid: "unat (sid_index cid) = i" using i(2) by (simp add: cid id_from_slot_def unat_of_nat_small)
  have gi: "get handles i = Some (handles ! i)" using i(1) by (simp add: get_def)
  show "located a' j l \<longleftrightarrow> located a j l \<or> j = unat (sid_index cid) \<and> l = loc"
  proof (cases "j = i")
    case True
    then show ?thesis using i vacant by (auto simp: located_def a'_def sid get_def)
  next
    case False
    then show ?thesis using same [OF False] by (auto simp: located_def a'_def sid get_def split: if_splits)
  qed
  show "names dbg a' cid loc"
    using gi i(3) by (simp add: names_def a'_def sid) (simp add: cid generation_matches_def id_from_slot_def)
  show "names dbg a c l \<Longrightarrow> names dbg a' c l"
    using vacant same [of "unat (sid_index c)"] by (cases "unat (sid_index c) = i") (auto simp: names_def a'_def)
  show z: "cand_refs dbg a cid = 0"
    using vacant by (auto simp: cand_refs_def sid split: option.splits)
  show "cand_refs dbg a' = (cand_refs dbg a)(cid := 1)"
  proof
    fix c
    show "cand_refs dbg a' c = ((cand_refs dbg a)(cid := 1)) c"
    proof (cases "unat (sid_index c) = i")
      case True
      then have "sid_index c = sid_index cid" using sid by (simp add: unat_u32_inj [symmetric])
      then have si: "sid_index c = of_nat i" by (simp add: cid id_from_slot_def)
      have "cand_refs dbg a c = 0" using vacant True by (auto simp: cand_refs_def split: option.splits)
      moreover have "cand_refs dbg a' c = (if c = cid then 1 else 0)"
        using True gi i(4) by (simp add: cand_refs_def a'_def) (simp add: cid si id_from_slot_def)
      ultimately show ?thesis by simp
    next
      case False
      then show ?thesis using same [OF False] sid by (auto simp: cand_refs_def a'_def)
    qed
  qed
qed

lemma cand_insert_handle_spec:
  assumes inv: "cand_inv pending a" and room: "length (ca_handles a) < SLOTS"
    and batch: "batch_at a (unat (cl_batch loc)) = Some b" "unat (cl_record loc) < length (cb_records b)"
    and fresh: "\<And>j. \<not> located a j loc" and more: "0 < pending (unat (cl_batch loc))"
  obtains free handles cid where
    "cand_insert_handle dbg loc a = (a \<lparr> ca_free_handles := free, ca_handles := handles \<rparr>, Ok cid)"
    "cand_inv (pending(unat (cl_batch loc) := pending (unat (cl_batch loc)) - 1))
       (a \<lparr> ca_free_handles := free, ca_handles := handles \<rparr>)"
    "length handles \<le> Suc (length (ca_handles a))"
    "\<And>j l. located (a \<lparr> ca_free_handles := free, ca_handles := handles \<rparr>) j l \<longleftrightarrow>
       located a j l \<or> j = unat (sid_index cid) \<and> l = loc"
    "names dbg (a \<lparr> ca_free_handles := free, ca_handles := handles \<rparr>) cid loc"
    "\<And>c l. names dbg a c l \<Longrightarrow> names dbg (a \<lparr> ca_free_handles := free, ca_handles := handles \<rparr>) c l"
    "cand_refs dbg (a \<lparr> ca_free_handles := free, ca_handles := handles \<rparr>) = (cand_refs dbg a)(cid := 1)"
    "cand_refs dbg a cid = 0"
proof (cases "ca_free_handles a")
  case Nil
  let ?i = "length (ca_handles a)"
  let ?handles = "ca_handles a @ [cand_slot_new loc]" and ?cid = "id_from_slot dbg (of_nat ?i) 0"
  note pool = cand_invD(1) [OF inv, unfolded Nil]
  have pool': "pool_ok (\<lambda>s. cs_location s \<noteq> None) [] ?handles"
    by (rule pool_ok_push [OF pool]) (simp_all add: cand_slot_new_def room)
  have at: "?handles ! ?i = cand_slot_new loc" by simp
  have same: "\<And>j. j \<noteq> ?i \<Longrightarrow> get ?handles j = get (ca_handles a) j" by (simp add: get_def nth_append)
  have vacant: "\<And>s. get (ca_handles a) ?i = Some s \<Longrightarrow> cs_location s = None \<and> cs_refs s = 0"
    by (simp add: get_def)
  have cid: "?cid = id_from_slot dbg (of_nat ?i) (cs_generation (?handles ! ?i))" by (simp add: cand_slot_new_def)
  have new: "?i < length ?handles" "cs_location (?handles ! ?i) = Some loc" "cs_refs (?handles ! ?i) = 1"
    by (simp_all add: cand_slot_new_def)
  note view = cand_store_view(1-4) [OF new(1) room new(2,3) vacant same cid, where free = "[]"]
    cand_store_view(5) [OF new(1) room new(2,3) vacant same cid]
  show thesis
  proof (rule that [OF _ _ _ view])
    show "cand_insert_handle dbg loc a = (a \<lparr> ca_free_handles := [], ca_handles := ?handles \<rparr>, Ok ?cid)"
      using Nil room by (simp add: cand_insert_handle_def u32_try_from_def)
    show "cand_inv (pending(unat (cl_batch loc) := pending (unat (cl_batch loc)) - 1))
       (a \<lparr> ca_free_handles := [], ca_handles := ?handles \<rparr>)"
      by (rule cand_inv_store [OF inv pool' new(1,2) _ _ same batch fresh more])
        (simp_all add: cand_slot_new_def located_def)
  qed simp
next
  case (Cons index rest)
  let ?i = "unat index"
  let ?slot = "ca_handles a ! ?i"
  let ?handles = "(ca_handles a)[?i := ?slot \<lparr> cs_location := Some loc, cs_refs := 1 \<rparr>]"
    and ?cid = "id_from_slot dbg index (cs_generation ?slot)"
  note pool = cand_invD(1) [OF inv, unfolded Cons]
  have i: "?i < length (ca_handles a)" "cs_location ?slot = None"
    using pool_ok_free [OF pool, of index] by simp_all
  have refs: "cs_refs ?slot = 0" using cand_invD(7) [OF inv, of ?slot] i by simp
  have pool': "pool_ok (\<lambda>s. cs_location s \<noteq> None) rest ?handles" by (rule pool_ok_pop [OF pool]) simp
  have same: "\<And>j. j \<noteq> ?i \<Longrightarrow> get ?handles j = get (ca_handles a) j" by (simp add: get_def)
  have vacant: "\<And>s. get (ca_handles a) ?i = Some s \<Longrightarrow> cs_location s = None \<and> cs_refs s = 0"
    using i refs by (simp add: get_Some_iff)
  have cid: "?cid = id_from_slot dbg (of_nat ?i) (cs_generation (?handles ! ?i))" using i by simp
  have new: "?i < length ?handles" "cs_location (?handles ! ?i) = Some loc" "cs_refs (?handles ! ?i) = 1"
    using i by simp_all
  note view = cand_store_view(1-4) [OF new(1) unat_u32_less new(2,3) vacant same cid, where free = rest]
    cand_store_view(5) [OF new(1) unat_u32_less new(2,3) vacant same cid]
  show thesis
  proof (rule that [OF _ _ _ view])
    show "cand_insert_handle dbg loc a = (a \<lparr> ca_free_handles := rest, ca_handles := ?handles \<rparr>, Ok ?cid)"
      using Cons i by (simp add: cand_insert_handle_def Let_def)
    show "cand_inv (pending(unat (cl_batch loc) := pending (unat (cl_batch loc)) - 1))
       (a \<lparr> ca_free_handles := rest, ca_handles := ?handles \<rparr>)"
      by (rule cand_inv_store [OF inv pool' new(1,2) _ _ same batch fresh more])
        (use i in \<open>simp_all add: located_def\<close>)
  qed simp
qed

definition record_loc :: "u32 \<Rightarrow> nat \<Rightarrow> cand_location" where
  "record_loc batch r = \<lparr> cl_batch = batch, cl_record = of_nat r \<rparr>"

lemma record_loc_simps:
  "cl_batch (record_loc batch r) = batch" "cl_record (record_loc batch r) = of_nat r"
  "r < SLOTS \<Longrightarrow> s < SLOTS \<Longrightarrow> record_loc batch r = record_loc batch s \<longleftrightarrow> r = s"
  by (simp_all add: record_loc_def) (metis unat_of_nat_small)

text \<open>
  The loop of \<open>insert_batch\<close> from record \<open>r\<close> on: every record gets a handle of its own, with one
  reference, and nothing else changes.
\<close>

lemma cand_insert_handles_spec:
  assumes "cand_inv ((\<lambda>_. 0)(unat batch := n - r)) a" "batch_at a (unat batch) = Some b" "length (cb_records b) = n"
    and "n < SLOTS" "r \<le> n" "length (ca_handles a) + (n - r) \<le> SLOTS"
    and "\<And>j s. located a j (record_loc batch s) \<Longrightarrow> s < n \<Longrightarrow> s < r"
  shows "\<exists>free handles ids. let a' = a \<lparr> ca_free_handles := free, ca_handles := handles \<rparr> in
    cand_insert_handles dbg batch [r..<n] a = (a', Ok ids) \<and> cand_inv (\<lambda>_. 0) a' \<and>
    length ids = n - r \<and> length handles \<le> length (ca_handles a) + (n - r) \<and>
    (\<forall>j < n - r. names dbg a' (ids ! j) (record_loc batch (r + j))) \<and>
    (\<forall>c l. names dbg a c l \<longrightarrow> names dbg a' c l) \<and>
    (\<forall>c. cand_refs dbg a' c = cand_refs dbg a c + count_list ids c)"
  using assms
proof (induction "n - r" arbitrary: r a)
  case 0
  then have rn: "r = n" by simp
  have "((\<lambda>_. 0)(unat batch := n - r)) = (\<lambda>_. 0)" using rn by (simp add: fun_eq_iff)
  then have inv: "cand_inv (\<lambda>_. 0) a" using 0(2) by metis
  have self: "a \<lparr> ca_free_handles := ca_free_handles a, ca_handles := ca_handles a \<rparr> = a" by simp
  show ?case
    by (intro exI [of _ "ca_free_handles a"] exI [of _ "ca_handles a"] exI [of _ "[]"])
      (use inv rn in \<open>simp add: Let_def\<close>)
next
  case (Suc m)
  let ?loc = "record_loc batch r" and ?p = "(\<lambda>_. 0)(unat batch := n - r)"
  have r: "r < n" "n - Suc r = m" using Suc.hyps(2) by simp_all
  have rs: "unat (of_nat r :: u32) = r" using r Suc.prems(4) by (intro unat_of_nat_small) simp
  have fresh: "\<not> located a j ?loc" for j using Suc.prems(7) [of j r] r by blast
  have room: "length (ca_handles a) < SLOTS" using Suc.prems(6) r by linarith
  have bt: "batch_at a (unat (cl_batch ?loc)) = Some b" "unat (cl_record ?loc) < length (cb_records b)"
    "0 < ?p (unat (cl_batch ?loc))"
    using Suc.prems(2,3) r rs by (simp_all add: record_loc_simps)
  obtain free handles cid where step:
    "cand_insert_handle dbg ?loc a = (a \<lparr> ca_free_handles := free, ca_handles := handles \<rparr>, Ok cid)"
    "cand_inv (?p(unat (cl_batch ?loc) := ?p (unat (cl_batch ?loc)) - 1))
       (a \<lparr> ca_free_handles := free, ca_handles := handles \<rparr>)"
    "length handles \<le> Suc (length (ca_handles a))"
    "\<And>j l. located (a \<lparr> ca_free_handles := free, ca_handles := handles \<rparr>) j l \<longleftrightarrow>
       located a j l \<or> j = unat (sid_index cid) \<and> l = ?loc"
    "names dbg (a \<lparr> ca_free_handles := free, ca_handles := handles \<rparr>) cid ?loc"
    "\<And>c l. names dbg a c l \<Longrightarrow> names dbg (a \<lparr> ca_free_handles := free, ca_handles := handles \<rparr>) c l"
    "cand_refs dbg (a \<lparr> ca_free_handles := free, ca_handles := handles \<rparr>) = (cand_refs dbg a)(cid := 1)"
    "cand_refs dbg a cid = 0"
    by (rule cand_insert_handle_spec [OF Suc.prems(1) room bt(1,2) fresh bt(3), of dbg]) (rule that, assumption+)
  let ?a = "a \<lparr> ca_free_handles := free, ca_handles := handles \<rparr>"
  have "?p(unat (cl_batch ?loc) := ?p (unat (cl_batch ?loc)) - 1) = (\<lambda>_. 0)(unat batch := n - Suc r)"
    using r by (simp add: record_loc_simps fun_eq_iff)
  with step(2) have inv: "cand_inv ((\<lambda>_. 0)(unat batch := n - Suc r)) ?a" by (simp only:)
  have "\<exists>free' handles' ids. let a' = ?a \<lparr> ca_free_handles := free', ca_handles := handles' \<rparr> in
    cand_insert_handles dbg batch [Suc r..<n] ?a = (a', Ok ids) \<and> cand_inv (\<lambda>_. 0) a' \<and>
    length ids = n - Suc r \<and> length handles' \<le> length (ca_handles ?a) + (n - Suc r) \<and>
    (\<forall>j < n - Suc r. names dbg a' (ids ! j) (record_loc batch (Suc r + j))) \<and>
    (\<forall>c l. names dbg ?a c l \<longrightarrow> names dbg a' c l) \<and>
    (\<forall>c. cand_refs dbg a' c = cand_refs dbg ?a c + count_list ids c)"
  proof (rule Suc.hyps(1))
    show "m = n - Suc r" "Suc r \<le> n" "n < SLOTS" "length (cb_records b) = n" using r Suc.prems by simp_all
    show "cand_inv ((\<lambda>_. 0)(unat batch := n - Suc r)) ?a" by (rule inv)
    show "batch_at ?a (unat batch) = Some b" using Suc.prems(2) by (simp add: batch_at_def)
    show "length (ca_handles ?a) + (n - Suc r) \<le> SLOTS" using step(3) Suc.prems(6) r by simp
    fix j s
    assume s: "located ?a j (record_loc batch s)" "s < n"
    then show "s < Suc r"
      using step(4) [of j "record_loc batch s"] Suc.prems(7) [of j s] Suc.prems(4) r
      by (auto simp: record_loc_simps)
  qed
  then obtain free' handles' ids where rest:
    "cand_insert_handles dbg batch [Suc r..<n] ?a = (?a \<lparr> ca_free_handles := free', ca_handles := handles' \<rparr>, Ok ids)"
    "cand_inv (\<lambda>_. 0) (?a \<lparr> ca_free_handles := free', ca_handles := handles' \<rparr>)"
    "length ids = n - Suc r" "length handles' \<le> length handles + (n - Suc r)"
    "\<And>j. j < n - Suc r \<Longrightarrow> names dbg (?a \<lparr> ca_free_handles := free', ca_handles := handles' \<rparr>) (ids ! j) (record_loc batch (Suc r + j))"
    "\<And>c l. names dbg ?a c l \<Longrightarrow> names dbg (?a \<lparr> ca_free_handles := free', ca_handles := handles' \<rparr>) c l"
    "\<And>c. cand_refs dbg (?a \<lparr> ca_free_handles := free', ca_handles := handles' \<rparr>) c = cand_refs dbg ?a c + count_list ids c"
    unfolding Let_def by auto
  let ?b = "a \<lparr> ca_free_handles := free', ca_handles := handles' \<rparr>"
  have ab: "?a \<lparr> ca_free_handles := free', ca_handles := handles' \<rparr> = ?b" by simp
  note rest = rest [unfolded ab]
  have upt: "[r..<n] = r # [Suc r..<n]" using r by (simp add: upt_conv_Cons)
  have "cand_insert_handles dbg batch [r..<n] a = (?b, Ok (cid # ids))"
    unfolding upt using step(1) rest(1) by (simp add: record_loc_def)
  moreover have "names dbg ?b ((cid # ids) ! j) (record_loc batch (r + j))" if "j < n - r" for j
    using that rest(5) [of "j - 1"] rest(6) [OF step(5)] r by (cases j) auto
  moreover have "cand_refs dbg ?b c = cand_refs dbg a c + count_list (cid # ids) c" for c
    using rest(7) [of c] step(7,8) by auto
  moreover have "length (cid # ids) = n - r" "length handles' \<le> length (ca_handles a) + (n - r)"
    using rest(3,4) step(3) r by simp_all
  ultimately show ?case
    using rest(2,6) step(6) unfolding Let_def by blast
qed

text \<open>A full pool of batches has no more batches than there are handles, so the handles run out first.\<close>

lemma cand_batches_le:
  assumes inv: "cand_inv (\<lambda>_. 0) a" and full: "ca_free_batches a = []"
  shows "length (ca_batches a) \<le> length (ca_handles a)"
proof -
  have "\<exists>i. i \<in> handles_of a k" if k: "k < length (ca_batches a)" for k
  proof -
    have "ca_batches a ! k \<noteq> None" using pool_okD(3) [OF cand_invD(2) [OF inv], of k] full k by auto
    then obtain b where "batch_at a k = Some b" using k by (auto simp: batch_at_def get_def)
    then have "card (handles_of a k) \<noteq> 0" using cand_invD(5,6) [OF inv, of k b] by simp
    then show ?thesis by (metis card.empty equals0I)
  qed
  then obtain f where f: "\<And>k. k < length (ca_batches a) \<Longrightarrow> f k \<in> handles_of a k" by metis
  have "inj_on f {..<length (ca_batches a)}"
  proof (rule inj_onI)
    fix k l
    assume "k \<in> {..<length (ca_batches a)}" "l \<in> {..<length (ca_batches a)}" "f k = f l"
    then have "f k \<in> handles_of a k" "f k \<in> handles_of a l" using f [of k] f [of l] by simp_all
    then show "k = l" by (auto simp: handles_of_def located_def)
  qed
  moreover have "f ` {..<length (ca_batches a)} \<subseteq> {..<length (ca_handles a)}"
    using f by (fastforce simp: handles_of_def located_def)
  ultimately have "card {..<length (ca_batches a)} \<le> card {..<length (ca_handles a)}"
    by (rule card_inj_on_le) simp
  then show ?thesis by simp
qed

text \<open>A vacant batch slot receives a batch, all of whose handles are still to be made.\<close>

lemma cand_inv_batch:
  assumes inv: "cand_inv (\<lambda>_. 0) a" and vacant: "batch_at a k = None"
    and pool: "pool_ok (\<lambda>b. b \<noteq> None) free batches"
    and k: "get batches k = Some (Some b)" and same: "\<And>j. j \<noteq> k \<Longrightarrow> get batches j = get (ca_batches a) j"
    and live: "cb_live_handles b = n" "0 < n"
  shows "cand_inv ((\<lambda>_. 0)(k := n)) (a \<lparr> ca_free_batches := free, ca_batches := batches \<rparr>)" (is "cand_inv _ ?a")
proof (rule cand_invI)
  note old = cand_invD [OF inv]
  have loc [simp]: "located ?a = located a" by (simp add: fun_eq_iff located_def)
  have hs [simp]: "handles_of ?a = handles_of a" by (simp add: fun_eq_iff handles_of_def)
  have at: "batch_at ?a j = (if j = k then Some b else batch_at a j)" for j
    using k same [of j] by (simp add: batch_at_def)
  have none: "\<not> located a i l" if "unat (cl_batch l) = k" for i l
    using old(3) [of i l] vacant that by auto
  show "pool_ok (\<lambda>s. cs_location s \<noteq> None) (ca_free_handles ?a) (ca_handles ?a)"
    "pool_ok (\<lambda>b. b \<noteq> None) (ca_free_batches ?a) (ca_batches ?a)"
    using old(1) pool by simp_all
  show "located ?a i l \<Longrightarrow>
      \<exists>b. batch_at ?a (unat (cl_batch l)) = Some b \<and> unat (cl_record l) < length (cb_records b)" for i l
    using old(3) [of i l] none [of l i] by (auto simp: at)
  show "located ?a i l \<Longrightarrow> located ?a j l \<Longrightarrow> i = j" for i j l using old(4) by simp
  have "handles_of a k = {}" using none by (auto simp: handles_of_def)
  then show "batch_at ?a j = Some c \<Longrightarrow> cb_live_handles c = card (handles_of ?a j) + ((\<lambda>_. 0)(k := n)) j" for j c
    using old(5) [of j c] live by (auto simp: at split: if_splits)
  show "batch_at ?a j = Some c \<Longrightarrow> 0 < cb_live_handles c" for j c
    using old(6) [of j c] live by (auto simp: at split: if_splits)
  show "s \<in> set (ca_handles ?a) \<Longrightarrow> cs_refs s = 0 \<longleftrightarrow> cs_location s = None" for s using old(7) by simp
qed

lemma cand_alloc_batch_spec:
  assumes inv: "cand_inv (\<lambda>_. 0) a" and room: "length (ca_handles a) < SLOTS"
    and live: "cb_live_handles b = n" "0 < n"
  obtains free batches k where
    "cand_alloc_batch dbg b a = (a \<lparr> ca_free_batches := free, ca_batches := batches \<rparr>, Ok k)"
    "batch_at a (unat k) = None" "get batches (unat k) = Some (Some b)"
    "\<And>j. j \<noteq> unat k \<Longrightarrow> get batches j = get (ca_batches a) j"
    "cand_inv ((\<lambda>_. 0)(unat k := n)) (a \<lparr> ca_free_batches := free, ca_batches := batches \<rparr>)"
proof (cases "ca_free_batches a")
  case Nil
  let ?n = "length (ca_batches a)" and ?batches = "ca_batches a @ [Some b]"
  have n: "?n < SLOTS" using cand_batches_le [OF inv Nil] room by simp
  then have k: "unat (of_nat ?n :: u32) = ?n" by (rule unat_of_nat_small)
  have pool: "pool_ok (\<lambda>b. b \<noteq> None) [] ?batches"
    by (rule pool_ok_push) (use cand_invD(2) [OF inv] Nil n in simp_all)
  have at: "batch_at a (unat (of_nat ?n :: u32)) = None" "get ?batches (unat (of_nat ?n :: u32)) = Some (Some b)"
    "\<And>j. j \<noteq> unat (of_nat ?n :: u32) \<Longrightarrow> get ?batches j = get (ca_batches a) j"
    by (simp_all add: batch_at_def get_def k nth_append)
  show thesis
  proof (rule that [OF _ at])
    show "cand_alloc_batch dbg b a = (a \<lparr> ca_free_batches := [], ca_batches := ?batches \<rparr>, Ok (of_nat ?n))"
      using Nil n by (simp add: cand_alloc_batch_def u32_try_from_def)
    show "cand_inv ((\<lambda>_. 0)(unat (of_nat ?n :: u32) := n)) (a \<lparr> ca_free_batches := [], ca_batches := ?batches \<rparr>)"
      by (rule cand_inv_batch [OF inv at(1) pool at(2,3) live])
  qed
next
  case (Cons index rest)
  let ?batches = "(ca_batches a)[unat index := Some b]"
  note pool = cand_invD(2) [OF inv, unfolded Cons]
  have i: "unat index < length (ca_batches a)" "ca_batches a ! unat index = None"
    using pool_ok_free [OF pool, of index] by simp_all
  have pool': "pool_ok (\<lambda>b. b \<noteq> None) rest ?batches" by (rule pool_ok_pop [OF pool]) simp
  have at: "batch_at a (unat index) = None" "get ?batches (unat index) = Some (Some b)"
    "\<And>j. j \<noteq> unat index \<Longrightarrow> get ?batches j = get (ca_batches a) j"
    using i by (simp_all add: batch_at_def get_def)
  show thesis
  proof (rule that [OF _ at])
    show "cand_alloc_batch dbg b a = (a \<lparr> ca_free_batches := rest, ca_batches := ?batches \<rparr>, Ok index)"
      using Cons i by (simp add: cand_alloc_batch_def)
    show "cand_inv ((\<lambda>_. 0)(unat index := n)) (a \<lparr> ca_free_batches := rest, ca_batches := ?batches \<rparr>)"
      by (rule cand_inv_batch [OF inv at(1) pool' at(2,3) live])
  qed
qed

lemma cand_get_eq:
  assumes "names dbg a c l" "batch_at a (unat (cl_batch l)) = Some b" "unat (cl_record l) < length (cb_records b)"
  shows "cand_get dbg a c = Ok (Some \<lparr> wc_graph_hash = cb_graph_hash b, wc_raw = cb_records b ! unat (cl_record l) \<rparr>)"
proof -
  have "get (ca_batches a) (unat (cl_batch l)) = Some (Some b)"
    using assms(2) by (simp add: batch_at_def split: option.splits)
  then show ?thesis using assms by (auto simp: names_def cand_get_def get_def [of "cb_records b"])
qed

text \<open>
  Inserting a batch: one new handle per record, through which the record is read back; the handles
  that were there keep their records and counts.
\<close>

lemma cand_insert_batch_spec:
  assumes inv: "cand_inv (\<lambda>_. 0) a" and room: "length (ca_handles a) + length raw \<le> SLOTS" and n: "length raw < SLOTS"
  obtains a' ids where "cand_insert_batch dbg h raw a = (a', Ok ids)" "cand_inv (\<lambda>_. 0) a'"
    "length ids = length raw" "length (ca_handles a') \<le> length (ca_handles a) + length raw"
    "\<And>j. j < length raw \<Longrightarrow> cand_get dbg a' (ids ! j) = (Ok (Some \<lparr> wc_graph_hash = h, wc_raw = raw ! j \<rparr>) :: (_, unit) outcome)"
    "\<And>c w. cand_get dbg a c = (Ok (Some w) :: (_, unit) outcome) \<Longrightarrow> cand_get dbg a' c = (Ok (Some w) :: (_, unit) outcome)"
    "\<And>c. cand_refs dbg a' c = cand_refs dbg a c + count_list ids c"
proof (cases "raw = []")
  case True
  then show thesis using that [of a "[]"] inv by (simp add: cand_insert_batch_def)
next
  case False
  let ?b = "\<lparr> cb_graph_hash = h, cb_records = raw, cb_live_handles = length raw \<rparr>"
  have "0 < length raw" using False by simp
  with room have pos: "length (ca_handles a) < SLOTS" "0 < length raw" by linarith+
  obtain free batches k where alloc:
    "cand_alloc_batch dbg ?b a = (a \<lparr> ca_free_batches := free, ca_batches := batches \<rparr>, Ok k)"
    "batch_at a (unat k) = None" "get batches (unat k) = Some (Some ?b)"
    "\<And>j. j \<noteq> unat k \<Longrightarrow> get batches j = get (ca_batches a) j"
    "cand_inv ((\<lambda>_. 0)(unat k := length raw)) (a \<lparr> ca_free_batches := free, ca_batches := batches \<rparr>)"
    by (rule cand_alloc_batch_spec [OF inv pos(1), of ?b "length raw" dbg]) (use pos in simp_all)
  let ?a = "a \<lparr> ca_free_batches := free, ca_batches := batches \<rparr>"
  have at: "batch_at ?a (unat k) = Some ?b" using alloc(3) by (simp add: batch_at_def)
  have none: "\<not> located ?a j (record_loc k s)" for j s
    using cand_invD(3) [OF inv, of j "record_loc k s"] alloc(2) by (auto simp: located_def record_loc_simps)
  have "\<exists>free handles ids. let a' = ?a \<lparr> ca_free_handles := free, ca_handles := handles \<rparr> in
    cand_insert_handles dbg k [0..<length raw] ?a = (a', Ok ids) \<and> cand_inv (\<lambda>_. 0) a' \<and>
    length ids = length raw - 0 \<and> length handles \<le> length (ca_handles ?a) + (length raw - 0) \<and>
    (\<forall>j < length raw - 0. names dbg a' (ids ! j) (record_loc k (0 + j))) \<and>
    (\<forall>c l. names dbg ?a c l \<longrightarrow> names dbg a' c l) \<and>
    (\<forall>c. cand_refs dbg a' c = cand_refs dbg ?a c + count_list ids c)"
    by (rule cand_insert_handles_spec [where b = ?b]) (use alloc(5) at none room n in simp_all)
  then obtain free' handles ids where ins:
    "cand_insert_handles dbg k [0..<length raw] ?a = (?a \<lparr> ca_free_handles := free', ca_handles := handles \<rparr>, Ok ids)"
    "cand_inv (\<lambda>_. 0) (?a \<lparr> ca_free_handles := free', ca_handles := handles \<rparr>)"
    "length ids = length raw" "length handles \<le> length (ca_handles a) + length raw"
    "\<And>j. j < length raw \<Longrightarrow> names dbg (?a \<lparr> ca_free_handles := free', ca_handles := handles \<rparr>) (ids ! j) (record_loc k j)"
    "\<And>c l. names dbg ?a c l \<Longrightarrow> names dbg (?a \<lparr> ca_free_handles := free', ca_handles := handles \<rparr>) c l"
    "\<And>c. cand_refs dbg (?a \<lparr> ca_free_handles := free', ca_handles := handles \<rparr>) c = cand_refs dbg ?a c + count_list ids c"
    unfolding Let_def by auto
  let ?a' = "?a \<lparr> ca_free_handles := free', ca_handles := handles \<rparr>"
  have bat: "batch_at ?a' j = (if j = unat k then Some ?b else batch_at a j)" for j
    using alloc(3) alloc(4) [of j] by (simp add: batch_at_def)
  show thesis
  proof (rule that)
    show "cand_insert_batch dbg h raw a = (?a', Ok ids)"
      using False n alloc(1) ins(1) by (simp add: cand_insert_batch_def u32_try_from_def unat_of_nat_small)
    show "cand_inv (\<lambda>_. 0) ?a'" "length ids = length raw" by (rule ins(2), rule ins(3))
    show "length (ca_handles ?a') \<le> length (ca_handles a) + length raw" using ins(4) by simp
    show "cand_refs dbg ?a' c = cand_refs dbg a c + count_list ids c" for c
      using ins(7) [of c] by (simp add: cand_refs_def)
    show "cand_get dbg ?a' (ids ! j) = (Ok (Some \<lparr> wc_graph_hash = h, wc_raw = raw ! j \<rparr>) :: (_, unit) outcome)"
      if "j < length raw" for j
      using cand_get_eq [OF ins(5) [OF that], of ?b] that n
      by (simp add: bat record_loc_simps unat_of_nat_small)
    fix c w
    assume w: "cand_get dbg a c = (Ok (Some w) :: (_, unit) outcome)"
    then obtain l where l: "names dbg a c l" using cand_get_Some_iff [OF inv, of dbg c] by blast
    obtain b where b: "batch_at a (unat (cl_batch l)) = Some b" "unat (cl_record l) < length (cb_records b)"
      "cand_get dbg a c = (Ok (Some \<lparr> wc_graph_hash = cb_graph_hash b, wc_raw = cb_records b ! unat (cl_record l) \<rparr>) :: (_, unit) outcome)"
      by (rule cand_get_names [OF inv l])
    have "names dbg ?a' c l" using ins(6) [of c l] l by (simp add: names_def)
    moreover have "batch_at ?a' (unat (cl_batch l)) = Some b" using b(1) alloc(2) by (auto simp: bat)
    ultimately show "cand_get dbg ?a' c = (Ok (Some w) :: (_, unit) outcome)"
      using cand_get_eq [of dbg ?a' c l b] b(2,3) w by simp
  qed
qed

section \<open>Retaining and releasing\<close>

lemma names_refs:
  assumes inv: "cand_inv pending a" and c: "names dbg a c l" and ok: "id_ok dbg c"
  obtains slot where "get (ca_handles a) (unat (sid_index c)) = Some slot" "cs_location slot = Some l"
    "generation_matches dbg (cs_generation slot) c" "cs_refs slot \<noteq> 0" "cand_refs dbg a c = unat (cs_refs slot)"
    "\<And>d. sid_index d = sid_index c \<Longrightarrow> d \<noteq> c \<Longrightarrow> cand_refs dbg a d = 0"
proof -
  from c obtain slot where slot: "get (ca_handles a) (unat (sid_index c)) = Some slot" "cs_location slot = Some l"
    "generation_matches dbg (cs_generation slot) c" by (auto simp: names_def)
  have "slot \<in> set (ca_handles a)" using slot(1) by (auto simp: get_Some_iff)
  then have "cs_refs slot \<noteq> 0" using cand_invD(7) [OF inv] slot(2) by simp
  moreover have self: "c = id_from_slot dbg (sid_index c) (cs_generation slot)"
    using slot(3) ok by (auto simp: id_from_slot_def generation_matches_def id_ok_def)
  moreover have "cand_refs dbg a c = unat (cs_refs slot)" using slot(1) self by (simp add: cand_refs_def)
  moreover have "cand_refs dbg a d = 0" if "sid_index d = sid_index c" "d \<noteq> c" for d
    using that slot(1) self by (simp add: cand_refs_def)
  ultimately show thesis using that slot by blast
qed

text \<open>Counting up or down a handle that stays alive.\<close>

lemma cand_inv_refs:
  assumes inv: "cand_inv pending a" and slot: "get (ca_handles a) i = Some slot" "cs_location slot \<noteq> None" and r: "r \<noteq> 0"
  shows "cand_inv pending (a \<lparr> ca_handles := (ca_handles a)[i := slot \<lparr> cs_refs := r \<rparr>] \<rparr>)" (is "cand_inv _ ?a")
proof (rule cand_invI)
  note old = cand_invD [OF inv]
  have i: "i < length (ca_handles a)" "ca_handles a ! i = slot" using slot(1) by (auto simp: get_Some_iff)
  have loc [simp]: "located ?a j l \<longleftrightarrow> located a j l" for j l
    using i by (cases "j = i") (auto simp: located_def)
  have hs [simp]: "handles_of ?a = handles_of a" by (simp add: fun_eq_iff handles_of_def)
  have bat [simp]: "batch_at ?a = batch_at a" by (simp add: fun_eq_iff batch_at_def)
  show "pool_ok (\<lambda>s. cs_location s \<noteq> None) (ca_free_handles ?a) (ca_handles ?a)"
    using pool_ok_update [OF old(1), of i "slot \<lparr> cs_refs := r \<rparr>"] i by simp
  show "pool_ok (\<lambda>b. b \<noteq> None) (ca_free_batches ?a) (ca_batches ?a)" using old(2) by simp
  show "located ?a j l \<Longrightarrow>
      \<exists>b. batch_at ?a (unat (cl_batch l)) = Some b \<and> unat (cl_record l) < length (cb_records b)" for j l
    using old(3) [of j l] by simp
  show "located ?a j l \<Longrightarrow> located ?a k l \<Longrightarrow> j = k" for j k l using old(4) by simp
  show "batch_at ?a k = Some b \<Longrightarrow> cb_live_handles b = card (handles_of ?a k) + pending k" for k b
    using old(5) by simp
  show "batch_at ?a k = Some b \<Longrightarrow> 0 < cb_live_handles b" for k b using old(6) by simp
  fix s
  assume "s \<in> set (ca_handles ?a)"
  then have "s = slot \<lparr> cs_refs := r \<rparr> \<or> s \<in> set (ca_handles a)"
    using set_update_subset_insert [of "ca_handles a" i] by fastforce
  then show "cs_refs s = 0 \<longleftrightarrow> cs_location s = None" using old(7) slot(2) r by auto
qed

lemma cand_refs_set:
  assumes "get (ca_handles a) (unat (sid_index c)) = Some slot" "c = id_from_slot dbg (sid_index c) (cs_generation slot)"
  shows "cand_refs dbg (a \<lparr> ca_handles := (ca_handles a)[unat (sid_index c) := slot \<lparr> cs_refs := r \<rparr>] \<rparr>) =
    (cand_refs dbg a)(c := unat r)" (is "cand_refs _ ?a = _")
proof
  fix d
  have i: "unat (sid_index c) < length (ca_handles a)" using assms(1) by (simp add: get_Some_iff)
  show "cand_refs dbg ?a d = ((cand_refs dbg a)(c := unat r)) d"
  proof (cases "unat (sid_index d) = unat (sid_index c)")
    case True
    then have si: "sid_index d = sid_index c" by (simp add: unat_u32_inj)
    then have "d = c \<longleftrightarrow> d = id_from_slot dbg (sid_index d) (cs_generation slot)" using assms(2) by simp
    then show ?thesis using assms(1) i si by (simp add: cand_refs_def get_def split: if_splits)
  next
    case False
    then show ?thesis by (auto simp: cand_refs_def get_def)
  qed
qed

lemma handle_self: "generation_matches dbg g c \<Longrightarrow> id_ok dbg c \<Longrightarrow> c = id_from_slot dbg (sid_index c) g"
  by (auto simp: id_from_slot_def generation_matches_def id_ok_def)

lemma cand_retain_spec:
  assumes inv: "cand_inv (\<lambda>_. 0) a" and c: "names dbg a c l" "id_ok dbg c" and few: "cand_refs dbg a c < refs_max"
  obtains a' where "cand_retain dbg c a = (a', Ok ())" "cand_inv (\<lambda>_. 0) a'"
    "length (ca_handles a') = length (ca_handles a)" "cand_refs dbg a' = (cand_refs dbg a)(c := Suc (cand_refs dbg a c))"
proof -
  obtain slot where slot: "get (ca_handles a) (unat (sid_index c)) = Some slot" "cs_location slot = Some l"
    "generation_matches dbg (cs_generation slot) c" "cand_refs dbg a c = unat (cs_refs slot)"
    using names_refs [OF inv c] by metis
  then have r: "cs_refs slot \<noteq> 0xFFFFFFFF" using few by (auto simp: unat_refs_max [symmetric])
  show thesis
  proof (rule that)
    show "cand_retain dbg c a =
      (a \<lparr> ca_handles := (ca_handles a)[unat (sid_index c) := slot \<lparr> cs_refs := cs_refs slot + 1 \<rparr>] \<rparr>, Ok ())" (is "_ = (?a, _)")
      using slot r by (simp add: cand_retain_def)
    show "cand_inv (\<lambda>_. 0) ?a" using inv slot r by (intro cand_inv_refs) (auto simp: u32_suc_nonzero)
    show "cand_refs dbg ?a = (cand_refs dbg a)(c := Suc (cand_refs dbg a c))"
      using cand_refs_set [OF slot(1) handle_self [OF slot(3) c(2)]] slot(4) r by (simp add: unat_u32_suc)
  qed simp
qed

lemma cand_release_shared:
  assumes inv: "cand_inv (\<lambda>_. 0) a" and c: "names dbg a c l" "id_ok dbg c" and shared: "1 < cand_refs dbg a c"
  obtains a' where "cand_release dbg c a = (a', Ok None)" "cand_inv (\<lambda>_. 0) a'"
    "length (ca_handles a') = length (ca_handles a)" "cand_refs dbg a' = (cand_refs dbg a)(c := cand_refs dbg a c - 1)"
proof -
  obtain slot where slot: "get (ca_handles a) (unat (sid_index c)) = Some slot" "cs_location slot = Some l"
    "generation_matches dbg (cs_generation slot) c" "cs_refs slot \<noteq> 0" "cand_refs dbg a c = unat (cs_refs slot)"
    using names_refs [OF inv c] by metis
  obtain w where w: "cand_get dbg a c = (Ok (Some w) :: (_, engine_error) outcome)" by (rule cand_get_names [OF inv c(1)])
  have r: "1 < cs_refs slot" using shared slot(5) by (simp add: word_less_nat_alt)
  have dec: "unat (cs_refs slot - 1) = unat (cs_refs slot) - 1" using slot(4) by (simp add: unat_minus_one)
  show thesis
  proof (rule that)
    show "cand_release dbg c a =
      (a \<lparr> ca_handles := (ca_handles a)[unat (sid_index c) := slot \<lparr> cs_refs := cs_refs slot - 1 \<rparr>] \<rparr>, Ok None)" (is "_ = (?a, _)")
      using slot(1) r w by (simp add: cand_release_def)
    show "cand_inv (\<lambda>_. 0) ?a" using inv slot dec shared by (intro cand_inv_refs) auto
    show "cand_refs dbg ?a = (cand_refs dbg a)(c := cand_refs dbg a c - 1)"
      using cand_refs_set [OF slot(1) handle_self [OF slot(3) c(2)]] slot(5) dec by simp
  qed simp
qed

text \<open>The last reference: the handle becomes vacant and its batch counts one handle less.\<close>

lemma cand_inv_free:
  assumes inv: "cand_inv (\<lambda>_. 0) a" and loc: "located a i l" and b: "batch_at a (unat (cl_batch l)) = Some b"
    and vacated: "cs_location slot = None" "cs_refs slot = 0" and i: "i = unat index"
    and handles: "handles = (ca_handles a)[i := slot]"
    and pool: "pool_ok (\<lambda>b. b \<noteq> None) free batches"
    and at: "get batches (unat (cl_batch l)) = Some (if cb_live_handles b = 1 then None
      else Some (b \<lparr> cb_live_handles := cb_live_handles b - 1 \<rparr>))"
    and same: "\<And>j. j \<noteq> unat (cl_batch l) \<Longrightarrow> get batches j = get (ca_batches a) j"
  shows "cand_inv (\<lambda>_. 0) \<lparr> ca_handles = handles, ca_free_handles = index # ca_free_handles a,
    ca_batches = batches, ca_free_batches = free \<rparr>" (is "cand_inv _ ?a")
proof (rule cand_invI)
  note old = cand_invD [OF inv]
  let ?k = "unat (cl_batch l)"
  have ilt: "i < length (ca_handles a)" "cs_location (ca_handles a ! i) = Some l" using loc by (auto simp: located_def)
  have lc: "located ?a j m \<longleftrightarrow> located a j m \<and> j \<noteq> i" for j m
    using ilt vacated handles by (cases "j = i") (auto simp: located_def)
  have bt: "batch_at ?a j = (if j = ?k then (if cb_live_handles b = 1 then None
      else Some (b \<lparr> cb_live_handles := cb_live_handles b - 1 \<rparr>)) else batch_at a j)" for j
    using at same [of j] by (simp add: batch_at_def)
  have hs: "handles_of ?a j = handles_of a j - {i}" for j by (auto simp: handles_of_def lc)
  have ik: "i \<in> handles_of a j \<longleftrightarrow> j = ?k" for j using loc ilt by (auto simp: handles_of_def located_def)
  have cd: "card (handles_of ?a j) = card (handles_of a j) - (if j = ?k then 1 else 0)" for j
    using ik [of j] unfolding hs by (cases "j = ?k") simp_all
  have live: "cb_live_handles b = card (handles_of a ?k)" using old(5) [OF b] by simp
  have only: "j = i" if "located a j m" "unat (cl_batch m) = ?k" "cb_live_handles b = 1" for j m
  proof -
    have "j \<in> handles_of a ?k" "i \<in> handles_of a ?k" using that ik by (auto simp: handles_of_def)
    moreover have "card (handles_of a ?k) = 1" using live that(3) by simp
    ultimately show "j = i" by (metis card_1_singletonE singletonD)
  qed
  show "pool_ok (\<lambda>s. cs_location s \<noteq> None) (ca_free_handles ?a) (ca_handles ?a)"
    using pool_ok_release [OF old(1), of index slot] ilt vacated handles i by simp
  show "pool_ok (\<lambda>b. b \<noteq> None) (ca_free_batches ?a) (ca_batches ?a)" using pool by simp
  show "\<exists>b. batch_at ?a (unat (cl_batch m)) = Some b \<and> unat (cl_record m) < length (cb_records b)"
    if "located ?a j m" for j m
    using that old(3) [of j m] only [of j m] b by (auto simp: bt lc)
  show "located ?a j m \<Longrightarrow> located ?a k m \<Longrightarrow> j = k" for j k m using old(4) by (auto simp: lc)
  show "batch_at ?a j = Some c \<Longrightarrow> cb_live_handles c = card (handles_of ?a j) + 0" for j c
    using old(5) [of j c] live by (auto simp: bt cd split: if_splits)
  show "batch_at ?a j = Some c \<Longrightarrow> 0 < cb_live_handles c" for j c
    using old(6) [of j c] old(6) [OF b] by (auto simp: bt split: if_splits)
  fix s
  assume "s \<in> set (ca_handles ?a)"
  then have "s = slot \<or> s \<in> set (ca_handles a)"
    using set_update_subset_insert [of "ca_handles a" i] handles by fastforce
  then show "cs_refs s = 0 \<longleftrightarrow> cs_location s = None" using old(7) vacated by auto
qed

text \<open>What \<open>cand_drop_batch\<close> does to the batches, as \<open>cand_inv_free\<close> asks for it.\<close>

lemma cand_drop_batch_spec:
  assumes pool: "pool_ok (\<lambda>b. b \<noteq> None) (ca_free_batches a) (ca_batches a)"
    and b: "batch_at a (unat (cl_batch l)) = Some b" "0 < cb_live_handles b"
  obtains free batches where
    "cand_drop_batch l a = (a \<lparr> ca_batches := batches, ca_free_batches := free \<rparr>, Ok ())"
    "pool_ok (\<lambda>b. b \<noteq> None) free batches"
    "get batches (unat (cl_batch l)) = Some (if cb_live_handles b = 1 then None
      else Some (b \<lparr> cb_live_handles := cb_live_handles b - 1 \<rparr>))"
    "\<And>j. j \<noteq> unat (cl_batch l) \<Longrightarrow> get batches j = get (ca_batches a) j"
proof -
  let ?k = "unat (cl_batch l)"
  have g: "get (ca_batches a) ?k = Some (Some b)" using b(1) by (simp add: batch_at_def split: option.splits)
  then have k: "?k < length (ca_batches a)" "ca_batches a ! ?k = Some b" by (auto simp: get_Some_iff)
  show thesis
  proof (cases "cb_live_handles b = 1")
    case True
    show thesis
    proof (rule that)
      show "cand_drop_batch l a = (a \<lparr> ca_batches := (ca_batches a)[?k := None],
          ca_free_batches := cl_batch l # ca_free_batches a \<rparr>, Ok ())"
        using g True by (simp add: cand_drop_batch_def)
      show "pool_ok (\<lambda>b. b \<noteq> None) (cl_batch l # ca_free_batches a) ((ca_batches a)[?k := None])"
        using pool k by (intro pool_ok_release) simp_all
    qed (use k True in \<open>simp_all add: get_def\<close>)
  next
    case False
    let ?b = "b \<lparr> cb_live_handles := cb_live_handles b - 1 \<rparr>"
    show thesis
    proof (rule that)
      show "cand_drop_batch l a = (a \<lparr> ca_batches := (ca_batches a)[?k := Some ?b],
          ca_free_batches := ca_free_batches a \<rparr>, Ok ())"
        using g False b(2) by (simp add: cand_drop_batch_def Let_def)
      show "pool_ok (\<lambda>b. b \<noteq> None) (ca_free_batches a) ((ca_batches a)[?k := Some ?b])"
        using pool k by (intro pool_ok_update) simp_all
    qed (use k False in \<open>simp_all add: get_def\<close>)
  qed
qed

lemma cand_release_last:
  assumes inv: "cand_inv (\<lambda>_. 0) a" and c: "names dbg a c l" "id_ok dbg c" and last: "cand_refs dbg a c = 1"
  obtains a' w where "cand_release dbg c a = (a', Ok (Some w))" "cand_get dbg a c = (Ok (Some w) :: (_, unit) outcome)"
    "cand_inv (\<lambda>_. 0) a'" "length (ca_handles a') = length (ca_handles a)" "cand_refs dbg a' = (cand_refs dbg a)(c := 0)"
proof -
  let ?i = "unat (sid_index c)"
  obtain slot where slot: "get (ca_handles a) ?i = Some slot" "cs_location slot = Some l"
    "generation_matches dbg (cs_generation slot) c" "cand_refs dbg a c = unat (cs_refs slot)"
    and others: "\<And>d. sid_index d = sid_index c \<Longrightarrow> d \<noteq> c \<Longrightarrow> cand_refs dbg a d = 0"
    using names_refs [OF inv c] by metis
  obtain b where b: "batch_at a (unat (cl_batch l)) = Some b" "unat (cl_record l) < length (cb_records b)"
    by (rule cand_get_names [OF inv c(1)])
  note w = cand_get_eq [OF c(1) b]
  let ?slot = "slot \<lparr> cs_location := None, cs_refs := 0, cs_generation := bump_generation dbg (cs_generation slot) \<rparr>"
  let ?m = "a \<lparr> ca_handles := (ca_handles a)[?i := ?slot], ca_free_handles := sid_index c # ca_free_handles a \<rparr>"
  have m: "pool_ok (\<lambda>b. b \<noteq> None) (ca_free_batches ?m) (ca_batches ?m)" "batch_at ?m (unat (cl_batch l)) = Some b"
    using cand_invD(2) [OF inv] b(1) by (simp_all add: batch_at_def)
  obtain free batches where drop:
    "cand_drop_batch l ?m = (?m \<lparr> ca_batches := batches, ca_free_batches := free \<rparr>, Ok ())"
    "pool_ok (\<lambda>b. b \<noteq> None) free batches"
    "get batches (unat (cl_batch l)) = Some (if cb_live_handles b = 1 then None
      else Some (b \<lparr> cb_live_handles := cb_live_handles b - 1 \<rparr>))"
    "\<And>j. j \<noteq> unat (cl_batch l) \<Longrightarrow> get batches j = get (ca_batches a) j"
    by (rule cand_drop_batch_spec [OF m cand_invD(6) [OF inv b(1)]]) simp
  let ?a = "\<lparr> ca_handles = (ca_handles a)[?i := ?slot], ca_free_handles = sid_index c # ca_free_handles a,
    ca_batches = batches, ca_free_batches = free \<rparr>"
  have eq: "?m \<lparr> ca_batches := batches, ca_free_batches := free \<rparr> = ?a" by simp
  show thesis
  proof (rule that)
    have "\<not> 1 < cs_refs slot" using last slot(4) by (simp add: word_less_nat_alt)
    then show "cand_release dbg c a =
        (?a, Ok (Some \<lparr> wc_graph_hash = cb_graph_hash b, wc_raw = cb_records b ! unat (cl_record l) \<rparr>))"
      using slot(1,2) drop(1) [unfolded eq] by (simp add: cand_release_def w)
    show "cand_get dbg a c = (Ok (Some \<lparr> wc_graph_hash = cb_graph_hash b, wc_raw = cb_records b ! unat (cl_record l) \<rparr>) :: (_, unit) outcome)"
      by (rule w)
    show "cand_inv (\<lambda>_. 0) ?a"
      by (rule cand_inv_free [OF inv names_located [OF c(1)] b(1) _ _ refl refl drop(2-4)]) simp_all
    show "cand_refs dbg ?a = (cand_refs dbg a)(c := 0)"
    proof
      fix d
      have i: "?i < length (ca_handles a)" using slot(1) by (simp add: get_Some_iff)
      show "cand_refs dbg ?a d = ((cand_refs dbg a)(c := 0)) d"
        using others [of d] i by (cases "sid_index d = sid_index c") (auto simp: cand_refs_def get_def unat_u32_inj)
    qed
  qed simp
qed

section \<open>Accounting over sequences of operations\<close>

datatype cand_op = InsertBatch digest "raw_candidate list" | RetainCandidate slot_id | ReleaseCandidate slot_id

text \<open>Without debug assertions a handle has no generation.\<close>

definition proper_id :: "bool \<Rightarrow> slot_id \<Rightarrow> slot_id" where
  "proper_id dbg cid = id_from_slot dbg (sid_index cid) (sid_generation cid)"

definition cand_step :: "bool \<Rightarrow> cand_op \<Rightarrow> cand_arena \<Rightarrow> cand_arena \<times> slot_id list \<times> slot_id list" where
  "cand_step dbg x a =
     (case x of
        InsertBatch h raw \<Rightarrow>
          (case cand_insert_batch dbg h raw a of (a', Ok ids) \<Rightarrow> (a', ids, []) | (a', _) \<Rightarrow> (a', [], []))
      | RetainCandidate cid \<Rightarrow>
          (case cand_retain dbg (proper_id dbg cid) a of
             (a', Ok _) \<Rightarrow> (a', [proper_id dbg cid], []) | (a', _) \<Rightarrow> (a', [], []))
      | ReleaseCandidate cid \<Rightarrow>
          (case cand_release dbg (proper_id dbg cid) a of
             (a', Ok _) \<Rightarrow> (a', [], [proper_id dbg cid]) | (a', _) \<Rightarrow> (a', [], [])))"

definition cand_op_weight :: "cand_op \<Rightarrow> nat" where
  "cand_op_weight x = (case x of InsertBatch _ raw \<Rightarrow> length raw | _ \<Rightarrow> 0)"

lemma id_ok_proper [simp]: "id_ok dbg (proper_id dbg cid)"
  by (simp add: id_ok_def proper_id_def id_from_slot_def)

lemma cand_refs_le: "cand_refs dbg a c \<le> refs_max"
proof -
  have "unat r \<le> refs_max" for r :: u32 using unat_u32_less [of r] by (simp add: refs_max_def SLOTS_def)
  then show ?thesis by (simp add: cand_refs_def split: option.splits)
qed

lemma names_iff:
  assumes "cand_inv pending a" "id_ok dbg c"
  shows "(\<exists>l. names dbg a c l) \<longleftrightarrow> cand_refs dbg a c \<noteq> 0"
proof
  assume "\<exists>l. names dbg a c l"
  then show "cand_refs dbg a c \<noteq> 0" using names_refs [OF assms(1) _ assms(2)] by (metis unat_eq_0)
next
  assume "cand_refs dbg a c \<noteq> 0"
  then obtain slot where slot: "get (ca_handles a) (unat (sid_index c)) = Some slot"
    "c = id_from_slot dbg (sid_index c) (cs_generation slot)" "cs_refs slot \<noteq> 0"
    by (force simp: cand_refs_def split: option.splits if_splits)
  then have "slot \<in> set (ca_handles a)" by (auto simp: get_Some_iff)
  then obtain l where "cs_location slot = Some l" using cand_invD(7) [OF assms(1)] slot(3) by auto
  moreover have "generation_matches dbg (cs_generation slot) c"
    using arg_cong [OF slot(2), of sid_generation] by (simp add: generation_matches_def id_from_slot_def)
  ultimately show "\<exists>l. names dbg a c l" using slot(1) by (auto simp: names_def)
qed

lemma cand_unnamed:
  assumes "\<nexists>l. names dbg a c l"
  shows "cand_retain dbg c a = (a, Err (UnknownCandidate None)) \<or> cand_retain dbg c a = (a, Panic)"
    "cand_release dbg c a = (a, Err (UnknownCandidate None)) \<or> cand_release dbg c a = (a, Panic)"
  using assms
  by (auto simp: names_def cand_retain_def cand_release_def cand_get_def split: option.splits)

lemma cand_retain_full:
  assumes inv: "cand_inv pending a" and c: "names dbg a c l" "id_ok dbg c" and full: "cand_refs dbg a c = refs_max"
  shows "cand_retain dbg c a = (a, Err (internal_error 6 ''Whittle candidate refcount overflow''))"
proof -
  obtain slot where "get (ca_handles a) (unat (sid_index c)) = Some slot" "cs_location slot = Some l"
    "generation_matches dbg (cs_generation slot) c" "cand_refs dbg a c = unat (cs_refs slot)"
    using names_refs [OF inv c] by metis
  moreover from this full have "cs_refs slot = 0xFFFFFFFF" by (metis unat_refs_max)
  ultimately show ?thesis by (simp add: cand_retain_def)
qed

lemma cand_step_retain:
  assumes inv: "cand_inv (\<lambda>_. 0) a" and step: "cand_step dbg (RetainCandidate cid) a = (a', gained, dropped)"
  shows "cand_inv (\<lambda>_. 0) a' \<and> length (ca_handles a') \<le> length (ca_handles a) \<and>
    (\<forall>k. cand_refs dbg a' k + count_list dropped k = cand_refs dbg a k + count_list gained k)"
proof (cases "\<exists>l. names dbg a (proper_id dbg cid) l")
  case False
  then show ?thesis using cand_unnamed(1) [OF False] inv step by (auto simp: cand_step_def)
next
  case True
  then obtain l where l: "names dbg a (proper_id dbg cid) l" by blast
  consider "cand_refs dbg a (proper_id dbg cid) = refs_max" | "cand_refs dbg a (proper_id dbg cid) < refs_max"
    using cand_refs_le [of dbg a "proper_id dbg cid"] by linarith
  then show ?thesis
  proof cases
    case 1
    then show ?thesis using cand_retain_full [OF inv l id_ok_proper 1] inv step by (simp add: cand_step_def)
  next
    case 2
    obtain b where "cand_retain dbg (proper_id dbg cid) a = (b, Ok ())" "cand_inv (\<lambda>_. 0) b"
      "length (ca_handles b) = length (ca_handles a)"
      "cand_refs dbg b = (cand_refs dbg a)(proper_id dbg cid := Suc (cand_refs dbg a (proper_id dbg cid)))"
      using cand_retain_spec [OF inv l id_ok_proper 2] by metis
    then show ?thesis using step by (auto simp: cand_step_def)
  qed
qed

lemma cand_step_release:
  assumes inv: "cand_inv (\<lambda>_. 0) a" and step: "cand_step dbg (ReleaseCandidate cid) a = (a', gained, dropped)"
  shows "cand_inv (\<lambda>_. 0) a' \<and> length (ca_handles a') \<le> length (ca_handles a) \<and>
    (\<forall>k. cand_refs dbg a' k + count_list dropped k = cand_refs dbg a k + count_list gained k)"
proof (cases "\<exists>l. names dbg a (proper_id dbg cid) l")
  case False
  then show ?thesis using cand_unnamed(2) [OF False] inv step by (auto simp: cand_step_def)
next
  case True
  then obtain l where l: "names dbg a (proper_id dbg cid) l" by blast
  have "cand_refs dbg a (proper_id dbg cid) \<noteq> 0" using names_iff [OF inv] True by simp
  then consider "1 < cand_refs dbg a (proper_id dbg cid)" | "cand_refs dbg a (proper_id dbg cid) = 1" by linarith
  then show ?thesis
  proof cases
    case 1
    obtain b where "cand_release dbg (proper_id dbg cid) a = (b, Ok None)" "cand_inv (\<lambda>_. 0) b"
      "length (ca_handles b) = length (ca_handles a)"
      "cand_refs dbg b = (cand_refs dbg a)(proper_id dbg cid := cand_refs dbg a (proper_id dbg cid) - 1)"
      using cand_release_shared [OF inv l id_ok_proper 1] by metis
    then show ?thesis using step 1 by (auto simp: cand_step_def)
  next
    case 2
    obtain b w where "cand_release dbg (proper_id dbg cid) a = (b, Ok (Some w))" "cand_inv (\<lambda>_. 0) b"
      "length (ca_handles b) = length (ca_handles a)"
      "cand_refs dbg b = (cand_refs dbg a)(proper_id dbg cid := 0)"
      using cand_release_last [OF inv l id_ok_proper 2] by metis
    then show ?thesis using step 2 by (auto simp: cand_step_def)
  qed
qed

lemma cand_step_insert:
  assumes inv: "cand_inv (\<lambda>_. 0) a" and room: "length (ca_handles a) + length raw \<le> SLOTS"
    and step: "cand_step dbg (InsertBatch h raw) a = (a', gained, dropped)"
  shows "cand_inv (\<lambda>_. 0) a' \<and> length (ca_handles a') \<le> length (ca_handles a) + length raw \<and>
    (\<forall>k. cand_refs dbg a' k + count_list dropped k = cand_refs dbg a k + count_list gained k)"
proof (cases "length raw < SLOTS")
  case True
  obtain b ids where "cand_insert_batch dbg h raw a = (b, Ok ids)" "cand_inv (\<lambda>_. 0) b"
    "length (ca_handles b) \<le> length (ca_handles a) + length raw"
    "\<And>c. cand_refs dbg b c = cand_refs dbg a c + count_list ids c"
    by (rule cand_insert_batch_spec [OF inv room True, of dbg h]) (rule that, assumption+)
  then show ?thesis using step by (auto simp: cand_step_def)
next
  case False
  then have "u32_try_from (length raw) = None" "raw \<noteq> []" by (auto simp: u32_try_from_def SLOTS_def)
  then show ?thesis using inv step by (auto simp: cand_step_def cand_insert_batch_def)
qed

lemma cand_step_law:
  assumes "cand_inv (\<lambda>_. 0) a" "length (ca_handles a) + cand_op_weight x \<le> SLOTS"
    "cand_step dbg x a = (a', gained, dropped)"
  shows "cand_inv (\<lambda>_. 0) a' \<and> length (ca_handles a') \<le> length (ca_handles a) + cand_op_weight x \<and>
    (\<forall>k. cand_refs dbg a' k + count_list dropped k = cand_refs dbg a k + count_list gained k)"
proof (cases x)
  case (InsertBatch h raw)
  then show ?thesis using assms cand_step_insert [OF assms(1)] by (simp add: cand_op_weight_def)
next
  case (RetainCandidate cid)
  then show ?thesis using assms cand_step_retain by (simp add: cand_op_weight_def)
next
  case (ReleaseCandidate cid)
  then show ?thesis using assms cand_step_release by (simp add: cand_op_weight_def)
qed

interpretation candidates: ref_store "cand_inv (\<lambda>_. 0)" "cand_refs dbg" "\<lambda>a. length (ca_handles a)"
    cand_op_weight SLOTS "cand_step dbg" for dbg
  by unfold_locales (rule cand_step_law)

section \<open>The counters\<close>

lemma pool_vacant_card:
  assumes "pool_ok occ free slots"
  shows "length free \<le> length slots" "length slots - length free = card {i. i < length slots \<and> occ (slots ! i)}"
proof -
  let ?vac = "{i. i < length slots \<and> \<not> occ (slots ! i)}" and ?occ = "{i. i < length slots \<and> occ (slots ! i)}"
  have img: "unat ` set free = ?vac" using pool_okD(3) [OF assms] by blast
  have "card (unat ` set free) = length free"
    using pool_okD(1) [OF assms] by (subst card_image) (auto simp: inj_on_def unat_u32_inj distinct_card)
  then have free: "card ?vac = length free" by (simp only: img)
  have "?vac \<union> ?occ = {..<length slots}" by auto
  moreover have "card (?vac \<union> ?occ) = card ?vac + card ?occ" by (rule card_Un_disjoint) auto
  ultimately have "length slots = length free + card ?occ" using free by simp
  then show "length free \<le> length slots" "length slots - length free = card ?occ" by simp_all
qed

definition total_refs :: "cand_arena \<Rightarrow> nat" where
  "total_refs a = sum_list (map (\<lambda>s. unat (cs_refs s)) (ca_handles a))"

text \<open>Up to \<open>2^32\<close> counts of 32 bits fit into 64 bits.\<close>

lemma cand_ref_count_exact:
  assumes "length (ca_handles a) \<le> SLOTS"
  shows "unat (cand_ref_count a) = total_refs a"
proof -
  have "unat (sum_list (map (\<lambda>s. ucast (cs_refs s)) xs) :: u64) = sum_list (map (\<lambda>s. unat (cs_refs s)) xs) \<and>
      sum_list (map (\<lambda>s. unat (cs_refs s)) xs) \<le> length xs * refs_max"
    if "length xs \<le> SLOTS" for xs :: "cand_slot list"
    using that
  proof (induction xs)
    case (Cons s xs)
    let ?n = "sum_list (map (\<lambda>s. unat (cs_refs s)) xs)"
    have s: "unat (cs_refs s) \<le> refs_max" using unat_u32_less [of "cs_refs s"] by (simp add: refs_max_def SLOTS_def)
    have IH: "unat (sum_list (map (\<lambda>s. ucast (cs_refs s)) xs) :: u64) = ?n" "?n \<le> length xs * refs_max"
      using Cons by simp_all
    have bound: "unat (cs_refs s) + ?n \<le> length (s # xs) * refs_max" using IH(2) s by simp
    also have "\<dots> \<le> SLOTS * refs_max" using Cons.prems by (intro mult_le_mono1)
    also have "\<dots> < 2 ^ 64" by (simp add: SLOTS_def refs_max_def)
    finally have "unat (cs_refs s) + ?n < 2 ^ 64" .
    moreover have "unat (ucast (cs_refs s) :: u64) = unat (cs_refs s)"
      using unat_u32_less [of "cs_refs s"] by (simp add: unsigned_ucast_eq take_bit_nat_eq_self SLOTS_def)
    ultimately show ?case using bound IH(1) by (simp add: unat_word_ariths)
  qed simp
  then show ?thesis using assms by (simp add: cand_ref_count_def total_refs_def)
qed

lemma total_refs_sum:
  assumes "cand_inv pending a"
  obtains K where "finite K" "total_refs a = (\<Sum>c \<in> K. cand_refs dbg a c)" "\<And>c. c \<notin> K \<Longrightarrow> cand_refs dbg a c = 0"
proof -
  let ?h = "\<lambda>i. id_from_slot dbg (of_nat i) (cs_generation (ca_handles a ! i))" and ?n = "length (ca_handles a)"
  have small: "i < SLOTS" if "i < ?n" for i using that pool_okD(2) [OF cand_invD(1) [OF assms]] by simp
  have refs: "cand_refs dbg a (?h i) = unat (cs_refs (ca_handles a ! i))" if "i < ?n" for i
    using that small [OF that] by (simp add: cand_refs_def id_from_slot_def unat_of_nat_small get_def)
  have inj: "inj_on ?h {..<?n}"
  proof (rule inj_onI)
    fix i j assume ij: "i \<in> {..<?n}" "j \<in> {..<?n}" "?h i = ?h j"
    then have "unat (of_nat i :: u32) = unat (of_nat j :: u32)" by (simp add: id_from_slot_def)
    then show "i = j" using ij small by (simp add: unat_of_nat_small)
  qed
  show thesis
  proof (rule that [of "?h ` {..<?n}"])
    have "total_refs a = (\<Sum>i < ?n. unat (cs_refs (ca_handles a ! i)))"
      by (simp add: total_refs_def sum_list_sum_nth atLeast0LessThan)
    also have "\<dots> = (\<Sum>i < ?n. cand_refs dbg a (?h i))" using refs by simp
    also have "\<dots> = (\<Sum>c \<in> ?h ` {..<?n}. cand_refs dbg a c)" by (simp add: sum.reindex [OF inj])
    finally show "total_refs a = (\<Sum>c \<in> ?h ` {..<?n}. cand_refs dbg a c)" .
    fix c assume "c \<notin> ?h ` {..<?n}"
    then have "c \<noteq> ?h (unat (sid_index c))" if "unat (sid_index c) < ?n" using that by blast
    then show "cand_refs dbg a c = 0" by (auto simp: cand_refs_def get_def)
  qed simp
qed

lemma total_refs_balance:
  assumes inv: "cand_inv pending a" and bal: "\<And>c. cand_refs dbg a c + count_list dropped c = count_list gained c"
  shows "total_refs a + length dropped = length gained"
proof -
  obtain K where K: "finite K" "total_refs a = (\<Sum>c \<in> K. cand_refs dbg a c)" "\<And>c. c \<notin> K \<Longrightarrow> cand_refs dbg a c = 0"
    by (rule total_refs_sum [OF inv, of dbg]) (rule that, assumption+)
  let ?X = "K \<union> set gained \<union> set dropped"
  have "total_refs a = (\<Sum>c \<in> ?X. cand_refs dbg a c)"
    unfolding K(2) using K(1,3) by (intro sum.mono_neutral_left) auto
  moreover have "length gained = (\<Sum>c \<in> ?X. count_list gained c)" "length dropped = (\<Sum>c \<in> ?X. count_list dropped c)"
    by (rule sum_count_set [symmetric]; use K(1) in auto)+
  moreover have "(\<Sum>c \<in> ?X. cand_refs dbg a c) + (\<Sum>c \<in> ?X. count_list dropped c) = (\<Sum>c \<in> ?X. count_list gained c)"
    using bal by (simp add: sum.distrib [symmetric])
  ultimately show ?thesis by simp
qed

text \<open>
  C28: reference accounting of the candidate arena. Over any sequence of batch insertions, retentions
  and releases (successful or not) that needs at most \<open>2^32\<close> handles: a handle leads to a candidate
  exactly while references handed out for it are outstanding; \<open>ref_count\<close> is the number of
  outstanding references, without wrapping around; \<open>live_count\<close> is the number of handles in use,
  without underflow.
\<close>

theorem cand_arena_accounting:
  assumes "sum_list (map cand_op_weight xs) \<le> SLOTS"
    and "run_script (cand_step dbg) xs cand_arena_default = (a, gained, dropped)"
  shows "cand_inv (\<lambda>_. 0) a \<and>
    (id_ok dbg c \<longrightarrow> (\<exists>w. cand_get dbg a c = (Ok (Some w) :: (_, unit) outcome)) = (count_list dropped c < count_list gained c)) \<and>
    unat (cand_ref_count a) + length dropped = length gained \<and>
    length (ca_free_handles a) \<le> length (ca_handles a) \<and> cand_live_count a = card {i. \<exists>loc. located a i loc}"
proof -
  have "length (ca_handles cand_arena_default) + sum_list (map cand_op_weight xs) \<le> SLOTS"
    "\<And>c. cand_refs dbg cand_arena_default c = 0"
    using assms(1) by (simp_all add: cand_arena_default_def cand_refs_def get_def)
  then have inv: "cand_inv (\<lambda>_. 0) a" and bal: "\<And>c. cand_refs dbg a c + count_list dropped c = count_list gained c"
    using candidates.balance [OF cand_inv_default _ assms(2)] by (metis add_0)+
  have "(\<exists>w. cand_get dbg a c = (Ok (Some w) :: (_, unit) outcome)) \<longleftrightarrow> count_list dropped c < count_list gained c"
    if "id_ok dbg c"
    using cand_get_Some_iff [OF inv, of dbg c] names_iff [OF inv that] bal [of c] by auto
  moreover have "unat (cand_ref_count a) + length dropped = length gained"
    using cand_ref_count_exact [OF pool_okD(2) [OF cand_invD(1) [OF inv]]] total_refs_balance [OF inv bal] by simp
  moreover have "cand_live_count a = card {i. \<exists>loc. located a i loc}" "length (ca_free_handles a) \<le> length (ca_handles a)"
    using pool_vacant_card [OF cand_invD(1) [OF inv]] by (auto simp: cand_live_count_def located_def)
  ultimately show ?thesis using inv by blast
qed

lemmas cand_arena_eval = cand_step_def cand_insert_batch_def cand_alloc_batch_def cand_insert_handle_def
  cand_retain_def cand_release_def cand_get_def cand_drop_batch_def cand_slot_new_def cand_arena_default_def
  u32_try_from_def SLOTS_def get_def proper_id_def id_from_slot_def id_from_raw_def generation_matches_def
  bump_generation_def upt_rec Let_def

definition sample_raw :: raw_candidate where
  "sample_raw = \<lparr> rc_rule = 0, rc_root = 1, rc_match_len = 1, rc_matched = [0] \<rparr>"

definition sample_cand_script :: "cand_op list" where
  "sample_cand_script = [InsertBatch [7] [sample_raw, sample_raw], RetainCandidate (id_from_raw 1),
     ReleaseCandidate (id_from_raw 0), ReleaseCandidate (id_from_raw 1)]"

theorem cand_arena_accounting_witness:
  "\<exists>a. run_script (cand_step True) sample_cand_script cand_arena_default =
       (a, [id_from_raw 0, id_from_raw 1, id_from_raw 1], [id_from_raw 0, id_from_raw 1]) \<and>
     unat (cand_ref_count a) = 1 \<and> (\<exists>w. cand_get True a (id_from_raw 1) = (Ok (Some w) :: (_, unit) outcome))"
proof -
  let ?run = "run_script (cand_step True) sample_cand_script cand_arena_default"
  have "snd ?run = ([id_from_raw 0, id_from_raw 1, id_from_raw 1], [id_from_raw 0, id_from_raw 1])"
    by (simp add: sample_cand_script_def cand_arena_eval)
  then obtain a where run: "?run = (a, [id_from_raw 0, id_from_raw 1, id_from_raw 1], [id_from_raw 0, id_from_raw 1])"
    by (metis prod.collapse)
  moreover have "sum_list (map cand_op_weight sample_cand_script) \<le> SLOTS"
    by (simp add: sample_cand_script_def cand_op_weight_def SLOTS_def)
  ultimately have "unat (cand_ref_count a) + 2 = 3 \<and> (id_ok True (id_from_raw 1) \<longrightarrow>
      (\<exists>w. cand_get True a (id_from_raw 1) = (Ok (Some w) :: (_, unit) outcome)) = (count_list [id_from_raw 0, id_from_raw 1] (id_from_raw 1)
        < count_list [id_from_raw 0, id_from_raw 1, id_from_raw 1] (id_from_raw 1)))"
    using cand_arena_accounting [of sample_cand_script True a _ _ "id_from_raw 1"] by simp
  moreover have "id_ok True (id_from_raw 1)" by (simp add: id_ok_def)
  ultimately show ?thesis using run by (simp add: id_from_raw_def)
qed

text \<open>
  Reading back a batch. Inserting the candidates of an enumeration yields one handle per
  candidate, in order and without repetition; the handle leads to its candidate and the hash of the
  graph it was found in, and every handle that was live before still leads to its own candidate.
\<close>

theorem cand_insert_lookup:
  assumes inv: "cand_inv (\<lambda>_. 0) a" and room: "length (ca_handles a) + length raw \<le> SLOTS" and n: "length raw < SLOTS"
  shows "\<exists>a' ids. cand_insert_batch dbg h raw a = (a', Ok ids) \<and> cand_inv (\<lambda>_. 0) a' \<and> length ids = length raw \<and>
    (\<forall>c. cand_refs dbg a' c = cand_refs dbg a c + count_list ids c) \<and>
    (\<forall>j < length raw. cand_get dbg a' (ids ! j) = (Ok (Some \<lparr> wc_graph_hash = h, wc_raw = raw ! j \<rparr>) :: (_, unit) outcome)) \<and>
    (\<forall>c w. cand_get dbg a c = (Ok (Some w) :: (_, unit) outcome) \<longrightarrow> cand_get dbg a' c = (Ok (Some w) :: (_, unit) outcome))"
  by (rule cand_insert_batch_spec [OF inv room n, of dbg h]) blast

theorem cand_insert_lookup_witness:
  "\<exists>a ids. cand_insert_batch False [7] [sample_raw] cand_arena_default = (a, Ok ids) \<and> length ids = 1 \<and>
     cand_get False a (ids ! 0) = (Ok (Some \<lparr> wc_graph_hash = [7], wc_raw = sample_raw \<rparr>) :: (_, unit) outcome)"
proof -
  have "length (ca_handles cand_arena_default) + length [sample_raw] \<le> SLOTS" "length [sample_raw] < SLOTS"
    by (simp_all add: cand_arena_default_def SLOTS_def)
  from cand_insert_lookup [OF cand_inv_default this, of False "[7]"] show ?thesis by auto
qed

section \<open>What an operation keeps of the other handles\<close>

lemma cand_get_refs:
  assumes "get (ca_handles a) i = Some slot"
  shows "cand_get dbg (a \<lparr> ca_handles := (ca_handles a)[i := slot \<lparr> cs_refs := n \<rparr>] \<rparr>) d = cand_get dbg a d" (is "cand_get _ ?a _ = _")
proof -
  have i: "i < length (ca_handles a)" "ca_handles a ! i = slot" using assms by (auto simp: get_Some_iff)
  define j where "j = unat (sid_index d)"
  have "get (ca_handles ?a) j =
      (if j = i then Some (slot \<lparr> cs_refs := n \<rparr>) else get (ca_handles a) j)"
    using i by (auto simp: get_def)
  moreover have batches: "ca_batches ?a = ca_batches a" by simp
  ultimately show ?thesis
    using assms unfolding cand_get_def j_def [symmetric] batches by (cases "j = i") simp_all
qed

lemma cand_retain_get:
  assumes "cand_retain dbg c a = (a', r)"
  shows "cand_get dbg a' d = cand_get dbg a d"
  using assms cand_get_refs by (auto simp: cand_retain_def split: option.splits if_splits)

lemma names_same_index:
  assumes "names dbg a c l" "names dbg a d m" "id_ok dbg c" "id_ok dbg d" "sid_index c = sid_index d"
  shows "c = d"
proof -
  from assms(1) obtain s where s: "get (ca_handles a) (unat (sid_index c)) = Some s" "generation_matches dbg (cs_generation s) c"
    unfolding names_def by blast
  from assms(2) obtain t where "get (ca_handles a) (unat (sid_index d)) = Some t" "generation_matches dbg (cs_generation t) d"
    unfolding names_def by blast
  with s assms(5) have "generation_matches dbg (cs_generation s) d" by simp
  then show ?thesis using assms(3-5) s(2) handle_self by metis
qed

lemma cand_release_get:
  assumes inv: "cand_inv (\<lambda>_. 0) a" and rel: "cand_release dbg c a = (a', Ok r)" and ok: "id_ok dbg c" "id_ok dbg d"
    and d: "cand_get dbg a d = (Ok (Some w) :: (_, unit) outcome)" and other: "r = None \<or> d \<noteq> c"
  shows "cand_get dbg a' d = (Ok (Some w) :: (_, unit) outcome)"
proof -
  let ?i = "unat (sid_index c)"
  have "\<exists>l. names dbg a c l"
  proof (rule ccontr)
    assume "\<not> ?thesis"
    then show False using cand_unnamed(2) [of dbg a c] rel by simp
  qed
  then obtain l where l: "names dbg a c l" by blast
  obtain m where m: "names dbg a d m" using cand_get_Some_iff [OF inv, of dbg d] d by blast
  obtain slot where slot: "get (ca_handles a) ?i = Some slot" "cs_location slot = Some l" "cs_refs slot \<noteq> 0"
    using names_refs [OF inv l ok(1)] by metis
  obtain b where b: "batch_at a (unat (cl_batch l)) = Some b" "unat (cl_record l) < length (cb_records b)"
    by (rule cand_get_names [OF inv l])
  note get_c = cand_get_eq [OF l b]
  show ?thesis
  proof (cases "1 < cs_refs slot")
    case True
    then have a': "a' = a \<lparr> ca_handles := (ca_handles a)[?i := slot \<lparr> cs_refs := cs_refs slot - 1 \<rparr>] \<rparr>"
      using rel slot(1) by (simp add: cand_release_def get_c)
    have "cand_get dbg a' d = (cand_get dbg a d :: (_, unit) outcome)"
      unfolding a' using slot(1) by (rule cand_get_refs)
    then show ?thesis using d by simp
  next
    case False
    let ?slot = "slot \<lparr> cs_location := None, cs_refs := 0, cs_generation := bump_generation dbg (cs_generation slot) \<rparr>"
    let ?m = "a \<lparr> ca_handles := (ca_handles a)[?i := ?slot], ca_free_handles := sid_index c # ca_free_handles a \<rparr>"
    have pm: "pool_ok (\<lambda>b. b \<noteq> None) (ca_free_batches ?m) (ca_batches ?m)" "batch_at ?m (unat (cl_batch l)) = Some b"
      using cand_invD(2) [OF inv] b(1) by (simp_all add: batch_at_def)
    obtain free batches where drop:
      "cand_drop_batch l ?m = (?m \<lparr> ca_batches := batches, ca_free_batches := free \<rparr>, Ok ())"
      "get batches (unat (cl_batch l)) = Some (if cb_live_handles b = 1 then None
        else Some (b \<lparr> cb_live_handles := cb_live_handles b - 1 \<rparr>))"
      "\<And>j. j \<noteq> unat (cl_batch l) \<Longrightarrow> get batches j = get (ca_batches a) j"
      by (rule cand_drop_batch_spec [OF pm cand_invD(6) [OF inv b(1)]]) simp
    have res: "a' = ?m \<lparr> ca_batches := batches, ca_free_batches := free \<rparr>" "r \<noteq> None"
      using rel slot(1,2) False drop(1) by (auto simp: cand_release_def get_c)
    have di: "unat (sid_index d) \<noteq> ?i"
      using names_same_index [OF l m ok] other res(2) by (auto simp: unat_u32_inj)
    then have md: "names dbg a' d m" using m by (auto simp: res(1) names_def get_def split: if_splits)
    obtain bd where bd: "batch_at a (unat (cl_batch m)) = Some bd" "unat (cl_record m) < length (cb_records bd)"
      by (rule cand_get_names [OF inv m])
    have w: "w = \<lparr> wc_graph_hash = cb_graph_hash bd, wc_raw = cb_records bd ! unat (cl_record m) \<rparr>"
      using d by (simp add: cand_get_eq [OF m bd])
    have "\<exists>bd'. batch_at a' (unat (cl_batch m)) = Some bd' \<and> cb_records bd' = cb_records bd \<and> cb_graph_hash bd' = cb_graph_hash bd"
    proof (cases "unat (cl_batch m) = unat (cl_batch l)")
      case True
      then have "bd = b" using bd b by simp
      moreover have "cb_live_handles b \<noteq> 1"
      proof
        assume "cb_live_handles b = 1"
        then have "card (handles_of a (unat (cl_batch l))) = 1" using cand_invD(5) [OF inv b(1)] by simp
        moreover have "?i \<in> handles_of a (unat (cl_batch l))" "unat (sid_index d) \<in> handles_of a (unat (cl_batch l))"
          using names_located [OF l] names_located [OF m] True by (auto simp: handles_of_def)
        ultimately show False using di by (metis card_1_singletonE singletonD)
      qed
      ultimately show ?thesis using True drop(2) by (simp add: batch_at_def res(1))
    next
      case False
      then show ?thesis using bd(1) drop(3) [OF False] by (simp add: batch_at_def res(1))
    qed
    then show ?thesis using cand_get_eq [OF md] bd(2) w by auto
  qed
qed

end
