(* ===== verification/Whittle_Engine.thy ===== *)
theory Whittle_Engine
  imports Whittle_Rewrite Whittle_Candidates
begin

text \<open>
  \<open>WhittleEngine\<close> of \<open>crates/gz-engine-whittle/src/engine.rs\<close>: the engine over the two arenas, with a
  cache of enumerations and a cache of transitions. Every operation is modelled with the state it
  leaves behind on an error. The theory shows that the caches are transparent: an enumeration and an
  application give what the rules give on the graph itself, whatever the caches hold.
\<close>

section \<open>State\<close>

datatype whittle_root = RootInput u16 u16 u16 | RootArtifact "u8 list"

record engine_config =
  ec_root :: whittle_root
  ec_include_reverse :: bool
  ec_measure_mode :: measure_mode
  ec_cache_candidates :: bool
  ec_cache_transitions :: bool

record cached_ids =
  cc_ids :: "slot_id list"
  cc_truncated :: bool

record whittle_caches =
  wca_candidates :: "digest \<times> digest \<rightharpoonup> cached_ids"
  wca_transitions :: "digest \<rightharpoonup> (digest \<rightharpoonup> digest)"

record engine =
  en_config :: engine_config
  en_root :: slot_id
  en_graphs :: graph_arena
  en_candidates :: cand_arena
  en_caches :: whittle_caches
  en_engine_id :: digest
  en_engine_version :: digest
  en_action_set_hash :: digest
  en_measure_config_hash :: digest

primrec rule_error_string :: "rule_error \<Rightarrow> string" where
  "rule_error_string (UnknownRule rule) = ''unknown rule '' @ show_nat (unat rule)"
| "rule_error_string BadMatchLength = ''bad matched-node length''"
| "rule_error_string (InvalidCandidate message) = message"
| "rule_error_string CapacityExceeded = ''rewrite exceeds graph capacity''"
| "rule_error_string (Graph error) = graph_error_string error"

definition internal_rule :: "rule_error \<Rightarrow> engine_error" where
  "internal_rule error = internal_error 2 (rule_error_string error)"

section \<open>Construction\<close>

definition root_body :: "bool \<Rightarrow> whittle_root \<Rightarrow> (graph_body, graph_error) outcome" where
  "root_body dbg root =
     (case root of
        RootInput arity capacity input_index \<Rightarrow> input_graph dbg arity capacity input_index
      | RootArtifact bytes \<Rightarrow> obind (deserialize_wav1 bytes) compact_graph)"

definition engine_new :: "bool \<Rightarrow> (u8 list \<Rightarrow> digest) \<Rightarrow> engine_config \<Rightarrow> (engine, engine_error) outcome" where
  "engine_new dbg blake3 config =
     (let gz_id = whittle_engine_id blake3; version = whittle_engine_version blake3 in
      obind (map_err internal_graph (root_body dbg (ec_root config))) (\<lambda>body.
      case graph_insert dbg blake3 body (graph_arena_new gz_id version) of
        (graphs, r) \<Rightarrow>
          obind (map_err internal_graph r) (\<lambda>root.
          Ok \<lparr> en_config = config, en_root = root, en_graphs = graphs, en_candidates = cand_arena_default,
               en_caches = \<lparr> wca_candidates = Map.empty, wca_transitions = Map.empty \<rparr>,
               en_engine_id = gz_id, en_engine_version = version,
               en_action_set_hash = action_set_hash blake3 version (ec_include_reverse config),
               en_measure_config_hash = measure_config_hash blake3 (ec_measure_mode config) \<rparr>)))"

definition engine_measure_options :: "engine \<Rightarrow> (measure_options, 'e) outcome" where
  "engine_measure_options e =
     (case measure_options_new (en_measure_config_hash e) 1 None True of Ok options \<Rightarrow> Ok options | _ \<Rightarrow> Panic)"

section \<open>Lookups\<close>

definition engine_graph :: "bool \<Rightarrow> engine \<Rightarrow> slot_id \<Rightarrow> (whittle_graph, engine_error) outcome" where
  "engine_graph dbg e gid =
     obind (graph_get dbg (en_graphs e) gid) (\<lambda>found.
       case found of None \<Rightarrow> Err (UnknownGraph None) | Some g \<Rightarrow> Ok g)"

definition engine_candidate :: "bool \<Rightarrow> engine \<Rightarrow> slot_id \<Rightarrow> (whittle_candidate, engine_error) outcome" where
  "engine_candidate dbg e cid =
     obind (cand_get dbg (en_candidates e) cid) (\<lambda>found.
       case found of None \<Rightarrow> Err (UnknownCandidate None) | Some w \<Rightarrow> Ok w)"

definition engine_hash :: "bool \<Rightarrow> engine \<Rightarrow> slot_id \<Rightarrow> (digest, engine_error) outcome" where
  "engine_hash dbg e gid = obind (engine_graph dbg e gid) (\<lambda>g. Ok (wg_hash g))"

text \<open>The bytes a candidate is hashed and exported by.\<close>

definition candidate_fixed :: "raw_candidate \<Rightarrow> (u8 list, 'e) outcome" where
  "candidate_fixed raw =
     obind (matched_slice raw) (\<lambda>matched.
       Ok (u16_to_le (rc_rule raw) @ u32_to_le (rc_root raw) @ rc_match_len raw # concat (map u32_to_le matched)))"

definition candidate_hash ::
    "(u8 list \<Rightarrow> digest) \<Rightarrow> digest \<Rightarrow> digest \<Rightarrow> raw_candidate \<Rightarrow> (digest, 'e) outcome"
where
  "candidate_hash blake3 ghash action_set raw =
     obind (candidate_fixed raw) (\<lambda>fixed.
       Ok (hash32 blake3 (bytes_of ''whittle-candidate-v1'') [ghash, action_set, fixed]))"

definition candidate_metadata :: "raw_candidate \<Rightarrow> (u8 list, 'e) outcome" where
  "candidate_metadata raw = obind (candidate_fixed raw) (\<lambda>fixed. Ok (1 # fixed))"

definition measure_metadata :: "u32 \<Rightarrow> u16 \<Rightarrow> u16 \<Rightarrow> u8 list" where
  "measure_metadata cost arity capacity = 1 # u32_to_le cost @ u16_to_le arity @ u16_to_le capacity"

section \<open>Enumeration\<close>

definition retain_candidate :: "bool \<Rightarrow> slot_id \<Rightarrow> engine \<Rightarrow> engine \<times> (unit, engine_error) outcome" where
  "retain_candidate dbg cid =
     on_part en_candidates (\<lambda>cs e. e \<lparr> en_candidates := cs \<rparr>) (\<lambda>x. x) (cand_retain dbg cid)"

text \<open>Whether a cached enumeration answers a request.\<close>

definition cache_usable :: "cached_ids \<Rightarrow> nat option \<Rightarrow> bool" where
  "cache_usable cached limit =
     (\<not> (cc_truncated cached \<and> (case limit of None \<Rightarrow> True | Some l \<Rightarrow> length (cc_ids cached) < l)))"

definition enumerate_fresh ::
    "bool \<Rightarrow> digest \<Rightarrow> slot_id \<Rightarrow> nat option \<Rightarrow> engine \<Rightarrow> engine \<times> (slot_id list, engine_error) outcome"
where
  "enumerate_fresh dbg ghash gid limit e =
     sbind (slift (obind (engine_graph dbg e gid) (\<lambda>g.
        map_err internal_rule (enumerate_graph_limited (wg_body g) (ec_include_reverse (en_config e)) limit))) e)
       (\<lambda>raw e.
     let truncated = (case limit of None \<Rightarrow> False | Some l \<Rightarrow> length raw = l) in
     sbind (on_part en_candidates (\<lambda>cs e. e \<lparr> en_candidates := cs \<rparr>) (\<lambda>x. x) (cand_insert_batch dbg ghash raw) e)
       (\<lambda>ids e.
     (if ec_cache_candidates (en_config e)
      then e \<lparr> en_caches := en_caches e \<lparr> wca_candidates := (wca_candidates (en_caches e))
               ((ghash, en_action_set_hash e) \<mapsto> \<lparr> cc_ids = ids, cc_truncated = truncated \<rparr>) \<rparr> \<rparr>
      else e, Ok ids)))"

definition enumerate_candidate_ids ::
    "bool \<Rightarrow> slot_id \<Rightarrow> nat option \<Rightarrow> engine \<Rightarrow> engine \<times> (slot_id list, engine_error) outcome"
where
  "enumerate_candidate_ids dbg gid limit e =
     sbind (slift (engine_hash dbg e gid) e) (\<lambda>ghash e.
       case (if ec_cache_candidates (en_config e)
             then wca_candidates (en_caches e) (ghash, en_action_set_hash e) else None) of
         Some cached \<Rightarrow>
           if cache_usable cached limit
           then let ids = (case limit of None \<Rightarrow> cc_ids cached | Some l \<Rightarrow> take (min l (length (cc_ids cached))) (cc_ids cached))
                in sbind (for_each (retain_candidate dbg) ids e) (\<lambda>_ e. (e, Ok ids))
           else enumerate_fresh dbg ghash gid limit e
       | None \<Rightarrow> enumerate_fresh dbg ghash gid limit e)"

section \<open>Application\<close>

record apply_result =
  ar_before :: slot_id
  ar_after :: slot_id
  ar_before_hash :: digest
  ar_after_hash :: digest
  ar_candidate :: slot_id
  ar_candidate_hash :: digest
  ar_changed :: bool

definition apply_fresh ::
    "bool \<Rightarrow> (u8 list \<Rightarrow> digest) \<Rightarrow> slot_id \<Rightarrow> raw_candidate \<Rightarrow> digest \<Rightarrow> digest \<Rightarrow> engine \<Rightarrow>
       engine \<times> (slot_id, engine_error) outcome"
where
  "apply_fresh dbg blake3 gid raw before_hash chash e =
     sbind (slift (obind (engine_graph dbg e gid) (\<lambda>before. map_err internal_rule (apply_graph (wg_body before) raw))) e)
       (\<lambda>after_body e.
     sbind (on_part en_graphs (\<lambda>gs e. e \<lparr> en_graphs := gs \<rparr>) internal_graph (graph_insert dbg blake3 after_body) e)
       (\<lambda>after e.
     if ec_cache_transitions (en_config e)
     then sbind (slift (engine_hash dbg e after) e) (\<lambda>after_hash e.
       (e \<lparr> en_caches := en_caches e \<lparr> wca_transitions := (wca_transitions (en_caches e))(before_hash \<mapsto>
              (case wca_transitions (en_caches e) before_hash of None \<Rightarrow> Map.empty | Some inner \<Rightarrow> inner)
                (chash \<mapsto> after_hash)) \<rparr> \<rparr>, Ok after))
     else (e, Ok after)))"

definition engine_apply ::
    "bool \<Rightarrow> (u8 list \<Rightarrow> digest) \<Rightarrow> slot_id \<Rightarrow> slot_id \<Rightarrow> engine \<Rightarrow> engine \<times> (apply_result, engine_error) outcome"
where
  "engine_apply dbg blake3 gid cid e =
     sbind (slift (engine_hash dbg e gid) e) (\<lambda>before_hash e.
     sbind (slift (engine_candidate dbg e cid) e) (\<lambda>cand e.
     sbind (slift (candidate_hash blake3 (wc_graph_hash cand) (en_action_set_hash e) (wc_raw cand)) e) (\<lambda>chash e.
     if wc_graph_hash cand \<noteq> before_hash
     then (e, Err (StaleCandidate (wc_graph_hash cand) before_hash chash))
     else
       let cached_after = (if ec_cache_transitions (en_config e)
                           then (case wca_transitions (en_caches e) before_hash of
                                   None \<Rightarrow> None | Some inner \<Rightarrow> inner chash) else None) in
       sbind (case cached_after of
                Some after_hash \<Rightarrow>
                  on_part en_graphs (\<lambda>gs e. e \<lparr> en_graphs := gs \<rparr>) (\<lambda>x. x) (graph_retain_hash after_hash) e
              | None \<Rightarrow> (e, Ok None)) (\<lambda>found e.
       sbind (case found of
                Some after \<Rightarrow> (e, Ok after)
              | None \<Rightarrow> apply_fresh dbg blake3 gid (wc_raw cand) before_hash chash e) (\<lambda>after e.
       sbind (slift (engine_hash dbg e after) e) (\<lambda>after_hash e.
       (e, Ok \<lparr> ar_before = gid, ar_after = after, ar_before_hash = before_hash, ar_after_hash = after_hash,
                ar_candidate = cid, ar_candidate_hash = chash, ar_changed = (before_hash \<noteq> after_hash) \<rparr>)))))))"

section \<open>Measuring, exporting and releasing\<close>

text \<open>
  The reward is \<open>-(cost as f32)\<close>, the integer \<open>-cost\<close> here; the conversion is exact for the costs of
  valid graphs, which are below \<open>2^16\<close>.
\<close>

record measure_result =
  mr_graph :: slot_id
  mr_graph_hash :: digest
  mr_config_hash :: digest
  mr_measured :: bool
  mr_valid :: bool
  mr_scalar_reward :: "int option"
  mr_metadata :: "u8 list"

definition engine_measure ::
    "bool \<Rightarrow> slot_id \<Rightarrow> measure_options \<Rightarrow> engine \<Rightarrow> engine \<times> (measure_result, engine_error) outcome"
where
  "engine_measure dbg gid options e =
     sbind (slift (engine_graph dbg e gid) e) (\<lambda>g e.
       let cost = wg_cost g in
       (e, Ok \<lparr> mr_graph = gid, mr_graph_hash = wg_hash g, mr_config_hash = mo_config_hash options,
                mr_measured = True, mr_valid = True, mr_scalar_reward = Some (- int (unat cost)),
                mr_metadata = measure_metadata cost (g_arity g) (g_capacity g) \<rparr>))"

definition forget_hash :: "digest \<Rightarrow> engine \<Rightarrow> engine" where
  "forget_hash ghash e =
     e \<lparr> en_caches := en_caches e \<lparr>
       wca_candidates := (wca_candidates (en_caches e))((ghash, en_action_set_hash e) := None),
       wca_transitions := (wca_transitions (en_caches e))(ghash := None) \<rparr> \<rparr>"

definition release_candidate :: "bool \<Rightarrow> slot_id \<Rightarrow> engine \<Rightarrow> engine \<times> (unit, engine_error) outcome" where
  "release_candidate dbg cid e =
     sbind (on_part en_candidates (\<lambda>cs e. e \<lparr> en_candidates := cs \<rparr>) (\<lambda>x. x) (cand_release dbg cid) e) (\<lambda>released e.
       case released of None \<Rightarrow> (e, Ok ()) | Some cand \<Rightarrow> (forget_hash (wc_graph_hash cand) e, Ok ()))"

definition release_graph :: "bool \<Rightarrow> slot_id \<Rightarrow> engine \<Rightarrow> engine \<times> (unit, engine_error) outcome" where
  "release_graph dbg gid e =
     sbind (on_part en_graphs (\<lambda>gs e. e \<lparr> en_graphs := gs \<rparr>) (\<lambda>x. x) (graph_release_protected dbg gid (en_root e)) e)
       (\<lambda>(ghash, last_ref) e. (if last_ref then forget_hash ghash e else e, Ok ()))"

definition engine_release ::
    "bool \<Rightarrow> slot_id list \<Rightarrow> slot_id list \<Rightarrow> engine \<Rightarrow> engine \<times> (unit, engine_error) outcome"
where
  "engine_release dbg graphs cands e =
     sbind (for_each (release_candidate dbg) cands e) (\<lambda>_. for_each (release_graph dbg) graphs)"

definition export_graph :: "bool \<Rightarrow> engine \<Rightarrow> slot_id \<Rightarrow> (digest \<times> u8 list, engine_error) outcome" where
  "export_graph dbg e gid =
     obind (engine_graph dbg e gid) (\<lambda>g.
     obind (serialize_wav1 (wg_body g)) (\<lambda>bytes. Ok (wg_hash g, bytes)))"

record candidate_info =
  ci_candidate_hash :: digest
  ci_graph_hash :: digest
  ci_action_set_hash :: digest
  ci_kind :: u32
  ci_display_name :: string
  ci_subjects :: "u64 list"
  ci_metadata :: "u8 list"

definition engine_candidate_info ::
    "bool \<Rightarrow> (u8 list \<Rightarrow> digest) \<Rightarrow> engine \<Rightarrow> slot_id \<Rightarrow> slot_id \<Rightarrow> (candidate_info, engine_error) outcome"
where
  "engine_candidate_info dbg blake3 e gid cid =
     obind (engine_hash dbg e gid) (\<lambda>ghash.
     obind (engine_candidate dbg e cid) (\<lambda>cand.
     obind (candidate_hash blake3 (wc_graph_hash cand) (en_action_set_hash e) (wc_raw cand)) (\<lambda>chash.
     if wc_graph_hash cand \<noteq> ghash then Err (StaleCandidate (wc_graph_hash cand) ghash chash)
     else
       obind (matched_slice (wc_raw cand)) (\<lambda>matched.
       obind (candidate_metadata (wc_raw cand)) (\<lambda>metadata.
       Ok \<lparr> ci_candidate_hash = chash, ci_graph_hash = ghash, ci_action_set_hash = en_action_set_hash e,
            ci_kind = ucast (rc_rule (wc_raw cand)),
            ci_display_name = rule_name (rc_rule (wc_raw cand)) @ ''@'' @ show_nat (unat (rc_root (wc_raw cand))),
            ci_subjects = map ucast matched, ci_metadata = metadata \<rparr>)))))"

section \<open>The engine invariant\<close>

text \<open>
  The candidates of an enumeration have their match padded with zeros, so the bytes they are hashed
  by determine them.
\<close>

definition padded :: "raw_candidate \<Rightarrow> bool" where
  "padded raw \<longleftrightarrow> unat (rc_match_len raw) \<le> MAX_MATCHED \<and> length (rc_matched raw) = MAX_MATCHED \<and>
     drop (unat (rc_match_len raw)) (rc_matched raw) = replicate (MAX_MATCHED - unat (rc_match_len raw)) 0"

text \<open>
  A cached enumeration lists live candidates of its graph: all of them, or a prefix of them if it is
  marked as truncated. A cached transition leads to the hash of the rewritten graph.
\<close>

definition limited :: "nat option \<Rightarrow> 'a list \<Rightarrow> 'a list" where
  "limited limit xs = (case limit of None \<Rightarrow> xs | Some l \<Rightarrow> take l xs)"

definition ids_name ::
    "bool \<Rightarrow> cand_arena \<Rightarrow> digest \<Rightarrow> slot_id list \<Rightarrow> raw_candidate list \<Rightarrow> bool"
where
  "ids_name dbg cs h ids raws \<longleftrightarrow> length ids = length raws \<and>
     (\<forall>j < length raws. cand_get dbg cs (ids ! j) = (Ok (Some \<lparr> wc_graph_hash = h, wc_raw = raws ! j \<rparr>) :: (_, unit) outcome))"

definition enum_of :: "(u8 list \<Rightarrow> digest) \<Rightarrow> engine \<Rightarrow> digest \<Rightarrow> bool \<Rightarrow> raw_candidate list \<Rightarrow> bool" where
  "enum_of blake3 e h truncated raws \<longleftrightarrow>
     (\<forall>body. valid_graph body \<longrightarrow> body_hash blake3 (en_graphs e) body = h \<longrightarrow>
        (\<exists>all. enumerate_graph body (ec_include_reverse (en_config e)) = Ok all \<and>
           raws = take (length raws) all \<and> (truncated \<or> raws = all)))"

definition enum_cache_ok :: "bool \<Rightarrow> (u8 list \<Rightarrow> digest) \<Rightarrow> engine \<Rightarrow> bool" where
  "enum_cache_ok dbg blake3 e \<longleftrightarrow>
     (\<forall>h s cached. wca_candidates (en_caches e) (h, s) = Some cached \<longrightarrow>
        s = en_action_set_hash e \<and> distinct (cc_ids cached) \<and> (\<forall>c \<in> set (cc_ids cached). id_ok dbg c) \<and>
        (\<exists>raws. ids_name dbg (en_candidates e) h (cc_ids cached) raws \<and> enum_of blake3 e h (cc_truncated cached) raws))"

definition trans_cache_ok :: "(u8 list \<Rightarrow> digest) \<Rightarrow> engine \<Rightarrow> bool" where
  "trans_cache_ok blake3 e \<longleftrightarrow>
     (\<forall>h inner chash after_hash body raw. wca_transitions (en_caches e) h = Some inner \<longrightarrow> inner chash = Some after_hash \<longrightarrow>
        valid_graph body \<longrightarrow> body_hash blake3 (en_graphs e) body = h \<longrightarrow> padded raw \<longrightarrow>
        candidate_hash blake3 h (en_action_set_hash e) raw = (Ok chash :: (_, unit) outcome) \<longrightarrow>
        (\<exists>after. apply_graph body raw = Ok after \<and> after_hash = body_hash blake3 (en_graphs e) after))"

definition cands_padded :: "bool \<Rightarrow> cand_arena \<Rightarrow> bool" where
  "cands_padded dbg cs \<longleftrightarrow>
     (\<forall>c w. cand_get dbg cs c = (Ok (Some w) :: (_, unit) outcome) \<longrightarrow> id_ok dbg c \<longrightarrow> padded (wc_raw w))"

definition engine_inv :: "bool \<Rightarrow> (u8 list \<Rightarrow> digest) \<Rightarrow> engine \<Rightarrow> bool" where
  "engine_inv dbg blake3 e \<longleftrightarrow>
     graph_arena_inv dbg blake3 (en_graphs e) \<and> cand_inv (\<lambda>_. 0) (en_candidates e) \<and>
     (\<exists>h. ga_by_hash (en_graphs e) h = Some (en_root e)) \<and> cands_padded dbg (en_candidates e) \<and>
     enum_cache_ok dbg blake3 e \<and> trans_cache_ok blake3 e"

lemma engine_invD:
  assumes "engine_inv dbg blake3 e"
  shows "graph_arena_inv dbg blake3 (en_graphs e)" "cand_inv (\<lambda>_. 0) (en_candidates e)"
    "\<exists>h. ga_by_hash (en_graphs e) h = Some (en_root e)" "cands_padded dbg (en_candidates e)"
    "enum_cache_ok dbg blake3 e" "trans_cache_ok blake3 e"
  using assms unfolding engine_inv_def by blast+

lemma engine_invI:
  assumes "graph_arena_inv dbg blake3 (en_graphs e)" "cand_inv (\<lambda>_. 0) (en_candidates e)"
    "\<exists>h. ga_by_hash (en_graphs e) h = Some (en_root e)" "cands_padded dbg (en_candidates e)"
    "enum_cache_ok dbg blake3 e" "trans_cache_ok blake3 e"
  shows "engine_inv dbg blake3 e"
  using assms unfolding engine_inv_def by blast

lemma body_hash_cong:
  "ga_engine_id a = ga_engine_id b \<Longrightarrow> ga_engine_version a = ga_engine_version b \<Longrightarrow> body_hash blake3 a = body_hash blake3 b"
  by (simp add: fun_eq_iff body_hash_def)

text \<open>The cache conditions depend on the caches, the configuration and what the live handles lead to.\<close>

definition same_frame :: "engine \<Rightarrow> engine \<Rightarrow> bool" where
  "same_frame e e' \<longleftrightarrow> en_config e' = en_config e \<and> en_action_set_hash e' = en_action_set_hash e \<and>
     ga_engine_id (en_graphs e') = ga_engine_id (en_graphs e) \<and>
     ga_engine_version (en_graphs e') = ga_engine_version (en_graphs e)"

text \<open>What an application keeps: the candidates, and the index of the graphs.\<close>

definition index_kept :: "engine \<Rightarrow> engine \<Rightarrow> bool" where
  "index_kept e e' \<longleftrightarrow> same_frame e e' \<and> en_root e' = en_root e \<and> en_candidates e' = en_candidates e \<and>
     (\<forall>k d. ga_by_hash (en_graphs e) k = Some d \<longrightarrow> ga_by_hash (en_graphs e') k = Some d)"

lemma enum_of_frame: "same_frame e e' \<Longrightarrow> enum_of blake3 e' = enum_of blake3 e"
  using body_hash_cong [of "en_graphs e'" "en_graphs e" blake3] by (simp add: same_frame_def enum_of_def fun_eq_iff)

lemma enum_cache_frame:
  assumes frame: "same_frame e e'" and old: "enum_cache_ok dbg blake3 e"
    and sub: "\<And>h s cached. wca_candidates (en_caches e') (h, s) = Some cached \<Longrightarrow>
      wca_candidates (en_caches e) (h, s) = Some cached \<and>
      (\<forall>c \<in> set (cc_ids cached). \<forall>w. id_ok dbg c \<longrightarrow> wc_graph_hash w = h \<longrightarrow>
         cand_get dbg (en_candidates e) c = (Ok (Some w) :: (_, unit) outcome) \<longrightarrow>
         cand_get dbg (en_candidates e') c = (Ok (Some w) :: (_, unit) outcome))"
  shows "enum_cache_ok dbg blake3 e'"
  unfolding enum_cache_ok_def enum_of_frame [OF frame]
proof (intro allI impI)
  fix h s cached
  assume "wca_candidates (en_caches e') (h, s) = Some cached"
  note sub = sub [OF this]
  then have "s = en_action_set_hash e \<and> distinct (cc_ids cached) \<and> (\<forall>c \<in> set (cc_ids cached). id_ok dbg c) \<and>
      (\<exists>raws. ids_name dbg (en_candidates e) h (cc_ids cached) raws \<and> enum_of blake3 e h (cc_truncated cached) raws)"
    using old unfolding enum_cache_ok_def by blast
  then obtain raws where s: "s = en_action_set_hash e" "distinct (cc_ids cached)" "\<forall>c \<in> set (cc_ids cached). id_ok dbg c"
    and names: "ids_name dbg (en_candidates e) h (cc_ids cached) raws" and enum: "enum_of blake3 e h (cc_truncated cached) raws"
    by blast
  have "ids_name dbg (en_candidates e') h (cc_ids cached) raws"
    using names sub s(3) by (simp add: ids_name_def)
  with s enum show "s = en_action_set_hash e' \<and> distinct (cc_ids cached) \<and> (\<forall>c \<in> set (cc_ids cached). id_ok dbg c) \<and>
      (\<exists>raws. ids_name dbg (en_candidates e') h (cc_ids cached) raws \<and> enum_of blake3 e h (cc_truncated cached) raws)"
    using frame by (auto simp: same_frame_def)
qed

lemma trans_cache_frame:
  assumes frame: "same_frame e e'" and old: "trans_cache_ok blake3 e"
    and sub: "\<And>h inner. wca_transitions (en_caches e') h = Some inner \<Longrightarrow> wca_transitions (en_caches e) h = Some inner"
  shows "trans_cache_ok blake3 e'"
proof -
  have eq: "body_hash blake3 (en_graphs e') = body_hash blake3 (en_graphs e)" "en_action_set_hash e' = en_action_set_hash e"
    using frame by (auto simp: same_frame_def intro: body_hash_cong)
  show ?thesis
    unfolding trans_cache_ok_def eq using old [unfolded trans_cache_ok_def] sub by blast
qed

lemma graph_get_any:
  "graph_get dbg a gid = (Ok (Some g) :: (_, 'e) outcome) \<Longrightarrow> graph_get dbg a gid = (Ok (Some g) :: (_, 'f) outcome)"
  by (auto simp: graph_get_def split: option.splits if_splits)

lemma engine_graph_eq:
  "graph_get dbg (en_graphs e) gid = (Ok (Some g) :: (_, unit) outcome) \<Longrightarrow> engine_graph dbg e gid = Ok g"
proof -
  assume "graph_get dbg (en_graphs e) gid = (Ok (Some g) :: (_, unit) outcome)"
  then have "graph_get dbg (en_graphs e) gid = (Ok (Some g) :: (_, engine_error) outcome)" by (rule graph_get_any)
  then show ?thesis by (simp add: engine_graph_def)
qed

lemma cand_get_any:
  "cand_get dbg a c = (Ok (Some w) :: (_, 'e) outcome) \<Longrightarrow> cand_get dbg a c = (Ok (Some w) :: (_, 'f) outcome)"
  by (auto simp: cand_get_def split: option.splits if_splits)

lemma engine_hash_eq:
  "graph_get dbg (en_graphs e) gid = (Ok (Some g) :: (_, unit) outcome) \<Longrightarrow> engine_hash dbg e gid = Ok (wg_hash g)"
  by (simp add: engine_hash_def engine_graph_eq)

lemma live_graph:
  assumes "graph_arena_inv dbg blake3 a" "graph_get dbg a gid = (Ok (Some g) :: (_, unit) outcome)"
  shows "valid_graph (wg_body g)" "wg_hash g = body_hash blake3 a (wg_body g)"
  using graph_arena_invD(6) [OF assms(1) nth_mem graph_get_conv(3) [OF assms(2)]] graph_get_conv(2) [OF assms(2)]
  by (simp_all add: compact_form_def)

section \<open>Enumeration is independent of the cache\<close>

lemma retain_all:
  assumes "cand_inv (\<lambda>_. 0) (en_candidates e)" "distinct ids"
    and "\<forall>c \<in> set ids. id_ok dbg c \<and> (\<exists>l. names dbg (en_candidates e) c l) \<and> cand_refs dbg (en_candidates e) c < refs_max"
  shows "\<exists>cs. for_each (retain_candidate dbg) ids e = (e \<lparr> en_candidates := cs \<rparr>, Ok ()) \<and> cand_inv (\<lambda>_. 0) cs \<and>
    (\<forall>d. cand_get dbg cs d = (cand_get dbg (en_candidates e) d :: (_, unit) outcome)) \<and>
    (\<forall>c. cand_refs dbg cs c = cand_refs dbg (en_candidates e) c + count_list ids c) \<and>
    length (ca_handles cs) = length (ca_handles (en_candidates e))"
  using assms
proof (induction ids arbitrary: e)
  case Nil
  then show ?case by (intro exI [of _ "en_candidates e"]) simp
next
  case (Cons c ids)
  let ?cs = "en_candidates e"
  obtain l where l: "names dbg ?cs c l" "id_ok dbg c" "cand_refs dbg ?cs c < refs_max" using Cons.prems(3) by auto
  obtain b where b: "cand_retain dbg c ?cs = (b, Ok ())" "cand_inv (\<lambda>_. 0) b"
    "length (ca_handles b) = length (ca_handles ?cs)" "cand_refs dbg b = (cand_refs dbg ?cs)(c := Suc (cand_refs dbg ?cs c))"
    using cand_retain_spec [OF Cons.prems(1) l] by metis
  have same: "cand_get dbg b d = (cand_get dbg ?cs d :: (_, unit) outcome)" for d by (rule cand_retain_get [OF b(1)])
  have "\<exists>l. names dbg b d l" if "\<exists>l. names dbg ?cs d l" for d
    using that cand_get_Some_iff [OF Cons.prems(1), of dbg d] cand_get_Some_iff [OF b(2), of dbg d] same by metis
  then have "\<forall>d \<in> set ids. id_ok dbg d \<and> (\<exists>l. names dbg b d l) \<and> cand_refs dbg b d < refs_max"
    using Cons.prems(2,3) b(4) by auto
  with Cons.IH [of "e \<lparr> en_candidates := b \<rparr>"] b(2) Cons.prems(2)
  obtain cs where cs: "for_each (retain_candidate dbg) ids (e \<lparr> en_candidates := b \<rparr>) = (e \<lparr> en_candidates := cs \<rparr>, Ok ())"
    "cand_inv (\<lambda>_. 0) cs" "\<And>d. cand_get dbg cs d = (cand_get dbg b d :: (_, unit) outcome)"
    "\<And>c. cand_refs dbg cs c = cand_refs dbg b c + count_list ids c" "length (ca_handles cs) = length (ca_handles b)"
    by auto
  have "for_each (retain_candidate dbg) (c # ids) e = (e \<lparr> en_candidates := cs \<rparr>, Ok ())"
    using b(1) cs(1) by (simp add: retain_candidate_def on_part_def)
  moreover have "cand_refs dbg cs d = cand_refs dbg ?cs d + count_list (c # ids) d" for d
    using cs(4) [of d] b(4) by simp
  ultimately show ?case using cs(2,3,5) b(3) same by auto
qed

lemma make_candidate_padded:
  assumes "length re < MAX_MATCHED"
  shows "padded (make_candidate ru ro re)"
proof -
  have "length re + 1 < 2 ^ 8" using assms by (simp add: MAX_MATCHED_def)
  then have "unat (of_nat (length re + 1) :: u8) = length re + 1"
    by (simp only: unat_of_nat) (simp add: take_bit_nat_eq_self)
  then show ?thesis using assms by (simp add: padded_def make_candidate_def)
qed

lemma enumerate_padded:
  assumes g: "valid_graph g" and all: "enumerate_graph g inc = Ok all"
  shows "\<forall>raw \<in> set all. padded raw" "distinct all" "enumerate_graph_limited g inc limit = Ok (limited limit all)"
proof -
  obtain cs where cs: "enumerate_graph g inc = Ok cs" "distinct cs"
    "set cs = {make_candidate ru ro re | ru ro re. rule_match g ru ro re \<and>
       (inc \<or> \<not> reverse_constant_folding_rule ru) \<and>
       int (length (g_op g)) + replacement_extra_nodes ru \<le> int (unat (g_capacity g))}"
    "\<forall>k. enumerate_graph_limited g inc (Some k) = Ok (take k cs)"
    by (rule enumerate_spec [OF g, of inc])
  then have [simp]: "cs = all" using all by simp
  show "\<forall>raw \<in> set all. padded raw"
    using cs(3) rule_match_length make_candidate_padded by fastforce
  show "distinct all" using cs(2) by simp
  show "enumerate_graph_limited g inc limit = Ok (limited limit all)"
    using cs(1,4) by (cases limit) (simp_all add: limited_def enumerate_graph_def)
qed

lemma cand_refs_id_ok: "cand_refs dbg a c \<noteq> 0 \<Longrightarrow> id_ok dbg c"
proof -
  assume "cand_refs dbg a c \<noteq> 0"
  then obtain slot where "get (ca_handles a) (unat (sid_index c)) = Some slot"
    and c: "c = id_from_slot dbg (sid_index c) (cs_generation slot)"
    by (force simp: cand_refs_def split: option.splits if_splits)
  have "sid_generation c = (if dbg then cs_generation slot else 0)"
    using arg_cong [OF c, of sid_generation] by (simp add: id_from_slot_def)
  then show "id_ok dbg c" by (simp add: id_ok_def)
qed

lemma limited_take: "limited limit xs = take (length (limited limit xs)) xs"
  by (cases limit) (simp_all add: limited_def min_def)

text \<open>What a batch insertion does to the handles, for the enumeration of a live graph.\<close>

lemma insert_batch_ids:
  assumes inv: "cand_inv (\<lambda>_. 0) cs" and ins: "cand_insert_batch dbg h raws cs = (cs', Ok ids)" "cand_inv (\<lambda>_. 0) cs'"
    and names: "ids_name dbg cs' h ids raws" and raws: "distinct raws" "\<forall>raw \<in> set raws. padded raw"
    and kept: "\<And>c w. cand_get dbg cs c = (Ok (Some w) :: (_, unit) outcome) \<Longrightarrow> cand_get dbg cs' c = (Ok (Some w) :: (_, unit) outcome)"
    and refs: "\<And>c. cand_refs dbg cs' c = cand_refs dbg cs c + count_list ids c"
  shows "distinct ids" "\<forall>c \<in> set ids. id_ok dbg c" "cands_padded dbg cs \<Longrightarrow> cands_padded dbg cs'"
proof -
  have get: "cand_get dbg cs' (ids ! j) = (Ok (Some \<lparr> wc_graph_hash = h, wc_raw = raws ! j \<rparr>) :: (_, unit) outcome)"
    if "j < length ids" for j using names that by (simp add: ids_name_def)
  have len: "length ids = length raws" using names by (simp add: ids_name_def)
  show "distinct ids"
    unfolding distinct_conv_nth
  proof (intro allI impI)
    fix i j assume ij: "i < length ids" "j < length ids" "i \<noteq> j"
    then have "raws ! i \<noteq> raws ! j" using raws(1) len by (simp add: nth_eq_iff_index_eq)
    then show "ids ! i \<noteq> ids ! j" using get [OF ij(1)] get [OF ij(2)] by auto
  qed
  show "\<forall>c \<in> set ids. id_ok dbg c"
  proof
    fix c assume "c \<in> set ids"
    then have "count_list ids c \<noteq> 0" by (simp add: count_list_0_iff)
    then show "id_ok dbg c" using refs [of c] by (intro cand_refs_id_ok [of dbg cs']) simp
  qed
  assume old: "cands_padded dbg cs"
  show "cands_padded dbg cs'"
    unfolding cands_padded_def
  proof (intro allI impI)
    fix c w assume w: "cand_get dbg cs' c = (Ok (Some w) :: (_, unit) outcome)" and ok: "id_ok dbg c"
    show "padded (wc_raw w)"
    proof (cases "c \<in> set ids")
      case True
      then obtain j where "j < length ids" "c = ids ! j" by (auto simp: in_set_conv_nth)
      then show ?thesis using get [of j] w raws(2) len by auto
    next
      case False
      then have "cand_refs dbg cs c = cand_refs dbg cs' c" using refs [of c] by (simp add: count_list_0_iff)
      moreover have "cand_refs dbg cs' c \<noteq> 0"
        using names_iff [OF ins(2) ok] cand_get_Some_iff [OF ins(2), of dbg c] w by blast
      ultimately have "\<exists>w'. cand_get dbg cs c = (Ok (Some w') :: (_, unit) outcome)"
        using names_iff [OF inv ok] cand_get_Some_iff [OF inv, of dbg c] by simp
      then show ?thesis using kept w old ok unfolding cands_padded_def by (metis option.inject outcome.inject(1))
    qed
  qed
qed

lemma enumerate_fresh_spec:
  assumes inj: "inj blake3" and inv: "engine_inv dbg blake3 e"
    and g: "graph_get dbg (en_graphs e) gid = (Ok (Some g) :: (_, unit) outcome)"
    and all: "enumerate_graph (wg_body g) (ec_include_reverse (en_config e)) = Ok all"
    and room: "length (ca_handles (en_candidates e)) + length all < SLOTS"
  shows "\<exists>e' ids. enumerate_fresh dbg (wg_hash g) gid limit e = (e', Ok ids) \<and> engine_inv dbg blake3 e' \<and>
    ids_name dbg (en_candidates e') (wg_hash g) ids (limited limit all) \<and> en_graphs e' = en_graphs e \<and>
    (\<forall>c. cand_refs dbg (en_candidates e') c = cand_refs dbg (en_candidates e) c + count_list ids c)"
proof -
  let ?cs = "en_candidates e" and ?raws = "limited limit all" and ?h = "wg_hash g"
  note live = live_graph [OF engine_invD(1) [OF inv] g]
  note enum = enumerate_padded [OF live(1) all]
  have raws: "distinct ?raws" "\<forall>raw \<in> set ?raws. padded raw"
    using enum(1,2) by (cases limit; auto simp: limited_def dest: in_set_takeD)+
  have len: "length ?raws \<le> length all" by (cases limit) (simp_all add: limited_def)
  obtain cs ids where ins: "cand_insert_batch dbg ?h ?raws ?cs = (cs, Ok ids)" "cand_inv (\<lambda>_. 0) cs" "length ids = length ?raws"
    "\<And>j. j < length ?raws \<Longrightarrow> cand_get dbg cs (ids ! j) = (Ok (Some \<lparr> wc_graph_hash = ?h, wc_raw = ?raws ! j \<rparr>) :: (_, unit) outcome)"
    "\<And>c w. cand_get dbg ?cs c = (Ok (Some w) :: (_, unit) outcome) \<Longrightarrow> cand_get dbg cs c = (Ok (Some w) :: (_, unit) outcome)"
    "\<And>c. cand_refs dbg cs c = cand_refs dbg ?cs c + count_list ids c"
    by (rule cand_insert_batch_spec [OF engine_invD(2) [OF inv], of ?raws dbg ?h])
      (use room len in \<open>simp_all add: that\<close>)
  have names: "ids_name dbg cs ?h ids ?raws" using ins(3,4) by (simp add: ids_name_def)
  note ids = insert_batch_ids [OF engine_invD(2) [OF inv] ins(1,2) names raws ins(5,6)]
  let ?trunc = "case limit of None \<Rightarrow> False | Some l \<Rightarrow> length ?raws = l"
  let ?e = "e \<lparr> en_candidates := cs \<rparr>"
  let ?e' = "if ec_cache_candidates (en_config e) then ?e \<lparr> en_caches := en_caches e \<lparr> wca_candidates :=
      (wca_candidates (en_caches e))((?h, en_action_set_hash e) \<mapsto> \<lparr> cc_ids = ids, cc_truncated = ?trunc \<rparr>) \<rparr> \<rparr> else ?e"
  have frame: "same_frame e ?e" "same_frame e ?e'" by (simp_all add: same_frame_def)
  have run: "enumerate_fresh dbg ?h gid limit e = (?e', Ok ids)"
    using engine_graph_eq [OF g] enum(3) ins(1) by (simp add: enumerate_fresh_def on_part_def Let_def)
  have mine: "enum_of blake3 e ?h ?trunc ?raws"
    unfolding enum_of_def
  proof (intro allI impI)
    fix body assume body: "valid_graph body" "body_hash blake3 (en_graphs e) body = ?h"
    then have "body = wg_body g" using body_hash_inj [OF inj body(1) live(1)] live(2) by simp
    moreover have "?trunc \<or> ?raws = all" by (cases limit) (auto simp: limited_def min_def)
    ultimately show "\<exists>all. enumerate_graph body (ec_include_reverse (en_config e)) = Ok all \<and>
        ?raws = take (length ?raws) all \<and> (?trunc \<or> ?raws = all)"
      using all limited_take by blast
  qed
  have old: "enum_cache_ok dbg blake3 ?e"
    by (rule enum_cache_frame [OF frame(1) engine_invD(5) [OF inv]]) (use ins(5) in simp)
  have cache: "enum_cache_ok dbg blake3 ?e'"
  proof (cases "ec_cache_candidates (en_config e)")
    case True
    show ?thesis
      unfolding enum_cache_ok_def enum_of_frame [OF frame(2)]
    proof (intro allI impI)
      fix h s cached assume c: "wca_candidates (en_caches ?e') (h, s) = Some cached"
      show "s = en_action_set_hash ?e' \<and> distinct (cc_ids cached) \<and> (\<forall>c \<in> set (cc_ids cached). id_ok dbg c) \<and>
        (\<exists>raws. ids_name dbg (en_candidates ?e') h (cc_ids cached) raws \<and> enum_of blake3 e h (cc_truncated cached) raws)"
      proof (cases "(h, s) = (?h, en_action_set_hash e)")
        case True
        then have "cached = \<lparr> cc_ids = ids, cc_truncated = ?trunc \<rparr>" using c \<open>ec_cache_candidates _\<close> by simp
        then show ?thesis using True ids(1,2) names mine by auto
      next
        case False
        then have "wca_candidates (en_caches ?e) (h, s) = Some cached" using c \<open>ec_cache_candidates _\<close> by auto
        with old show ?thesis unfolding enum_cache_ok_def enum_of_frame [OF frame(1)] by simp
      qed
    qed
  qed (use old in simp)
  have "engine_inv dbg blake3 ?e'"
  proof (rule engine_invI)
    show "graph_arena_inv dbg blake3 (en_graphs ?e')" using engine_invD(1) [OF inv] by simp
    show "cand_inv (\<lambda>_. 0) (en_candidates ?e')" using ins(2) by simp
    show "\<exists>h. ga_by_hash (en_graphs ?e') h = Some (en_root ?e')" using engine_invD(3) [OF inv] by simp
    show "cands_padded dbg (en_candidates ?e')" using ids(3) engine_invD(4) [OF inv] by simp
    show "enum_cache_ok dbg blake3 ?e'" by (rule cache)
    show "trans_cache_ok blake3 ?e'" by (rule trans_cache_frame [OF frame(2) engine_invD(6) [OF inv]]) (simp split: if_splits)
  qed
  with run names ins(6) show ?thesis by (intro exI [of _ ?e'] exI [of _ ids]) simp
qed

lemma cached_take:
  assumes "cache_usable cached limit" "length (cc_ids cached) = length raws"
    and "raws = take (length raws) all" "cc_truncated cached \<or> raws = all"
  shows "limited limit raws = limited limit all"
    "(case limit of None \<Rightarrow> cc_ids cached | Some l \<Rightarrow> take (min l (length (cc_ids cached))) (cc_ids cached)) =
       limited limit (cc_ids cached)"
proof -
  show "limited limit raws = limited limit all"
  proof (cases "raws = all")
    case False
    then obtain l where l: "limit = Some l" "l \<le> length raws"
      using assms(1,2,4) by (auto simp: cache_usable_def split: option.splits)
    then have "take l raws = take l (take (length raws) all)" using assms(3) by simp
    also have "\<dots> = take l all" using l(2) by (simp add: min_def)
    finally show ?thesis by (simp add: limited_def l(1))
  qed simp
  show "(case limit of None \<Rightarrow> cc_ids cached | Some l \<Rightarrow> take (min l (length (cc_ids cached))) (cc_ids cached)) =
       limited limit (cc_ids cached)"
    by (cases limit) (simp_all add: limited_def min_def)
qed

lemma ids_name_limited: "ids_name dbg cs h ids raws \<Longrightarrow> ids_name dbg cs h (limited limit ids) (limited limit raws)"
  by (cases limit) (auto simp: ids_name_def limited_def)

lemma ids_name_names:
  assumes "cand_inv pending cs" "ids_name dbg cs h ids raws" "c \<in> set ids"
  shows "\<exists>l. names dbg cs c l"
proof -
  from assms(3) obtain j where "j < length ids" "c = ids ! j" by (auto simp: in_set_conv_nth)
  with assms(2) have "\<exists>w. cand_get dbg cs c = (Ok (Some w) :: (_, unit) outcome)" by (auto simp: ids_name_def)
  then show ?thesis using cand_get_Some_iff [OF assms(1)] by blast
qed

lemma enumerate_cached_spec:
  assumes inv: "engine_inv dbg blake3 e"
    and g: "graph_get dbg (en_graphs e) gid = (Ok (Some g) :: (_, unit) outcome)"
    and all: "enumerate_graph (wg_body g) (ec_include_reverse (en_config e)) = Ok all"
    and cached: "wca_candidates (en_caches e) (wg_hash g, en_action_set_hash e) = Some cached" "cache_usable cached limit"
    and few: "\<forall>c. cand_refs dbg (en_candidates e) c < refs_max"
  shows "\<exists>cs. for_each (retain_candidate dbg) (limited limit (cc_ids cached)) e = (e \<lparr> en_candidates := cs \<rparr>, Ok ()) \<and>
    engine_inv dbg blake3 (e \<lparr> en_candidates := cs \<rparr>) \<and>
    (case limit of None \<Rightarrow> cc_ids cached | Some l \<Rightarrow> take (min l (length (cc_ids cached))) (cc_ids cached)) =
       limited limit (cc_ids cached) \<and>
    ids_name dbg cs (wg_hash g) (limited limit (cc_ids cached)) (limited limit all) \<and>
    (\<forall>c. cand_refs dbg cs c = cand_refs dbg (en_candidates e) c + count_list (limited limit (cc_ids cached)) c)"
proof -
  let ?cs = "en_candidates e" and ?ids = "limited limit (cc_ids cached)"
  note live = live_graph [OF engine_invD(1) [OF inv] g]
  have "distinct (cc_ids cached) \<and> (\<forall>c \<in> set (cc_ids cached). id_ok dbg c) \<and>
      (\<exists>raws. ids_name dbg ?cs (wg_hash g) (cc_ids cached) raws \<and> enum_of blake3 e (wg_hash g) (cc_truncated cached) raws)"
    using engine_invD(5) [OF inv] cached(1) unfolding enum_cache_ok_def by blast
  then obtain raws where ids: "distinct (cc_ids cached)" "\<forall>c \<in> set (cc_ids cached). id_ok dbg c"
    and names: "ids_name dbg ?cs (wg_hash g) (cc_ids cached) raws" and enum: "enum_of blake3 e (wg_hash g) (cc_truncated cached) raws"
    by blast
  have "raws = take (length raws) all \<and> (cc_truncated cached \<or> raws = all)"
    using enum live all unfolding enum_of_def by auto
  moreover have "length (cc_ids cached) = length raws" using names by (simp add: ids_name_def)
  ultimately have lim: "limited limit raws = limited limit all"
    "(case limit of None \<Rightarrow> cc_ids cached | Some l \<Rightarrow> take (min l (length (cc_ids cached))) (cc_ids cached)) = ?ids"
    using cached_take [OF cached(2)] by blast+
  have sub: "set ?ids \<subseteq> set (cc_ids cached)" "distinct ?ids"
    using ids(1) by (cases limit; auto simp: limited_def dest: in_set_takeD)+
  have "\<forall>c \<in> set ?ids. id_ok dbg c \<and> (\<exists>l. names dbg ?cs c l) \<and> cand_refs dbg ?cs c < refs_max"
    using sub(1) ids(2) few ids_name_names [OF engine_invD(2) [OF inv] names] by blast
  with retain_all [OF engine_invD(2) [OF inv] sub(2)] obtain cs where
    cs: "for_each (retain_candidate dbg) ?ids e = (e \<lparr> en_candidates := cs \<rparr>, Ok ())" "cand_inv (\<lambda>_. 0) cs"
    "\<And>d. cand_get dbg cs d = (cand_get dbg ?cs d :: (_, unit) outcome)"
    "\<And>c. cand_refs dbg cs c = cand_refs dbg ?cs c + count_list ?ids c" by blast
  have "ids_name dbg cs (wg_hash g) ?ids (limited limit all)"
    using ids_name_limited [OF names, of limit] lim(1) cs(3) by (simp add: ids_name_def)
  moreover have "engine_inv dbg blake3 (e \<lparr> en_candidates := cs \<rparr>)" (is "engine_inv _ _ ?e")
  proof (rule engine_invI)
    have frame: "same_frame e ?e" by (simp add: same_frame_def)
    show "graph_arena_inv dbg blake3 (en_graphs ?e)" "cand_inv (\<lambda>_. 0) (en_candidates ?e)"
      "\<exists>h. ga_by_hash (en_graphs ?e) h = Some (en_root ?e)" "cands_padded dbg (en_candidates ?e)"
      using engine_invD(1,3,4) [OF inv] cs(2,3) by (simp_all add: cands_padded_def)
    show "enum_cache_ok dbg blake3 ?e" by (rule enum_cache_frame [OF frame engine_invD(5) [OF inv]]) (simp add: cs(3))
    show "trans_cache_ok blake3 ?e" by (rule trans_cache_frame [OF frame engine_invD(6) [OF inv]]) simp
  qed
  ultimately show ?thesis using cs(1,4) lim(2) by blast
qed

lemma engine_enumerate_spec:
  assumes inj: "inj blake3" and inv: "engine_inv dbg blake3 e"
    and g: "graph_get dbg (en_graphs e) gid = (Ok (Some g) :: (_, unit) outcome)"
    and all: "enumerate_graph (wg_body g) (ec_include_reverse (en_config e)) = Ok all"
    and room: "length (ca_handles (en_candidates e)) + length all < SLOTS"
    and few: "\<forall>c. cand_refs dbg (en_candidates e) c < refs_max"
  shows "\<exists>e' ids. enumerate_candidate_ids dbg gid limit e = (e', Ok ids) \<and> engine_inv dbg blake3 e' \<and>
    ids_name dbg (en_candidates e') (wg_hash g) ids (limited limit all) \<and> en_graphs e' = en_graphs e \<and>
    (\<forall>c. cand_refs dbg (en_candidates e') c = cand_refs dbg (en_candidates e) c + count_list ids c)"
proof -
  note hash = engine_hash_eq [OF g]
  note fresh = enumerate_fresh_spec [OF inj inv g all room, of limit]
  show ?thesis
  proof (cases "if ec_cache_candidates (en_config e)
      then wca_candidates (en_caches e) (wg_hash g, en_action_set_hash e) else None")
    case None
    then show ?thesis using fresh hash by (simp add: enumerate_candidate_ids_def)
  next
    case (Some cached)
    then have c: "wca_candidates (en_caches e) (wg_hash g, en_action_set_hash e) = Some cached" by (simp split: if_splits)
    show ?thesis
    proof (cases "cache_usable cached limit")
      case True
      obtain cs where "for_each (retain_candidate dbg) (limited limit (cc_ids cached)) e = (e \<lparr> en_candidates := cs \<rparr>, Ok ())"
        "engine_inv dbg blake3 (e \<lparr> en_candidates := cs \<rparr>)"
        "(case limit of None \<Rightarrow> cc_ids cached | Some l \<Rightarrow> take (min l (length (cc_ids cached))) (cc_ids cached)) =
           limited limit (cc_ids cached)"
        "ids_name dbg cs (wg_hash g) (limited limit (cc_ids cached)) (limited limit all)"
        "\<forall>c. cand_refs dbg cs c = cand_refs dbg (en_candidates e) c + count_list (limited limit (cc_ids cached)) c"
        using enumerate_cached_spec [OF inv g all c True few] by blast
      then show ?thesis using Some True hash by (simp add: enumerate_candidate_ids_def Let_def)
    next
      case False
      then show ?thesis using fresh hash Some by (simp add: enumerate_candidate_ids_def)
    qed
  qed
qed

section \<open>Application is independent of the cache\<close>

lemma apply_graph_compact:
  assumes "apply_graph g raw = Ok after"
  shows "compact_form after" "compact_graph after = Ok after"
proof -
  from assms obtain out where "compact_graph out = Ok after"
    by (auto simp: apply_graph_def split: if_splits prod.splits)
  then show "compact_form after" by (rule compact_result)
  then show "compact_graph after = Ok after" by (rule compact_form_fixpoint)
qed

lemma concat_u32_inj:
  "length xs = length ys \<Longrightarrow> concat (map u32_to_le xs) = concat (map u32_to_le ys) \<Longrightarrow> xs = ys"
  by (induction xs ys rule: list_induct2) (simp_all add: append_eq_append_conv)

lemma padded_fixed:
  assumes "padded raw"
  shows "candidate_fixed raw = Ok (u16_to_le (rc_rule raw) @ u32_to_le (rc_root raw) @
     rc_match_len raw # concat (map u32_to_le (take (unat (rc_match_len raw)) (rc_matched raw))))"
  using assms by (simp add: candidate_fixed_def matched_slice_def padded_def)

lemma candidate_fixed_inj:
  assumes "padded raw" "padded raw'" "candidate_fixed raw = (candidate_fixed raw' :: (_, unit) outcome)"
  shows "raw = raw'"
proof -
  let ?n = "unat (rc_match_len raw)"
  from assms(3) [unfolded padded_fixed [OF assms(1)] padded_fixed [OF assms(2)]]
  have eq: "rc_rule raw = rc_rule raw'" "rc_root raw = rc_root raw'" "rc_match_len raw = rc_match_len raw'"
    "concat (map u32_to_le (take ?n (rc_matched raw))) = concat (map u32_to_le (take ?n (rc_matched raw')))"
    by (auto simp: append_eq_append_conv)
  have "take ?n (rc_matched raw) = take ?n (rc_matched raw')"
    using assms(1,2) eq(3) by (intro concat_u32_inj eq(4)) (simp add: padded_def)
  moreover have "drop ?n (rc_matched raw) = drop ?n (rc_matched raw')"
    using assms(1,2) eq(3) by (simp add: padded_def)
  ultimately have "rc_matched raw = rc_matched raw'" by (metis append_take_drop_id)
  with eq show ?thesis by simp
qed

lemma candidate_hash_inj:
  assumes "inj blake3" "padded raw" "padded raw'"
    "candidate_hash blake3 h s raw = (Ok c :: (_, unit) outcome)" "candidate_hash blake3 h s raw' = (Ok c :: (_, unit) outcome)"
  shows "raw = raw'"
proof -
  obtain f f' where f: "candidate_fixed raw = (Ok f :: (_, unit) outcome)" "candidate_fixed raw' = (Ok f' :: (_, unit) outcome)"
    using padded_fixed [OF assms(2)] padded_fixed [OF assms(3)] by blast
  with assms(1,4,5) have "hash_chunk f = hash_chunk f'" by (auto simp: candidate_hash_def hash32_def inj_eq)
  then have "drop 8 (hash_chunk f) = drop 8 (hash_chunk f')" by simp
  then have "f = f'" by (simp add: hash_chunk_def)
  with f assms(2,3) show ?thesis by (intro candidate_fixed_inj) simp_all
qed

lemma padded_hash: "padded raw \<Longrightarrow> \<exists>c. candidate_hash blake3 h s raw = Ok c"
  by (simp add: candidate_hash_def padded_fixed)

lemma candidate_hash_any:
  "candidate_hash blake3 h s raw = (Ok c :: (_, unit) outcome) \<Longrightarrow> candidate_hash blake3 h s raw = Ok c"
  by (simp add: candidate_hash_def candidate_fixed_def matched_slice_def split: if_splits)

text \<open>A change of the graphs that keeps the root and the frame keeps the invariant.\<close>

lemma engine_inv_graphs:
  assumes inv: "engine_inv dbg blake3 e" and gs: "graph_arena_inv dbg blake3 gs"
    "ga_engine_id gs = ga_engine_id (en_graphs e)" "ga_engine_version gs = ga_engine_version (en_graphs e)"
    and root: "\<exists>h. ga_by_hash gs h = Some (en_root e)"
  shows "engine_inv dbg blake3 (e \<lparr> en_graphs := gs \<rparr>)" (is "engine_inv _ _ ?e")
proof (rule engine_invI)
  have frame: "same_frame e ?e" using gs(2,3) by (simp add: same_frame_def)
  show "graph_arena_inv dbg blake3 (en_graphs ?e)" "cand_inv (\<lambda>_. 0) (en_candidates ?e)"
    "\<exists>h. ga_by_hash (en_graphs ?e) h = Some (en_root ?e)" "cands_padded dbg (en_candidates ?e)"
    using engine_invD(2,4) [OF inv] gs(1) root by simp_all
  show "enum_cache_ok dbg blake3 ?e" by (rule enum_cache_frame [OF frame engine_invD(5) [OF inv]]) simp
  show "trans_cache_ok blake3 ?e" by (rule trans_cache_frame [OF frame engine_invD(6) [OF inv]]) simp
qed

lemma engine_inv_transition:
  assumes inj: "inj blake3" and inv: "engine_inv dbg blake3 e" and body: "valid_graph body" "h = body_hash blake3 (en_graphs e) body"
    and raw: "padded raw" "candidate_hash blake3 h (en_action_set_hash e) raw = (Ok chash :: (_, unit) outcome)"
    and after: "apply_graph body raw = Ok after"
    and inner: "inner = (case wca_transitions (en_caches e) h of None \<Rightarrow> Map.empty | Some inner \<Rightarrow> inner)"
  shows "engine_inv dbg blake3 (e \<lparr> en_caches := en_caches e \<lparr> wca_transitions := (wca_transitions (en_caches e))(h \<mapsto>
      inner(chash \<mapsto> body_hash blake3 (en_graphs e) after)) \<rparr> \<rparr>)" (is "engine_inv _ _ ?e")
proof (rule engine_invI)
  have frame: "same_frame e ?e" by (simp add: same_frame_def)
  show "graph_arena_inv dbg blake3 (en_graphs ?e)" "cand_inv (\<lambda>_. 0) (en_candidates ?e)"
    "\<exists>h. ga_by_hash (en_graphs ?e) h = Some (en_root ?e)" "cands_padded dbg (en_candidates ?e)"
    using engine_invD(1-4) [OF inv] by simp_all
  show "enum_cache_ok dbg blake3 ?e" by (rule enum_cache_frame [OF frame engine_invD(5) [OF inv]]) simp
  show "trans_cache_ok blake3 ?e"
    unfolding trans_cache_ok_def
  proof (intro allI impI)
    fix k m ch ah b r
    assume m: "wca_transitions (en_caches ?e) k = Some m" "m ch = Some ah"
      and b: "valid_graph b" "body_hash blake3 (en_graphs ?e) b = k" "padded r"
      and r: "candidate_hash blake3 k (en_action_set_hash ?e) r = (Ok ch :: (_, unit) outcome)"
    show "\<exists>after. apply_graph b r = Ok after \<and> ah = body_hash blake3 (en_graphs ?e) after"
    proof (cases "k = h \<and> ch = chash")
      case True
      then have "b = body" using body_hash_inj [OF inj b(1) body(1)] b(2) body(2) by simp
      moreover have "r = raw" using candidate_hash_inj [OF inj b(3) raw(1), of h "en_action_set_hash e" chash] r raw(2) True by simp
      ultimately show ?thesis using after m True by auto
    next
      case False
      have "\<exists>m'. wca_transitions (en_caches e) k = Some m' \<and> m' ch = Some ah"
      proof (cases "k = h")
        case True
        then have "inner ch = Some ah" using m False by auto
        then show ?thesis using True by (auto simp: inner split: option.splits)
      next
        case False
        then show ?thesis using m by auto
      qed
      then show ?thesis using engine_invD(6) [OF inv] b r unfolding trans_cache_ok_def by auto
    qed
  qed
qed

lemma apply_fresh_spec:
  assumes inj: "inj blake3" and inv: "engine_inv dbg blake3 e"
    and g: "graph_get dbg (en_graphs e) gid = (Ok (Some g) :: (_, unit) outcome)"
    and raw: "padded raw" "candidate_hash blake3 (wg_hash g) (en_action_set_hash e) raw = (Ok chash :: (_, unit) outcome)"
    and after: "apply_graph (wg_body g) raw = Ok after"
    and room: "length (ga_items (en_graphs e)) < SLOTS"
    and h: "h = body_hash blake3 (en_graphs e) after" and few: "graph_refs (en_graphs e) h < refs_max"
  shows "\<exists>e' new. apply_fresh dbg blake3 gid raw (wg_hash g) chash e = (e', Ok new) \<and> engine_inv dbg blake3 e' \<and>
    ga_by_hash (en_graphs e') h = Some new \<and> en_candidates e' = en_candidates e \<and> index_kept e e' \<and>
    graph_refs (en_graphs e') = (graph_refs (en_graphs e))(h := Suc (graph_refs (en_graphs e) h))"
proof -
  note live = live_graph [OF engine_invD(1) [OF inv] g]
  obtain gs new where ins: "graph_insert dbg blake3 after (en_graphs e) = (gs, Ok new)"
    "graph_arena_inv dbg blake3 gs" "ga_by_hash gs = (ga_by_hash (en_graphs e))(h \<mapsto> new)"
    "graph_refs gs = (graph_refs (en_graphs e))(h := Suc (graph_refs (en_graphs e) h))"
    "ga_engine_id gs = ga_engine_id (en_graphs e)" "ga_engine_version gs = ga_engine_version (en_graphs e)"
    "ga_by_hash (en_graphs e) h = None \<or> ga_by_hash (en_graphs e) h = Some new"
    using graph_insert_spec [OF engine_invD(1) [OF inv] room apply_graph_compact(2) [OF after] h few] by metis
  let ?e = "e \<lparr> en_graphs := gs \<rparr>"
  have "\<exists>k. ga_by_hash gs k = Some (en_root e)"
  proof -
    obtain k where "ga_by_hash (en_graphs e) k = Some (en_root e)" using engine_invD(3) [OF inv] by blast
    then have "ga_by_hash gs k = Some (en_root e)" using ins(3,7) by auto
    then show ?thesis by blast
  qed
  then have inv': "engine_inv dbg blake3 ?e" by (rule engine_inv_graphs [OF inv ins(2,5,6)])
  have hash: "body_hash blake3 gs = body_hash blake3 (en_graphs e)" using ins(5,6) by (rule body_hash_cong)
  have byh: "ga_by_hash gs h = Some new" using ins(3) by simp
  obtain f where f: "graph_get dbg gs new = (Ok (Some f) :: (_, unit) outcome)" "wg_hash f = h"
    by (rule graph_arena_lookup [OF ins(2) byh])
  let ?e' = "if ec_cache_transitions (en_config e) then
      ?e \<lparr> en_caches := en_caches ?e \<lparr> wca_transitions := (wca_transitions (en_caches ?e))(wg_hash g \<mapsto>
        (case wca_transitions (en_caches ?e) (wg_hash g) of None \<Rightarrow> Map.empty | Some inner \<Rightarrow> inner)
          (chash \<mapsto> body_hash blake3 (en_graphs ?e) after)) \<rparr> \<rparr> else ?e"
  have "engine_hash dbg ?e new = Ok h" using engine_hash_eq [of dbg ?e new f] f by simp
  then have "apply_fresh dbg blake3 gid raw (wg_hash g) chash e = (?e', Ok new)"
    using engine_graph_eq [OF g] after ins(1) h hash by (simp add: apply_fresh_def on_part_def)
  moreover have "engine_inv dbg blake3 ?e'"
  proof (cases "ec_cache_transitions (en_config e)")
    case True
    have "engine_inv dbg blake3 (?e \<lparr> en_caches := en_caches ?e \<lparr> wca_transitions := (wca_transitions (en_caches ?e))(wg_hash g \<mapsto>
        (case wca_transitions (en_caches ?e) (wg_hash g) of None \<Rightarrow> Map.empty | Some inner \<Rightarrow> inner)
          (chash \<mapsto> body_hash blake3 (en_graphs ?e) after)) \<rparr> \<rparr>)"
      by (rule engine_inv_transition [OF inj inv' live(1) _ raw(1) _ after refl]) (use live(2) raw(2) hash in simp_all)
    with True show ?thesis by simp
  qed (use inv' in simp)
  ultimately show ?thesis
    using byh ins(3-7) by (intro exI [of _ ?e'] exI [of _ new]) (auto simp: same_frame_def index_kept_def)
qed

lemma engine_candidate_eq:
  "cand_get dbg (en_candidates e) c = (Ok (Some w) :: (_, unit) outcome) \<Longrightarrow> engine_candidate dbg e c = Ok w"
proof -
  assume "cand_get dbg (en_candidates e) c = (Ok (Some w) :: (_, unit) outcome)"
  then have "cand_get dbg (en_candidates e) c = (Ok (Some w) :: (_, engine_error) outcome)" by (rule cand_get_any)
  then show ?thesis by (simp add: engine_candidate_def)
qed

text \<open>The transition an engine finds in its cache, if it uses one.\<close>

definition cached_transition :: "engine \<Rightarrow> digest \<Rightarrow> digest \<Rightarrow> digest option" where
  "cached_transition e h chash =
     (if ec_cache_transitions (en_config e)
      then (case wca_transitions (en_caches e) h of None \<Rightarrow> None | Some inner \<Rightarrow> inner chash) else None)"

lemma cached_transition_sound:
  assumes inv: "engine_inv dbg blake3 e" and body: "valid_graph body" "body_hash blake3 (en_graphs e) body = h"
    and raw: "padded raw" "candidate_hash blake3 h (en_action_set_hash e) raw = (Ok chash :: (_, unit) outcome)"
    and cached: "cached_transition e h chash = Some ah"
  shows "\<exists>after. apply_graph body raw = Ok after \<and> ah = body_hash blake3 (en_graphs e) after"
proof -
  obtain inner where "wca_transitions (en_caches e) h = Some inner" "inner chash = Some ah"
    using cached by (auto simp: cached_transition_def split: if_splits option.splits)
  then show ?thesis using engine_invD(6) [OF inv] body raw unfolding trans_cache_ok_def by blast
qed

text \<open>The engine's result once the graph to rewrite and the candidate are found, and match.\<close>

lemma engine_apply_unfold:
  assumes g: "graph_get dbg (en_graphs e) gid = (Ok (Some g) :: (_, unit) outcome)"
    and w: "cand_get dbg (en_candidates e) cid = (Ok (Some \<lparr> wc_graph_hash = wg_hash g, wc_raw = raw \<rparr>) :: (_, unit) outcome)"
    and c: "candidate_hash blake3 (wg_hash g) (en_action_set_hash e) raw = (Ok chash :: (_, unit) outcome)"
  shows "engine_apply dbg blake3 gid cid e =
    sbind (case cached_transition e (wg_hash g) chash of
        Some after_hash \<Rightarrow> on_part en_graphs (\<lambda>gs e. e \<lparr> en_graphs := gs \<rparr>) (\<lambda>x. x) (graph_retain_hash after_hash) e
      | None \<Rightarrow> (e, Ok None)) (\<lambda>found e.
    sbind (case found of Some after \<Rightarrow> (e, Ok after)
      | None \<Rightarrow> apply_fresh dbg blake3 gid raw (wg_hash g) chash e) (\<lambda>after e.
    sbind (slift (engine_hash dbg e after) e) (\<lambda>after_hash e.
      (e, Ok \<lparr> ar_before = gid, ar_after = after, ar_before_hash = wg_hash g, ar_after_hash = after_hash,
               ar_candidate = cid, ar_candidate_hash = chash, ar_changed = (wg_hash g \<noteq> after_hash) \<rparr>))))"
proof -
  have "candidate_hash blake3 (wg_hash g) (en_action_set_hash e) raw = (Ok chash :: (_, engine_error) outcome)"
    using c by (rule candidate_hash_any)
  then show ?thesis
    using engine_hash_eq [OF g] engine_candidate_eq [OF w]
    by (simp add: engine_apply_def cached_transition_def Let_def cong: option.case_cong)
qed

lemma engine_apply_spec:
  assumes inj: "inj blake3" and inv: "engine_inv dbg blake3 e"
    and g: "graph_get dbg (en_graphs e) gid = (Ok (Some g) :: (_, unit) outcome)"
    and w: "cand_get dbg (en_candidates e) cid = (Ok (Some \<lparr> wc_graph_hash = wg_hash g, wc_raw = raw \<rparr>) :: (_, unit) outcome)"
    and ok: "id_ok dbg cid"
    and room: "length (ga_items (en_graphs e)) < SLOTS" and few: "\<forall>h. graph_refs (en_graphs e) h < refs_max"
  shows "case apply_graph (wg_body g) raw of
      Ok after \<Rightarrow> \<exists>e' r f. engine_apply dbg blake3 gid cid e = (e', Ok r) \<and> engine_inv dbg blake3 e' \<and> index_kept e e' \<and>
        graph_get dbg (en_graphs e') (ar_after r) = (Ok (Some f) :: (_, unit) outcome) \<and> wg_body f = after \<and>
        ar_after_hash r = wg_hash f \<and> ar_changed r = (wg_body f \<noteq> wg_body g) \<and>
        graph_refs (en_graphs e') = (graph_refs (en_graphs e))(wg_hash f := Suc (graph_refs (en_graphs e) (wg_hash f)))
    | Err err \<Rightarrow> engine_apply dbg blake3 gid cid e = (e, Err (internal_rule err))
    | Panic \<Rightarrow> engine_apply dbg blake3 gid cid e = (e, Panic)"
proof -
  note live = live_graph [OF engine_invD(1) [OF inv] g]
  have raw: "padded raw" using engine_invD(4) [OF inv] w ok unfolding cands_padded_def by fastforce
  obtain chash where c: "candidate_hash blake3 (wg_hash g) (en_action_set_hash e) raw = (Ok chash :: (_, unit) outcome)"
    using padded_hash [OF raw] by metis
  note unfold = engine_apply_unfold [OF g w c]
  note sound = cached_transition_sound [OF inv live(1) live(2) [symmetric] raw c]
  show ?thesis
  proof (cases "apply_graph (wg_body g) raw")
    case (Ok after)
    let ?h = "body_hash blake3 (en_graphs e) after"
    have few': "graph_refs (en_graphs e) ?h < refs_max" using few by simp
    note fresh = apply_fresh_spec [OF inj inv g raw c Ok room refl few']
    have "\<exists>e' new. engine_inv dbg blake3 e' \<and> ga_by_hash (en_graphs e') ?h = Some new \<and> index_kept e e' \<and>
        graph_refs (en_graphs e') = (graph_refs (en_graphs e))(?h := Suc (graph_refs (en_graphs e) ?h)) \<and>
        engine_apply dbg blake3 gid cid e = sbind (slift (engine_hash dbg e' new) e') (\<lambda>after_hash e.
          (e, Ok \<lparr> ar_before = gid, ar_after = new, ar_before_hash = wg_hash g, ar_after_hash = after_hash,
               ar_candidate = cid, ar_candidate_hash = chash, ar_changed = (wg_hash g \<noteq> after_hash) \<rparr>))"
    proof (cases "cached_transition e (wg_hash g) chash")
      case None
      then show ?thesis using fresh unfold by auto
    next
      case (Some ah)
      then have ah: "ah = ?h" using sound [OF Some] Ok by simp
      show ?thesis
      proof (cases "ga_by_hash (en_graphs e) ?h")
        case None
        then have "graph_retain_hash ?h (en_graphs e) = (en_graphs e, Ok None)" by (simp add: graph_retain_hash_def)
        then show ?thesis using fresh unfold Some ah by (auto simp: on_part_def)
      next
        case known: (Some new)
        obtain gs where gs: "graph_retain_hash ?h (en_graphs e) = (gs, Ok (Some new))" "graph_arena_inv dbg blake3 gs"
          "ga_by_hash gs = ga_by_hash (en_graphs e)"
          "graph_refs gs = (graph_refs (en_graphs e))(?h := Suc (graph_refs (en_graphs e) ?h))"
          "ga_engine_id gs = ga_engine_id (en_graphs e)" "ga_engine_version gs = ga_engine_version (en_graphs e)"
          using graph_retain_spec [OF engine_invD(1) [OF inv] known few'] by metis
        have "engine_inv dbg blake3 (e \<lparr> en_graphs := gs \<rparr>)"
          using engine_invD(3) [OF inv] gs(3) by (intro engine_inv_graphs [OF inv gs(2,5,6)]) simp
        then show ?thesis
          using unfold Some ah gs known by (intro exI [of _ "e \<lparr> en_graphs := gs \<rparr>"] exI [of _ new])
            (simp add: on_part_def same_frame_def index_kept_def)
      qed
    qed
    then obtain e' new where e': "engine_inv dbg blake3 e'" "ga_by_hash (en_graphs e') ?h = Some new" "index_kept e e'"
      "graph_refs (en_graphs e') = (graph_refs (en_graphs e))(?h := Suc (graph_refs (en_graphs e) ?h))"
      "engine_apply dbg blake3 gid cid e = sbind (slift (engine_hash dbg e' new) e') (\<lambda>after_hash e.
          (e, Ok \<lparr> ar_before = gid, ar_after = new, ar_before_hash = wg_hash g, ar_after_hash = after_hash,
               ar_candidate = cid, ar_candidate_hash = chash, ar_changed = (wg_hash g \<noteq> after_hash) \<rparr>))" by blast
    have hash: "body_hash blake3 (en_graphs e') = body_hash blake3 (en_graphs e)"
      using e'(3) by (auto simp: same_frame_def index_kept_def intro: body_hash_cong)
    obtain f where f: "graph_get dbg (en_graphs e') new = (Ok (Some f) :: (_, unit) outcome)" "wg_hash f = ?h"
      "compact_form (wg_body f)" "?h = body_hash blake3 (en_graphs e') (wg_body f)"
      by (rule graph_arena_lookup [OF engine_invD(1) [OF e'(1)] e'(2)])
    have va: "valid_graph after" using apply_graph_compact(1) [OF Ok] by (simp add: compact_form_def)
    have body: "wg_body f = after"
      using body_hash_inj [OF inj va, of "wg_body f" "en_graphs e"] f(3,4) hash by (simp add: compact_form_def)
    have "wg_hash g = wg_hash f \<longleftrightarrow> wg_body f = wg_body g"
      using body_hash_inj [OF inj live(1) va, of "en_graphs e"] live(2) f(2) body by auto
    then show ?thesis using e' f(1,2) engine_hash_eq [OF f(1)] body Ok by auto
  next
    case (Err err)
    then have "cached_transition e (wg_hash g) chash = None" using sound by fastforce
    then show ?thesis using Err unfold engine_graph_eq [OF g] by (simp add: apply_fresh_def)
  next
    case Panic
    then have "cached_transition e (wg_hash g) chash = None" using sound by fastforce
    then show ?thesis using Panic unfold engine_graph_eq [OF g] by (simp add: apply_fresh_def)
  qed
qed

section \<open>Releasing\<close>

lemma cand_live_before:
  assumes inv: "cand_inv (\<lambda>_. 0) cs" "cand_inv (\<lambda>_. 0) cs'" and rel: "cand_release dbg c cs = (cs', Ok r)" "id_ok dbg c"
    and refs: "\<And>d. cand_refs dbg cs' d \<le> cand_refs dbg cs d" "r \<noteq> None \<Longrightarrow> cand_refs dbg cs' c = 0"
    and d: "cand_get dbg cs' d = (Ok (Some w) :: (_, unit) outcome)" "id_ok dbg d"
  shows "cand_get dbg cs d = (Ok (Some w) :: (_, unit) outcome)"
proof -
  have "cand_refs dbg cs' d \<noteq> 0"
    using names_iff [OF inv(2) d(2)] cand_get_Some_iff [OF inv(2), of dbg d] d(1) by blast
  then have "r = None \<or> d \<noteq> c" "cand_refs dbg cs d \<noteq> 0" using refs(1) [of d] refs(2) by auto
  moreover obtain w' where "cand_get dbg cs d = (Ok (Some w') :: (_, unit) outcome)"
    using names_iff [OF inv(1) d(2)] cand_get_Some_iff [OF inv(1), of dbg d] calculation(2) by blast
  ultimately show ?thesis using cand_release_get [OF inv(1) rel d(2)] d(1) by fastforce
qed

lemma cand_release_cases:
  assumes inv: "cand_inv (\<lambda>_. 0) cs" and ok: "id_ok dbg c"
  obtains r where "cand_release dbg c cs = (cs, r)" "\<And>x. r \<noteq> Ok x"
  | cs' r where "cand_release dbg c cs = (cs', Ok r)" "cand_inv (\<lambda>_. 0) cs'"
    "\<And>d. cand_refs dbg cs' d \<le> cand_refs dbg cs d" "r \<noteq> None \<Longrightarrow> cand_refs dbg cs' c = 0"
    "\<And>w. r = Some w \<Longrightarrow> cand_get dbg cs c = (Ok (Some w) :: (_, unit) outcome)"
proof (cases "\<exists>l. names dbg cs c l")
  case False
  then show ?thesis using that(1) cand_unnamed(2) [OF False] by blast
next
  case True
  then obtain l where l: "names dbg cs c l" by blast
  have "cand_refs dbg cs c \<noteq> 0" using names_iff [OF inv ok] True by simp
  then consider "1 < cand_refs dbg cs c" | "cand_refs dbg cs c = 1" by linarith
  then show ?thesis
  proof cases
    case 1
    obtain b where "cand_release dbg c cs = (b, Ok None)" "cand_inv (\<lambda>_. 0) b"
      "cand_refs dbg b = (cand_refs dbg cs)(c := cand_refs dbg cs c - 1)"
      using cand_release_shared [OF inv l ok 1] by metis
    then show ?thesis by (intro that(2) [of b None]) simp_all
  next
    case 2
    obtain b w where "cand_release dbg c cs = (b, Ok (Some w))" "cand_inv (\<lambda>_. 0) b"
      "cand_refs dbg b = (cand_refs dbg cs)(c := 0)" "cand_get dbg cs c = (Ok (Some w) :: (_, unit) outcome)"
      using cand_release_last [OF inv l ok 2] by metis
    then show ?thesis by (intro that(2) [of b "Some w"]) simp_all
  qed
qed

lemma release_candidate_inv:
  assumes inv: "engine_inv dbg blake3 e" and ok: "id_ok dbg c" and run: "release_candidate dbg c e = (e', r)"
  shows "engine_inv dbg blake3 e' \<and> en_root e' = en_root e \<and> en_graphs e' = en_graphs e"
proof (cases rule: cand_release_cases [OF engine_invD(2) [OF inv] ok])
  case (1 q)
  then have "e' = e" using run by (cases q) (auto simp: release_candidate_def on_part_def)
  then show ?thesis using inv by simp
next
  case (2 cs q)
  let ?e = "e \<lparr> en_candidates := cs \<rparr>"
  have e': "e' = (case q of None \<Rightarrow> ?e | Some w \<Rightarrow> forget_hash (wc_graph_hash w) ?e)"
    using run 2(1) by (auto simp: release_candidate_def on_part_def split: option.splits)
  have frame: "same_frame e e'" by (simp add: e' same_frame_def forget_hash_def split: option.splits)
  have parts: "en_graphs e' = en_graphs e" "en_root e' = en_root e" "en_candidates e' = cs"
    by (simp_all add: e' forget_hash_def split: option.splits)
  have before: "cand_get dbg (en_candidates e) d = (Ok (Some w) :: (_, unit) outcome)"
    if "cand_get dbg cs d = (Ok (Some w) :: (_, unit) outcome)" "id_ok dbg d" for d w
    using engine_invD(2) [OF inv] 2(2) 2(1) ok 2(3,4) that by (rule cand_live_before)
  have "enum_cache_ok dbg blake3 e'"
  proof (rule enum_cache_frame [OF frame engine_invD(5) [OF inv]], intro conjI ballI allI impI)
    fix h s cached assume c: "wca_candidates (en_caches e') (h, s) = Some cached"
    then show c': "wca_candidates (en_caches e) (h, s) = Some cached"
      by (auto simp: e' forget_hash_def split: option.splits if_splits)
    then have s: "s = en_action_set_hash e" using engine_invD(5) [OF inv] unfolding enum_cache_ok_def by blast
    fix d w assume d: "id_ok dbg d" "wc_graph_hash w = h" "cand_get dbg (en_candidates e) d = (Ok (Some w) :: (_, unit) outcome)"
    have "q = None \<or> d \<noteq> c"
    proof (cases q)
      case (Some v)
      then have "h \<noteq> wc_graph_hash v" using c s by (auto simp: e' forget_hash_def)
      moreover have "cand_get dbg (en_candidates e) c = (Ok (Some v) :: (_, unit) outcome)" using 2(5) Some by simp
      ultimately show ?thesis using d by auto
    qed simp
    then show "cand_get dbg (en_candidates e') d = (Ok (Some w) :: (_, unit) outcome)"
      unfolding parts using cand_release_get [OF engine_invD(2) [OF inv] 2(1) ok d(1) d(3)] by blast
  qed
  moreover have "trans_cache_ok blake3 e'"
    by (rule trans_cache_frame [OF frame engine_invD(6) [OF inv]])
      (auto simp: e' forget_hash_def split: option.splits if_splits)
  moreover have "cands_padded dbg (en_candidates e')"
    using before engine_invD(4) [OF inv] unfolding cands_padded_def parts by blast
  ultimately show ?thesis
    using engine_invD(1,3) [OF inv] 2(2) parts by (auto simp: engine_inv_def)
qed

lemma forget_hash_inv:
  assumes "engine_inv dbg blake3 e"
  shows "engine_inv dbg blake3 (forget_hash h e)" (is "engine_inv _ _ ?e")
proof (rule engine_invI)
  have frame: "same_frame e ?e" by (simp add: same_frame_def forget_hash_def)
  show "graph_arena_inv dbg blake3 (en_graphs ?e)" "cand_inv (\<lambda>_. 0) (en_candidates ?e)"
    "\<exists>h. ga_by_hash (en_graphs ?e) h = Some (en_root ?e)" "cands_padded dbg (en_candidates ?e)"
    using engine_invD(1-4) [OF assms] by (simp_all add: forget_hash_def)
  show "enum_cache_ok dbg blake3 ?e"
    by (rule enum_cache_frame [OF frame engine_invD(5) [OF assms]]) (simp add: forget_hash_def split: if_splits)
  show "trans_cache_ok blake3 ?e"
    by (rule trans_cache_frame [OF frame engine_invD(6) [OF assms]]) (simp add: forget_hash_def split: if_splits)
qed

lemma graph_release_cases:
  assumes inv: "graph_arena_inv dbg blake3 gs" and ok: "id_ok dbg gid"
  obtains r where "graph_release_protected dbg gid root gs = (gs, r)" "\<And>x. r \<noteq> Ok x"
  | gs' h last where "graph_release_protected dbg gid root gs = (gs', Ok (h, last))" "graph_arena_inv dbg blake3 gs'"
    "ga_engine_id gs' = ga_engine_id gs" "ga_engine_version gs' = ga_engine_version gs"
    "\<And>k. ga_by_hash gs k = Some root \<Longrightarrow> ga_by_hash gs' k = Some root"
proof (cases "\<exists>g. graph_get dbg gs gid = (Ok (Some g) :: (whittle_graph option, unit) outcome)")
  case False
  then show ?thesis using that(1) graph_release_fails [OF False, of root] by blast
next
  case True
  then obtain g where g: "graph_get dbg gs gid = (Ok (Some g) :: (whittle_graph option, unit) outcome)" by blast
  have "0 < graph_refs gs (wg_hash g)" using graph_get_refs [OF inv g] by (metis unat_gt_0)
  then consider "1 < graph_refs gs (wg_hash g)" | "graph_refs gs (wg_hash g) = 1" "gid \<noteq> root"
    | "graph_refs gs (wg_hash g) = 1" "gid = root" by linarith
  then show ?thesis
  proof cases
    case 1
    obtain b where "graph_release_protected dbg gid root gs = (b, Ok (wg_hash g, False))"
      "graph_arena_inv dbg blake3 b" "ga_by_hash b = ga_by_hash gs" "ga_engine_id b = ga_engine_id gs" "ga_engine_version b = ga_engine_version gs"
      using graph_release_shared [OF inv g 1, of root] by metis
    then show ?thesis by (intro that(2) [of b "wg_hash g" False]) simp_all
  next
    case 2
    obtain b where b: "graph_release_protected dbg gid root gs = (b, Ok (wg_hash g, True))"
      "graph_arena_inv dbg blake3 b" "ga_by_hash b = (ga_by_hash gs)(wg_hash g := None)"
      "ga_engine_id b = ga_engine_id gs" "ga_engine_version b = ga_engine_version gs"
      using graph_release_last [OF inv g 2] by metis
    moreover have "ga_by_hash gs (wg_hash g) = Some gid" using inv g ok by (rule graph_get_indexed)
    ultimately show ?thesis using 2(2) by (intro that(2) [of b "wg_hash g" True]) auto
  next
    case 3
    then show ?thesis using graph_release_root [OF inv g [unfolded 3(2)] 3(1)] by (intro that(1)) auto
  qed
qed

lemma release_graph_inv:
  assumes inv: "engine_inv dbg blake3 e" and ok: "id_ok dbg gid" and run: "release_graph dbg gid e = (e', r)"
  shows "engine_inv dbg blake3 e' \<and> en_root e' = en_root e \<and>
    body_hash blake3 (en_graphs e') = body_hash blake3 (en_graphs e) \<and>
    (\<forall>k. ga_by_hash (en_graphs e) k = Some (en_root e) \<longrightarrow> ga_by_hash (en_graphs e') k = Some (en_root e))"
proof (cases rule: graph_release_cases [OF engine_invD(1) [OF inv] ok, of "en_root e"])
  case (1 q)
  then have "e' = e" using run by (cases q) (auto simp: release_graph_def on_part_def)
  then show ?thesis using inv by simp
next
  case (2 gs h last)
  have e': "e' = (if last then forget_hash h (e \<lparr> en_graphs := gs \<rparr>) else e \<lparr> en_graphs := gs \<rparr>)"
    using run 2(1) by (auto simp: release_graph_def on_part_def)
  have "\<exists>k. ga_by_hash gs k = Some (en_root e)" using engine_invD(3) [OF inv] 2(5) by blast
  then have "engine_inv dbg blake3 (e \<lparr> en_graphs := gs \<rparr>)" by (rule engine_inv_graphs [OF inv 2(2-4)])
  then have "engine_inv dbg blake3 e'" using forget_hash_inv by (simp add: e')
  moreover have "en_root e' = en_root e" "en_graphs e' = gs" by (simp_all add: e' forget_hash_def)
  moreover have "body_hash blake3 gs = body_hash blake3 (en_graphs e)" using 2(3,4) by (rule body_hash_cong)
  ultimately show ?thesis using 2(5) by simp
qed

lemma engine_release_inv:
  assumes inv: "engine_inv dbg blake3 e" and ok: "\<forall>gid \<in> set graphs. id_ok dbg gid" "\<forall>c \<in> set cands. id_ok dbg c"
    and run: "engine_release dbg graphs cands e = (e', r)" and root: "ga_by_hash (en_graphs e) h = Some (en_root e)"
  shows "engine_inv dbg blake3 e' \<and> en_root e' = en_root e \<and> ga_by_hash (en_graphs e') h = Some (en_root e) \<and>
    body_hash blake3 (en_graphs e') = body_hash blake3 (en_graphs e)"
proof -
  let ?P = "\<lambda>t. engine_inv dbg blake3 t \<and> en_root t = en_root e \<and> ga_by_hash (en_graphs t) h = Some (en_root e) \<and>
    body_hash blake3 (en_graphs t) = body_hash blake3 (en_graphs e)"
  obtain t q where t: "for_each (release_candidate dbg) cands e = (t, q)" by (cases "for_each (release_candidate dbg) cands e")
  have P: "?P e" using inv root by simp
  have step: "?P t'" if "c \<in> set cands" "?P t" "release_candidate dbg c t = (t', r)" for c t t' r
    using release_candidate_inv [of dbg blake3 t c t' r] that ok(2) by simp
  have Pt: "?P t" by (rule for_each_inv [where P = ?P, OF step P t])
  show ?thesis
  proof (cases q)
    case (Ok u)
    then have run': "for_each (release_graph dbg) graphs t = (e', r)" using run t by (simp add: engine_release_def)
    have "?P t'" if "gid \<in> set graphs" "?P s" "release_graph dbg gid s = (t', r)" for gid s t' r
      using release_graph_inv [of dbg blake3 s gid t' r] that ok(1) by simp
    then show ?thesis by (rule for_each_inv [where P = ?P, OF _ Pt run'])
  qed (use run t Pt in \<open>auto simp: engine_release_def\<close>)
qed

section \<open>Reachable states\<close>

lemma engine_new_inv:
  assumes "engine_new dbg blake3 config = Ok e"
  obtains body c where "engine_inv dbg blake3 e" "root_body dbg (ec_root config) = Ok body" "compact_graph body = Ok c"
    "ga_by_hash (en_graphs e) (body_hash blake3 (en_graphs e) c) = Some (en_root e)"
    "en_config e = config" "en_candidates e = cand_arena_default" "length (ga_items (en_graphs e)) \<le> 1"
    "\<forall>h. graph_refs (en_graphs e) h \<le> 1"
proof -
  let ?new = "graph_arena_new (whittle_engine_id blake3) (whittle_engine_version blake3)"
  from assms obtain body root where body: "root_body dbg (ec_root config) = Ok body"
    and ins: "graph_insert dbg blake3 body ?new = (en_graphs e, Ok root)"
    and e: "en_root e = root" "en_config e = config" "en_candidates e = cand_arena_default"
      "en_caches e = \<lparr> wca_candidates = Map.empty, wca_transitions = Map.empty \<rparr>"
    by (cases "root_body dbg (ec_root config)"; cases "graph_insert dbg blake3 (case root_body dbg (ec_root config) of Ok b \<Rightarrow> b) ?new")
      (auto simp: engine_new_def Let_def)
  obtain c where c: "compact_graph body = Ok c"
    using ins by (cases "compact_graph body") (simp_all add: graph_insert_def)
  have room: "length (ga_items ?new) < SLOTS" "graph_refs ?new (body_hash blake3 ?new c) < refs_max"
    by (simp_all add: graph_arena_new_def graph_refs_def SLOTS_def refs_max_def)
  have gs: "graph_arena_inv dbg blake3 (en_graphs e)" "ga_by_hash (en_graphs e) = (ga_by_hash ?new)(body_hash blake3 ?new c \<mapsto> root)"
    "ga_engine_id (en_graphs e) = ga_engine_id ?new" "ga_engine_version (en_graphs e) = ga_engine_version ?new"
    "length (ga_items (en_graphs e)) \<le> Suc (length (ga_items ?new))"
    "graph_refs (en_graphs e) = (graph_refs ?new)(body_hash blake3 ?new c := Suc (graph_refs ?new (body_hash blake3 ?new c)))"
    using graph_insert_spec [OF graph_arena_new_inv room(1) c refl room(2)] ins by (metis Pair_inject outcome.inject(1))+
  have root: "ga_by_hash (en_graphs e) (body_hash blake3 (en_graphs e) c) = Some (en_root e)"
    using gs(2) body_hash_cong [OF gs(3,4), of blake3] by (simp add: e)
  have "engine_inv dbg blake3 e"
    using gs(1) root cand_inv_default e
    by (auto simp: engine_inv_def cands_padded_def enum_cache_ok_def trans_cache_ok_def cand_get_def
        cand_arena_default_def get_def)
  moreover have "length (ga_items (en_graphs e)) \<le> 1" "\<forall>h. graph_refs (en_graphs e) h \<le> 1"
    using gs(5,6) by (simp_all add: graph_arena_new_def graph_refs_def)
  ultimately show thesis using that body c root e(2,3) by blast
qed

text \<open>
  The operations that change the state, in any order and with any arguments, as long as the \<open>u32\<close>
  indices and counts have room for one more operation.
\<close>

definition engine_fits :: "bool \<Rightarrow> engine \<Rightarrow> bool" where
  "engine_fits dbg e \<longleftrightarrow> length (ga_items (en_graphs e)) < SLOTS \<and>
     (\<forall>h. graph_refs (en_graphs e) h < refs_max) \<and> (\<forall>c. cand_refs dbg (en_candidates e) c < refs_max) \<and>
     (\<forall>gid g all. graph_get dbg (en_graphs e) gid = (Ok (Some g) :: (_, unit) outcome) \<longrightarrow>
        enumerate_graph (wg_body g) (ec_include_reverse (en_config e)) = Ok all \<longrightarrow>
        length (ca_handles (en_candidates e)) + length all < SLOTS)"

inductive engine_step :: "bool \<Rightarrow> (u8 list \<Rightarrow> digest) \<Rightarrow> engine \<Rightarrow> engine \<Rightarrow> bool"
  for dbg :: bool and blake3 :: "u8 list \<Rightarrow> digest"
where
  Candidates: "engine_fits dbg e \<Longrightarrow> enumerate_candidate_ids dbg gid limit e = (e', r) \<Longrightarrow> engine_step dbg blake3 e e'"
| Apply: "engine_fits dbg e \<Longrightarrow> id_ok dbg cid \<Longrightarrow> engine_apply dbg blake3 gid cid e = (e', r) \<Longrightarrow> engine_step dbg blake3 e e'"
| Release: "\<forall>gid \<in> set graphs. id_ok dbg gid \<Longrightarrow> \<forall>c \<in> set cands. id_ok dbg c \<Longrightarrow>
    engine_release dbg graphs cands e = (e', r) \<Longrightarrow> engine_step dbg blake3 e e'"

text \<open>What every step keeps, for the hash \<open>h\<close> of the root.\<close>

definition rooted :: "bool \<Rightarrow> (u8 list \<Rightarrow> digest) \<Rightarrow> engine \<Rightarrow> digest \<Rightarrow> engine \<Rightarrow> bool" where
  "rooted dbg blake3 e0 h e \<longleftrightarrow> engine_inv dbg blake3 e \<and> en_root e = en_root e0 \<and>
     ga_by_hash (en_graphs e) h = Some (en_root e0) \<and> body_hash blake3 (en_graphs e) = body_hash blake3 (en_graphs e0)"

lemma get_no_error: "graph_get dbg a gid \<noteq> Err e" "cand_get dbg cs c \<noteq> Err e'"
  by (auto simp: graph_get_def cand_get_def split: option.splits if_splits)

lemma live_or_not:
  obtains g where "graph_get dbg a gid = (Ok (Some g) :: (_, unit) outcome)"
  | "graph_get dbg a gid = (Ok None :: (_, engine_error) outcome)" | "graph_get dbg a gid = (Panic :: (_, engine_error) outcome)"
proof (cases "graph_get dbg a gid :: (_, engine_error) outcome")
  case (Ok found)
  then show thesis using that(1,2) graph_get_any by (cases found) blast+
qed (use that(3) in \<open>simp_all add: get_no_error\<close>)

lemma cand_live_or_not:
  obtains w where "cand_get dbg a c = (Ok (Some w) :: (_, unit) outcome)"
  | "cand_get dbg a c = (Ok None :: (_, engine_error) outcome)" | "cand_get dbg a c = (Panic :: (_, engine_error) outcome)"
proof (cases "cand_get dbg a c :: (_, engine_error) outcome")
  case (Ok found)
  then show thesis using that(1,2) cand_get_any by (cases found) blast+
qed (use that(3) in \<open>simp_all add: get_no_error\<close>)

lemma enumerate_keeps:
  assumes inj: "inj blake3" and inv: "engine_inv dbg blake3 e" and fits: "engine_fits dbg e"
    and run: "enumerate_candidate_ids dbg gid limit e = (e', r)"
  shows "engine_inv dbg blake3 e' \<and> en_graphs e' = en_graphs e"
proof (cases rule: live_or_not [of dbg "en_graphs e" gid])
  case (1 g)
  note live = live_graph [OF engine_invD(1) [OF inv] 1]
  obtain all where "enumerate_graph (wg_body g) (ec_include_reverse (en_config e)) = Ok all"
    by (rule enumerate_spec [OF live(1)])
  moreover from this have "length (ca_handles (en_candidates e)) + length all < SLOTS"
    "\<forall>c. cand_refs dbg (en_candidates e) c < refs_max" using fits 1 by (auto simp: engine_fits_def)
  ultimately show ?thesis using engine_enumerate_spec [OF inj inv 1, of all limit] run by auto
qed (use inv run in \<open>auto simp: enumerate_candidate_ids_def engine_hash_def engine_graph_def\<close>)

lemma enumerate_root:
  assumes "enumerate_candidate_ids dbg gid limit e = (e', r)"
  shows "en_root e' = en_root e"
proof -
  have retain: "en_root t' = en_root e" if "for_each (retain_candidate dbg) ids e = (t', q)" for ids t' q
    by (rule for_each_inv [where P = "\<lambda>t. en_root t = en_root e", OF _ _ that])
      (auto simp: retain_candidate_def on_part_def split: prod.splits)
  have fresh: "en_root t = en_root e" if "enumerate_fresh dbg h gid l e = (t, q)" for h l t q
    using that by (auto simp: enumerate_fresh_def on_part_def sbind_def Let_def split: prod.splits outcome.splits if_splits)
  show ?thesis
    using assms by (auto simp: enumerate_candidate_ids_def sbind_def Let_def
        split: outcome.splits option.splits if_splits prod.splits dest: retain fresh)
qed

lemma apply_keeps:
  assumes inj: "inj blake3" and inv: "engine_inv dbg blake3 e" and fits: "engine_fits dbg e" and ok: "id_ok dbg cid"
    and run: "engine_apply dbg blake3 gid cid e = (e', r)"
  shows "engine_inv dbg blake3 e' \<and> index_kept e e'"
proof -
  have self: "index_kept e e" by (simp add: index_kept_def same_frame_def)
  show ?thesis
  proof (cases rule: live_or_not [of dbg "en_graphs e" gid])
    case (1 g)
    note hash = engine_hash_eq [OF 1]
    show ?thesis
    proof (cases rule: cand_live_or_not [of dbg "en_candidates e" cid])
      case w: (1 w)
      have raw: "padded (wc_raw w)" using engine_invD(4) [OF inv] w ok unfolding cands_padded_def by blast
      show ?thesis
      proof (cases "wc_graph_hash w = wg_hash g")
        case True
        then have w': "cand_get dbg (en_candidates e) cid = (Ok (Some \<lparr> wc_graph_hash = wg_hash g, wc_raw = wc_raw w \<rparr>) :: (_, unit) outcome)"
          using w by (metis whittle_candidate.surjective unit.exhaust)
        have "length (ga_items (en_graphs e)) < SLOTS" "\<forall>h. graph_refs (en_graphs e) h < refs_max"
          using fits by (simp_all add: engine_fits_def)
        from engine_apply_spec [OF inj inv 1 w' ok this] run inv self show ?thesis
          by (cases "apply_graph (wg_body g) (wc_raw w)") auto
      next
        case False
        obtain ch where "candidate_hash blake3 (wc_graph_hash w) (en_action_set_hash e) (wc_raw w) = (Ok ch :: (_, engine_error) outcome)"
          using padded_hash [OF raw] by metis
        then have "e' = e" using run hash engine_candidate_eq [OF w] False by (simp add: engine_apply_def)
        then show ?thesis using inv self by simp
      qed
    qed (use inv self run hash in \<open>auto simp: engine_apply_def engine_candidate_def\<close>)
  qed (use inv self run in \<open>auto simp: engine_apply_def engine_hash_def engine_graph_def\<close>)
qed

lemma engine_step_rooted:
  assumes inj: "inj blake3" and step: "engine_step dbg blake3 e e'" and old: "rooted dbg blake3 e0 h e"
  shows "rooted dbg blake3 e0 h e'"
  using step
proof cases
  case (Candidates gid limit r)
  then show ?thesis
    using enumerate_keeps [OF inj _ Candidates] enumerate_root [OF Candidates(2)] old by (simp add: rooted_def)
next
  case (Apply cid gid r)
  have "engine_inv dbg blake3 e' \<and> index_kept e e'"
    using apply_keeps [OF inj _ Apply] old by (simp add: rooted_def)
  moreover from this have "body_hash blake3 (en_graphs e') = body_hash blake3 (en_graphs e)"
    by (auto simp: index_kept_def same_frame_def intro: body_hash_cong)
  ultimately show ?thesis using old by (simp add: rooted_def index_kept_def)
next
  case (Release graphs cands r)
  then show ?thesis
    using engine_release_inv [OF _ Release, of blake3 h] old by (simp add: rooted_def)
qed

section \<open>A sample engine\<close>

definition idempotent_body :: graph_body where
  "idempotent_body = \<lparr> g_arity = 1, g_capacity = 16, g_output = 2, g_op = [InputOp, AndOp, OutputOp],
     g_arg0 = [0, 0, 1], g_arg1 = [NO_NODE, 0, NO_NODE] \<rparr>"

definition sample_config :: engine_config where
  "sample_config = \<lparr> ec_root = RootArtifact (canonical idempotent_body), ec_include_reverse = False,
     ec_measure_mode = NegativeCost, ec_cache_candidates = True, ec_cache_transitions = True \<rparr>"

lemma sample_engine:
  obtains e g where "engine_new True (\<lambda>b. b) sample_config = Ok e" "engine_inv True (\<lambda>b. b) e"
    "graph_get True (en_graphs e) (en_root e) = (Ok (Some g) :: (_, unit) outcome)" "wg_body g = idempotent_body"
    "en_config e = sample_config" "en_candidates e = cand_arena_default"
    "length (ga_items (en_graphs e)) \<le> 1" "\<forall>h. graph_refs (en_graphs e) h \<le> 1"
proof -
  have "is_ok (engine_new True (\<lambda>b. b) sample_config)" by code_simp
  then obtain e where new: "engine_new True (\<lambda>b. b) sample_config = Ok e" by (auto simp: is_ok_iff)
  obtain body c where e: "engine_inv True (\<lambda>b. b) e" "root_body True (ec_root sample_config) = Ok body" "compact_graph body = Ok c"
    "ga_by_hash (en_graphs e) (body_hash (\<lambda>b. b) (en_graphs e) c) = Some (en_root e)"
    "en_config e = sample_config" "en_candidates e = cand_arena_default" "length (ga_items (en_graphs e)) \<le> 1"
    "\<forall>h. graph_refs (en_graphs e) h \<le> 1"
    using new by (rule engine_new_inv)
  obtain g where g: "graph_get True (en_graphs e) (en_root e) = (Ok (Some g) :: (_, unit) outcome)" "compact_form (wg_body g)"
    "body_hash (\<lambda>b. b) (en_graphs e) c = body_hash (\<lambda>b. b) (en_graphs e) (wg_body g)"
    by (rule graph_arena_lookup [OF engine_invD(1) [OF e(1)] e(4)])
  have "root_body True (ec_root sample_config) = Ok idempotent_body" "compact_graph idempotent_body = Ok idempotent_body"
    by code_simp+
  then have c: "c = idempotent_body" using e(2,3) by simp
  have "c = wg_body g"
    by (rule body_hash_inj [of "\<lambda>b. b" c "wg_body g" "en_graphs e"])
      (use compact_result(1) [OF e(3)] g in \<open>simp_all add: compact_form_def\<close>)
  then have body: "wg_body g = idempotent_body" using c by simp
  then show thesis using that new e(1,5-8) g(1) by blast
qed

text \<open>The candidates of the sample graph, and the sample engine after enumerating them.\<close>

lemma sample_candidates:
  obtains all where "enumerate_graph idempotent_body False = Ok all" "2 \<le> length all" "length all < 20"
    "all ! 0 = make_candidate AndIdempotent 1 [0]"
proof -
  have "(case enumerate_graph idempotent_body False of
      Ok all \<Rightarrow> 2 \<le> length all \<and> length all < 20 \<and> all ! 0 = make_candidate AndIdempotent 1 [0] | _ \<Rightarrow> False)" by code_simp
  then show thesis using that by (cases "enumerate_graph idempotent_body False") auto
qed

lemma default_refs: "cand_refs dbg cand_arena_default c = 0"
  by (simp add: cand_arena_default_def cand_refs_def get_def)

lemma sample_engine_fits:
  obtains e g where "engine_new True (\<lambda>b. b) sample_config = Ok e" "engine_inv True (\<lambda>b. b) e"
    "graph_get True (en_graphs e) (en_root e) = (Ok (Some g) :: (_, unit) outcome)" "wg_body g = idempotent_body"
    "engine_fits True e"
proof -
  obtain e g where e: "engine_new True (\<lambda>b. b) sample_config = Ok e" "engine_inv True (\<lambda>b. b) e"
    "graph_get True (en_graphs e) (en_root e) = (Ok (Some g) :: (_, unit) outcome)" "wg_body g = idempotent_body"
    "en_config e = sample_config" "en_candidates e = cand_arena_default"
    "length (ga_items (en_graphs e)) \<le> 1" "\<forall>h. graph_refs (en_graphs e) h \<le> 1"
    by (rule sample_engine)
  have only: "f = g" if f: "graph_get True (en_graphs e) gid = (Ok (Some f) :: (_, unit) outcome)" for gid f
  proof -
    have "unat (sid_index gid) = unat (sid_index (en_root e))"
      using graph_get_conv(2) [OF f] graph_get_conv(2) [OF e(3)] e(7) by linarith
    then show ?thesis using graph_get_conv(3) [OF f] graph_get_conv(3) [OF e(3)] by simp
  qed
  obtain all where all: "enumerate_graph idempotent_body False = Ok all" "length all < 20" by (rule sample_candidates)
  have "engine_fits True e"
    unfolding engine_fits_def
  proof (intro conjI allI impI)
    show "length (ga_items (en_graphs e)) < SLOTS" using e(7) by (simp add: SLOTS_def)
    show "graph_refs (en_graphs e) h < refs_max" for h using e(8) by (auto simp: refs_max_def intro: le_less_trans)
    show "cand_refs True (en_candidates e) c < refs_max" for c by (simp add: e(6) default_refs refs_max_def)
    fix gid f all'
    assume "graph_get True (en_graphs e) gid = (Ok (Some f) :: (_, unit) outcome)"
      "enumerate_graph (wg_body f) (ec_include_reverse (en_config e)) = Ok all'"
    then have "all' = all" using only e(4,5) all(1) by (simp add: sample_config_def)
    then show "length (ca_handles (en_candidates e)) + length all' < SLOTS"
      using all(2) by (simp add: e(6) cand_arena_default_def SLOTS_def)
  qed
  then show thesis using that e(1-4) by blast
qed

lemma sample_enumerated:
  assumes "engine_new True (\<lambda>b. b) sample_config = Ok e"
    and "graph_get True (en_graphs e) (en_root e) = (Ok (Some g) :: (_, unit) outcome)"
  obtains e1 ids where "enumerate_candidate_ids True (en_root e) None e = (e1, Ok ids)" "ids \<noteq> []"
    "cand_get True (en_candidates e1) (ids ! 0) = (Ok (Some \<lparr> wc_graph_hash = wg_hash g, wc_raw = make_candidate AndIdempotent 1 [0] \<rparr>) :: (_, unit) outcome)"
    "engine_inv True (\<lambda>b. b) e1" "en_graphs e1 = en_graphs e"
proof -
  obtain e' g' where e': "engine_new True (\<lambda>b. b) sample_config = Ok e'" "engine_inv True (\<lambda>b. b) e'"
    "graph_get True (en_graphs e') (en_root e') = (Ok (Some g') :: (_, unit) outcome)" "wg_body g' = idempotent_body"
    "en_config e' = sample_config" "en_candidates e' = cand_arena_default"
    by (rule sample_engine)
  then have e: "engine_inv True (\<lambda>b. b) e" "wg_body g = idempotent_body" "en_config e = sample_config" "en_candidates e = cand_arena_default"
    using assms by simp_all
  obtain all where all: "enumerate_graph idempotent_body False = Ok all" "2 \<le> length all" "length all < 20"
    "all ! 0 = make_candidate AndIdempotent 1 [0]"
    by (rule sample_candidates)
  have "enumerate_graph (wg_body g) (ec_include_reverse (en_config e)) = Ok all"
    using all(1) e(2,3) by (simp add: sample_config_def)
  moreover have "length (ca_handles (en_candidates e)) + length all < SLOTS" "\<forall>c. cand_refs True (en_candidates e) c < refs_max"
    using all(3) by (simp_all add: e(4) default_refs) (simp_all add: cand_arena_default_def SLOTS_def refs_max_def)
  ultimately obtain e1 ids where e1: "enumerate_candidate_ids True (en_root e) None e = (e1, Ok ids)" "engine_inv True (\<lambda>b. b) e1"
    "ids_name True (en_candidates e1) (wg_hash g) ids all" "en_graphs e1 = en_graphs e"
    using engine_enumerate_spec [of "\<lambda>b. b" True e "en_root e" g all None] e(1) assms(2) by (auto simp: limited_def)
  have pos: "0 < length all" using all(2) by linarith
  then have "cand_get True (en_candidates e1) (ids ! 0) = (Ok (Some \<lparr> wc_graph_hash = wg_hash g, wc_raw = make_candidate AndIdempotent 1 [0] \<rparr>) :: (_, unit) outcome)"
    using e1(3) unfolding ids_name_def all(4) [symmetric] by blast
  moreover have "ids \<noteq> []" using e1(3) pos by (auto simp: ids_name_def)
  ultimately show thesis using that e1 by simp
qed

lemma sample_rewrite:
  obtains after where "apply_graph idempotent_body (make_candidate AndIdempotent 1 [0]) = Ok after" "after \<noteq> idempotent_body"
proof -
  have "(case apply_graph idempotent_body (make_candidate AndIdempotent 1 [0]) of Ok after \<Rightarrow> after \<noteq> idempotent_body | _ \<Rightarrow> False)"
    by code_simp
  then show thesis
    using that by (cases "apply_graph idempotent_body (make_candidate AndIdempotent 1 [0])") auto
qed

section \<open>The engine's contract\<close>

text \<open>
  C26: enumeration through the engine is enumeration of the graph. For a live handle, whatever the
  candidate cache holds and whatever the limit, the engine returns handles that lead, in order, to
  the first \<open>limit\<close> candidates \<open>enumerate_graph\<close> finds on the graph; each handle gains one reference,
  and the invariant of the engine (among it, that the caches are sound) is kept. The premises bound
  the use of handles and counts to what \<open>u32\<close> can express.
\<close>

theorem engine_enumerate_transparent:
  assumes "inj blake3" and "engine_inv dbg blake3 e"
    and "graph_get dbg (en_graphs e) gid = (Ok (Some g) :: (_, unit) outcome)"
    and "enumerate_graph (wg_body g) (ec_include_reverse (en_config e)) = Ok all"
    and "length (ca_handles (en_candidates e)) + length all < SLOTS"
    and "\<forall>c. cand_refs dbg (en_candidates e) c < refs_max"
  shows "\<exists>e' ids. enumerate_candidate_ids dbg gid limit e = (e', Ok ids) \<and> engine_inv dbg blake3 e' \<and>
    ids_name dbg (en_candidates e') (wg_hash g) ids (limited limit all) \<and> en_graphs e' = en_graphs e \<and>
    (\<forall>c. cand_refs dbg (en_candidates e') c = cand_refs dbg (en_candidates e) c + count_list ids c)"
  using assms by (rule engine_enumerate_spec)

theorem engine_enumerate_transparent_witness:
  "\<exists>e e' ids. engine_new True (\<lambda>b. b) sample_config = Ok e \<and>
     enumerate_candidate_ids True (en_root e) (Some 2) e = (e', Ok ids) \<and> length ids = 2 \<and> engine_inv True (\<lambda>b. b) e'"
proof -
  obtain e g where e: "engine_new True (\<lambda>b. b) sample_config = Ok e" "engine_inv True (\<lambda>b. b) e"
    "graph_get True (en_graphs e) (en_root e) = (Ok (Some g) :: (_, unit) outcome)" "wg_body g = idempotent_body"
    "en_config e = sample_config" "en_candidates e = cand_arena_default"
    by (rule sample_engine)
  obtain all where all: "enumerate_graph idempotent_body False = Ok all" "2 \<le> length all" "length all < 20"
    by (rule sample_candidates)
  have "enumerate_graph (wg_body g) (ec_include_reverse (en_config e)) = Ok all"
    using all(1) e(4,5) by (simp add: sample_config_def)
  moreover have "length (ca_handles (en_candidates e)) + length all < SLOTS" "\<forall>c. cand_refs True (en_candidates e) c < refs_max"
    using all(3) by (simp_all add: e(6) default_refs) (simp_all add: cand_arena_default_def SLOTS_def refs_max_def)
  ultimately show ?thesis
    using engine_enumerate_transparent [of "\<lambda>b. b" True e "en_root e" g all "Some 2"] e(1-3) all(2)
    by (auto simp: ids_name_def limited_def)
qed

text \<open>
  C12: application through the engine is application of the rule. For a live graph handle and a live
  candidate of that graph, whatever the transition cache holds: the engine reports success exactly
  when \<open>apply_graph\<close> does, the returned handle then leads to the rewritten graph and holds one more
  reference, and the invariant of the engine is kept; otherwise the engine reports the rule's error
  and changes nothing. The premises exclude collisions of the hash function and overflow of \<open>u32\<close>
  indices and counts.
\<close>

theorem engine_apply_refines:
  assumes "inj blake3" and "engine_inv dbg blake3 e"
    and "graph_get dbg (en_graphs e) gid = (Ok (Some g) :: (_, unit) outcome)"
    and "cand_get dbg (en_candidates e) cid = (Ok (Some \<lparr> wc_graph_hash = wg_hash g, wc_raw = raw \<rparr>) :: (_, unit) outcome)"
    and "id_ok dbg cid"
    and "length (ga_items (en_graphs e)) < SLOTS" and "\<forall>h. graph_refs (en_graphs e) h < refs_max"
  shows "case apply_graph (wg_body g) raw of
      Ok after \<Rightarrow> \<exists>e' r f. engine_apply dbg blake3 gid cid e = (e', Ok r) \<and> engine_inv dbg blake3 e' \<and> index_kept e e' \<and>
        graph_get dbg (en_graphs e') (ar_after r) = (Ok (Some f) :: (_, unit) outcome) \<and> wg_body f = after \<and>
        ar_after_hash r = wg_hash f \<and> ar_changed r = (wg_body f \<noteq> wg_body g) \<and>
        graph_refs (en_graphs e') = (graph_refs (en_graphs e))(wg_hash f := Suc (graph_refs (en_graphs e) (wg_hash f)))
    | Err err \<Rightarrow> engine_apply dbg blake3 gid cid e = (e, Err (internal_rule err))
    | Panic \<Rightarrow> engine_apply dbg blake3 gid cid e = (e, Panic)"
  using assms by (rule engine_apply_spec)

theorem engine_apply_refines_witness:
  "\<exists>e e1 e2 ids r. engine_new True (\<lambda>b. b) sample_config = Ok e \<and>
     enumerate_candidate_ids True (en_root e) None e = (e1, Ok ids) \<and>
     engine_apply True (\<lambda>b. b) (en_root e) (ids ! 0) e1 = (e2, Ok r) \<and> ar_changed r \<and> engine_inv True (\<lambda>b. b) e2"
proof -
  obtain e g where e0: "engine_new True (\<lambda>b. b) sample_config = Ok e" "engine_inv True (\<lambda>b. b) e"
    "graph_get True (en_graphs e) (en_root e) = (Ok (Some g) :: (_, unit) outcome)" "wg_body g = idempotent_body"
    "engine_fits True e"
    by (rule sample_engine_fits)
  obtain e1 ids where e1: "enumerate_candidate_ids True (en_root e) None e = (e1, Ok ids)" "ids \<noteq> []"
    "cand_get True (en_candidates e1) (ids ! 0) = (Ok (Some \<lparr> wc_graph_hash = wg_hash g, wc_raw = make_candidate AndIdempotent 1 [0] \<rparr>) :: (_, unit) outcome)"
    "engine_inv True (\<lambda>b. b) e1" "en_graphs e1 = en_graphs e"
    by (rule sample_enumerated [OF e0(1,3)])
  have g1: "graph_get True (en_graphs e1) (en_root e) = (Ok (Some g) :: (_, unit) outcome)"
    and room: "length (ga_items (en_graphs e1)) < SLOTS" "\<forall>h. graph_refs (en_graphs e1) h < refs_max"
    using e0(3,5) e1(5) by (simp_all add: engine_fits_def)
  obtain after where "apply_graph idempotent_body (make_candidate AndIdempotent 1 [0]) = Ok after" "after \<noteq> idempotent_body"
    by (rule sample_rewrite)
  moreover have "id_ok True (ids ! 0)" by (simp add: id_ok_def)
  ultimately show ?thesis
    using engine_apply_refines [OF _ e1(4) g1 e1(3) _ room] e0(1,4) e1(1) by auto
qed

text \<open>
  C22: the engine in every reachable state. From the construction of an engine on, after any
  sequence of enumerations, applications and releases with any proper handles (live, stale or never
  issued), the invariant of the two arenas and the two caches holds, and the root handle still leads
  to the compacted root graph: no sequence of releases can free it.
\<close>

theorem engine_reachable_inv:
  assumes inj: "inj blake3" and new: "engine_new dbg blake3 config = Ok e0" and run: "(engine_step dbg blake3)\<^sup>*\<^sup>* e0 e"
  shows "engine_inv dbg blake3 e \<and> en_root e = en_root e0 \<and>
    (\<exists>body g. root_body dbg (ec_root config) = Ok body \<and> compact_graph body = Ok (wg_body g) \<and>
       graph_get dbg (en_graphs e) (en_root e) = (Ok (Some g) :: (_, unit) outcome))"
proof -
  obtain body c where init: "engine_inv dbg blake3 e0" "root_body dbg (ec_root config) = Ok body" "compact_graph body = Ok c"
    "ga_by_hash (en_graphs e0) (body_hash blake3 (en_graphs e0) c) = Some (en_root e0)"
    using new by (rule engine_new_inv)
  let ?h = "body_hash blake3 (en_graphs e0) c"
  have start: "rooted dbg blake3 e0 ?h e0" using init by (simp add: rooted_def)
  from run have "rooted dbg blake3 e0 ?h e"
  proof (induction rule: rtranclp_induct)
    case (step y z)
    show ?case by (rule engine_step_rooted [OF inj step.hyps(2) step.IH])
  qed (rule start)
  then have e: "engine_inv dbg blake3 e" "en_root e = en_root e0" "ga_by_hash (en_graphs e) ?h = Some (en_root e0)"
    "body_hash blake3 (en_graphs e) = body_hash blake3 (en_graphs e0)" by (simp_all add: rooted_def)
  obtain g where g: "graph_get dbg (en_graphs e) (en_root e0) = (Ok (Some g) :: (_, unit) outcome)" "compact_form (wg_body g)"
    "?h = body_hash blake3 (en_graphs e) (wg_body g)"
    by (rule graph_arena_lookup [OF engine_invD(1) [OF e(1)] e(3)])
  have "c = wg_body g"
    by (rule body_hash_inj [OF inj, of c "wg_body g" "en_graphs e0"])
      (use compact_result(1) [OF init(3)] g e(4) in \<open>simp_all add: compact_form_def\<close>)
  with init g e show ?thesis by auto
qed

theorem engine_reachable_inv_witness:
  "\<exists>e0 e g. engine_new True (\<lambda>b. b) sample_config = Ok e0 \<and>
     engine_release True [en_root e0] [] e0 = (e, Err (internal_error 4 ''cannot free the Whittle root graph'')) \<and>
     engine_inv True (\<lambda>b. b) e \<and> graph_get True (en_graphs e) (en_root e) = (Ok (Some g) :: (_, unit) outcome)"
proof -
  have "(case engine_new True (\<lambda>b. b) sample_config of
      Ok e0 \<Rightarrow> snd (engine_release True [en_root e0] [] e0) = Err (internal_error 4 ''cannot free the Whittle root graph'')
    | _ \<Rightarrow> False)" by code_simp
  then obtain e0 e where new: "engine_new True (\<lambda>b. b) sample_config = Ok e0"
    and rel: "engine_release True [en_root e0] [] e0 = (e, Err (internal_error 4 ''cannot free the Whittle root graph''))"
    by (cases "engine_new True (\<lambda>b. b) sample_config") (auto, metis prod.collapse)
  have "engine_step True (\<lambda>b. b) e0 e"
    by (rule engine_step.Release [OF _ _ rel]) (simp_all add: id_ok_def)
  then have "(engine_step True (\<lambda>b. b))\<^sup>*\<^sup>* e0 e" by blast
  from engine_reachable_inv [OF _ new this] new rel show ?thesis by auto
qed

text \<open>
  C30: measuring and exporting a live graph. Neither changes the engine. The reward is the negated
  number of nodes, which is at most the capacity, so it is below \<open>2^16\<close> and exact as a 32-bit float;
  the exported bytes decode to the graph, and building an engine from them starts from the same
  graph with the same content hash.
\<close>

theorem engine_measure_export:
  assumes inv: "engine_inv dbg blake3 e" and g: "graph_get dbg (en_graphs e) gid = (Ok (Some g) :: (_, unit) outcome)"
  shows "(\<exists>r. engine_measure dbg gid options e = (e, Ok r) \<and> mr_scalar_reward r = Some (- int (length (g_op g))) \<and>
      mr_graph_hash r = wg_hash g \<and> length (mr_metadata r) = 9 \<and>
      length (g_op g) \<le> unat (g_capacity g) \<and> length (g_op g) < 2 ^ 16) \<and>
    (\<exists>bytes. export_graph dbg e gid = Ok (wg_hash g, bytes) \<and> deserialize_wav1 bytes = Ok (wg_body g) \<and>
      root_body dbg (RootArtifact bytes) = Ok (wg_body g) \<and>
      wg_hash g = graph_hash blake3 (ga_engine_id (en_graphs e)) (ga_engine_version (en_graphs e)) bytes)"
proof
  note live = live_graph [OF engine_invD(1) [OF inv] g]
  have "length (g_op (wg_body g)) \<le> unat (g_capacity (wg_body g))" using live(1) by (rule valid_graphD)
  then have cap: "length (g_op g) \<le> unat (g_capacity g)" by (simp add: wg_body_def graph_body.defs)
  moreover have "unat (g_capacity g) < 2 ^ LENGTH(16)" by (rule unsigned_less)
  ultimately have small: "length (g_op g) < 2 ^ 16" by simp
  then have "unat (wg_cost g) = length (g_op g)"
    by (simp add: wg_cost_def unat_of_nat_small SLOTS_def)
  moreover have "uint (wg_cost g) = int (unat (wg_cost g))" by simp
  ultimately have "uint (wg_cost g) = int (length (g_op g))" by (simp only:)
  then show "\<exists>r. engine_measure dbg gid options e = (e, Ok r) \<and> mr_scalar_reward r = Some (- int (length (g_op g))) \<and>
      mr_graph_hash r = wg_hash g \<and> length (mr_metadata r) = 9 \<and>
      length (g_op g) \<le> unat (g_capacity g) \<and> length (g_op g) < 2 ^ 16"
    using engine_graph_eq [OF g] cap small by (simp add: engine_measure_def measure_metadata_def Let_def)
  have form: "compact_form (wg_body g)"
    using graph_arena_invD(6) [OF engine_invD(1) [OF inv] nth_mem graph_get_conv(3) [OF g]] graph_get_conv(2) [OF g] by simp
  let ?bytes = "canonical (wg_body g)"
  have ser: "serialize_wav1 (wg_body g) = (Ok ?bytes :: (_, engine_error) outcome)"
    using live(1) by (rule serialize_canonical)
  have "?bytes = wav1_header (wg_body g) @ wav1_nodes (g_op (wg_body g)) (g_arg0 (wg_body g)) (g_arg1 (wg_body g))"
    using live(1) by (simp add: canonical_def serialize_wav1_valid)
  then have des: "deserialize_wav1 ?bytes = Ok (wg_body g)" using deserialize_serialize [OF live(1)] by simp
  then show "\<exists>bytes. export_graph dbg e gid = Ok (wg_hash g, bytes) \<and> deserialize_wav1 bytes = Ok (wg_body g) \<and>
      root_body dbg (RootArtifact bytes) = Ok (wg_body g) \<and>
      wg_hash g = graph_hash blake3 (ga_engine_id (en_graphs e)) (ga_engine_version (en_graphs e)) bytes"
    using engine_graph_eq [OF g] ser compact_form_fixpoint [OF form] live(2)
    by (intro exI [of _ ?bytes]) (simp add: export_graph_def root_body_def body_hash_def)
qed

theorem engine_measure_export_witness:
  "\<exists>e h r bytes. engine_new True (\<lambda>b. b) sample_config = Ok e \<and>
     engine_measure True (en_root e) \<lparr> mo_config_hash = [], mo_samples = 1, mo_timeout_ms = None, mo_deterministic = True \<rparr> e = (e, Ok r) \<and>
     export_graph True e (en_root e) = Ok (h, bytes) \<and> deserialize_wav1 bytes = Ok idempotent_body"
proof -
  obtain e g where e: "engine_new True (\<lambda>b. b) sample_config = Ok e" "engine_inv True (\<lambda>b. b) e"
    "graph_get True (en_graphs e) (en_root e) = (Ok (Some g) :: (_, unit) outcome)" "wg_body g = idempotent_body"
    by (rule sample_engine)
  show ?thesis
    using engine_measure_export [OF e(2,3), of "\<lparr> mo_config_hash = [], mo_samples = 1, mo_timeout_ms = None, mo_deterministic = True \<rparr>"]
      e(1,4) by auto
qed

text \<open>
  Using a candidate on another graph. If a live candidate was enumerated on a graph with another
  hash, applying it and asking for its description both fail with \<open>StaleCandidate\<close>, which names both
  hashes and the candidate's own, and the engine is unchanged.
\<close>

theorem engine_stale_candidate:
  assumes inv: "engine_inv dbg blake3 e" and g: "graph_get dbg (en_graphs e) gid = (Ok (Some g) :: (_, unit) outcome)"
    and w: "cand_get dbg (en_candidates e) cid = (Ok (Some w) :: (_, unit) outcome)" "id_ok dbg cid"
    and other: "wc_graph_hash w \<noteq> wg_hash g"
  shows "\<exists>chash. candidate_hash blake3 (wc_graph_hash w) (en_action_set_hash e) (wc_raw w) = (Ok chash :: (_, unit) outcome) \<and>
    engine_apply dbg blake3 gid cid e = (e, Err (StaleCandidate (wc_graph_hash w) (wg_hash g) chash)) \<and>
    engine_candidate_info dbg blake3 e gid cid = Err (StaleCandidate (wc_graph_hash w) (wg_hash g) chash)"
proof -
  have "padded (wc_raw w)" using engine_invD(4) [OF inv] w unfolding cands_padded_def by blast
  then obtain chash where c: "candidate_hash blake3 (wc_graph_hash w) (en_action_set_hash e) (wc_raw w) = (Ok chash :: (_, unit) outcome)"
    using padded_hash by metis
  moreover from c have "candidate_hash blake3 (wc_graph_hash w) (en_action_set_hash e) (wc_raw w) = (Ok chash :: (_, engine_error) outcome)"
    by (rule candidate_hash_any)
  ultimately show ?thesis
    using engine_hash_eq [OF g] engine_candidate_eq [OF w(1)] other
    by (simp add: engine_apply_def engine_candidate_info_def)
qed

theorem engine_stale_candidate_witness:
  "\<exists>e e1 e2 ids r h k c. engine_new True (\<lambda>b. b) sample_config = Ok e \<and>
     enumerate_candidate_ids True (en_root e) None e = (e1, Ok ids) \<and>
     engine_apply True (\<lambda>b. b) (en_root e) (ids ! 0) e1 = (e2, Ok r) \<and>
     engine_apply True (\<lambda>b. b) (ar_after r) (ids ! 0) e2 = (e2, Err (StaleCandidate h k c)) \<and> h \<noteq> k"
proof -
  obtain e g where e0: "engine_new True (\<lambda>b. b) sample_config = Ok e" "engine_inv True (\<lambda>b. b) e"
    "graph_get True (en_graphs e) (en_root e) = (Ok (Some g) :: (_, unit) outcome)" "wg_body g = idempotent_body"
    "engine_fits True e"
    by (rule sample_engine_fits)
  obtain e1 ids where e1: "enumerate_candidate_ids True (en_root e) None e = (e1, Ok ids)" "ids \<noteq> []"
    "cand_get True (en_candidates e1) (ids ! 0) = (Ok (Some \<lparr> wc_graph_hash = wg_hash g, wc_raw = make_candidate AndIdempotent 1 [0] \<rparr>) :: (_, unit) outcome)"
    "engine_inv True (\<lambda>b. b) e1" "en_graphs e1 = en_graphs e"
    by (rule sample_enumerated [OF e0(1,3)])
  have g1: "graph_get True (en_graphs e1) (en_root e) = (Ok (Some g) :: (_, unit) outcome)"
    and room: "length (ga_items (en_graphs e1)) < SLOTS" "\<forall>h. graph_refs (en_graphs e1) h < refs_max"
    using e0(3,5) e1(5) by (simp_all add: engine_fits_def)
  obtain after where after: "apply_graph idempotent_body (make_candidate AndIdempotent 1 [0]) = Ok after" "after \<noteq> idempotent_body"
    by (rule sample_rewrite)
  have ok: "id_ok True (ids ! 0)" by (simp add: id_ok_def)
  then obtain e2 r f where r: "engine_apply True (\<lambda>b. b) (en_root e) (ids ! 0) e1 = (e2, Ok r)" "engine_inv True (\<lambda>b. b) e2"
    "en_candidates e2 = en_candidates e1" "graph_get True (en_graphs e2) (ar_after r) = (Ok (Some f) :: (_, unit) outcome)"
    "wg_body f = after" "same_frame e1 e2"
    using engine_apply_spec [OF _ e1(4) g1 e1(3) _ room] after(1) e0(4) by (auto simp: index_kept_def)
  have hash: "body_hash (\<lambda>b. b) (en_graphs e2) = body_hash (\<lambda>b. b) (en_graphs e1)"
    using r(6) by (auto simp: same_frame_def intro: body_hash_cong)
  note live = live_graph [OF engine_invD(1) [OF e1(4)] g1] live_graph [OF engine_invD(1) [OF r(2)] r(4)]
  have "wg_hash g \<noteq> wg_hash f"
    using body_hash_inj [OF _ live(1,3), of "\<lambda>b. b" "en_graphs e1"] live(2,4) hash e0(4) r(5) after(2) by auto
  then show ?thesis
    using engine_stale_candidate [OF r(2,4) _ ok] e0(1) e1(1,3) r(1,3) by fastforce
qed

end
