(* ===== verification/Whittle_Generator.thy ===== *)
theory Whittle_Generator
  imports Complex_Main Whittle_Engine
begin

text \<open>
  The generator of Whittle graphs, \<open>WhittleGraphGenerator\<close> of \<open>engine.rs\<close>: a random truth table with
  few exceptions is compiled to a disjunctive normal form, and the resulting circuit is walked away
  from by random rewrites. The random number generator (\<open>rand\<close>, \<open>rand_chacha\<close>) is a parameter: its
  state is threaded through, and \<open>rng_ranged\<close> states the ranges the code relies on. Shown:
  the seed circuit computes exactly the sampled truth table, when the seed fails or panics, when exactly
  the rejection sampling of assignments ends, and that a walk keeps the engine consistent and hands over one
  reference.
\<close>

section \<open>Configuration\<close>

record generator_config =
  gc_arity :: u16
  gc_capacity :: u16
  gc_terms_min :: u16
  gc_terms_max :: u16
  gc_steps_min :: u16
  gc_steps_max :: u16

definition generator_config_default :: generator_config where
  "generator_config_default =
     \<lparr> gc_arity = 6, gc_capacity = 256, gc_terms_min = 5, gc_terms_max = 7, gc_steps_min = 4, gc_steps_max = 64 \<rparr>"

datatype generator_config_error =
    ZeroArity
  | ArityTooLarge u16 u16
  | CapacityTooSmall
  | InvalidExceptionTermRange
  | ZeroExceptionTerms
  | InvalidPrewalkRange
  | SeedGraphExceedsCapacity

primrec generator_error_string :: "generator_config_error \<Rightarrow> string" where
  "generator_error_string ZeroArity = ''arity must be greater than zero''"
| "generator_error_string (ArityTooLarge limit actual) =
     ''arity must be <= '' @ show_nat (unat limit) @ '', got '' @ show_nat (unat actual)"
| "generator_error_string CapacityTooSmall = ''capacity must fit inputs and output''"
| "generator_error_string InvalidExceptionTermRange = ''exception term minimum must be <= maximum''"
| "generator_error_string ZeroExceptionTerms = ''exception term maximum must be positive''"
| "generator_error_string InvalidPrewalkRange = ''prewalk minimum must be <= maximum''"
| "generator_error_string SeedGraphExceedsCapacity = ''seed graph exceeds capacity''"

definition generator_error :: "generator_config_error \<Rightarrow> engine_error" where
  "generator_error error = internal_error 3 (generator_error_string error)"

text \<open>The sum \<open>arity + 1\<close> is computed after the bound on the arity, so it does not overflow.\<close>

definition generator_validate :: "generator_config \<Rightarrow> (generator_config, generator_config_error) outcome" where
  "generator_validate c =
     (if gc_arity c = 0 then Err ZeroArity
      else if 16 < gc_arity c then Err (ArityTooLarge 16 (gc_arity c))
      else if gc_capacity c < gc_arity c + 1 then Err CapacityTooSmall
      else if gc_terms_max c < gc_terms_min c then Err InvalidExceptionTermRange
      else if gc_terms_max c = 0 then Err ZeroExceptionTerms
      else if gc_steps_max c < gc_steps_min c then Err InvalidPrewalkRange
      else Ok c)"

section \<open>Randomness\<close>

text \<open>
  What the generator uses of \<open>rand\<close>: uniform integers in a range, a coin, and a target weight
  \<open>random_f64(rng) * total\<close>. Weights are multiples of one half, so their sums and the differences
  from the target are exact in \<open>f64\<close>; the rounded product is the only inexact step and part of the
  parameter.
\<close>

record 'r rng_ops =
  random_u16_inclusive :: "u16 \<Rightarrow> u16 \<Rightarrow> 'r \<Rightarrow> u16 \<times> 'r"
  random_u32_inclusive :: "u32 \<Rightarrow> u32 \<Rightarrow> 'r \<Rightarrow> u32 \<times> 'r"
  random_u32_exclusive :: "u32 \<Rightarrow> 'r \<Rightarrow> u32 \<times> 'r"
  random_bool :: "'r \<Rightarrow> bool \<times> 'r"
  random_target :: "rat \<Rightarrow> 'r \<Rightarrow> rat \<times> 'r"

text \<open>The documented ranges of the results.\<close>

definition rng_ranged :: "'r rng_ops \<Rightarrow> bool" where
  "rng_ranged R \<longleftrightarrow>
     (\<forall>low high r. low \<le> high \<longrightarrow> low \<le> fst (random_u16_inclusive R low high r) \<and> fst (random_u16_inclusive R low high r) \<le> high) \<and>
     (\<forall>low high r. low \<le> high \<longrightarrow> low \<le> fst (random_u32_inclusive R low high r) \<and> fst (random_u32_inclusive R low high r) \<le> high) \<and>
     (\<forall>high r. 0 < high \<longrightarrow> fst (random_u32_exclusive R high r) < high)"

section \<open>The seed circuit\<close>

text \<open>
  The rejection loop. It may run forever on a bad source of randomness; not returning is \<open>None\<close>. The
  set \<open>seen\<close> of the source always has the elements of the list \<open>selected\<close>.
\<close>

partial_function (option) sample_loop ::
    "'r rng_ops \<Rightarrow> u32 \<Rightarrow> nat \<Rightarrow> u32 list \<Rightarrow> 'r \<Rightarrow> (u32 list \<times> 'r) option"
where
  "sample_loop R bit_count term_count selected r =
     (if length selected < term_count
      then let (assignment, r') = random_u32_exclusive R bit_count r in
           sample_loop R bit_count term_count
             (if assignment \<in> set selected then selected else selected @ [assignment]) r'
      else Some (selected, r))"

declare sample_loop.simps [code]

definition sample_assignments :: "'r rng_ops \<Rightarrow> u32 \<Rightarrow> u32 \<Rightarrow> 'r \<Rightarrow> (u32 list \<times> 'r) option" where
  "sample_assignments R bit_count term_count r = sample_loop R bit_count (unat term_count) [] r"

text \<open>
  The arrays \<open>op\<close>, \<open>arg0\<close>, \<open>arg1\<close> under construction are those of a graph body; \<open>neg_ref\<close> remembers
  the negation of each input once it is built.
\<close>

definition seed_literal ::
    "u32 \<Rightarrow> nat \<Rightarrow> u32 option list \<times> graph_body \<Rightarrow> u32 \<times> (u32 option list \<times> graph_body)"
where
  "seed_literal assignment var s =
     (let (neg_ref, g) = s in
      if drop_bit var assignment AND 1 = 1 then (of_nat var, s)
      else case neg_ref ! var of
             Some node \<Rightarrow> (node, s)
           | None \<Rightarrow> (let (node, g') = append_node NotOp (of_nat var) NO_NODE g in (node, (neg_ref[var := Some node], g'))))"

fun seed_term ::
    "u32 \<Rightarrow> nat list \<Rightarrow> u32 option \<Rightarrow> u32 option list \<times> graph_body \<Rightarrow> u32 option \<times> (u32 option list \<times> graph_body)"
where
  "seed_term assignment [] term_root s = (term_root, s)"
| "seed_term assignment (var # vars) term_root s =
     (let (literal, (neg_ref, g)) = seed_literal assignment var s in
      case term_root of
        None \<Rightarrow> seed_term assignment vars (Some literal) (neg_ref, g)
      | Some term \<Rightarrow>
          (let (node, g') = append_node AndOp term literal g in seed_term assignment vars (Some node) (neg_ref, g')))"

fun seed_dnf ::
    "nat \<Rightarrow> u32 list \<Rightarrow> u32 option \<Rightarrow> u32 option list \<times> graph_body \<Rightarrow>
       (u32 option \<times> (u32 option list \<times> graph_body), 'e) outcome"
where
  "seed_dnf arity [] dnf_root s = Ok (dnf_root, s)"
| "seed_dnf arity (assignment # rest) dnf_root s =
     (case seed_term assignment [0..<arity] None s of
        (None, _) \<Rightarrow> Panic
      | (Some term, (neg_ref, g)) \<Rightarrow>
          (case dnf_root of
             None \<Rightarrow> seed_dnf arity rest (Some term) (neg_ref, g)
           | Some dnf \<Rightarrow>
               (let (node, g') = append_node OrOp dnf term g in seed_dnf arity rest (Some node) (neg_ref, g'))))"

definition seed_start :: "generator_config \<Rightarrow> graph_body" where
  "seed_start c =
     \<lparr> g_arity = gc_arity c, g_capacity = gc_capacity c, g_output = 0,
       g_op = replicate (unat (gc_arity c)) InputOp, g_arg0 = map of_nat [0..<unat (gc_arity c)],
       g_arg1 = replicate (unat (gc_arity c)) NO_NODE \<rparr>"

text \<open>The part of \<open>truth_table_seed\<close> after the sampling.\<close>

definition seed_body ::
    "generator_config \<Rightarrow> u32 list \<Rightarrow> bool \<Rightarrow> (graph_body, generator_config_error) outcome"
where
  "seed_body c selected exceptions_are_true =
     obind (seed_dnf (unat (gc_arity c)) selected None (replicate (unat (gc_arity c)) None, seed_start c)) (\<lambda>(dnf_root, _, g).
       case dnf_root of
         None \<Rightarrow> Panic
       | Some dnf \<Rightarrow>
           let (top, g) = (if exceptions_are_true then (dnf, g) else append_node NotOp dnf NO_NODE g);
               (output_node, g) = append_node OutputOp top NO_NODE g
           in if unat (gc_capacity c) < length (g_op g) then Err SeedGraphExceedsCapacity
              else map_err (\<lambda>_. SeedGraphExceedsCapacity)
                (obind (new_graph (gc_arity c) (gc_capacity c) output_node (g_op g) (g_arg0 g) (g_arg1 g)) compact_graph))"

definition truth_table_seed ::
    "'r rng_ops \<Rightarrow> generator_config \<Rightarrow> 'r \<Rightarrow> ('r \<times> (graph_body, generator_config_error) outcome) option"
where
  "truth_table_seed R c r =
     (let bit_count = push_bit (unat (gc_arity c)) (1 :: u32);
          max_terms = min (ucast (gc_terms_max c)) (bit_count div 2);
          min_terms = min (ucast (gc_terms_min c)) max_terms;
          (term_count, r) = random_u32_inclusive R min_terms max_terms r
      in case sample_assignments R bit_count term_count r of
           None \<Rightarrow> None
         | Some (selected, r) \<Rightarrow>
             (let (exceptions_are_true, r) = random_bool R r in Some (r, seed_body c selected exceptions_are_true)))"

section \<open>The walk\<close>

definition category_weight :: "u16 \<Rightarrow> rat" where
  "category_weight rule =
     (case from_u16 rule of
        Ok r \<Rightarrow> if r \<in> {CommuteAnd, CommuteOr, AssociateAndLeft, AssociateAndRight, AssociateOrLeft, AssociateOrRight,
                   ConsensusOrAdd, ConsensusOrRemove, ConsensusAndAdd, ConsensusAndRemove} then 1 / 2 else 1
      | _ \<Rightarrow> 1)"

fun pick_weighted :: "rat \<Rightarrow> raw_candidate list \<Rightarrow> raw_candidate option" where
  "pick_weighted target [] = None"
| "pick_weighted target (candidate # rest) =
     (let weight = category_weight (rc_rule candidate) in
      if target \<le> weight then Some candidate else pick_weighted (target - weight) rest)"

definition choose_prewalk_candidate ::
    "'r rng_ops \<Rightarrow> raw_candidate list \<Rightarrow> u16 option \<Rightarrow> 'r \<Rightarrow> raw_candidate option \<times> 'r"
where
  "choose_prewalk_candidate R candidates blocked_rule r =
     (let open_candidates = filter (\<lambda>candidate. Some (rc_rule candidate) \<noteq> blocked_rule) candidates;
          total = sum_list (map (\<lambda>candidate. category_weight (rc_rule candidate)) open_candidates)
      in if total \<le> 0 then (None, r)
         else let (target, r) = random_target R total r in
              (case pick_weighted target open_candidates of
                 Some candidate \<Rightarrow> (Some candidate, r)
               | None \<Rightarrow> (case rev open_candidates of [] \<Rightarrow> (None, r) | candidate # _ \<Rightarrow> (Some candidate, r))))"

record 'r prewalk =
  pw_graph :: slot_id
  pw_body :: graph_body
  pw_created :: "slot_id list"
  pw_last_rule :: "u16 option"
  pw_applied :: u16
  pw_rng :: 'r

text \<open>The \<open>for\<close> loop of the walk; it ends early when no candidate is left.\<close>

fun prewalk_loop ::
    "bool \<Rightarrow> (u8 list \<Rightarrow> digest) \<Rightarrow> 'r rng_ops \<Rightarrow> nat \<Rightarrow> 'r prewalk \<times> engine \<Rightarrow>
       ('r prewalk \<times> engine) \<times> (unit, engine_error) outcome"
where
  "prewalk_loop dbg blake3 R 0 s = (s, Ok ())"
| "prewalk_loop dbg blake3 R (Suc steps) s =
     (let (w, e) = s;
          blocked_rule = Option.bind (pw_last_rule w) inverse_rule_id
      in sbind (slift (map_err internal_rule (enumerate_graph (pw_body w) True)) s) (\<lambda>candidates _.
         let (chosen, r) = choose_prewalk_candidate R candidates blocked_rule (pw_rng w); w = w \<lparr> pw_rng := r \<rparr> in
         case chosen of
           None \<Rightarrow> ((w, e), Ok ())
         | Some candidate \<Rightarrow>
             sbind (slift (map_err internal_rule (apply_graph (pw_body w) candidate)) (w, e)) (\<lambda>body _.
             let w = w \<lparr> pw_body := body \<rparr>; (gs, inserted) = graph_insert dbg blake3 body (en_graphs e); e = e \<lparr> en_graphs := gs \<rparr> in
             sbind (slift (map_err internal_graph inserted) (w, e)) (\<lambda>graph _.
               prewalk_loop dbg blake3 R steps
                 (w \<lparr> pw_graph := graph, pw_created := pw_created w @ [graph], pw_last_rule := Some (rc_rule candidate),
                      pw_applied := pw_applied w + 1 \<rparr>, e)))))"

record generated_graph =
  gn_graph :: slot_id
  gn_seed_graph :: slot_id
  gn_steps_requested :: u16
  gn_steps_applied :: u16
  gn_start_cost :: u32
  gn_final_cost :: u32

definition sample_with_created_graphs ::
    "bool \<Rightarrow> (u8 list \<Rightarrow> digest) \<Rightarrow> 'r rng_ops \<Rightarrow> generator_config \<Rightarrow> 'r \<times> engine \<Rightarrow>
       (('r \<times> engine) \<times> (generated_graph \<times> slot_id list, engine_error) outcome) option"
where
  "sample_with_created_graphs dbg blake3 R config s =
     (let (r, e) = s in
      case generator_validate config of
        Err error \<Rightarrow> Some (s, Err (generator_error error))
      | Panic \<Rightarrow> Some (s, Panic)
      | Ok c \<Rightarrow>
          (case truth_table_seed R c r of
             None \<Rightarrow> None
           | Some (r, seeded) \<Rightarrow> Some (
               sbind (slift (map_err generator_error seeded) (r, e)) (\<lambda>seed_body _.
               let (gs, inserted) = graph_insert dbg blake3 seed_body (en_graphs e); e = e \<lparr> en_graphs := gs \<rparr> in
               sbind (slift (map_err internal_graph inserted) (r, e)) (\<lambda>seed_graph _.
               sbind (slift (engine_graph dbg e seed_graph) (r, e)) (\<lambda>seed _.
               let (steps, r) = random_u16_inclusive R (gc_steps_min c) (gc_steps_max c) r;
                   w = \<lparr> pw_graph = seed_graph, pw_body = wg_body seed, pw_created = [seed_graph], pw_last_rule = None,
                         pw_applied = 0, pw_rng = r \<rparr>;
                   ((w, e), walked) = prewalk_loop dbg blake3 R (unat steps) (w, e)
               in sbind (slift walked (pw_rng w, e)) (\<lambda>_ s.
                  sbind (slift (engine_graph dbg e (pw_graph w)) s) (\<lambda>final s.
                    (s, Ok (\<lparr> gn_graph = pw_graph w, gn_seed_graph = seed_graph, gn_steps_requested = steps,
                              gn_steps_applied = pw_applied w, gn_start_cost = wg_cost seed, gn_final_cost = wg_cost final \<rparr>,
                            pw_created w))))))))))"

definition sample_into ::
    "bool \<Rightarrow> (u8 list \<Rightarrow> digest) \<Rightarrow> 'r rng_ops \<Rightarrow> generator_config \<Rightarrow> 'r \<times> engine \<Rightarrow>
       (('r \<times> engine) \<times> (generated_graph, engine_error) outcome) option"
where
  "sample_into dbg blake3 R config s =
     map_option (\<lambda>(s, q). (s, obind q (\<lambda>(generated, _). Ok generated))) (sample_with_created_graphs dbg blake3 R config s)"

definition sample_root_into ::
    "bool \<Rightarrow> (u8 list \<Rightarrow> digest) \<Rightarrow> 'r rng_ops \<Rightarrow> generator_config \<Rightarrow> 'r \<times> engine \<Rightarrow>
       (('r \<times> engine) \<times> (slot_id, engine_error) outcome) option"
where
  "sample_root_into dbg blake3 R config s =
     map_option (\<lambda>(s, q). sbind (s, q) (\<lambda>(generated, created) (r, e).
       let (e, released) = engine_release dbg (take (length created - 1) created) [] e
       in ((r, e), obind released (\<lambda>_. Ok (gn_graph generated))))) (sample_with_created_graphs dbg blake3 R config s)"

section \<open>What the seed circuit computes\<close>

text \<open>
  The state of the construction: the inputs are in place, every node has a value, and each remembered
  negation is one.
\<close>

definition seed_ok :: "nat \<Rightarrow> u32 option list \<times> graph_body \<Rightarrow> bool" where
  "seed_ok n s \<longleftrightarrow>
     (let (neg_ref, g) = s in
      same_len g \<and> length neg_ref = n \<and> n \<le> length (g_op g) \<and> n \<le> 16 \<and>
      (\<forall>v < n. g_op g ! v = InputOp \<and> g_arg0 g ! v = of_nat v) \<and> (\<forall>i < length (g_op g). grounded g i) \<and>
      (\<forall>v < n. \<forall>x. neg_ref ! v = Some x \<longrightarrow> (\<forall>env. evals g env (unat x) (\<not> env (of_nat v)))))"

lemma seed_okD:
  assumes "seed_ok n (neg_ref, g)"
  shows "same_len g" "length neg_ref = n" "n \<le> length (g_op g)" "n \<le> 16"
    "v < n \<Longrightarrow> g_op g ! v = InputOp" "v < n \<Longrightarrow> g_arg0 g ! v = of_nat v" "i < length (g_op g) \<Longrightarrow> grounded g i"
    "v < n \<Longrightarrow> neg_ref ! v = Some x \<Longrightarrow> evals g env (unat x) (\<not> env (of_nat v))"
  using assms unfolding seed_ok_def by auto

lemma unat_small [simp]: "n < 65536 \<Longrightarrow> unat (of_nat n :: u32) = n"
  by (simp add: unsigned_of_nat take_bit_nat_eq_self)

lemma seed_input_evals: "seed_ok n (neg_ref, g) \<Longrightarrow> v < n \<Longrightarrow> evals g env (unat (of_nat v :: u32)) (env (of_nat v))"
  using evals_inputI [of v g env] seed_okD [of n neg_ref g] by simp

text \<open>Appending a node that has a value keeps the state.\<close>

lemma seed_append:
  assumes s: "seed_ok n (neg_ref, g)" and app: "append_node code a b g = (x, g')" and small: "length (g_op g') < 65536"
    and x: "\<And>env. \<exists>c. evals g' env (unat x) c"
  shows "seed_ok n (neg_ref, g')" "extends g g'"
proof -
  note old = seed_okD [OF s]
  note spec = append_node_spec [OF app old(1)]
  show ext: "extends g g'" by (rule spec(1))
  have "grounded g' i" if "i < length (g_op g')" for i
  proof (cases "i < length (g_op g)")
    case True
    then show ?thesis using old(7) ext extends_grounded by blast
  next
    case False
    then have "i = unat x" using that spec(3,4) small by simp
    then show ?thesis using x evals_grounded by blast
  qed
  moreover have "g_op g' ! v = InputOp \<and> g_arg0 g' ! v = of_nat v" if "v < n" for v
    using ext old(3,5,6) that by (simp add: extends_def)
  moreover have "evals g' env (unat y) (\<not> env (of_nat v))" if "v < n" "neg_ref ! v = Some y" for v y env
    using extends_evals [OF old(8) [OF that] ext] .
  ultimately show "seed_ok n (neg_ref, g')" using old(2,3,4) spec(2,3) by (simp add: seed_ok_def)
qed

lemma seed_literal_step:
  assumes s: "seed_ok n (neg_ref, g)" and v: "v < n" and lit: "seed_literal a v (neg_ref, g) = (x, (neg_ref', g'))"
    and small: "length (g_op g') < 65536"
  shows "seed_ok n (neg_ref', g')" "extends g g'" "evals g' env (unat x) (env (of_nat v) = bit a v)"
proof -
  have bit: "drop_bit v a AND 1 = 1 \<longleftrightarrow> bit a v" by (simp add: bit_iff_and_drop_bit_eq_1 and.commute)
  have "seed_ok n (neg_ref', g') \<and> extends g g' \<and> (\<forall>env. evals g' env (unat x) (env (of_nat v) = bit a v))"
  proof (cases "bit a v")
    case True
    then have "x = of_nat v" "neg_ref' = neg_ref" "g' = g" using lit by (simp_all add: seed_literal_def bit)
    then show ?thesis using s seed_input_evals [OF s v] True by simp
  next
    case F: False
    show ?thesis
    proof (cases "neg_ref ! v")
      case (Some y)
      then have "x = y" "neg_ref' = neg_ref" "g' = g" using lit F by (simp_all add: seed_literal_def bit)
      then show ?thesis using s seed_okD(8) [OF s v Some] F by simp
    next
      case None
      then have app: "append_node NotOp (of_nat v) NO_NODE g = (x, g')" and neg: "neg_ref' = neg_ref[v := Some x]"
        using lit F by (auto simp: seed_literal_def bit split: prod.splits)
      have len: "length (g_op g) < 65536" using append_node_spec(3) [OF app seed_okD(1) [OF s]] small by simp
      have ev: "evals g' env (unat x) (\<not> env (of_nat v))" for env
        by (rule append_node_evals(2) [OF app seed_okD(1) [OF s] len refl seed_input_evals [OF s v]])
      have new: "seed_ok n (neg_ref, g')" "extends g g'" using seed_append [OF s app small] ev by blast+
      then have "seed_ok n (neg_ref', g')"
        using ev seed_okD(2) [OF s] v by (auto simp: seed_ok_def neg nth_list_update split: if_splits)
      then show ?thesis using new(2) ev F by simp
    qed
  qed
  then show "seed_ok n (neg_ref', g')" "extends g g'" "evals g' env (unat x) (env (of_nat v) = bit a v)" by auto
qed

text \<open>The nodes only grow, so the bound on the final length bounds every intermediate one.\<close>

lemma seed_literal_grows: "seed_literal a v (neg_ref, g) = (x, (neg_ref', g')) \<Longrightarrow> length (g_op g) \<le> length (g_op g')"
  by (auto simp: seed_literal_def append_node_def split: if_splits option.splits)

lemma seed_term_grows: "seed_term a vs t (neg_ref, g) = (t', (neg_ref', g')) \<Longrightarrow> length (g_op g) \<le> length (g_op g')"
proof (induction vs arbitrary: t neg_ref g)
  case (Cons v vs)
  obtain x neg h where lit: "seed_literal a v (neg_ref, g) = (x, (neg, h))" by (metis prod.exhaust)
  have "length (g_op h) \<le> length (g_op g')"
    using Cons lit by (fastforce simp: append_node_def split: option.splits)
  then show ?case using seed_literal_grows [OF lit] by simp
qed simp

definition term_value :: "u32 \<Rightarrow> nat set \<Rightarrow> (u32 \<Rightarrow> bool) \<Rightarrow> bool" where
  "term_value a V env = (\<forall>v \<in> V. env (of_nat v) = bit a v)"

lemma seed_term_step:
  assumes "seed_ok n (neg_ref, g)" "set vs \<subseteq> {..<n}" "seed_term a vs t (neg_ref, g) = (t', (neg_ref', g'))"
    and "length (g_op g') < 65536" and "\<And>env x. t = Some x \<Longrightarrow> evals g env (unat x) (term_value a V env)" "t = None \<longleftrightarrow> V = {}"
  shows "seed_ok n (neg_ref', g') \<and> extends g g' \<and> (t' = None \<longleftrightarrow> V \<union> set vs = {}) \<and>
    (\<forall>env x. t' = Some x \<longrightarrow> evals g' env (unat x) (term_value a (V \<union> set vs) env))"
  using assms
proof (induction vs arbitrary: t neg_ref g V)
  case Nil
  then show ?case by simp
next
  case (Cons v vs)
  obtain x neg h where lit: "seed_literal a v (neg_ref, g) = (x, (neg, h))" by (metis prod.exhaust)
  have v: "v < n" "set vs \<subseteq> {..<n}" using Cons.prems(2) by auto
  have both: "term_value a (insert v V) env = (term_value a V env \<and> (env (of_nat v) = bit a v))" for env
    by (auto simp: term_value_def)
  show ?case
  proof (cases t)
    case None
    then have rest: "seed_term a vs (Some x) (neg, h) = (t', (neg_ref', g'))" "V = {}" using Cons.prems(3,6) lit by auto
    then have "length (g_op h) < 65536" using seed_term_grows Cons.prems(4) by fastforce
    note one = seed_literal_step [OF Cons.prems(1) v(1) lit this]
    have "seed_ok n (neg_ref', g') \<and> extends h g' \<and> (t' = None \<longleftrightarrow> {v} \<union> set vs = {}) \<and>
      (\<forall>env x. t' = Some x \<longrightarrow> evals g' env (unat x) (term_value a ({v} \<union> set vs) env))"
      by (rule Cons.IH [OF one(1) v(2) rest(1) Cons.prems(4)]) (use one(3) in \<open>simp_all add: term_value_def\<close>)
    then show ?thesis using rest(2) one(2) extends_trans by auto
  next
    case (Some y)
    obtain z h' where app: "append_node AndOp y x h = (z, h')" by (metis prod.exhaust)
    then have rest: "seed_term a vs (Some z) (neg, h') = (t', (neg_ref', g'))" using Cons.prems(3) lit Some by simp
    then have small': "length (g_op h') < 65536" using seed_term_grows Cons.prems(4) by fastforce
    then have small: "length (g_op h) < 65536" using app by (auto simp: append_node_def)
    note one = seed_literal_step [OF Cons.prems(1) v(1) lit small]
    have ev: "evals h' env (unat z) (term_value a (insert v V) env)" for env
      using append_node_evals(3) [OF app seed_okD(1) [OF one(1)] small refl
          extends_evals [OF Cons.prems(5) [OF Some] one(2)] one(3), of env] by (simp add: both)
    have two': "seed_ok n (neg, h')" "extends h h'" using seed_append [OF one(1) app small'] ev by blast+
    have "seed_ok n (neg_ref', g') \<and> extends h' g' \<and> (t' = None \<longleftrightarrow> insert v V \<union> set vs = {}) \<and>
      (\<forall>env x. t' = Some x \<longrightarrow> evals g' env (unat x) (term_value a (insert v V \<union> set vs) env))"
      by (rule Cons.IH [OF two'(1) v(2) rest Cons.prems(4)]) (use ev in simp_all)
    then show ?thesis using one(2) two'(2) extends_trans by auto
  qed
qed

text \<open>The assignment that an environment picks among the rows of the truth table.\<close>

definition row_selected :: "nat \<Rightarrow> u32 list \<Rightarrow> (u32 \<Rightarrow> bool) \<Rightarrow> bool" where
  "row_selected n selected env = list_ex (\<lambda>a. list_all (\<lambda>v. env (of_nat v) = bit a v) [0..<n]) selected"


lemma row_selected_snoc: "row_selected n (xs @ [a]) env = (row_selected n xs env \<or> term_value a (set [0..<n]) env)"
  by (auto simp: row_selected_def term_value_def list_all_iff)

lemma seed_dnf_grows:
  "(seed_dnf n as d (neg_ref, g) :: (_, 'e) outcome) = Ok (d', (neg_ref', g')) \<Longrightarrow> length (g_op g) \<le> length (g_op g')"
proof (induction as arbitrary: d neg_ref g)
  case (Cons a as)
  obtain t neg h where run: "seed_term a [0..<n] None (neg_ref, g) = (t, (neg, h))" by (metis prod.exhaust)
  then have "length (g_op h) \<le> length (g_op g')"
    using Cons by (fastforce simp: append_node_def split: option.splits)
  then show ?case using seed_term_grows [OF run] by simp
qed simp

lemma seed_dnf_step:
  assumes "seed_ok n (neg_ref, g)" "0 < n" "(seed_dnf n as d (neg_ref, g) :: (_, 'e) outcome) = Ok (d', (neg_ref', g'))"
    and "length (g_op g') < 65536" and "\<And>env x. d = Some x \<Longrightarrow> evals g env (unat x) (row_selected n done env)" "d = None \<longleftrightarrow> done = []"
  shows "seed_ok n (neg_ref', g') \<and> extends g g' \<and> (d' = None \<longleftrightarrow> done @ as = []) \<and>
    (\<forall>env x. d' = Some x \<longrightarrow> evals g' env (unat x) (row_selected n (done @ as) env))"
  using assms
proof (induction as arbitrary: d neg_ref g "done")
  case Nil
  then show ?case by simp
next
  case (Cons a as)
  obtain t neg h where run: "seed_term a [0..<n] None (neg_ref, g) = (t, (neg, h))" by (metis prod.exhaust)
  with Cons.prems(3) obtain x where t: "t = Some x" by (cases t) auto
  have grow: "length (g_op h) \<le> length (g_op g')"
    using Cons.prems(3) run t seed_dnf_grows [where 'e = 'e] by (fastforce simp: append_node_def split: option.splits)
  then have small: "length (g_op h) < 65536" using Cons.prems(4) by simp
  have "set [0..<n] \<subseteq> {..<n}" by auto
  from seed_term_step [OF Cons.prems(1) this run small, of "{}"] t
  have one: "seed_ok n (neg, h)" "extends g h" "evals h env (unat x) (term_value a (set [0..<n]) env)" for env by auto
  show ?case
  proof (cases d)
    case None
    then have rest: "(seed_dnf n as (Some x) (neg, h) :: (_, 'e) outcome) = Ok (d', (neg_ref', g'))" "done = []"
      using Cons.prems(3,6) run t by auto
    have "seed_ok n (neg_ref', g') \<and> extends h g' \<and> (d' = None \<longleftrightarrow> [a] @ as = []) \<and>
      (\<forall>env x. d' = Some x \<longrightarrow> evals g' env (unat x) (row_selected n ([a] @ as) env))"
      by (rule Cons.IH [OF one(1) Cons.prems(2) rest(1) Cons.prems(4)])
        (use one(3) row_selected_snoc [of n "[]"] in \<open>simp_all add: row_selected_def\<close>)
    then show ?thesis using rest(2) one(2) extends_trans by auto
  next
    case (Some y)
    obtain z h' where app: "append_node OrOp y x h = (z, h')" by (metis prod.exhaust)
    then have rest: "(seed_dnf n as (Some z) (neg, h') :: (_, 'e) outcome) = Ok (d', (neg_ref', g'))" using Cons.prems(3) run t Some by simp
    then have small': "length (g_op h') < 65536" using seed_dnf_grows Cons.prems(4) by fastforce
    have ev: "evals h' env (unat z) (row_selected n (done @ [a]) env)" for env
      using append_node_evals(4) [OF app seed_okD(1) [OF one(1)] small refl
          extends_evals [OF Cons.prems(5) [OF Some] one(2)] one(3), of env] by (simp add: row_selected_snoc)
    have two: "seed_ok n (neg, h')" "extends h h'" using seed_append [OF one(1) app small'] ev by blast+
    have "seed_ok n (neg_ref', g') \<and> extends h' g' \<and> (d' = None \<longleftrightarrow> (done @ [a]) @ as = []) \<and>
      (\<forall>env x. d' = Some x \<longrightarrow> evals g' env (unat x) (row_selected n ((done @ [a]) @ as) env))"
      by (rule Cons.IH [OF two(1) Cons.prems(2) rest Cons.prems(4)]) (use ev in simp_all)
    then show ?thesis using one(2) two(2) extends_trans by auto
  qed
qed

lemma seed_dnf_total:
  assumes "0 < n"
  shows "\<exists>d' s'. (seed_dnf n as d s :: (_, 'e) outcome) = Ok (d', s') \<and> (d' = None \<longleftrightarrow> d = None \<and> as = [])"
proof (induction as arbitrary: d s)
  case (Cons a as)
  have some: "fst (seed_term a vs (Some x) u) \<noteq> None" for vs x u
    by (induction vs arbitrary: x u) (auto split: prod.splits)
  have "[0..<n] = 0 # [1..<n]" using assms by (simp add: upt_rec)
  then have "fst (seed_term a [0..<n] None s) \<noteq> None" using some by (simp split: prod.splits)
  then obtain x neg h where "seed_term a [0..<n] None s = (Some x, (neg, h))" by (metis option.exhaust prod.exhaust prod.sel(1))
  moreover have "\<exists>d' s'. (seed_dnf n as (Some y) u :: (_, 'e) outcome) = Ok (d', s') \<and> d' \<noteq> None" for y u
    using Cons.IH [of "Some y" u] by simp
  ultimately show ?case by (cases d) (simp_all add: split_beta)
qed simp

lemma generator_validate_Ok:
  assumes "generator_validate c = Ok d"
  shows "d = c" "0 < unat (gc_arity c)" "unat (gc_arity c) \<le> 16" "gc_terms_min c \<le> gc_terms_max c" "gc_terms_max c \<noteq> 0"
    "gc_steps_min c \<le> gc_steps_max c"
  using assms unfolding generator_validate_def
  by (auto simp: word_le_nat_alt word_less_nat_alt unat_gt_0 not_less split: if_splits)

lemma seed_start_ok:
  assumes "0 < unat (gc_arity c)" "unat (gc_arity c) \<le> 16"
  shows "seed_ok (unat (gc_arity c)) (replicate (unat (gc_arity c)) None, seed_start c)"
proof -
  have "evals (seed_start c) env i (env (g_arg0 (seed_start c) ! i))" if "i < unat (gc_arity c)" for env i
    using that by (intro evals_inputI) (simp_all add: seed_start_def)
  then have "grounded (seed_start c) i" if "i < unat (gc_arity c)" for i using that evals_grounded by blast
  then show ?thesis using assms by (simp add: seed_ok_def) (simp add: seed_start_def same_len_def)
qed

lemma grounded_closed:
  assumes "\<forall>i < length (g_op g). grounded g i" "unat (g_output g) < length (g_op g)"
  shows "closed_refs g" "\<forall>i \<in> reach g. grounded g i"
proof -
  have "grounded g i" if "i \<in> reach g" for i
    using that assms grounded_rtrancl unfolding reach_def by blast
  then show "\<forall>i \<in> reach g. grounded g i" by blast
  then show "closed_refs g" using grounded_in_range unfolding closed_refs_def by blast
qed

lemma evals_output_cong: "evals g env i b \<Longrightarrow> evals (g \<lparr> g_output := x \<rparr>) env i b"
proof (induction rule: evals.induct)
  case (node i vs b)
  have same: "succs (g \<lparr> g_output := x \<rparr>) i = succs g i" "node_value (g \<lparr> g_output := x \<rparr>) env i vs = node_value g env i vs"
    by (simp_all add: succs_def args_of_def node_value_def cong: op_code.case_cong)
  show ?case by (rule evals.node [where vs = vs]) (use node same in \<open>auto simp: list_all2_conv_all_nth\<close>)
qed

lemma append_output_evals:
  assumes "append_node OutputOp a b g = (x, g')" "same_len g" "length (g_op g) < 65536" "evals g env (unat a) u"
  shows "evals g' env (unat x) u"
proof (rule evals.node [where vs = "[u]"])
  note app = append_node_spec [OF assms(1,2)]
  have x: "unat x = length (g_op g)" using app(4) assms(3) by simp
  show "unat x < length (g_op g')" using app(3) x by simp
  show "list_all2 (evals g' env) (succs g' (unat x)) [u]"
    using app(5,6) extends_evals [OF assms(4) app(1)] by (simp add: x succs_simps)
  show "u = node_value g' env (unat x) [u]" using app(5) by (simp add: x node_value_def)
qed

text \<open>Nodes built so far and negations that may still be built.\<close>

definition seed_size :: "u32 option list \<times> graph_body \<Rightarrow> nat" where
  "seed_size s = length (g_op (snd s)) + length (filter (\<lambda>x. x = None) (fst s))"

lemma filter_None_update:
  "v < length xs \<Longrightarrow> xs ! v = None \<Longrightarrow> Suc (length (filter (\<lambda>x. x = None) (xs[v := Some y]))) = length (filter (\<lambda>x. x = None) xs)"
proof (induction xs arbitrary: v)
  case (Cons x xs)
  then show ?case by (cases v) auto
qed simp

lemma seed_literal_size:
  "v < length (fst s) \<Longrightarrow> seed_literal a v s = (x, s') \<Longrightarrow> seed_size s' = seed_size s \<and> length (fst s') = length (fst s)"
  using filter_None_update [of v "fst s"]
  by (auto simp: seed_literal_def seed_size_def append_node_def split: if_splits option.splits prod.splits)

lemma seed_term_size:
  "set vs \<subseteq> {..<length (fst s)} \<Longrightarrow> seed_term a vs t s = (t', s') \<Longrightarrow>
     length (fst s') = length (fst s) \<and>
     seed_size s' + (if t = None \<and> vs \<noteq> [] then 1 else 0) = seed_size s + length vs"
proof (induction vs arbitrary: t s)
  case (Cons v vs)
  obtain x neg h where lit: "seed_literal a v s = (x, (neg, h))" by (metis prod.exhaust)
  have one: "seed_size (neg, h) = seed_size s" "length neg = length (fst s)" using seed_literal_size [OF _ lit] Cons.prems(1) by auto
  show ?case
  proof (cases t)
    case None
    then have "seed_term a vs (Some x) (neg, h) = (t', s')" using Cons.prems(2) lit by simp
    then show ?thesis using Cons.IH [of "(neg, h)" "Some x"] Cons.prems(1) one None by simp
  next
    case (Some y)
    obtain z h' where app: "append_node AndOp y x h = (z, h')" by (metis prod.exhaust)
    then have rest: "seed_term a vs (Some z) (neg, h') = (t', s')" using Cons.prems(2) lit Some by simp
    have "seed_size (neg, h') = Suc (seed_size (neg, h))" using app by (auto simp: seed_size_def append_node_def)
    then show ?thesis using Cons.IH [of "(neg, h')" "Some z", OF _ rest] Cons.prems(1) one Some by simp
  qed
qed simp

lemma seed_dnf_size:
  assumes "length (fst s) = n" "0 < n" "(seed_dnf n as d s :: (_, 'e) outcome) = Ok (d', s')"
  shows "seed_size s' \<le> seed_size s + n * length as"
  using assms
proof (induction as arbitrary: d s)
  case (Cons a as)
  obtain t neg h where run: "seed_term a [0..<n] None s = (t, (neg, h))" by (metis prod.exhaust)
  with Cons.prems(3) obtain x where t: "t = Some x" by (cases t) auto
  have one: "length neg = n" "seed_size (neg, h) + 1 = seed_size s + n"
    using seed_term_size [of "[0..<n]" s a None t "(neg, h)"] run Cons.prems(1,2) by (auto simp: lessThan_atLeast0)
  show ?case
  proof (cases d)
    case None
    then have "(seed_dnf n as (Some x) (neg, h) :: (_, 'e) outcome) = Ok (d', s')" using Cons.prems(3) run t by simp
    then show ?thesis using Cons.IH [of "(neg, h)" "Some x"] Cons.prems(2) one by simp
  next
    case (Some y)
    obtain z h' where app: "append_node OrOp y x h = (z, h')" by (metis prod.exhaust)
    then have rest: "(seed_dnf n as (Some z) (neg, h') :: (_, 'e) outcome) = Ok (d', s')" using Cons.prems(3) run t Some by simp
    have "seed_size (neg, h') = Suc (seed_size (neg, h))" using app by (auto simp: seed_size_def append_node_def)
    then show ?thesis using Cons.IH [of "(neg, h')" "Some z", OF _ _ rest] Cons.prems(2) one by simp
  qed
qed simp

text \<open>The circuit after sampling: it computes the truth table or does not fit.\<close>

lemma seed_body_spec:
  assumes c: "generator_validate c = Ok c" and sel: "selected \<noteq> []"
  obtains (exceeds) "seed_body c selected t = Err SeedGraphExceedsCapacity"
      "unat (gc_capacity c) < 2 * unat (gc_arity c) + unat (gc_arity c) * length selected + 2"
  | (seed) body where "seed_body c selected t = Ok body" "compact_form body" "well_founded body"
      "g_arity body = gc_arity c" "g_capacity body = gc_capacity c"
      "\<forall>env b. denotes body env b \<longleftrightarrow> b = (row_selected (unat (gc_arity c)) selected env = t)"
proof -
  let ?n = "unat (gc_arity c)"
  note val = generator_validate_Ok [OF c]
  obtain d neg g where dnf: "(seed_dnf ?n selected None (replicate ?n None, seed_start c) :: (_, generator_config_error) outcome) = Ok (Some d, (neg, g))"
    using seed_dnf_total [OF val(2), of selected None "(replicate ?n None, seed_start c)", where 'e = generator_config_error] sel
    by (metis option.exhaust prod.exhaust)
  obtain top g1 where top: "(if t then (d, g) else append_node NotOp d NO_NODE g) = (top, g1)" by (metis prod.exhaust)
  obtain out g2 where out: "append_node OutputOp top NO_NODE g1 = (out, g2)" by (metis prod.exhaust)
  show thesis
  proof (cases "unat (gc_capacity c) < length (g_op g2)")
    case True
    have "seed_size (neg, g) \<le> seed_size (replicate ?n None, seed_start c) + ?n * length selected"
      by (rule seed_dnf_size [OF _ val(2) dnf]) simp
    moreover have "length (g_op g2) \<le> length (g_op g) + 2"
      using top out by (auto simp: append_node_def split: if_splits)
    ultimately have "unat (gc_capacity c) < 2 * ?n + ?n * length selected + 2"
      using True by (simp add: seed_size_def seed_start_def)
    then show ?thesis using exceeds True dnf top out by (simp add: seed_body_def)
  next
    case fits: False
    have small2: "length (g_op g2) < 65536" using fits unsigned_less [of "gc_capacity c", where 'a = nat] by simp
    have small1: "length (g_op g1) < 65536" using out small2 by (auto simp: append_node_def)
    have small: "length (g_op g) < 65536" using top small1 by (auto simp: append_node_def split: if_splits)
    have ok: "seed_ok ?n (neg, g)" and ext: "extends (seed_start c) g" and ev: "\<And>env. evals g env (unat d) (row_selected ?n selected env)"
      using seed_dnf_step [OF seed_start_ok [OF val(2,3)] val(2) dnf small, of "[]"] by auto
    have one: "seed_ok ?n (neg, g1) \<and> extends g g1 \<and> (\<forall>env. evals g1 env (unat top) (row_selected ?n selected env = t))"
    proof (cases t)
      case True
      then show ?thesis using top ok ev by simp
    next
      case False
      then have app: "append_node NotOp d NO_NODE g = (top, g1)" using top by simp
      have e1: "evals g1 env (unat top) (\<not> row_selected ?n selected env)" for env
        by (rule append_node_evals(2) [OF app seed_okD(1) [OF ok] small refl ev])
      then show ?thesis using seed_append [OF ok app small1] False by auto
    qed
    then have ok1: "seed_ok ?n (neg, g1)" and ev1: "\<And>env. evals g1 env (unat top) (row_selected ?n selected env = t)" by auto
    have ev2: "evals g2 env (unat out) (row_selected ?n selected env = t)" for env
      by (rule append_output_evals [OF out seed_okD(1) [OF ok1] small1 ev1])
    have two: "seed_ok ?n (neg, g2)" "extends g1 g2" using seed_append [OF ok1 out small2] ev2 by blast+
    have frame: "g_arity g2 = gc_arity c" "g_capacity g2 = gc_capacity c"
      using ext one two(2) by (auto simp: extends_def seed_start_def)
    let ?b = "g2 \<lparr> g_output := out \<rparr>"
    have "unat out < length (g_op g2)" using ev2 evals_in_range by blast
    then have valid: "valid_graph ?b"
      using seed_okD [OF two(1)] fits frame val(2) by (auto simp: valid_graph_def same_len_def)
    then have new: "new_graph (gc_arity c) (gc_capacity c) out (g_op g2) (g_arg0 g2) (g_arg1 g2) = Ok ?b"
      using frame by (cases g2) (simp add: new_graph_def Let_def)
    have ground: "\<forall>i < length (g_op ?b). grounded ?b i"
      using seed_okD(7) [OF two(1)] evals_output_cong evals_grounded grounded_evals [of g2 _ "\<lambda>_. True"] by fastforce
    note closed = grounded_closed [OF ground]
    have cl: "closed_refs ?b" "\<forall>i \<in> reach ?b. grounded ?b i" using closed \<open>unat out < length (g_op g2)\<close> by simp_all
    obtain body where body: "compact_graph ?b = Ok body" using compact_graph_spec [OF valid cl(1)] by metis
    note comp = compact_result [OF body]
    have ev: "denotes ?b env (row_selected ?n selected env = t)" for env
      using evals_output_cong [OF ev2] by (simp add: denotes_def)
    have den: "denotes body env b \<longleftrightarrow> b = (row_selected ?n selected env = t)" for env b
    proof
      assume "denotes body env b"
      then have "denotes ?b env b" by (simp only: comp(2))
      then show "b = (row_selected ?n selected env = t)" using ev [of env] unfolding denotes_def by (rule evals_det)
    next
      assume "b = (row_selected ?n selected env = t)"
      then show "denotes body env b" using ev [of env] by (simp only: comp(2))
    qed
    have "seed_body c selected t = Ok body"
      using dnf top out fits new body by (simp add: seed_body_def)
    then show ?thesis using seed comp(1,4,5,6) cl(2) den frame by simp
  qed
qed

lemma seed_body_empty: "seed_body c [] t = Panic"
  by (simp add: seed_body_def)

section \<open>Sampling the assignments\<close>

text \<open>
  The first \<open>k\<close> draws below \<open>n\<close> from a state, the state after them, and the values of a list in the order of their
  first occurrence.
\<close>

primrec rng_after :: "'r rng_ops \<Rightarrow> u32 \<Rightarrow> nat \<Rightarrow> 'r \<Rightarrow> 'r" where
  "rng_after R n 0 r = r"
| "rng_after R n (Suc k) r = rng_after R n k (snd (random_u32_exclusive R n r))"

primrec draws :: "'r rng_ops \<Rightarrow> u32 \<Rightarrow> nat \<Rightarrow> 'r \<Rightarrow> u32 list" where
  "draws R n 0 r = []"
| "draws R n (Suc k) r = fst (random_u32_exclusive R n r) # draws R n k (snd (random_u32_exclusive R n r))"

definition first_values :: "'a list \<Rightarrow> 'a list" where
  "first_values xs = rev (remdups (rev xs))"

lemma first_values_simps [simp]:
  "set (first_values xs) = set xs" "distinct (first_values xs)" "length (first_values xs) = card (set xs)"
  "distinct xs \<Longrightarrow> first_values xs = xs"
  by (simp_all add: first_values_def length_remdups_card_conv distinct_remdups_id)

lemma remdups_drop: "v \<in> set zs \<Longrightarrow> remdups (ys @ v # zs) = remdups (ys @ zs)"
  by (induction ys) auto

lemma first_values_seen: "v \<in> set xs \<Longrightarrow> first_values (xs @ v # ys) = first_values (xs @ ys)"
  by (simp add: first_values_def remdups_drop)

lemma draws_range:
  assumes "\<And>r. fst (random_u32_exclusive R n r) < n"
  shows "set (draws R n k r) \<subseteq> {..<n}"
  by (induction k arbitrary: r) (use assms in auto)

text \<open>The loop returns if the draws take enough values.\<close>

lemma sample_loop_returns:
  assumes "distinct selected" "count \<le> card (set (selected @ draws R n k r))"
  shows "\<exists>y. sample_loop R n count selected r = Some y"
  using assms
proof (induction k arbitrary: selected r)
  case 0
  then show ?case by (subst sample_loop.simps) (simp add: distinct_card)
next
  case (Suc k)
  let ?v = "fst (random_u32_exclusive R n r)" and ?r = "snd (random_u32_exclusive R n r)"
  let ?next = "if ?v \<in> set selected then selected else selected @ [?v]"
  show ?case
  proof (cases "length selected < count")
    case True
    have "set (?next @ draws R n k ?r) = set (selected @ draws R n (Suc k) r)" by auto
    then have "\<exists>y. sample_loop R n count ?next ?r = Some y" using Suc.prems by (intro Suc.IH) auto
    then show ?thesis using True by (subst sample_loop.simps) (simp add: split_beta)
  next
    case False
    then show ?thesis by (subst sample_loop.simps) simp
  qed
qed

text \<open>What it returns are the first values drawn, and no more than asked for.\<close>

definition sampled :: "'r rng_ops \<Rightarrow> u32 \<Rightarrow> nat \<Rightarrow> u32 list \<Rightarrow> 'r \<Rightarrow> u32 list \<times> 'r \<Rightarrow> bool" where
  "sampled R n count selected r y \<longleftrightarrow>
     (distinct selected \<longrightarrow> length selected \<le> count \<longrightarrow>
       (\<exists>k. y = (first_values (selected @ draws R n k r), rng_after R n k r)) \<and> length (fst y) = count)"

lemma sample_loop_result:
  assumes run: "sample_loop R n count selected r = Some y"
  shows "sampled R n count selected r y"
proof (rule sample_loop.raw_induct [where P = "\<lambda>R n count selected r y. sampled R n count selected r y", OF _ run])
  fix loop :: "'b rng_ops \<Rightarrow> u32 \<Rightarrow> nat \<Rightarrow> u32 list \<Rightarrow> 'b \<Rightarrow> (u32 list \<times> 'b) option" and R n count selected r y
  assume IH: "\<And>R n count selected r y. loop R n count selected r = Some y \<Longrightarrow> sampled R n count selected r y"
    and body: "(if length selected < count
      then let (assignment, r') = random_u32_exclusive R n r in
           loop R n count (if assignment \<in> set selected then selected else selected @ [assignment]) r'
      else Some (selected, r)) = Some y"
  obtain v r' where v: "random_u32_exclusive R n r = (v, r')" by fastforce
  show "sampled R n count selected r y"
  proof (cases "length selected < count")
    case True
    let ?next = "if v \<in> set selected then selected else selected @ [v]"
    have step: "sampled R n count ?next r' y" using body True v by (intro IH) simp
    have shift: "first_values (?next @ draws R n k r') = first_values (selected @ draws R n (Suc k) r)" "rng_after R n k r' = rng_after R n (Suc k) r" for k
      using v by (simp_all add: first_values_seen)
    show ?thesis unfolding sampled_def
    proof (intro impI)
      assume "distinct selected" "length selected \<le> count"
      then obtain k where "y = (first_values (?next @ draws R n k r'), rng_after R n k r')" "length (fst y) = count"
        using step True unfolding sampled_def by (auto split: if_splits)
      then show "(\<exists>k. y = (first_values (selected @ draws R n k r), rng_after R n k r)) \<and> length (fst y) = count"
        unfolding shift by blast
    qed
  next
    case False
    then have "y = (selected, r)" using body by simp
    then show ?thesis using False by (auto simp: sampled_def intro!: exI [of _ 0])
  qed
qed

text \<open>Together: when the sampling returns, and what.\<close>

lemma sample_assignments_None: "sample_assignments R n count r = None \<longleftrightarrow> (\<forall>k. card (set (draws R n k r)) < unat count)"
proof
  assume none: "sample_assignments R n count r = None"
  show "\<forall>k. card (set (draws R n k r)) < unat count"
  proof (rule ccontr)
    assume "\<not> ?thesis"
    then obtain k where "unat count \<le> card (set ([] @ draws R n k r))" by (auto simp: not_less)
    then show False using none sample_loop_returns [of "[]" "unat count" R n k r] by (simp add: sample_assignments_def)
  qed
next
  assume few: "\<forall>k. card (set (draws R n k r)) < unat count"
  show "sample_assignments R n count r = None"
  proof (cases "sample_assignments R n count r")
    case (Some y)
    then have "sampled R n (unat count) [] r y" by (intro sample_loop_result) (simp add: sample_assignments_def)
    then obtain k where "fst y = first_values (draws R n k r)" "length (fst y) = unat count" by (auto simp: sampled_def)
    then have "card (set (draws R n k r)) = unat count" by simp
    then show ?thesis using few by (metis less_irrefl)
  qed
qed

lemma sample_assignments_Some:
  assumes "sample_assignments R n count r = Some (xs, r')"
  obtains k where "xs = first_values (draws R n k r)" "length xs = unat count" "r' = rng_after R n k r"
proof -
  have "sampled R n (unat count) [] r (xs, r')" using assms by (intro sample_loop_result) (simp add: sample_assignments_def)
  then show thesis using that by (auto simp: sampled_def)
qed

section \<open>The seed: properties\<close>

lemma seed_counts:
  assumes "unat (gc_arity c) \<le> 16"
  shows "unat (push_bit (unat (gc_arity c)) (1 :: u32)) = 2 ^ unat (gc_arity c)"
    "unat (min (ucast (gc_terms_max c)) (push_bit (unat (gc_arity c)) (1 :: u32) div 2)) =
       min (unat (gc_terms_max c)) (2 ^ unat (gc_arity c) div 2)"
proof -
  have min: "unat (min x y) = min (unat x) (unat y)" for x y :: u32 by (auto simp: min_def word_le_nat_alt)
  have "(2 :: nat) ^ unat (gc_arity c) \<le> 2 ^ 16" using assms by (intro power_increasing) simp_all
  then have "(2 :: nat) ^ unat (gc_arity c) < 2 ^ 32" by simp
  then show bits: "unat (push_bit (unat (gc_arity c)) (1 :: u32)) = 2 ^ unat (gc_arity c)"
  proof -
    have "push_bit (unat (gc_arity c)) (1 :: u32) = of_nat (2 ^ unat (gc_arity c))" by (simp add: push_bit_of_1)
    then show ?thesis using \<open>2 ^ unat (gc_arity c) < 2 ^ 32\<close> assms by (simp add: unsigned_of_nat take_bit_nat_eq_self del: of_nat_power)
  qed
  then show "unat (min (ucast (gc_terms_max c)) (push_bit (unat (gc_arity c)) (1 :: u32) div 2)) =
       min (unat (gc_terms_max c)) (2 ^ unat (gc_arity c) div 2)"
    by (simp add: min unat_div_distrib)
qed

definition terms_limit :: "generator_config \<Rightarrow> nat" where
  "terms_limit c = min (unat (gc_terms_max c)) (2 ^ unat (gc_arity c) div 2)"

text \<open>The rows of the truth table, and the number of exceptions drawn with the state after it.\<close>

definition row_count :: "generator_config \<Rightarrow> u32" where
  "row_count c = of_nat (2 ^ unat (gc_arity c))"

definition drawn_terms :: "'r rng_ops \<Rightarrow> generator_config \<Rightarrow> 'r \<Rightarrow> u32 \<times> 'r" where
  "drawn_terms R c r = random_u32_inclusive R (of_nat (min (unat (gc_terms_min c)) (terms_limit c))) (of_nat (terms_limit c)) r"

lemma of_nat_unat_eq: "unat (w :: u32) = n \<Longrightarrow> of_nat n = w"
  by auto

lemma truth_table_seed_draws:
  assumes c: "generator_validate c = Ok c" and ran: "rng_ranged R"
  shows "unat (row_count c) = 2 ^ unat (gc_arity c)" "fst (random_u32_exclusive R (row_count c) r0) < row_count c"
    "min (unat (gc_terms_min c)) (terms_limit c) \<le> unat (fst (drawn_terms R c r))" "unat (fst (drawn_terms R c r)) \<le> terms_limit c"
    "truth_table_seed R c r = (case sample_assignments R (row_count c) (fst (drawn_terms R c r)) (snd (drawn_terms R c r)) of None \<Rightarrow> None
       | Some (selected, r) \<Rightarrow> Some (snd (random_bool R r), seed_body c selected (fst (random_bool R r))))"
proof -
  let ?bits = "push_bit (unat (gc_arity c)) (1 :: u32)"
  let ?max = "min (ucast (gc_terms_max c)) (?bits div 2)"
  let ?min = "min (ucast (gc_terms_min c)) ?max"
  note counts = seed_counts [OF generator_validate_Ok(3) [OF c]]
  have bits: "row_count c = ?bits" unfolding row_count_def by (rule of_nat_unat_eq [OF counts(1)])
  have max: "unat ?max = terms_limit c" unfolding terms_limit_def by (rule counts(2))
  have "unat (min (ucast w) x) = min (unat w) (unat x)" for w :: u16 and x :: u32
    by (simp add: min_def word_le_nat_alt)
  then have min: "unat ?min = min (unat (gc_terms_min c)) (terms_limit c)" using max by (simp only:)
  have drawn: "drawn_terms R c r = random_u32_inclusive R ?min ?max r"
    unfolding drawn_terms_def of_nat_unat_eq [OF max] of_nat_unat_eq [OF min] ..
  have "low \<le> high \<Longrightarrow> low \<le> fst (random_u32_inclusive R low high r) \<and> fst (random_u32_inclusive R low high r) \<le> high" for low high r
    using ran unfolding rng_ranged_def by blast
  from this [of ?min ?max r, OF min.cobounded2]
  have "unat ?min \<le> unat (fst (drawn_terms R c r))" "unat (fst (drawn_terms R c r)) \<le> unat ?max"
    unfolding word_le_nat_alt drawn by (rule conjunct1, rule conjunct2)
  then show "min (unat (gc_terms_min c)) (terms_limit c) \<le> unat (fst (drawn_terms R c r))" "unat (fst (drawn_terms R c r)) \<le> terms_limit c"
    unfolding max min .
  show "unat (row_count c) = 2 ^ unat (gc_arity c)" unfolding bits by (rule counts(1))
  then have "0 < row_count c" by (simp add: word_less_nat_alt)
  then show "fst (random_u32_exclusive R (row_count c) r0) < row_count c" using ran unfolding rng_ranged_def by blast
  show "truth_table_seed R c r = (case sample_assignments R (row_count c) (fst (drawn_terms R c r)) (snd (drawn_terms R c r)) of None \<Rightarrow> None
       | Some (selected, r) \<Rightarrow> Some (snd (random_bool R r), seed_body c selected (fst (random_bool R r))))"
    unfolding truth_table_seed_def Let_def split_beta bits drawn by (simp add: split_beta cong: option.case_cong)
qed

lemma truth_table_seed_result:
  assumes c: "generator_validate c = Ok c" and ran: "rng_ranged R" and run: "truth_table_seed R c r = Some (r', q)"
  obtains selected r2 k where "sample_assignments R (row_count c) (fst (drawn_terms R c r)) (snd (drawn_terms R c r)) = Some (selected, r2)"
    "selected = first_values (draws R (row_count c) k (snd (drawn_terms R c r)))" "length selected = unat (fst (drawn_terms R c r))"
    "r2 = rng_after R (row_count c) k (snd (drawn_terms R c r))"
    "random_bool R r2 = (fst (random_bool R r2), r')" "q = seed_body c selected (fst (random_bool R r2))"
    "distinct selected" "\<forall>a \<in> set selected. unat a < 2 ^ unat (gc_arity c)"
proof -
  note draw = truth_table_seed_draws [OF c ran]
  obtain selected r2 where sel: "sample_assignments R (row_count c) (fst (drawn_terms R c r)) (snd (drawn_terms R c r)) = Some (selected, r2)"
    and q: "r' = snd (random_bool R r2)" "q = seed_body c selected (fst (random_bool R r2))"
    using run draw(5) [of r] by (auto split: option.splits)
  obtain k where k: "selected = first_values (draws R (row_count c) k (snd (drawn_terms R c r)))" "length selected = unat (fst (drawn_terms R c r))"
    "r2 = rng_after R (row_count c) k (snd (drawn_terms R c r))" by (rule sample_assignments_Some [OF sel])
  have "unat a < 2 ^ unat (gc_arity c)" if "a \<in> set selected" for a
  proof -
    have "a < row_count c" using that k(1) draws_range [of R "row_count c", OF draw(2)] by auto
    then show ?thesis using draw(1) by (simp add: word_less_nat_alt)
  qed
  then show thesis using that [OF sel k] q k(1) by simp
qed


lemma seed_body_outcome:
  assumes c: "generator_validate c = Ok c" and few: "length selected \<le> terms_limit c"
  shows "seed_body c selected t = Panic \<longleftrightarrow> selected = []"
    "seed_body c selected t = Err e \<Longrightarrow>
       e = SeedGraphExceedsCapacity \<and> unat (gc_capacity c) < 2 * unat (gc_arity c) + unat (gc_arity c) * terms_limit c + 2"
proof -
  have "(\<exists>body. seed_body c selected t = Ok body) \<or>
      seed_body c selected t = Err SeedGraphExceedsCapacity \<and> unat (gc_capacity c) < 2 * unat (gc_arity c) + unat (gc_arity c) * terms_limit c + 2"
    if "selected \<noteq> []"
    using c that
  proof (cases rule: seed_body_spec [where t = t])
    case exceeds
    have "unat (gc_arity c) * length selected \<le> unat (gc_arity c) * terms_limit c" using few by simp
    then have "unat (gc_capacity c) < 2 * unat (gc_arity c) + unat (gc_arity c) * terms_limit c + 2" using exceeds by linarith
    then show ?thesis using exceeds(1) by simp
  qed auto
  then show "seed_body c selected t = Panic \<longleftrightarrow> selected = []"
    "seed_body c selected t = Err e \<Longrightarrow> e = SeedGraphExceedsCapacity \<and> unat (gc_capacity c) < 2 * unat (gc_arity c) + unat (gc_arity c) * terms_limit c + 2"
    using seed_body_empty by (cases "selected = []"; force)+
qed

text \<open>
  C33: When sampling a seed returns, and what, for a configuration that asks for at least one exception and a random
  number generator that stays in its ranges. The rejection loop runs forever exactly if the draws of
  rows that follow the draw of the number of exceptions never take that many distinct values. If it returns,
  the result is a seed, or the error that the seed exceeds the capacity, which a capacity of
  \<open>2 arity + arity terms + 2\<close> nodes excludes.
\<close>

theorem seed_returns:
  assumes c: "generator_validate c = Ok c" and ran: "rng_ranged R" and pos: "gc_terms_min c \<noteq> 0"
  shows "case truth_table_seed R c r of
      None \<Rightarrow> \<forall>k. card (set (draws R (row_count c) k (snd (drawn_terms R c r)))) < unat (fst (drawn_terms R c r))
    | Some (r', q) \<Rightarrow> (\<exists>k. card (set (draws R (row_count c) k (snd (drawn_terms R c r)))) = unat (fst (drawn_terms R c r))) \<and>
        ((\<exists>body. q = Ok body) \<or>
         q = Err SeedGraphExceedsCapacity \<and> unat (gc_capacity c) < 2 * unat (gc_arity c) + unat (gc_arity c) * terms_limit c + 2)"
proof -
  note draw = truth_table_seed_draws(3-5) [OF c ran, of r]
  show ?thesis
  proof (cases "truth_table_seed R c r")
    case None
    then have "sample_assignments R (row_count c) (fst (drawn_terms R c r)) (snd (drawn_terms R c r)) = None"
      using draw(3) by (simp split: option.splits prod.splits)
    then show ?thesis using None by (simp add: sample_assignments_None)
  next
    case (Some y)
    obtain r' q where y: "y = (r', q)" by (cases y)
    obtain selected r2 k where sel: "selected = first_values (draws R (row_count c) k (snd (drawn_terms R c r)))" "length selected = unat (fst (drawn_terms R c r))"
      "q = seed_body c selected (fst (random_bool R r2))"
      by (rule truth_table_seed_result [OF c ran Some [unfolded y]])
    have "(2 :: nat) \<le> 2 ^ unat (gc_arity c)" using generator_validate_Ok(2) [OF c] by (simp add: self_le_power)
    then have "0 < unat (gc_terms_min c)" "0 < terms_limit c"
      using pos generator_validate_Ok(5) [OF c] by (simp_all add: unat_gt_0 terms_limit_def)
    then have ne: "selected \<noteq> []" using draw(1) sel(2) by auto
    note out = seed_body_outcome [OF c, of selected "fst (random_bool R r2)"]
    have "card (set (draws R (row_count c) k (snd (drawn_terms R c r)))) = unat (fst (drawn_terms R c r))" using sel(1,2) by simp
    moreover have "(\<exists>body. q = Ok body) \<or> q = Err SeedGraphExceedsCapacity \<and> unat (gc_capacity c) < 2 * unat (gc_arity c) + unat (gc_arity c) * terms_limit c + 2"
      using out draw(2) sel(2) ne unfolding sel(3) by (cases "seed_body c selected (fst (random_bool R r2))") auto
    ultimately show ?thesis using Some y by auto
  qed
qed

text \<open>
  C35: For every configuration that passes validation and every random number generator within its ranges,
  \<open>truth_table_seed\<close> panics, at \<open>"exception term validation guarantees non-empty DNF"\<close>, exactly if the number of
  exceptions it draws is zero. The configuration allows this draw exactly if its minimum of exceptions is
  zero, which validation accepts although it refuses a maximum of zero.
\<close>

theorem zero_exceptions_panic:
  assumes c: "generator_validate c = Ok c" and ran: "rng_ranged R"
  shows "((\<exists>r'. truth_table_seed R c r = Some (r', Panic)) \<longleftrightarrow> fst (drawn_terms R c r) = 0) \<and>
    (min (unat (gc_terms_min c)) (terms_limit c) = 0 \<longleftrightarrow> gc_terms_min c = 0) \<and>
    (gc_terms_min c \<noteq> 0 \<longrightarrow> fst (drawn_terms R c r) \<noteq> 0)"
proof -
  note draw = truth_table_seed_draws(3-5) [OF c ran, of r]
  have "(2 :: nat) \<le> 2 ^ unat (gc_arity c)" using generator_validate_Ok(2) [OF c] by (simp add: self_le_power)
  then have "0 < terms_limit c" using generator_validate_Ok(5) [OF c] by (simp add: unat_gt_0 terms_limit_def)
  then have low: "min (unat (gc_terms_min c)) (terms_limit c) = 0 \<longleftrightarrow> gc_terms_min c = 0" by (auto simp: unat_eq_0 min_def)
  have "fst (drawn_terms R c r) = 0" if run: "truth_table_seed R c r = Some (r', Panic)" for r'
  proof -
    obtain selected r2 where sel: "length selected = unat (fst (drawn_terms R c r))" "Panic = seed_body c selected (fst (random_bool R r2))"
      by (rule truth_table_seed_result [OF c ran run])
    then have "selected = []" using seed_body_outcome(1) [OF c, of selected "fst (random_bool R r2)"] draw(2) by simp
    then show ?thesis using sel(1) by (simp add: unat_eq_0)
  qed
  moreover have "\<exists>r'. truth_table_seed R c r = Some (r', Panic)" if zero: "fst (drawn_terms R c r) = 0"
  proof -
    have "sample_assignments R (row_count c) 0 (snd (drawn_terms R c r)) = Some ([], snd (drawn_terms R c r))"
      unfolding sample_assignments_def by (subst sample_loop.simps) simp
    then show ?thesis using draw(3) zero by (simp add: seed_body_empty)
  qed
  moreover have "fst (drawn_terms R c r) \<noteq> 0" if "gc_terms_min c \<noteq> 0" using draw(1) low that by (auto simp: unat_eq_0)
  ultimately show ?thesis using low by blast
qed

section \<open>References taken and given back\<close>

text \<open>
  \<open>owes e0 hs gids e\<close>: since \<open>e0\<close> the engine has handed out one reference for each of the hashes \<open>hs\<close>,
  under the handles \<open>gids\<close>, and nothing else has changed in the accounts.
\<close>

definition owes :: "bool \<Rightarrow> (u8 list \<Rightarrow> digest) \<Rightarrow> engine \<Rightarrow> digest list \<Rightarrow> slot_id list \<Rightarrow> engine \<Rightarrow> bool" where
  "owes dbg blake3 e0 hs gids e \<longleftrightarrow>
     engine_inv dbg blake3 e \<and> en_root e = en_root e0 \<and>
     list_all2 (\<lambda>gid h. ga_by_hash (en_graphs e) h = Some gid) gids hs \<and>
     (\<forall>h. graph_refs (en_graphs e) h = graph_refs (en_graphs e0) h + count_list hs h) \<and>
     (\<exists>hr. ga_by_hash (en_graphs e) hr = Some (en_root e0) \<and> 0 < graph_refs (en_graphs e0) hr)"

lemma owesD:
  assumes "owes dbg blake3 e0 hs gids e"
  shows "engine_inv dbg blake3 e" "en_root e = en_root e0"
    "list_all2 (\<lambda>gid h. ga_by_hash (en_graphs e) h = Some gid) gids hs"
    "graph_refs (en_graphs e) h = graph_refs (en_graphs e0) h + count_list hs h"
    "\<exists>hr. ga_by_hash (en_graphs e) hr = Some (en_root e0) \<and> 0 < graph_refs (en_graphs e0) hr"
  using assms unfolding owes_def by blast+

lemma index_refs:
  assumes inv: "graph_arena_inv dbg blake3 a" and h: "ga_by_hash a h = Some gid"
  shows "0 < graph_refs a h"
proof -
  obtain g where g: "graph_get dbg a gid = (Ok (Some g) :: (_, unit) outcome)" "wg_hash g = h"
    using graph_arena_lookup [OF inv h] by metis
  then show ?thesis using graph_get_refs [OF inv g(1)] by (metis g(2) unat_gt_0)
qed

lemma owes_start: "engine_inv dbg blake3 e \<Longrightarrow> owes dbg blake3 e [] [] e"
  using engine_invD(3) [of dbg blake3 e] index_refs [OF engine_invD(1)] by (fastforce simp: owes_def)

lemma count_list_snoc: "count_list (xs @ [x]) y = count_list xs y + (if x = y then 1 else 0)"
  by (induction xs) auto

lemma owes_insert:
  assumes owes: "owes dbg blake3 e0 hs gids e" and ins: "graph_insert dbg blake3 body (en_graphs e) = (gs, Ok gid)"
    and room: "length (ga_items (en_graphs e)) < SLOTS" "\<And>h. graph_refs (en_graphs e0) h + length hs < refs_max"
  obtains h where "owes dbg blake3 e0 (hs @ [h]) (gids @ [gid]) (e \<lparr> en_graphs := gs \<rparr>)"
    "length (ga_items gs) \<le> Suc (length (ga_items (en_graphs e)))"
proof -
  note o = owesD [OF owes]
  obtain c where c: "compact_graph body = Ok c" using ins by (cases "compact_graph body") (simp_all add: graph_insert_def)
  let ?h = "body_hash blake3 (en_graphs e) c"
  have few: "graph_refs (en_graphs e) ?h < refs_max" using room(2) [of ?h] count_le_length [of hs ?h] o(4) [of ?h] by simp
  have gs: "graph_arena_inv dbg blake3 gs" "ga_by_hash gs = (ga_by_hash (en_graphs e))(?h \<mapsto> gid)"
    "graph_refs gs = (graph_refs (en_graphs e))(?h := Suc (graph_refs (en_graphs e) ?h))"
    "length (ga_items gs) \<le> Suc (length (ga_items (en_graphs e)))"
    "ga_engine_id gs = ga_engine_id (en_graphs e)" "ga_engine_version gs = ga_engine_version (en_graphs e)"
    "ga_by_hash (en_graphs e) ?h = None \<or> ga_by_hash (en_graphs e) ?h = Some gid"
    using graph_insert_spec [OF engine_invD(1) [OF o(1)] room(1) c refl few] ins by (metis Pair_inject outcome.inject(1))+
  have kept: "ga_by_hash gs k = Some d" if "ga_by_hash (en_graphs e) k = Some d" for k d
    using that gs(2,7) by auto
  have "engine_inv dbg blake3 (e \<lparr> en_graphs := gs \<rparr>)"
    using engine_inv_graphs [OF o(1) gs(1,5,6)] o(2,5) kept by metis
  moreover have "list_all2 (\<lambda>gid h. ga_by_hash gs h = Some gid) gids hs" using o(3) kept by (rule list_all2_mono)
  then have "list_all2 (\<lambda>gid h. ga_by_hash gs h = Some gid) (gids @ [gid]) (hs @ [?h])"
    using gs(2) by (intro list_all2_appendI) simp_all
  moreover have "graph_refs gs h = graph_refs (en_graphs e0) h + count_list (hs @ [?h]) h" for h
    using o(4) [of h] gs(3) by (auto simp: count_list_snoc)
  ultimately have "owes dbg blake3 e0 (hs @ [?h]) (gids @ [gid]) (e \<lparr> en_graphs := gs \<rparr>)"
    using o(2,5) kept by (auto simp: owes_def)
  then show thesis using that gs(4) by blast
qed

lemma owes_release:
  assumes owes: "owes dbg blake3 e0 (h # hs) (gid # gids) e"
  obtains e' where "release_graph dbg gid e = (e', Ok ())" "owes dbg blake3 e0 hs gids e'"
proof -
  note o = owesD [OF owes]
  note inv = engine_invD(1) [OF o(1)]
  have idx: "ga_by_hash (en_graphs e) h = Some gid" and rest: "list_all2 (\<lambda>gid h. ga_by_hash (en_graphs e) h = Some gid) gids hs"
    using o(3) by simp_all
  obtain g where g: "graph_get dbg (en_graphs e) gid = (Ok (Some g) :: (_, engine_error) outcome)" "wg_hash g = h"
    using graph_arena_lookup [OF inv idx] by metis
  obtain hr where hr: "ga_by_hash (en_graphs e) hr = Some (en_root e0)" "0 < graph_refs (en_graphs e0) hr" using o(5) by blast
  have refs: "graph_refs (en_graphs e) k = graph_refs (en_graphs e0) k + count_list hs k + (if k = h then 1 else 0)" for k
    using o(4) [of k] by simp
  show thesis
  proof (cases "1 < graph_refs (en_graphs e) h")
    case True
    then obtain gs where gs: "graph_release_protected dbg gid (en_root e) (en_graphs e) = (gs, Ok (h, False))"
      "graph_arena_inv dbg blake3 gs" "ga_by_hash gs = ga_by_hash (en_graphs e)"
      "graph_refs gs = (graph_refs (en_graphs e))(h := graph_refs (en_graphs e) h - 1)"
      "ga_engine_id gs = ga_engine_id (en_graphs e)" "ga_engine_version gs = ga_engine_version (en_graphs e)"
      using graph_release_shared [OF inv g(1), of "en_root e"] g(2) by metis
    have "engine_inv dbg blake3 (e \<lparr> en_graphs := gs \<rparr>)"
      using engine_inv_graphs [OF o(1) gs(2,5,6)] o(2) hr(1) gs(3) by metis
    then have "owes dbg blake3 e0 hs gids (e \<lparr> en_graphs := gs \<rparr>)"
      using o(2) rest refs hr gs(3,4) by (auto simp: owes_def)
    then show thesis using that gs(1) by (simp add: release_graph_def on_part_def)
  next
    case False
    then have none: "graph_refs (en_graphs e0) h = 0" "count_list hs h = 0" using refs [of h] by simp_all
    then have last: "graph_refs (en_graphs e) (wg_hash g) = 1" using refs [of h] g(2) by simp
    have "hr \<noteq> h" using hr(2) none(1) by auto
    then have np: "gid \<noteq> en_root e"
      using hr(1) idx o(2) graph_arena_lookup [OF inv hr(1)] graph_arena_lookup [OF inv idx] by (metis graph_get_any outcome.inject(1) option.inject)
    obtain gs where gs: "graph_release_protected dbg gid (en_root e) (en_graphs e) = (gs, Ok (h, True))"
      "graph_arena_inv dbg blake3 gs" "ga_by_hash gs = (ga_by_hash (en_graphs e))(h := None)"
      "graph_refs gs = (graph_refs (en_graphs e))(h := 0)"
      "ga_engine_id gs = ga_engine_id (en_graphs e)" "ga_engine_version gs = ga_engine_version (en_graphs e)"
      using graph_release_last [OF inv g(1) last np] g(2) by metis
    have "engine_inv dbg blake3 (e \<lparr> en_graphs := gs \<rparr>)"
      using engine_inv_graphs [OF o(1) gs(2,5,6)] o(2) hr(1) gs(3) \<open>hr \<noteq> h\<close> by (metis fun_upd_other)
    then have inv': "engine_inv dbg blake3 (forget_hash h (e \<lparr> en_graphs := gs \<rparr>))" by (rule forget_hash_inv)
    have "h \<notin> set hs" using none(2) by (simp add: count_list_0_iff)
    then have "list_all2 (\<lambda>gid h. ga_by_hash gs h = Some gid) gids hs"
      using rest gs(3) by (auto simp: list_all2_conv_all_nth)
    then have "owes dbg blake3 e0 hs gids (forget_hash h (e \<lparr> en_graphs := gs \<rparr>))"
      using inv' o(2) refs none hr gs(3,4) \<open>hr \<noteq> h\<close> by (auto simp: owes_def forget_hash_def)
    then show thesis using that gs(1) by (simp add: release_graph_def on_part_def)
  qed
qed

lemma owes_release_all:
  assumes "owes dbg blake3 e0 (hs @ ks) (gids @ ids) e" "length gids = length hs"
  shows "\<exists>e'. for_each (release_graph dbg) gids e = (e', Ok ()) \<and> owes dbg blake3 e0 ks ids e'"
  using assms
proof (induction gids arbitrary: hs e)
  case (Cons gid gids)
  then obtain h hs' where hs: "hs = h # hs'" "length gids = length hs'" by (cases hs) auto
  have "owes dbg blake3 e0 (h # hs' @ ks) (gid # gids @ ids) e" using Cons.prems(1) hs(1) by simp
  then obtain e1 where e1: "release_graph dbg gid e = (e1, Ok ())" "owes dbg blake3 e0 (hs' @ ks) (gids @ ids) e1"
    by (rule owes_release)
  show ?case using Cons.IH [OF e1(2) hs(2)] e1(1) by simp
qed simp

lemma prewalk_owes:
  assumes "owes dbg blake3 e0 hs (pw_created w) e" "pw_created w \<noteq> []" "last (pw_created w) = pw_graph w"
    and "prewalk_loop dbg blake3 R n (w, e) = ((w', e'), Ok ())"
    and "length (ga_items (en_graphs e)) + n < SLOTS" "\<forall>h. graph_refs (en_graphs e0) h + length hs + n < refs_max"
  shows "\<exists>hs'. owes dbg blake3 e0 hs' (pw_created w') e' \<and> pw_created w' \<noteq> [] \<and> last (pw_created w') = pw_graph w'"
  using assms
proof (induction n arbitrary: w e hs)
  case 0
  then show ?case by auto
next
  case (Suc n)
  from Suc.prems(4) obtain candidates where cands: "enumerate_graph (pw_body w) True = Ok candidates"
    by (cases "enumerate_graph (pw_body w) True") (simp_all add: Let_def)
  obtain chosen r where choice: "choose_prewalk_candidate R candidates (Option.bind (pw_last_rule w) inverse_rule_id) (pw_rng w) = (chosen, r)"
    by fastforce
  show ?case
  proof (cases chosen)
    case None
    then have "w' = w \<lparr> pw_rng := r \<rparr>" "e' = e" using Suc.prems(4) cands choice by auto
    then show ?thesis using Suc.prems(1-3) by auto
  next
    case (Some candidate)
    then obtain body where body: "apply_graph (pw_body w) candidate = Ok body"
      using Suc.prems(4) cands choice by (cases "apply_graph (pw_body w) candidate") simp_all
    obtain gs inserted where ins: "graph_insert dbg blake3 body (en_graphs e) = (gs, inserted)" by fastforce
    then obtain gid where gid: "inserted = Ok gid"
      using Suc.prems(4) cands choice Some body by (cases inserted) (simp_all add: Let_def)
    let ?w = "w \<lparr> pw_rng := r, pw_body := body, pw_graph := gid, pw_created := pw_created w @ [gid], pw_last_rule := Some (rc_rule candidate),
      pw_applied := pw_applied w + 1 \<rparr>"
    let ?e = "e \<lparr> en_graphs := gs \<rparr>"
    have run: "prewalk_loop dbg blake3 R n (?w, ?e) = ((w', e'), Ok ())"
      using Suc.prems(4) cands choice Some body ins gid by (simp add: Let_def)
    have "\<And>h. graph_refs (en_graphs e0) h + length hs < refs_max"
    proof -
      fix h show "graph_refs (en_graphs e0) h + length hs < refs_max" using Suc.prems(6) [rule_format, of h] by linarith
    qed
    then obtain h where h: "owes dbg blake3 e0 (hs @ [h]) (pw_created w @ [gid]) ?e"
      "length (ga_items gs) \<le> Suc (length (ga_items (en_graphs e)))"
      using owes_insert [OF Suc.prems(1) ins [unfolded gid]] Suc.prems(5) by (metis add_lessD1)
    have left: "\<forall>k. graph_refs (en_graphs e0) k + length (hs @ [h]) + n < refs_max"
    proof
      fix k show "graph_refs (en_graphs e0) k + length (hs @ [h]) + n < refs_max" using Suc.prems(6) [rule_format, of k] by simp
    qed
    show ?thesis
      by (rule Suc.IH [OF _ _ _ run _ left]) (use h Suc.prems(5) in simp_all)
  qed
qed

lemma created_owes:
  assumes inv: "engine_inv dbg blake3 e"
    and room: "length (ga_items (en_graphs e)) + 65536 < SLOTS" "\<forall>h. graph_refs (en_graphs e) h + 65536 < refs_max"
    and run: "sample_with_created_graphs dbg blake3 R c (r, e) = Some ((r', e'), Ok (generated, created))"
  obtains hs where "owes dbg blake3 e hs created e'" "created \<noteq> []" "last created = gn_graph generated"
proof -
  obtain d where d: "generator_validate c = Ok d" using run
    by (cases "generator_validate c") (simp_all add: sample_with_created_graphs_def)
  obtain r1 seeded where seed: "truth_table_seed R d r = Some (r1, seeded)" using run d
    by (cases "truth_table_seed R d r") (auto simp: sample_with_created_graphs_def)
  then obtain body where body: "seeded = Ok body" using run d
    by (cases seeded) (simp_all add: sample_with_created_graphs_def)
  obtain gs inserted where ins: "graph_insert dbg blake3 body (en_graphs e) = (gs, inserted)" by fastforce
  then obtain gid where gid: "inserted = Ok gid" using run d seed body
    by (cases inserted) (simp_all add: sample_with_created_graphs_def Let_def)
  let ?e = "e \<lparr> en_graphs := gs \<rparr>"
  obtain g where g: "engine_graph dbg ?e gid = Ok g" using run d seed body ins gid
    by (cases "engine_graph dbg ?e gid") (simp_all add: sample_with_created_graphs_def Let_def)
  obtain steps r2 where steps: "random_u16_inclusive R (gc_steps_min d) (gc_steps_max d) r1 = (steps, r2)" by fastforce
  let ?w = "\<lparr> pw_graph = gid, pw_body = wg_body g, pw_created = [gid], pw_last_rule = None, pw_applied = 0, pw_rng = r2 \<rparr>"
  obtain w e1 walked where walk: "prewalk_loop dbg blake3 R (unat steps) (?w, ?e) = ((w, e1), walked)" by (metis prod.exhaust)
  have ok: "walked = Ok ()" using run d seed body ins gid g steps walk
    by (cases walked) (simp_all add: sample_with_created_graphs_def Let_def)
  then have out: "e' = e1" "created = pw_created w" "gn_graph generated = pw_graph w"
    using run d seed body ins gid g steps walk
    by (cases "engine_graph dbg e1 (pw_graph w)"; auto simp: sample_with_created_graphs_def Let_def)+
  have "\<And>h. graph_refs (en_graphs e) h + length ([] :: digest list) < refs_max"
  proof -
    fix h show "graph_refs (en_graphs e) h + length ([] :: digest list) < refs_max" using room(2) [rule_format, of h] by simp
  qed
  then obtain h where h: "owes dbg blake3 e [h] [gid] ?e" "length (ga_items gs) \<le> Suc (length (ga_items (en_graphs e)))"
    using owes_insert [OF owes_start [OF inv] ins [unfolded gid]] room(1) by (metis add_lessD1 append_Nil)
  have "unat steps < 65536" using unsigned_less [of steps, where 'a = nat] by simp
  moreover from this have left: "\<forall>k. graph_refs (en_graphs e) k + length [h] + unat steps < refs_max"
  proof (intro allI)
    fix k assume "unat steps < 65536"
    then show "graph_refs (en_graphs e) k + length [h] + unat steps < refs_max" using room(2) [rule_format, of k] by simp
  qed
  ultimately have "\<exists>hs'. owes dbg blake3 e hs' (pw_created w) e1 \<and> pw_created w \<noteq> [] \<and> last (pw_created w) = pw_graph w"
    using h room(1) by (intro prewalk_owes [OF _ _ _ walk [unfolded ok] _ left]) simp_all
  then show thesis using that out by metis
qed

text \<open>
  C34: \<open>sample_root_into\<close> hands over one reference and keeps nothing else: when the sampling itself
  succeeds, releasing the seed and the intermediate graphs of the walk cannot fail, not even when
  one of them is the engine's root graph or comes up several times; afterwards the engine is
  consistent, the returned handle leads to a compact graph, and the reference counts are those of before,
  with one more for the hash of that graph.
\<close>

theorem sample_root_one_reference:
  assumes inv: "engine_inv dbg blake3 e"
    and room: "length (ga_items (en_graphs e)) + 65536 < SLOTS" "\<forall>h. graph_refs (en_graphs e) h + 65536 < refs_max"
    and run: "sample_with_created_graphs dbg blake3 R c (r, e) = Some ((r', e'), Ok (generated, created))"
  shows "\<exists>e'' g. sample_root_into dbg blake3 R c (r, e) = Some ((r', e''), Ok (gn_graph generated)) \<and>
    engine_inv dbg blake3 e'' \<and> graph_get dbg (en_graphs e'') (gn_graph generated) = (Ok (Some g) :: (_, unit) outcome) \<and>
    compact_form (wg_body g) \<and> graph_refs (en_graphs e'') = (graph_refs (en_graphs e))(wg_hash g := Suc (graph_refs (en_graphs e) (wg_hash g)))"
proof -
  obtain hs where hs: "owes dbg blake3 e hs created e'" "created \<noteq> []" "last created = gn_graph generated"
    by (rule created_owes [OF inv room run])
  have len: "length created = length hs" using owesD(3) [OF hs(1)] by (rule list_all2_lengthD)
  let ?gone = "take (length created - 1) created"
  have "hs \<noteq> []" using hs(2) len by auto
  then have split: "created = ?gone @ [gn_graph generated]" "hs = butlast hs @ [last hs]" "length ?gone = length (butlast hs)"
    using append_butlast_last_id [OF hs(2)] hs(3) len by (simp_all add: butlast_conv_take [of created])
  then obtain e2 where e2: "for_each (release_graph dbg) ?gone e' = (e2, Ok ())" "owes dbg blake3 e [last hs] [gn_graph generated] e2"
    using owes_release_all [of dbg blake3 e "butlast hs" "[last hs]" ?gone "[gn_graph generated]" e'] hs(1) by auto
  note o = owesD [OF e2(2)]
  have "ga_by_hash (en_graphs e2) (last hs) = Some (gn_graph generated)" using o(3) by simp
  then obtain g where g: "graph_get dbg (en_graphs e2) (gn_graph generated) = (Ok (Some g) :: (_, unit) outcome)"
    "wg_hash g = last hs" "compact_form (wg_body g)"
    using graph_arena_lookup [OF engine_invD(1) [OF o(1)]] by metis
  have "graph_refs (en_graphs e2) = (graph_refs (en_graphs e))(wg_hash g := Suc (graph_refs (en_graphs e) (wg_hash g)))"
    using o(4) g(2) by auto
  moreover have "sample_root_into dbg blake3 R c (r, e) = Some ((r', e2), Ok (gn_graph generated))"
    using run e2(1) by (simp add: sample_root_into_def engine_release_def)
  ultimately show ?thesis using o(1) g by blast
qed

section \<open>A concrete source of randomness\<close>

text \<open>A counter: it draws the lowest number of a range, and the numbers below a bound in turn.\<close>

definition counting_rng :: "nat rng_ops" where
  "counting_rng = \<lparr> random_u16_inclusive = \<lambda>low high r. (low, r), random_u32_inclusive = \<lambda>low high r. (low, r),
     random_u32_exclusive = \<lambda>n r. (of_nat (r mod unat n), Suc r), random_bool = \<lambda>r. (True, r), random_target = \<lambda>total r. (total / 2, r) \<rparr>"

lemma of_nat_below: "k < unat (n :: u32) \<Longrightarrow> unat (of_nat k :: u32) = k"
  using unsigned_less [of n, where 'a = nat] by (simp add: unsigned_of_nat take_bit_nat_eq_self)

lemma counting_ranged: "rng_ranged counting_rng"
proof -
  have "of_nat (r mod unat n) < n" if "0 < n" for r and n :: u32
    using that of_nat_below [of "r mod unat n" n] by (simp add: word_less_nat_alt)
  then show ?thesis by (simp add: rng_ranged_def counting_rng_def)
qed

definition sample_generator :: generator_config where
  "sample_generator = \<lparr> gc_arity = 2, gc_capacity = 64, gc_terms_min = 1, gc_terms_max = 2, gc_steps_min = 1, gc_steps_max = 2 \<rparr>"

lemma sample_generator_valid: "generator_validate sample_generator = Ok sample_generator"
  by code_simp


theorem seed_returns_witness:
  "(case truth_table_seed counting_rng sample_generator 7 of
      None \<Rightarrow> \<forall>k. card (set (draws counting_rng 4 k 7)) < 1
    | Some (r', q) \<Rightarrow> (\<exists>k. card (set (draws counting_rng 4 k 7)) = 1) \<and> (\<exists>body. q = Ok body)) \<and>
    truth_table_seed counting_rng sample_generator 7 \<noteq> None"
proof -
  have ar: "unat (gc_arity sample_generator) = 2" "unat (gc_capacity sample_generator) = 64" "terms_limit sample_generator = 2"
    "gc_terms_min sample_generator \<noteq> 0" "drawn_terms counting_rng sample_generator 7 = (1, 7)" "row_count sample_generator = 4"
    "truth_table_seed counting_rng sample_generator 7 \<noteq> None"
    by code_simp+
  show ?thesis
    using seed_returns [OF sample_generator_valid counting_ranged ar(4), of 7] ar(7) unfolding ar(1-3,5,6) by (auto split: option.splits)
qed

theorem zero_exceptions_panic_witness:
  "\<exists>r'. truth_table_seed counting_rng (generator_config_default \<lparr> gc_terms_min := 0 \<rparr>) 0 = Some (r', Panic)"
proof -
  let ?c = "generator_config_default \<lparr> gc_terms_min := 0 \<rparr>"
  have "generator_validate ?c = Ok ?c" "fst (drawn_terms counting_rng ?c 0) = 0" by code_simp+
  then show ?thesis using zero_exceptions_panic [OF _ counting_ranged, of ?c 0] by blast
qed

theorem sample_root_one_reference_witness:
  "\<exists>e e' gid g. engine_new True (\<lambda>b. b) sample_config = Ok e \<and>
     sample_root_into True (\<lambda>b. b) counting_rng sample_generator (0, e) = Some ((1, e'), Ok gid) \<and>
     graph_get True (en_graphs e') gid = (Ok (Some g) :: (_, unit) outcome) \<and>
     graph_refs (en_graphs e') = (graph_refs (en_graphs e))(wg_hash g := Suc (graph_refs (en_graphs e) (wg_hash g)))"
proof -
  have "(case engine_new True (\<lambda>b. b) sample_config of
      Ok e \<Rightarrow> (case sample_with_created_graphs True (\<lambda>b. b) counting_rng sample_generator (0, e) of
         Some ((r, _), q) \<Rightarrow> r = 1 \<and> is_ok q | None \<Rightarrow> False)
    | _ \<Rightarrow> False)" by code_simp
  then obtain e e1 generated created where new: "engine_new True (\<lambda>b. b) sample_config = Ok e"
    and run: "sample_with_created_graphs True (\<lambda>b. b) counting_rng sample_generator (0, e) = Some ((1, e1), Ok (generated, created))"
    by (auto simp: is_ok_iff split: outcome.splits option.splits)
  obtain body c where e: "engine_inv True (\<lambda>b. b) e" "length (ga_items (en_graphs e)) \<le> 1" "\<forall>h. graph_refs (en_graphs e) h \<le> 1"
    using engine_new_inv [OF new] by metis
  have "length (ga_items (en_graphs e)) + 65536 < SLOTS" using e(2) by (simp add: SLOTS_def)
  moreover have "\<forall>h. graph_refs (en_graphs e) h + 65536 < refs_max"
  proof
    fix h show "graph_refs (en_graphs e) h + 65536 < refs_max" using e(3) [rule_format, of h] by (simp add: refs_max_def)
  qed
  ultimately obtain e2 g where
    "sample_root_into True (\<lambda>b. b) counting_rng sample_generator (0, e) = Some ((1, e2), Ok (gn_graph generated))"
    "graph_get True (en_graphs e2) (gn_graph generated) = (Ok (Some g) :: (_, unit) outcome)"
    "graph_refs (en_graphs e2) = (graph_refs (en_graphs e))(wg_hash g := Suc (graph_refs (en_graphs e) (wg_hash g)))"
    using sample_root_one_reference [OF e(1) _ _ run] by blast
  with new show ?thesis by blast
qed

end
