(* ===== verification/Model_Leases.thy ===== *)
theory Model_Leases
  imports Engine_Core
begin

text \<open>
  Model leases, \<open>crates/gz-orchestrator/src/leases.rs\<close>: a registry of the resident model generations
  counts the episodes that use each one; a generation that is neither current nor in use is queued
  for release. The registry is behind a mutex, so every method is one atomic step; a lease is
  returned by dropping it. The theory shows that a generation is handed out for release only when
  nothing uses it, as long as no generation is published again while it is queued, and that the
  condition is needed.
\<close>

section \<open>State\<close>

record model_generation =
  mg_id :: u64
  mg_version :: digest

record generation_state =
  gen_model :: model_generation
  gen_users :: nat

record lease_state =
  ls_current :: model_generation
  ls_generations :: "generation_state list"
  ls_releasable :: "model_generation list"

record lease_registry =
  lr_state :: lease_state
  lr_max_resident :: nat

definition USIZE_MAX :: nat where
  "USIZE_MAX = 2 ^ 64 - 1"

text \<open>\<open>checked_add(1)\<close> on \<open>usize\<close>.\<close>

definition checked_add_one :: "nat \<Rightarrow> nat option" where
  "checked_add_one n = (if USIZE_MAX < n + 1 then None else Some (n + 1))"

lemma checked_add_one_code [code]: "checked_add_one n = (if 18446744073709551615 < int n + 1 then None else Some (n + 1))"
proof -
  have "USIZE_MAX < n + 1 \<longleftrightarrow> int USIZE_MAX < int (n + 1)" by (simp only: of_nat_less_iff)
  also have "int USIZE_MAX = 18446744073709551615" by (simp add: USIZE_MAX_def)
  finally show ?thesis by (simp add: checked_add_one_def)
qed

text \<open>\<open>internal\<close> of \<open>crates/gz-orchestrator/src/lib.rs\<close>; its messages are short.\<close>

definition orchestrator_internal :: "string \<Rightarrow> engine_error" where
  "orchestrator_internal message = Internal 1 message"

definition registry_new :: "model_generation \<Rightarrow> nat \<Rightarrow> (lease_registry, engine_error) outcome" where
  "registry_new current max_resident =
     (if mg_id current = 0 then Err (orchestrator_internal ''zero model generation'')
      else if max_resident < 2 then Err (orchestrator_internal ''resident model generation capacity below two'')
      else Ok \<lparr> lr_state = \<lparr> ls_current = current, ls_generations = [\<lparr> gen_model = current, gen_users = 0 \<rparr>],
                             ls_releasable = [] \<rparr>,
                lr_max_resident = max_resident \<rparr>)"

section \<open>Operations\<close>

text \<open>\<open>find\<close> on the generations and an update of the element found.\<close>

fun find_generation :: "model_generation \<Rightarrow> generation_state list \<Rightarrow> generation_state option" where
  "find_generation m [] = None"
| "find_generation m (g # gs) = (if gen_model g = m then Some g else find_generation m gs)"

fun set_users :: "model_generation \<Rightarrow> nat \<Rightarrow> generation_state list \<Rightarrow> generation_state list" where
  "set_users m n [] = []"
| "set_users m n (g # gs) = (if gen_model g = m then g \<lparr> gen_users := n \<rparr> # gs else g # set_users m n gs)"

definition acquire_current :: "lease_registry \<Rightarrow> lease_registry \<times> (model_generation, engine_error) outcome" where
  "acquire_current r =
     (let s = lr_state r; current = ls_current s in
      case find_generation current (ls_generations s) of
        None \<Rightarrow> (r, Panic)
      | Some generation \<Rightarrow>
          (case checked_add_one (gen_users generation) of
             None \<Rightarrow> (r, Panic)
           | Some users \<Rightarrow>
               (r \<lparr> lr_state := s \<lparr> ls_generations := set_users current users (ls_generations s) \<rparr> \<rparr>, Ok current)))"

definition queue_model_release :: "model_generation \<Rightarrow> lease_state \<Rightarrow> lease_state" where
  "queue_model_release m s =
     (if m \<in> set (ls_releasable s) then s else s \<lparr> ls_releasable := ls_releasable s @ [m] \<rparr>)"

definition publish :: "model_generation \<Rightarrow> lease_registry \<Rightarrow> lease_registry \<times> (unit, engine_error) outcome" where
  "publish model r =
     (if mg_id model = 0 then (r, Err (orchestrator_internal ''zero model generation''))
      else
        let s = lr_state r in
        if ls_current s = model then (r, Ok ())
        else if list_ex (\<lambda>g. mg_id (gen_model g) = mg_id model \<and> mg_version (gen_model g) \<noteq> mg_version model) (ls_generations s)
        then (r, Err (orchestrator_internal ''model generation id changed version''))
        else if list_ex (\<lambda>g. mg_version (gen_model g) = mg_version model \<and> mg_id (gen_model g) \<noteq> mg_id model) (ls_generations s)
        then (r, Err (orchestrator_internal ''model version has multiple resident generations''))
        else if list_all (\<lambda>g. gen_model g \<noteq> model) (ls_generations s) \<and> lr_max_resident r \<le> length (ls_generations s)
        then (r, Err (orchestrator_internal ''too many resident model generations''))
        else
          let s = (if list_all (\<lambda>g. gen_model g \<noteq> model) (ls_generations s)
                   then s \<lparr> ls_generations := ls_generations s @ [\<lparr> gen_model = model, gen_users = 0 \<rparr>] \<rparr> else s);
              previous = ls_current s;
              s = s \<lparr> ls_current := model \<rparr>;
              s = (if list_ex (\<lambda>g. gen_model g = previous \<and> gen_users g = 0) (ls_generations s)
                   then queue_model_release previous s else s)
          in (r \<lparr> lr_state := s \<rparr>, Ok ()))"

definition take_releasable :: "lease_registry \<Rightarrow> lease_registry \<times> model_generation list" where
  "take_releasable r =
     (let s = lr_state r; models = ls_releasable s in
      (r \<lparr> lr_state := s \<lparr> ls_releasable := [],
           ls_generations := filter (\<lambda>g. gen_model g \<notin> set models) (ls_generations s) \<rparr> \<rparr>, models))"

text \<open>\<open>ModelLease::drop\<close>.\<close>

definition drop_lease :: "model_generation \<Rightarrow> lease_registry \<Rightarrow> lease_registry \<times> (unit, engine_error) outcome" where
  "drop_lease model r =
     (let s = lr_state r in
      case find_generation model (ls_generations s) of
        None \<Rightarrow> (r, Ok ())
      | Some generation \<Rightarrow>
          if gen_users generation = 0 then (r, Panic)
          else
            let users = gen_users generation - 1;
                s = s \<lparr> ls_generations := set_users model users (ls_generations s) \<rparr>;
                s = (if users = 0 \<and> ls_current s \<noteq> model then queue_model_release model s else s)
            in (r \<lparr> lr_state := s \<rparr>, Ok ()))"

text \<open>
  \<open>EpisodeModelLeases\<close>: a lane's map from its episodes to the leases they hold. The registry is shared
  by reference; a lease is its model.
\<close>

type_synonym episode_leases = "u64 \<rightharpoonup> model_generation"

definition ensure_lease ::
    "u64 \<Rightarrow> episode_leases \<times> lease_registry \<Rightarrow> (episode_leases \<times> lease_registry) \<times> (model_generation, engine_error) outcome"
where
  "ensure_lease episode es =
     (let (episodes, r) = es in
      case episodes episode of
        Some model \<Rightarrow> (es, Ok model)
      | None \<Rightarrow>
          (case acquire_current r of
             (r', Ok model) \<Rightarrow> ((episodes(episode \<mapsto> model), r'), Ok model)
           | (r', Err e) \<Rightarrow> ((episodes, r'), Err e)
           | (r', Panic) \<Rightarrow> ((episodes, r'), Panic)))"

definition release_lease ::
    "u64 \<Rightarrow> episode_leases \<times> lease_registry \<Rightarrow> (episode_leases \<times> lease_registry) \<times> (unit, engine_error) outcome"
where
  "release_lease episode es =
     (let (episodes, r) = es in
      case episodes episode of
        None \<Rightarrow> (es, Ok ())
      | Some model \<Rightarrow> (let (r', q) = drop_lease model r in ((episodes(episode := None), r'), q)))"

section \<open>The registry invariant\<close>

definition residents :: "lease_registry \<Rightarrow> model_generation set" where
  "residents r = gen_model ` set (ls_generations (lr_state r))"

text \<open>
  \<open>held m\<close> is the number of leases of \<open>m\<close> that are out. The registry counts exactly these, keeps every
  model that is held and the current one, and has queued exactly the models that are neither.
\<close>

definition lease_inv :: "(model_generation \<Rightarrow> nat) \<Rightarrow> lease_registry \<Rightarrow> bool" where
  "lease_inv held r \<longleftrightarrow>
     (let s = lr_state r; gens = ls_generations s in
      distinct (map gen_model gens) \<and> length gens \<le> lr_max_resident r \<and>
      (\<forall>g \<in> set gens. gen_users g = held (gen_model g)) \<and>
      (\<forall>m. held m \<noteq> 0 \<longrightarrow> m \<in> residents r) \<and> ls_current s \<in> residents r \<and>
      (\<forall>m \<in> residents r. \<forall>k \<in> residents r. mg_id m = mg_id k \<longleftrightarrow> mg_version m = mg_version k) \<and>
      distinct (ls_releasable s) \<and>
      set (ls_releasable s) = {m \<in> residents r. held m = 0 \<and> m \<noteq> ls_current s})"

lemma lease_invD:
  assumes "lease_inv held r"
  shows "distinct (map gen_model (ls_generations (lr_state r)))" "length (ls_generations (lr_state r)) \<le> lr_max_resident r"
    "g \<in> set (ls_generations (lr_state r)) \<Longrightarrow> gen_users g = held (gen_model g)"
    "held m \<noteq> 0 \<Longrightarrow> m \<in> residents r" "ls_current (lr_state r) \<in> residents r"
    "m \<in> residents r \<Longrightarrow> k \<in> residents r \<Longrightarrow> mg_id m = mg_id k \<longleftrightarrow> mg_version m = mg_version k"
    "distinct (ls_releasable (lr_state r))"
    "set (ls_releasable (lr_state r)) = {m \<in> residents r. held m = 0 \<and> m \<noteq> ls_current (lr_state r)}"
  using assms unfolding lease_inv_def Let_def by blast+

lemma lease_invI:
  assumes "distinct (map gen_model (ls_generations (lr_state r)))" "length (ls_generations (lr_state r)) \<le> lr_max_resident r"
    "\<And>g. g \<in> set (ls_generations (lr_state r)) \<Longrightarrow> gen_users g = held (gen_model g)"
    "\<And>m. held m \<noteq> 0 \<Longrightarrow> m \<in> residents r" "ls_current (lr_state r) \<in> residents r"
    "\<And>m k. m \<in> residents r \<Longrightarrow> k \<in> residents r \<Longrightarrow> mg_id m = mg_id k \<longleftrightarrow> mg_version m = mg_version k"
    "distinct (ls_releasable (lr_state r))"
    "set (ls_releasable (lr_state r)) = {m \<in> residents r. held m = 0 \<and> m \<noteq> ls_current (lr_state r)}"
  shows "lease_inv held r"
  using assms unfolding lease_inv_def Let_def by blast

lemma registry_new_inv: "registry_new current limit = Ok r \<Longrightarrow> lease_inv (\<lambda>_. 0) r"
  by (auto simp: registry_new_def lease_inv_def residents_def split: if_splits)

lemma find_generation_mem:
  "m \<in> gen_model ` set gens \<Longrightarrow> \<exists>g. find_generation m gens = Some g"
  "find_generation m gens = Some g \<Longrightarrow> g \<in> set gens \<and> gen_model g = m"
  by (induction gens) (auto split: if_splits)

lemma find_generation_None: "find_generation m gens = None \<longleftrightarrow> m \<notin> gen_model ` set gens"
  by (induction gens) auto

lemma map_set_users [simp]: "map gen_model (set_users m n gens) = map gen_model gens"
  by (induction gens) auto

lemma length_set_users [simp]: "length (set_users m n gens) = length gens"
  by (induction gens) auto

lemma set_users_models [simp]: "gen_model ` set (set_users m n gens) = gen_model ` set gens"
  by (metis list.set_map map_set_users)

lemma set_users_cases:
  assumes "distinct (map gen_model gens)" "g \<in> set (set_users m n gens)"
  shows "gen_model g = m \<and> gen_users g = n \<or> gen_model g \<noteq> m \<and> g \<in> set gens"
  using assms
proof (induction gens)
  case (Cons a gens)
  show ?case
  proof (cases "gen_model a = m")
    case True
    then show ?thesis using Cons.prems by (auto simp: rev_image_eqI)
  next
    case False
    then show ?thesis using Cons by auto
  qed
qed simp

lemma lease_inv_users:
  assumes inv: "lease_inv held r" and m: "m \<in> residents r"
    and rel: "distinct rel" "set rel = {k \<in> residents r. (held(m := n)) k = 0 \<and> k \<noteq> ls_current (lr_state r)}"
  shows "lease_inv (held(m := n)) (r \<lparr> lr_state := lr_state r \<lparr> ls_generations := set_users m n (ls_generations (lr_state r)),
    ls_releasable := rel \<rparr> \<rparr>)" (is "lease_inv _ ?r")
proof (rule lease_invI)
  note old = lease_invD [OF inv]
  have res [simp]: "residents ?r = residents r" by (simp add: residents_def)
  show "distinct (map gen_model (ls_generations (lr_state ?r)))" "length (ls_generations (lr_state ?r)) \<le> lr_max_resident ?r"
    using old(1,2) by simp_all
  show "gen_users g = (held(m := n)) (gen_model g)" if "g \<in> set (ls_generations (lr_state ?r))" for g
    using set_users_cases [OF old(1), of g m n] that old(3) by auto
  show "k \<in> residents ?r" if "(held(m := n)) k \<noteq> 0" for k using that old(4) m by (auto split: if_splits)
  show "ls_current (lr_state ?r) \<in> residents ?r" using old(5) by simp
  show "mg_id k = mg_id l \<longleftrightarrow> mg_version k = mg_version l" if "k \<in> residents ?r" "l \<in> residents ?r" for k l
    using that old(6) by simp
  show "distinct (ls_releasable (lr_state ?r))" using rel(1) by simp
  show "set (ls_releasable (lr_state ?r)) = {k \<in> residents ?r. (held(m := n)) k = 0 \<and> k \<noteq> ls_current (lr_state ?r)}"
    using rel(2) by simp
qed

lemma acquire_current_spec:
  assumes inv: "lease_inv held r" and few: "held (ls_current (lr_state r)) < USIZE_MAX"
  obtains r' where "acquire_current r = (r', Ok (ls_current (lr_state r)))" "ls_current (lr_state r') = ls_current (lr_state r)"
    "lease_inv (held(ls_current (lr_state r) := held (ls_current (lr_state r)) + 1)) r'"
proof -
  let ?c = "ls_current (lr_state r)"
  note old = lease_invD [OF inv]
  obtain g where g: "find_generation ?c (ls_generations (lr_state r)) = Some g" "g \<in> set (ls_generations (lr_state r))" "gen_model g = ?c"
    using old(5) find_generation_mem unfolding residents_def by blast
  then have users: "gen_users g = held ?c" using old(3) by simp
  let ?r = "r \<lparr> lr_state := lr_state r \<lparr> ls_generations := set_users ?c (held ?c + 1) (ls_generations (lr_state r)) \<rparr> \<rparr>"
  have "lease_inv (held(?c := held ?c + 1)) (r \<lparr> lr_state := lr_state r \<lparr> ls_generations := set_users ?c (held ?c + 1) (ls_generations (lr_state r)),
    ls_releasable := ls_releasable (lr_state r) \<rparr> \<rparr>)"
    by (rule lease_inv_users [OF inv old(5,7)]) (use old(8) in auto)
  then have "lease_inv (held(?c := held ?c + 1)) ?r" by simp
  moreover have "acquire_current r = (?r, Ok ?c)" using g(1) users few by (simp add: acquire_current_def checked_add_one_def Let_def)
  ultimately show thesis using that by simp
qed

lemma queue_set: "set (ls_releasable (queue_model_release m s)) = insert m (set (ls_releasable s))"
  "distinct (ls_releasable s) \<Longrightarrow> distinct (ls_releasable (queue_model_release m s))"
  "ls_generations (queue_model_release m s) = ls_generations s" "ls_current (queue_model_release m s) = ls_current s"
  by (auto simp: queue_model_release_def)

text \<open>
  The queue is the set of idle models, \<open>{m \<in> A. h m = 0 \<and> m \<noteq> c}\<close>; how each operation changes it, over any
  type of models.
\<close>

lemma idle_drop:
  assumes "x \<in> A" "h x \<noteq> (0 :: nat)"
  shows "h x - 1 = 0 \<and> c \<noteq> x \<Longrightarrow> insert x {m \<in> A. h m = 0 \<and> m \<noteq> c} = {m \<in> A. (h(x := h x - 1)) m = 0 \<and> m \<noteq> c}"
    "\<not> (h x - 1 = 0 \<and> c \<noteq> x) \<Longrightarrow> {m \<in> A. h m = 0 \<and> m \<noteq> c} = {m \<in> A. (h(x := h x - 1)) m = 0 \<and> m \<noteq> c}"
  using assms by auto

lemma idle_take: "A - {m \<in> A. h m = (0 :: nat) \<and> m \<noteq> c} = {m \<in> A. h m \<noteq> 0 \<or> m = c}"
  by auto

lemma idle_none: "{m \<in> {m \<in> A. h m \<noteq> (0 :: nat) \<or> m = c}. h m = 0 \<and> m \<noteq> c} = {}"
  by auto

lemma idle_kept: "c \<in> A \<Longrightarrow> (\<And>m. h m \<noteq> (0 :: nat) \<Longrightarrow> m \<in> A) \<Longrightarrow> {m \<in> A. h m \<noteq> 0 \<or> m = c} = insert c {m. h m \<noteq> 0}"
  by auto

lemma idle_publish:
  assumes "c \<in> A" "c \<noteq> x" "x \<notin> {m \<in> A. h m = (0 :: nat) \<and> m \<noteq> c}" "x \<notin> A \<Longrightarrow> h x = 0"
  shows "{m \<in> A. h m = 0 \<and> m \<noteq> c} \<union> (if h c = 0 then {c} else {}) = {m \<in> insert x A. h m = 0 \<and> m \<noteq> x}"
  using assms by auto

lemma drop_lease_spec:
  assumes inv: "lease_inv held r" and m: "held m \<noteq> 0"
  obtains r' where "drop_lease m r = (r', Ok ())" "lease_inv (held(m := held m - 1)) r'"
    "ls_current (lr_state r') = ls_current (lr_state r)"
proof -
  note old = lease_invD [OF inv]
  let ?n = "held m - 1" and ?s = "lr_state r"
  have res: "m \<in> residents r" using m by (rule old(4))
  obtain g where g: "find_generation m (ls_generations ?s) = Some g" "g \<in> set (ls_generations ?s)" "gen_model g = m"
    using res find_generation_mem unfolding residents_def by blast
  then have users: "gen_users g = held m" using old(3) by simp
  let ?s' = "?s \<lparr> ls_generations := set_users m ?n (ls_generations ?s) \<rparr>"
  let ?s'' = "if ?n = 0 \<and> ls_current ?s' \<noteq> m then queue_model_release m ?s' else ?s'"
  have rel: "distinct (ls_releasable ?s'')" "set (ls_releasable ?s'') = {k \<in> residents r. (held(m := ?n)) k = 0 \<and> k \<noteq> ls_current ?s}"
  proof -
    show "distinct (ls_releasable ?s'')" using old(7) by (simp add: queue_set)
    show "set (ls_releasable ?s'') = {k \<in> residents r. (held(m := ?n)) k = 0 \<and> k \<noteq> ls_current ?s}"
    proof (cases "?n = 0 \<and> ls_current ?s \<noteq> m")
      case True
      then have "set (ls_releasable ?s'') = insert m (set (ls_releasable ?s))" by (simp add: queue_set)
      then show ?thesis unfolding old(8) using idle_drop(1) [of m "residents r" held "ls_current ?s", OF res m True] by (rule trans)
    next
      case False
      then have "set (ls_releasable ?s'') = set (ls_releasable ?s)" by auto
      then show ?thesis unfolding old(8) using idle_drop(2) [of m "residents r" held "ls_current ?s", OF res m False] by (rule trans)
    qed
  qed
  have "?s'' = ?s \<lparr> ls_generations := set_users m ?n (ls_generations ?s), ls_releasable := ls_releasable ?s'' \<rparr>"
    by (simp add: queue_model_release_def)
  moreover have "lease_inv (held(m := ?n)) (r \<lparr> lr_state := ?s \<lparr> ls_generations := set_users m ?n (ls_generations ?s),
      ls_releasable := ls_releasable ?s'' \<rparr> \<rparr>)"
    by (rule lease_inv_users [OF inv res rel])
  ultimately have "lease_inv (held(m := ?n)) (r \<lparr> lr_state := ?s'' \<rparr>)" by (simp only:)
  moreover have "drop_lease m r = (r \<lparr> lr_state := ?s'' \<rparr>, Ok ())" using g(1) users m by (simp add: drop_lease_def Let_def)
  moreover have "ls_current (lr_state (r \<lparr> lr_state := ?s'' \<rparr>)) = ls_current ?s" by (simp add: queue_set)
  ultimately show thesis using that by blast
qed

lemma take_releasable_spec:
  assumes inv: "lease_inv held r" and take: "take_releasable r = (r', models)"
  shows "lease_inv held r'" "\<forall>m \<in> set models. held m = 0 \<and> m \<noteq> ls_current (lr_state r)"
    "residents r' = {m \<in> residents r. held m \<noteq> 0 \<or> m = ls_current (lr_state r)}" "ls_current (lr_state r') = ls_current (lr_state r)"
proof -
  note old = lease_invD [OF inv]
  have models: "models = ls_releasable (lr_state r)" and
    r': "r' = r \<lparr> lr_state := lr_state r \<lparr> ls_releasable := [],
      ls_generations := filter (\<lambda>g. gen_model g \<notin> set models) (ls_generations (lr_state r)) \<rparr> \<rparr>"
    using take by (auto simp: take_releasable_def Let_def)
  show "\<forall>m \<in> set models. held m = 0 \<and> m \<noteq> ls_current (lr_state r)" using old(8) models by auto
  have "residents r' = residents r - set models" by (auto simp: residents_def r')
  then show res: "residents r' = {m \<in> residents r. held m \<noteq> 0 \<or> m = ls_current (lr_state r)}"
    unfolding models old(8) using idle_take by (rule trans)
  show cur: "ls_current (lr_state r') = ls_current (lr_state r)" by (simp add: r')
  show "lease_inv held r'"
  proof (rule lease_invI)
    show "distinct (map gen_model (ls_generations (lr_state r')))" using old(1) by (simp add: r' distinct_map_filter)
    show "length (ls_generations (lr_state r')) \<le> lr_max_resident r'"
      using order_trans [OF length_filter_le old(2)] by (simp add: r')
    show "gen_users g = held (gen_model g)" if "g \<in> set (ls_generations (lr_state r'))" for g
      using that old(3) by (auto simp: r')
    show "m \<in> residents r'" if "held m \<noteq> 0" for m using that old(4) by (auto simp: res)
    show "ls_current (lr_state r') \<in> residents r'" using old(5) cur by (simp add: res)
    show "mg_id m = mg_id k \<longleftrightarrow> mg_version m = mg_version k" if "m \<in> residents r'" "k \<in> residents r'" for m k
      using that old(6) by (simp add: res)
    show "distinct (ls_releasable (lr_state r'))" by (simp add: r')
    show "set (ls_releasable (lr_state r')) = {m \<in> residents r'. held m = 0 \<and> m \<noteq> ls_current (lr_state r')}"
      unfolding res cur idle_none by (simp add: r')
  qed
qed

lemma publish_spec:
  assumes inv: "lease_inv held r" and pub: "publish model r = (r', q)" and fresh: "model \<notin> set (ls_releasable (lr_state r))"
  shows "lease_inv held r'" "ls_current (lr_state r') = (if q = Ok () then model else ls_current (lr_state r))" "q \<noteq> Panic"
proof -
  note old = lease_invD [OF inv]
  let ?s = "lr_state r"
  let ?gens = "if model \<in> residents r then ls_generations ?s else ls_generations ?s @ [\<lparr> gen_model = model, gen_users = 0 \<rparr>]"
  let ?prev = "ls_current ?s"
  let ?s' = "?s \<lparr> ls_generations := ?gens, ls_current := model \<rparr>"
  let ?s'' = "if held ?prev = 0 then queue_model_release ?prev ?s' else ?s'"
  have all: "list_all (\<lambda>g. gen_model g \<noteq> model) (ls_generations ?s) \<longleftrightarrow> model \<notin> residents r"
    by (auto simp: list_all_iff residents_def)
  have prev: "list_ex (\<lambda>g. gen_model g = ?prev \<and> gen_users g = 0) ?gens \<longleftrightarrow> held ?prev = 0" if "model \<noteq> ?prev"
  proof -
    have "list_ex (\<lambda>g. gen_model g = ?prev \<and> gen_users g = 0) (ls_generations ?s) \<longleftrightarrow> held ?prev = 0"
      using old(3,5) by (force simp: list_ex_iff residents_def)
    then show ?thesis using that by auto
  qed
  consider "r' = r" "q = Ok ()" "?prev = model" | e where "r' = r" "q = Err e"
    | "q = Ok ()" "r' = r \<lparr> lr_state := ?s'' \<rparr>" "?prev \<noteq> model" "length ?gens \<le> lr_max_resident r"
      "\<forall>k \<in> residents r. mg_id k = mg_id model \<longleftrightarrow> mg_version k = mg_version model"
  proof -
    assume a: "r' = r \<Longrightarrow> q = Ok () \<Longrightarrow> ?prev = model \<Longrightarrow> thesis" and b: "\<And>e. r' = r \<Longrightarrow> q = Err e \<Longrightarrow> thesis"
      and c: "q = Ok () \<Longrightarrow> r' = r \<lparr> lr_state := ?s'' \<rparr> \<Longrightarrow> ?prev \<noteq> model \<Longrightarrow> length ?gens \<le> lr_max_resident r \<Longrightarrow>
        \<forall>k \<in> residents r. mg_id k = mg_id model \<longleftrightarrow> mg_version k = mg_version model \<Longrightarrow> thesis"
    show thesis
    proof (cases "mg_id model = 0 \<or> ?prev = model \<or>
        list_ex (\<lambda>g. mg_id (gen_model g) = mg_id model \<and> mg_version (gen_model g) \<noteq> mg_version model) (ls_generations ?s) \<or>
        list_ex (\<lambda>g. mg_version (gen_model g) = mg_version model \<and> mg_id (gen_model g) \<noteq> mg_id model) (ls_generations ?s) \<or>
        (model \<notin> residents r \<and> lr_max_resident r \<le> length (ls_generations ?s))")
      case True
      then show ?thesis using pub a b by (auto simp: publish_def Let_def all split: if_splits)
    next
      case False
      then have ids: "\<forall>k \<in> residents r. mg_id k = mg_id model \<longleftrightarrow> mg_version k = mg_version model"
        by (auto simp: list_ex_iff residents_def)
      moreover have "length ?gens \<le> lr_max_resident r" using False old(2) by auto
      moreover have "q = Ok () \<and> r' = r \<lparr> lr_state := ?s'' \<rparr>"
        using pub False prev by (auto simp: publish_def Let_def all)
      ultimately show ?thesis using c False by blast
    qed
  qed
  then show "lease_inv held r'" "ls_current (lr_state r') = (if q = Ok () then model else ?prev)" "q \<noteq> Panic"
  proof (atomize(full), cases)
    case 1
    then show "lease_inv held r' \<and> ls_current (lr_state r') = (if q = Ok () then model else ?prev) \<and> q \<noteq> Panic" using inv by simp
  next
    case (2 e)
    then show "lease_inv held r' \<and> ls_current (lr_state r') = (if q = Ok () then model else ?prev) \<and> q \<noteq> Panic" using inv by simp
  next
    case 3
    have res: "residents r' = insert model (residents r)" by (auto simp: 3(2) residents_def queue_set)
    have h0: "held model = 0" if "model \<notin> residents r" using that old(4) by blast
    have "lease_inv held r'"
    proof (rule lease_invI)
      show "distinct (map gen_model (ls_generations (lr_state r')))"
        using old(1) by (auto simp: 3(2) queue_set residents_def)
      show "length (ls_generations (lr_state r')) \<le> lr_max_resident r'" using 3(4) by (simp add: 3(2) queue_set)
      show "gen_users g = held (gen_model g)" if "g \<in> set (ls_generations (lr_state r'))" for g
        using that old(3) h0 by (auto simp: 3(2) queue_set split: if_splits)
      show "m \<in> residents r'" if "held m \<noteq> 0" for m using that old(4) by (auto simp: res)
      show "ls_current (lr_state r') \<in> residents r'" by (simp add: res) (simp add: 3(2) queue_set)
      show "mg_id m = mg_id k \<longleftrightarrow> mg_version m = mg_version k" if "m \<in> residents r'" "k \<in> residents r'" for m k
      proof -
        have "m = model \<or> m \<in> residents r" "k = model \<or> k \<in> residents r" using that unfolding res by blast+
        then show ?thesis using old(6) [of m k] 3(5) by metis
      qed
      show "distinct (ls_releasable (lr_state r'))" using old(7) by (simp add: 3(2) queue_set)
      have cur: "ls_current (lr_state r') = model" by (simp add: 3(2) queue_set)
      have "set (ls_releasable (lr_state r')) = set (ls_releasable ?s) \<union> (if held ?prev = 0 then {?prev} else {})"
        by (simp add: 3(2) queue_set)
      then show "set (ls_releasable (lr_state r')) = {m \<in> residents r'. held m = 0 \<and> m \<noteq> ls_current (lr_state r')}"
        unfolding cur res old(8) using idle_publish [OF old(5) 3(3) fresh [unfolded old(8)] h0] by (rule trans)
    qed
    moreover have "ls_current (lr_state r') = model" by (simp add: 3(2) queue_set)
    ultimately show "lease_inv held r' \<and> ls_current (lr_state r') = (if q = Ok () then model else ?prev) \<and> q \<noteq> Panic"
      using 3(1) by simp
  qed
qed

section \<open>Lanes that share the registry\<close>

text \<open>
  Every lane of the orchestrator owns an \<open>EpisodeModelLeases\<close> over the one registry; the batcher
  publishes generations and takes the releasable ones. Each event is one method call.
\<close>

record lease_system =
  sys_lanes :: "nat \<Rightarrow> episode_leases"
  sys_registry :: lease_registry

datatype lease_event = Ensure nat u64 | Release nat u64 | Publish model_generation | TakeReleasable

datatype lease_answer = Leased "(model_generation, engine_error) outcome" | Done "(unit, engine_error) outcome"
  | Releasable "model_generation list"

definition lease_system_new :: "lease_registry \<Rightarrow> lease_system" where
  "lease_system_new r = \<lparr> sys_lanes = \<lambda>_. Map.empty, sys_registry = r \<rparr>"

definition on_lane ::
    "nat \<Rightarrow> (episode_leases \<times> lease_registry \<Rightarrow> (episode_leases \<times> lease_registry) \<times> 'a) \<Rightarrow> lease_system \<Rightarrow> lease_system \<times> 'a"
where
  "on_lane l f S =
     (let ((es, r), a) = f (sys_lanes S l, sys_registry S)
      in (S \<lparr> sys_lanes := (sys_lanes S)(l := es), sys_registry := r \<rparr>, a))"

fun lease_exec :: "lease_event \<Rightarrow> lease_system \<Rightarrow> lease_system \<times> lease_answer" where
  "lease_exec (Ensure l e) S = map_prod (\<lambda>S. S) Leased (on_lane l (ensure_lease e) S)"
| "lease_exec (Release l e) S = map_prod (\<lambda>S. S) Done (on_lane l (release_lease e) S)"
| "lease_exec (Publish m) S =
     (let (r, q) = publish m (sys_registry S) in (S \<lparr> sys_registry := r \<rparr>, Done q))"
| "lease_exec TakeReleasable S =
     (let (r, models) = take_releasable (sys_registry S) in (S \<lparr> sys_registry := r \<rparr>, Releasable models))"

text \<open>The events the batcher is expected to make: it does not publish a generation that waits for release.\<close>

fun lease_allowed :: "lease_event \<Rightarrow> lease_system \<Rightarrow> bool" where
  "lease_allowed (Publish m) S = (m \<notin> set (ls_releasable (lr_state (sys_registry S))))"
| "lease_allowed _ S = True"

inductive lease_run :: "lease_system \<Rightarrow> lease_event list \<Rightarrow> lease_system \<Rightarrow> bool" where
  lease_run_Nil: "lease_run S [] S"
| lease_run_snoc: "lease_run S evs S' \<Longrightarrow> lease_allowed ev S' \<Longrightarrow> lease_run S (evs @ [ev]) (fst (lease_exec ev S'))"

definition holders :: "lease_system \<Rightarrow> model_generation \<Rightarrow> (nat \<times> u64) set" where
  "holders S m = {(l, e). sys_lanes S l e = Some m}"

definition held :: "lease_system \<Rightarrow> model_generation \<Rightarrow> nat" where
  "held S m = card (holders S m)"

definition lease_system_inv :: "lease_system \<Rightarrow> bool" where
  "lease_system_inv S \<longleftrightarrow> (\<forall>m. finite (holders S m)) \<and> lease_inv (held S) (sys_registry S)"

lemma holders_update:
  "holders (S \<lparr> sys_lanes := (sys_lanes S)(l := (sys_lanes S l)(e := v)), sys_registry := r \<rparr>) m =
     (if v = Some m then insert (l, e) (holders S m) else holders S m - {(l, e)})"
  by (auto simp: holders_def split: if_splits)

lemma holders_idem: "holders (S \<lparr> sys_lanes := (sys_lanes S)(l := sys_lanes S l), sys_registry := r \<rparr>) m = holders S m"
  by (simp add: holders_def)

lemma holders_registry [simp]: "holders (S \<lparr> sys_registry := r \<rparr>) m = holders S m" "held (S \<lparr> sys_registry := r \<rparr>) = held S"
  by (simp_all add: holders_def held_def fun_eq_iff)

lemma acquire_current_cases:
  assumes "lease_inv h r"
  obtains (leased) r' where "acquire_current r = (r', Ok (ls_current (lr_state r)))"
      "lease_inv (h(ls_current (lr_state r) := h (ls_current (lr_state r)) + 1)) r'"
  | (full) "acquire_current r = (r, Panic)" "USIZE_MAX \<le> h (ls_current (lr_state r))"
proof (cases "h (ls_current (lr_state r)) < USIZE_MAX")
  case True
  then show thesis using acquire_current_spec [OF assms] leased by metis
next
  case False
  note old = lease_invD [OF assms]
  obtain g where g: "find_generation (ls_current (lr_state r)) (ls_generations (lr_state r)) = Some g"
      "g \<in> set (ls_generations (lr_state r))" "gen_model g = ls_current (lr_state r)"
    using old(5) find_generation_mem unfolding residents_def by blast
  then have "gen_users g = h (ls_current (lr_state r))" using old(3) by simp
  then show thesis using full False g(1) by (simp add: acquire_current_def checked_add_one_def Let_def)
qed

lemma ensure_lease_step:
  assumes inv: "lease_system_inv S" and step: "on_lane l (ensure_lease e) S = (S', q)"
  shows "lease_system_inv S'"
    and "(\<exists>m. q = Ok m \<and> sys_lanes S' l e = Some m) \<or> q = Panic \<and> S' = S \<and> USIZE_MAX \<le> held S (ls_current (lr_state (sys_registry S)))"
proof -
  have fin: "finite (holders S m)" and reg: "lease_inv (held S) (sys_registry S)" for m
    using inv unfolding lease_system_inv_def by auto
  let ?c = "ls_current (lr_state (sys_registry S))"
  have "lease_system_inv S' \<and> ((\<exists>m. q = Ok m \<and> sys_lanes S' l e = Some m) \<or> q = Panic \<and> S' = S \<and> USIZE_MAX \<le> held S ?c)"
  proof (cases "sys_lanes S l e")
    case (Some m)
    then have "S' = S" "q = Ok m" using step by (auto simp: on_lane_def ensure_lease_def)
    then show ?thesis using inv Some by simp
  next
    case None
    from reg show ?thesis
    proof (cases rule: acquire_current_cases)
      case full
      then have "S' = S" "q = Panic" using step None by (auto simp: on_lane_def ensure_lease_def)
      then show ?thesis using inv full by simp
    next
      case (leased r')
      then have S': "S' = S \<lparr> sys_lanes := (sys_lanes S)(l := (sys_lanes S l)(e := Some ?c)), sys_registry := r' \<rparr>" and q: "q = Ok ?c"
        using step None by (auto simp: on_lane_def ensure_lease_def)
      have new: "(l, e) \<notin> holders S m" for m using None by (simp add: holders_def)
      then have hold: "holders S' m = (if ?c = m then insert (l, e) (holders S m) else holders S m)" for m
        unfolding S' holders_update by simp
      have "held S' = (held S)(?c := held S ?c + 1)"
        using fin new by (simp add: held_def hold fun_eq_iff)
      then have "lease_system_inv S'" using leased(2) fin by (simp add: lease_system_inv_def hold) (simp add: S')
      then show ?thesis using q by (simp add: S')
    qed
  qed
  then show "lease_system_inv S'" "(\<exists>m. q = Ok m \<and> sys_lanes S' l e = Some m) \<or> q = Panic \<and> S' = S \<and> USIZE_MAX \<le> held S ?c" by auto
qed

lemma release_lease_step:
  assumes inv: "lease_system_inv S" and step: "on_lane l (release_lease e) S = (S', q)"
  shows "lease_system_inv S'" and "q = Ok () \<and> sys_lanes S' l e = None"
proof -
  have fin: "finite (holders S m)" and reg: "lease_inv (held S) (sys_registry S)" for m
    using inv unfolding lease_system_inv_def by auto
  have "lease_system_inv S' \<and> q = Ok () \<and> sys_lanes S' l e = None"
  proof (cases "sys_lanes S l e")
    case None
    then have "S' = S" "q = Ok ()" using step by (auto simp: on_lane_def release_lease_def)
    then show ?thesis using inv None by simp
  next
    case (Some m)
    then have mem: "(l, e) \<in> holders S m" and only: "k \<noteq> m \<Longrightarrow> (l, e) \<notin> holders S k" for k by (auto simp: holders_def)
    then have "held S m \<noteq> 0" using fin unfolding held_def by auto
    then obtain r' where r': "drop_lease m (sys_registry S) = (r', Ok ())" "lease_inv ((held S)(m := held S m - 1)) r'"
      using drop_lease_spec [OF reg] by metis
    then have S': "S' = S \<lparr> sys_lanes := (sys_lanes S)(l := (sys_lanes S l)(e := None)), sys_registry := r' \<rparr>" and q: "q = Ok ()"
      using step Some by (auto simp: on_lane_def release_lease_def)
    have hold: "holders S' k = (if k = m then holders S m - {(l, e)} else holders S k)" for k
      unfolding S' holders_update using only by auto
    have "held S' = (held S)(m := held S m - 1)"
      using fin mem by (simp add: held_def hold fun_eq_iff)
    then have "lease_system_inv S'" using r'(2) fin by (simp add: lease_system_inv_def hold) (simp add: S')
    then show ?thesis using q by (simp add: S')
  qed
  then show "lease_system_inv S'" "q = Ok () \<and> sys_lanes S' l e = None" by auto
qed

lemma lease_exec_inv:
  assumes inv: "lease_system_inv S" and ok: "lease_allowed ev S"
  shows "lease_system_inv (fst (lease_exec ev S))"
proof (cases ev)
  case (Ensure l e)
  then show ?thesis using ensure_lease_step(1) [OF inv] by (cases "on_lane l (ensure_lease e) S") simp
next
  case (Release l e)
  then show ?thesis using release_lease_step(1) [OF inv] by (cases "on_lane l (release_lease e) S") simp
next
  case (Publish m)
  then show ?thesis using publish_spec(1) [of "held S" "sys_registry S" m] inv ok
    by (cases "publish m (sys_registry S)") (simp add: lease_system_inv_def)
next
  case TakeReleasable
  then show ?thesis using take_releasable_spec(1) [of "held S" "sys_registry S"] inv
    by (cases "take_releasable (sys_registry S)") (simp add: lease_system_inv_def)
qed

lemma lease_system_new_inv: "registry_new current limit = Ok r \<Longrightarrow> lease_system_inv (lease_system_new r)"
proof -
  have "holders (lease_system_new r) m = {}" for m by (simp add: holders_def lease_system_new_def)
  moreover from this have "held (lease_system_new r) = (\<lambda>_. 0)" by (simp add: held_def fun_eq_iff)
  ultimately show "registry_new current limit = Ok r \<Longrightarrow> ?thesis"
    using registry_new_inv by (simp add: lease_system_inv_def) (simp add: lease_system_new_def)
qed

lemma lease_run_inv: "lease_run S evs S' \<Longrightarrow> lease_system_inv S \<Longrightarrow> lease_system_inv S'"
  by (induction rule: lease_run.induct) (simp_all add: lease_exec_inv)

lemma lease_exec_keeps:
  assumes "sys_lanes S l e = Some m" "ev \<noteq> Release l e"
  shows "sys_lanes (fst (lease_exec ev S)) l e = Some m"
proof (cases ev)
  case (Ensure k d)
  then show ?thesis using assms(1)
    by (auto simp: on_lane_def ensure_lease_def split: prod.splits option.splits outcome.splits)
next
  case (Release k d)
  then show ?thesis using assms by (auto simp: on_lane_def release_lease_def split: prod.splits option.splits)
qed (use assms(1) in \<open>simp_all add: split_beta Let_def\<close>)

lemma lease_run_keeps:
  "lease_run S evs S' \<Longrightarrow> sys_lanes S l e = Some m \<Longrightarrow> Release l e \<notin> set evs \<Longrightarrow> sys_lanes S' l e = Some m"
  by (induction rule: lease_run.induct) (auto intro: lease_exec_keeps)

lemma held_resident:
  assumes "lease_system_inv S" "sys_lanes S l e = Some m"
  shows "m \<in> residents (sys_registry S)" "0 < held S m"
proof -
  have "(l, e) \<in> holders S m" using assms(2) by (simp add: holders_def)
  then show "0 < held S m" using assms(1) by (auto simp: held_def lease_system_inv_def card_gt_0_iff)
  then show "m \<in> residents (sys_registry S)" using assms(1) lease_invD(4) [of "held S" "sys_registry S" m] by (simp add: lease_system_inv_def)
qed

section \<open>Properties\<close>

text \<open>
  C10: Whatever the lanes and the batcher have done so far, provided that no generation that was still queued for release
  has been published again, the generations that \<open>take_releasable\<close>
  hands out for release are not the current one and no episode of any lane holds a lease of them;
  afterwards exactly the current generation and the leased ones are resident, so nothing leaks.
\<close>

theorem take_releasable_safe:
  assumes "registry_new current limit = Ok r" "lease_run (lease_system_new r) evs S"
    and "take_releasable (sys_registry S) = (r', models)"
  shows "(\<forall>m \<in> set models. m \<noteq> ls_current (lr_state r') \<and> (\<forall>l e. sys_lanes S l e \<noteq> Some m)) \<and>
    residents r' = insert (ls_current (lr_state r')) {m. \<exists>l e. sys_lanes S l e = Some m}"
proof -
  have inv: "lease_system_inv S" using assms(1,2) lease_system_new_inv lease_run_inv by blast
  then have reg: "lease_inv (held S) (sys_registry S)" and fin: "finite (holders S m)" for m
    unfolding lease_system_inv_def by auto
  note take = take_releasable_spec [OF reg assms(3)]
  have pos: "held S m \<noteq> 0 \<longleftrightarrow> (\<exists>l e. sys_lanes S l e = Some m)" for m
    using fin [of m] by (auto simp: held_def holders_def)
  have held: "m \<in> residents (sys_registry S)" if "held S m \<noteq> 0" for m using lease_invD(4) [OF reg that] .
  have "residents r' = {m \<in> residents (sys_registry S). held S m \<noteq> 0 \<or> m = ls_current (lr_state r')}"
    using take(3,4) by simp
  also have "\<dots> = insert (ls_current (lr_state r')) {m. held S m \<noteq> 0}"
    unfolding take(4) using lease_invD(5) [OF reg] held by (rule idle_kept)
  finally have "residents r' = insert (ls_current (lr_state r')) {m. \<exists>l e. sys_lanes S l e = Some m}" unfolding pos .
  then show ?thesis using take(2,4) pos by metis
qed

definition sample_generation :: "u64 \<Rightarrow> model_generation" where
  "sample_generation n = \<lparr> mg_id = n, mg_version = [ucast n] \<rparr>"

definition sample_registry :: lease_registry where
  "sample_registry = (case registry_new (sample_generation 1) 3 of Ok r \<Rightarrow> r)"

definition sample_leases :: lease_system where
  "sample_leases = fst (lease_exec (Publish (sample_generation 3)) (fst (lease_exec (Publish (sample_generation 2))
     (fst (lease_exec (Ensure 0 5) (lease_system_new sample_registry))))))"

lemma sample_registry_new: "registry_new (sample_generation 1) 3 = Ok sample_registry"
  by code_simp

lemma sample_leases_run:
  "lease_run (lease_system_new sample_registry) [Ensure 0 5, Publish (sample_generation 2), Publish (sample_generation 3)] sample_leases"
proof -
  let ?S0 = "lease_system_new sample_registry"
  let ?S1 = "fst (lease_exec (Ensure 0 5) ?S0)"
  let ?S2 = "fst (lease_exec (Publish (sample_generation 2)) ?S1)"
  have "lease_run ?S0 ([] @ [Ensure 0 5]) ?S1" by (rule lease_run_snoc [OF lease_run_Nil]) simp
  then have "lease_run ?S0 (([] @ [Ensure 0 5]) @ [Publish (sample_generation 2)]) ?S2"
    by (rule lease_run_snoc) code_simp
  then have "lease_run ?S0 ((([] @ [Ensure 0 5]) @ [Publish (sample_generation 2)]) @ [Publish (sample_generation 3)])
      (fst (lease_exec (Publish (sample_generation 3)) ?S2))"
    by (rule lease_run_snoc) code_simp
  then show ?thesis by (simp add: sample_leases_def)
qed

theorem take_releasable_safe_witness:
  "snd (take_releasable (sys_registry sample_leases)) = [sample_generation 2] \<and>
   sample_generation 2 \<noteq> sample_generation 3 \<and> (\<forall>l e. sys_lanes sample_leases l e \<noteq> Some (sample_generation 2))"
proof -
  have take: "snd (take_releasable (sys_registry sample_leases)) = [sample_generation 2]" by code_simp
  have cur: "ls_current (lr_state (fst (take_releasable (sys_registry sample_leases)))) = sample_generation 3" by code_simp
  show ?thesis
    using take cur take_releasable_safe [OF sample_registry_new sample_leases_run, of "fst (take_releasable (sys_registry sample_leases))"
        "snd (take_releasable (sys_registry sample_leases))", OF prod.collapse [symmetric]] by simp
qed

text \<open>
  C23: An episode is pinned to one generation: from the moment \<open>ensure\<close> has given it a lease until
  it releases it, whatever is published, taken or leased before and in between, provided that no generation still
  queued for release is published again, \<open>ensure\<close> answers with the
  same generation, that generation stays resident, and it is never queued for release.
\<close>

theorem lease_pins_generation:
  assumes "registry_new current limit = Ok r" "lease_run (lease_system_new r) evs S"
    and "sys_lanes S l e = Some m" and "lease_run S evs' S'" "Release l e \<notin> set evs'"
  shows "snd (lease_exec (Ensure l e) S') = Leased (Ok m) \<and> m \<in> residents (sys_registry S') \<and>
    m \<notin> set (ls_releasable (lr_state (sys_registry S')))"
proof -
  have inv: "lease_system_inv S'" using assms(1,2,4) lease_system_new_inv lease_run_inv by blast
  have kept: "sys_lanes S' l e = Some m" using lease_run_keeps [OF assms(4,3,5)] .
  note res = held_resident [OF inv kept]
  have "m \<notin> set (ls_releasable (lr_state (sys_registry S')))"
    using lease_invD(8) [of "held S'" "sys_registry S'"] inv res(2) unfolding lease_system_inv_def by simp
  then show ?thesis using res(1) kept by (simp add: on_lane_def ensure_lease_def)
qed

theorem lease_pins_generation_witness:
  "snd (lease_exec (Ensure 0 5) sample_leases) = Leased (Ok (sample_generation 1))"
proof -
  let ?S1 = "fst (lease_exec (Ensure 0 5) (lease_system_new sample_registry))"
  have run: "lease_run (lease_system_new sample_registry) ([] @ [Ensure 0 5]) ?S1" by (rule lease_run_snoc [OF lease_run_Nil]) simp
  have held: "sys_lanes ?S1 0 5 = Some (sample_generation 1)" by code_simp
  have "lease_run ?S1 (([] @ [Publish (sample_generation 2)]) @ [Publish (sample_generation 3)]) sample_leases"
    unfolding sample_leases_def by (rule lease_run_snoc [OF lease_run_snoc [OF lease_run_Nil]]; code_simp)
  then show ?thesis using lease_pins_generation [OF sample_registry_new run held] by simp
qed

text \<open>
  C31: No method of the registry panics while fewer than \<open>usize::MAX\<close> leases of the current generation
  are out: \<open>ensure\<close> gives a lease, \<open>release\<close> and \<open>publish\<close> return, in every state the lanes and the
  batcher reach without publishing again a generation that is still queued for release, which the
  call itself does not do either.
\<close>

theorem lease_never_panics:
  assumes "registry_new current limit = Ok r" "lease_run (lease_system_new r) evs S" "lease_allowed ev S"
    and "held S (ls_current (lr_state (sys_registry S))) < USIZE_MAX"
  shows "snd (lease_exec ev S) \<noteq> Leased Panic \<and> snd (lease_exec ev S) \<noteq> Done Panic"
proof -
  have inv: "lease_system_inv S" using assms(1,2) lease_system_new_inv lease_run_inv by blast
  then have reg: "lease_inv (held S) (sys_registry S)" unfolding lease_system_inv_def by simp
  show ?thesis
  proof (cases ev)
    case (Ensure l e)
    then show ?thesis using ensure_lease_step(2) [OF inv, of l e] assms(4) by (cases "on_lane l (ensure_lease e) S") auto
  next
    case (Release l e)
    then show ?thesis using release_lease_step(2) [OF inv, of l e] by (cases "on_lane l (release_lease e) S") auto
  next
    case (Publish m)
    then show ?thesis using publish_spec(3) [OF reg, of m] assms(3) by (cases "publish m (sys_registry S)") auto
  next
    case TakeReleasable
    then show ?thesis by (simp add: split_beta)
  qed
qed

lemma publish_lanes: "sys_lanes (fst (lease_exec (Publish m) S)) = sys_lanes S"
  by (simp add: split_beta)

lemma sample_leases_lanes: "sys_lanes sample_leases = (\<lambda>_. Map.empty)(0 := [5 \<mapsto> sample_generation 1])"
proof -
  have "snd (acquire_current sample_registry) = Ok (sample_generation 1)" by code_simp
  then obtain r where "acquire_current sample_registry = (r, Ok (sample_generation 1))" by (metis prod.collapse)
  then show ?thesis
    unfolding sample_leases_def publish_lanes by (simp add: on_lane_def ensure_lease_def lease_system_new_def)
qed

theorem lease_never_panics_witness:
  "snd (lease_exec (Release 0 5) sample_leases) \<noteq> Done Panic"
proof -
  have none: "sys_lanes sample_leases l e \<noteq> Some (sample_generation 3)" for l e
    unfolding sample_leases_lanes by (simp add: sample_generation_def)
  have "ls_current (lr_state (sys_registry sample_leases)) = sample_generation 3" by code_simp
  then have "held sample_leases (ls_current (lr_state (sys_registry sample_leases))) < USIZE_MAX"
    using none by (simp add: held_def holders_def USIZE_MAX_def)
  then show ?thesis using lease_never_panics [OF sample_registry_new sample_leases_run, of "Release 0 5"] by simp
qed

text \<open>No resident generation has the identifier zero.\<close>

lemma drop_lease_residents: "residents (fst (drop_lease m r)) = residents r"
proof -
  have "gen_model ` set (set_users m n gens) = gen_model ` set gens" for n gens
    using map_set_users [of m n gens] by (metis list.set_map)
  then show ?thesis by (auto simp: drop_lease_def residents_def Let_def queue_set split: option.split)
qed

lemma acquire_current_residents: "residents (fst (acquire_current r)) = residents r"
proof -
  have "gen_model ` set (set_users m n gens) = gen_model ` set gens" for m n gens
    using map_set_users [of m n gens] by (metis list.set_map)
  then show ?thesis by (auto simp: acquire_current_def residents_def Let_def split: option.split)
qed

lemma publish_residents: "k \<in> residents (fst (publish m r)) \<Longrightarrow> k \<in> residents r \<or> k = m \<and> mg_id m \<noteq> 0"
  by (auto simp: publish_def residents_def Let_def queue_set split: if_splits)

lemma lease_exec_residents:
  "k \<in> residents (sys_registry (fst (lease_exec ev S))) \<Longrightarrow> k \<in> residents (sys_registry S) \<or> mg_id k \<noteq> 0"
proof (cases ev)
  case (Ensure l e)
  have "residents (snd (fst (ensure_lease e (es, r)))) = residents r" for es r
  proof -
    obtain r' q where acq: "acquire_current r = (r', q)" by (cases "acquire_current r")
    then have "residents r' = residents r" using acquire_current_residents [of r] by simp
    then show ?thesis using acq by (cases "es e"; cases q) (simp_all add: ensure_lease_def)
  qed
  then show "k \<in> residents (sys_registry (fst (lease_exec ev S))) \<Longrightarrow> ?thesis" using Ensure by (simp add: on_lane_def split_beta)
next
  case (Release l e)
  have "residents (snd (fst (release_lease e (es, r)))) = residents r" for es r
    using drop_lease_residents [of _ r] by (cases "es e") (simp_all add: release_lease_def split_beta)
  then show "k \<in> residents (sys_registry (fst (lease_exec ev S))) \<Longrightarrow> ?thesis" using Release by (simp add: on_lane_def split_beta)
next
  case (Publish m)
  then show "k \<in> residents (sys_registry (fst (lease_exec ev S))) \<Longrightarrow> ?thesis"
    using publish_residents [of k m "sys_registry S"] by (auto simp: split_beta)
next
  case TakeReleasable
  then show "k \<in> residents (sys_registry (fst (lease_exec ev S))) \<Longrightarrow> ?thesis"
    by (auto simp: take_releasable_def residents_def Let_def)
qed

lemma lease_run_ids:
  "lease_run S evs S' \<Longrightarrow> \<forall>k \<in> residents (sys_registry S). mg_id k \<noteq> 0 \<Longrightarrow> \<forall>k \<in> residents (sys_registry S'). mg_id k \<noteq> 0"
  by (induction rule: lease_run.induct) (use lease_exec_residents in blast)+

text \<open>
  C32: The condition on \<open>publish\<close> is needed. In every state reached under it, publishing a generation that waits in the
  release queue succeeds; the generation is then handed out for release although it is the current
  one, it is no longer resident, and the next episode without a lease that asks for one panics.
\<close>

theorem republished_generation_panics:
  assumes new: "registry_new current limit = Ok r" and run: "lease_run (lease_system_new r) evs S"
    and queued: "m \<in> set (ls_releasable (lr_state (sys_registry S)))" and unleased: "sys_lanes S l e = None"
  shows "\<exists>S1 S2 models. lease_exec (Publish m) S = (S1, Done (Ok ())) \<and> lease_exec TakeReleasable S1 = (S2, Releasable models) \<and>
    m \<in> set models \<and> ls_current (lr_state (sys_registry S2)) = m \<and> m \<notin> residents (sys_registry S2) \<and>
    snd (lease_exec (Ensure l e) S2) = Leased Panic"
proof -
  let ?r = "sys_registry S"
  have inv: "lease_inv (held S) ?r" using new run lease_system_new_inv lease_run_inv unfolding lease_system_inv_def by blast
  have "\<forall>k \<in> residents (sys_registry (lease_system_new r)). mg_id k \<noteq> 0"
    using new by (auto simp: lease_system_new_def registry_new_def residents_def split: if_splits)
  from lease_run_ids [OF run this] have ids: "\<forall>k \<in> residents ?r. mg_id k \<noteq> 0" .
  have m: "m \<in> residents ?r" "m \<noteq> ls_current (lr_state ?r)" using queued lease_invD(8) [OF inv] by auto
  have "mg_id k = mg_id m \<longleftrightarrow> mg_version k = mg_version m" if "k \<in> residents ?r" for k using lease_invD(6) [OF inv that m(1)] .
  then have agree: "\<not> list_ex (\<lambda>g. mg_id (gen_model g) = mg_id m \<and> mg_version (gen_model g) \<noteq> mg_version m) (ls_generations (lr_state ?r))"
    "\<not> list_ex (\<lambda>g. mg_version (gen_model g) = mg_version m \<and> mg_id (gen_model g) \<noteq> mg_id m) (ls_generations (lr_state ?r))"
    by (auto simp: list_ex_iff residents_def)
  have there: "\<not> list_all (\<lambda>g. gen_model g \<noteq> m) (ls_generations (lr_state ?r))" using m(1) by (auto simp: list_all_iff residents_def)
  obtain r1 where pub: "publish m ?r = (r1, Ok ())" and r1: "ls_current (lr_state r1) = m" "m \<in> set (ls_releasable (lr_state r1))"
    using ids m agree there queued by (auto simp: publish_def Let_def queue_set)
  define r2 where "r2 = fst (take_releasable r1)"
  have take: "take_releasable r1 = (r2, ls_releasable (lr_state r1))" and r2: "ls_current (lr_state r2) = m" "m \<notin> residents r2"
    using r1 by (auto simp: r2_def take_releasable_def residents_def Let_def)
  have "find_generation m (ls_generations (lr_state r2)) = None" using r2(2) by (simp add: find_generation_None residents_def)
  then have "acquire_current r2 = (r2, Panic)" using r2(1) by (simp add: acquire_current_def Let_def)
  then have "snd (lease_exec (Ensure l e) (S \<lparr> sys_registry := r2 \<rparr>)) = Leased Panic"
    using unleased by (simp add: on_lane_def ensure_lease_def)
  then show ?thesis using pub take r1(2) r2 by auto
qed

theorem republished_generation_panics_witness:
  "\<exists>S1 S2 models. lease_exec (Publish (sample_generation 2)) sample_leases = (S1, Done (Ok ())) \<and>
    lease_exec TakeReleasable S1 = (S2, Releasable models) \<and> sample_generation 2 \<in> set models \<and>
    ls_current (lr_state (sys_registry S2)) = sample_generation 2 \<and> snd (lease_exec (Ensure 0 6) S2) = Leased Panic"
proof -
  have "ls_releasable (lr_state (sys_registry sample_leases)) = [sample_generation 2]" by code_simp
  moreover have "sys_lanes sample_leases 0 6 = None" by (simp add: sample_leases_lanes)
  ultimately show ?thesis
    using republished_generation_panics [OF sample_registry_new sample_leases_run, of "sample_generation 2" 0 6] by auto
qed

end
