(* ===== verification/Admission.thy ===== *)
theory Admission
  imports Complex_Main Model_Leases
begin

text \<open>
  Admission of new episodes, \<open>crates/gz-orchestrator/src/admission.rs\<close>: the queue of waiting lanes and
  the virtual clock of \<open>AdaptiveAdmissionSchedule\<close>, the shared counters \<open>EvalPressure\<close>, the locked
  \<open>SharedAdmissionShaper\<close> that ties them together, and the fixed-interval \<open>AdmissionPacer\<close>. Every method
  is one atomic step (the schedule is behind a mutex, the counters are atomics); the clock is an
  argument. Durations and instants are nanoseconds. The arithmetic of \<open>f64\<close> is a parameter: what is
  shown of the queue and of the pacing does not depend on it.
\<close>

section \<open>Durations, counters and floating point\<close>

definition DURATION_MAX :: nat where
  "DURATION_MAX = 2 ^ 64 * 1000000000 - 1"

definition U64_MAX :: nat where
  "U64_MAX = 2 ^ 64 - 1"

definition U128_MAX :: nat where
  "U128_MAX = 2 ^ 128 - 1"

definition sat_add :: "nat \<Rightarrow> nat \<Rightarrow> nat \<Rightarrow> nat" where
  "sat_add limit a b = min limit (a + b)"

text \<open>Subtraction on \<open>usize\<close>: it panics below zero with overflow checks and wraps without them.\<close>

definition usize_sub :: "bool \<Rightarrow> nat \<Rightarrow> nat \<Rightarrow> (nat, 'e) outcome" where
  "usize_sub dbg a b = (if b \<le> a then Ok (a - b) else if dbg then Panic else Ok (a + 2 ^ 64 - b))"

text \<open>
  What the code uses of \<open>f64\<close>: conversion from integers, literals, arithmetic, comparisons, and
  \<open>Duration::from_secs_f64\<close>, which panics on a value it cannot represent.
\<close>

record 'f f64_ops =
  f_of_nat :: "nat \<Rightarrow> 'f"
  f_lit :: "rat \<Rightarrow> 'f"
  f_add :: "'f \<Rightarrow> 'f \<Rightarrow> 'f"
  f_sub :: "'f \<Rightarrow> 'f \<Rightarrow> 'f"
  f_mul :: "'f \<Rightarrow> 'f \<Rightarrow> 'f"
  f_div :: "'f \<Rightarrow> 'f \<Rightarrow> 'f"
  f_max :: "'f \<Rightarrow> 'f \<Rightarrow> 'f"
  f_clamp :: "'f \<Rightarrow> 'f \<Rightarrow> 'f \<Rightarrow> 'f"
  f_finite :: "'f \<Rightarrow> bool"
  f_positive :: "'f \<Rightarrow> bool"
  f_from_secs :: "'f \<Rightarrow> nat option"

definition ema :: "'f f64_ops \<Rightarrow> 'f option \<Rightarrow> 'f \<Rightarrow> rat \<Rightarrow> 'f" where
  "ema F previous sample alpha =
     (case previous of None \<Rightarrow> sample | Some p \<Rightarrow> f_add F p (f_mul F (f_lit F alpha) (f_sub F sample p)))"

section \<open>The schedule\<close>

definition CAPACITY_SAMPLE_BUSY_NS :: nat where
  "CAPACITY_SAMPLE_BUSY_NS = 1000000000"

definition EVAL_PIPELINE_DEPTH :: nat where
  "EVAL_PIPELINE_DEPTH = 3"

record admission_decision =
  ad_limit :: nat
  ad_bootstrap_grants :: nat
  ad_paced_grants :: nat
  ad_retry_after :: "nat option"

definition admission_decision_default :: admission_decision where
  "admission_decision_default = \<lparr> ad_limit = 0, ad_bootstrap_grants = 0, ad_paced_grants = 0, ad_retry_after = None \<rparr>"

record 'f admission_schedule =
  as_waiting :: "nat list"
  as_queued :: "bool list"
  as_waiting_order :: "nat list"
  as_total_waiting :: nat
  as_next_admission :: nat
  as_bootstrap_admitted :: bool
  as_evaluator_processes :: nat
  as_target_outstanding :: nat
  as_last_capacity_work :: nat
  as_last_capacity_busy_ns :: nat
  as_allow_short_capacity_sample :: bool
  as_eval_capacity_ema :: "'f option"
  as_outstanding_ema :: "'f option"
  as_episode_eval_work_ema :: "'f option"

definition schedule_new ::
    "'f f64_ops \<Rightarrow> nat \<Rightarrow> nat \<Rightarrow> nat \<Rightarrow> nat \<Rightarrow> nat \<Rightarrow> ('f admission_schedule, string) outcome"
where
  "schedule_new F lanes total_workers evaluator_processes target_outstanding initial_work =
     (if total_workers mod lanes \<noteq> 0 then Err ''workers are not evenly partitioned across lanes''
      else Ok \<lparr> as_waiting = replicate lanes (total_workers div lanes), as_queued = replicate lanes False,
                as_waiting_order = [], as_total_waiting = total_workers, as_next_admission = 0,
                as_bootstrap_admitted = False, as_evaluator_processes = evaluator_processes,
                as_target_outstanding = target_outstanding, as_last_capacity_work = 0, as_last_capacity_busy_ns = 0,
                as_allow_short_capacity_sample = False, as_eval_capacity_ema = None, as_outstanding_ema = None,
                as_episode_eval_work_ema = Some (f_of_nat F initial_work) \<rparr>)"

definition observe_eval_capacity ::
    "'f f64_ops \<Rightarrow> nat \<Rightarrow> nat \<Rightarrow> nat \<Rightarrow> 'f admission_schedule \<Rightarrow> 'f admission_schedule"
where
  "observe_eval_capacity F capacity_work capacity_busy_ns outstanding s =
     (let taken = s \<lparr> as_last_capacity_work := capacity_work, as_last_capacity_busy_ns := capacity_busy_ns \<rparr> in
      if capacity_work < as_last_capacity_work s \<or> capacity_busy_ns < as_last_capacity_busy_ns s then taken
      else
        let work = capacity_work - as_last_capacity_work s; busy_ns = capacity_busy_ns - as_last_capacity_busy_ns s in
        if work = 0 \<or> busy_ns < CAPACITY_SAMPLE_BUSY_NS \<and> \<not> as_allow_short_capacity_sample s then s
        else
          let s = taken \<lparr> as_allow_short_capacity_sample := False \<rparr>;
              per_process_rate = f_div F (f_mul F (f_of_nat F work) (f_lit F 1000000000)) (f_of_nat F busy_ns);
              capacity = f_mul F per_process_rate (f_of_nat F (as_evaluator_processes s))
          in if f_finite F capacity \<and> f_positive F capacity
             then s \<lparr> as_eval_capacity_ema := Some (ema F (as_eval_capacity_ema s) capacity (1 / 5)),
                      as_outstanding_ema := Some (ema F (as_outstanding_ema s) (f_of_nat F outstanding) (1 / 5)) \<rparr>
             else s)"

definition pressure_gain :: "'f f64_ops \<Rightarrow> 'f admission_schedule \<Rightarrow> 'f" where
  "pressure_gain F s =
     (case as_outstanding_ema s of
        None \<Rightarrow> f_lit F 1
      | Some outstanding \<Rightarrow>
          f_clamp F (f_div F (f_of_nat F (as_target_outstanding s)) (f_max F outstanding (f_lit F 1))) (f_lit F 1) (f_lit F (3 / 2)))"

definition admission_gap :: "'f f64_ops \<Rightarrow> 'f admission_schedule \<Rightarrow> (nat option, 'e) outcome" where
  "admission_gap F s =
     (case (as_episode_eval_work_ema s, as_eval_capacity_ema s) of
        (Some work, Some capacity) \<Rightarrow>
          (let seconds = f_div F work (f_mul F capacity (pressure_gain F s)) in
           if \<not> f_finite F seconds \<or> \<not> f_positive F seconds then Ok None
           else case f_from_secs F (f_max F seconds (f_lit F (1 / 1000000))) of None \<Rightarrow> Panic | Some d \<Rightarrow> Ok (Some d))
      | _ \<Rightarrow> Ok None)"

text \<open>The loop of \<open>discard_empty_front\<close>; lanes are used as indices.\<close>

fun discard_loop :: "nat list \<Rightarrow> bool list \<Rightarrow> nat list \<Rightarrow> (bool list \<times> nat list, 'e) outcome" where
  "discard_loop waiting queued [] = Ok (queued, [])"
| "discard_loop waiting queued (lane # order) =
     obind (idx waiting lane) (\<lambda>w.
       if w = 0 then obind (idx queued lane) (\<lambda>_. discard_loop waiting (queued[lane := False]) order)
       else Ok (queued, lane # order))"

definition discard_empty_front :: "'f admission_schedule \<Rightarrow> ('f admission_schedule, 'e) outcome" where
  "discard_empty_front s =
     obind (discard_loop (as_waiting s) (as_queued s) (as_waiting_order s)) (\<lambda>(queued, order).
       Ok (s \<lparr> as_queued := queued, as_waiting_order := order \<rparr>))"

definition queue_lane :: "nat \<Rightarrow> 'f admission_schedule \<Rightarrow> ('f admission_schedule, 'e) outcome" where
  "queue_lane lane s =
     obind (idx (as_waiting s) lane) (\<lambda>w.
       if w = 0 then Ok s
       else obind (idx (as_queued s) lane) (\<lambda>q.
         if q then Ok s
         else Ok (s \<lparr> as_waiting_order := as_waiting_order s @ [lane], as_queued := (as_queued s)[lane := True] \<rparr>)))"

definition set_waiting :: "nat \<Rightarrow> nat \<Rightarrow> 'f admission_schedule \<Rightarrow> ('f admission_schedule, 'e) outcome" where
  "set_waiting lane idle_workers s =
     obind (idx (as_waiting s) lane) (\<lambda>previous.
     obind (queue_lane lane (s \<lparr> as_total_waiting := sat_add USIZE_MAX (as_total_waiting s - previous) idle_workers,
       as_waiting := (as_waiting s)[lane := idle_workers] \<rparr>)) discard_empty_front)"

definition front_waiting_lane :: "'f admission_schedule \<Rightarrow> ('f admission_schedule \<times> nat option, 'e) outcome" where
  "front_waiting_lane s =
     obind (discard_empty_front s) (\<lambda>s.
       Ok (s, case as_waiting_order s of [] \<Rightarrow> None | lane # _ \<Rightarrow> Some lane))"

text \<open>The middle of \<open>take_from_lane\<close>: a lane at the front goes to the back, or leaves.\<close>

definition rotate_front :: "nat \<Rightarrow> 'f admission_schedule \<Rightarrow> ('f admission_schedule, 'e) outcome" where
  "rotate_front lane s =
     (case as_waiting_order s of
        front # order \<Rightarrow>
          if front = lane
          then obind (idx (as_queued s) lane) (\<lambda>_.
            queue_lane lane (s \<lparr> as_waiting_order := order, as_queued := (as_queued s)[lane := False] \<rparr>))
          else Ok s
      | [] \<Rightarrow> Ok s)"

definition take_from_lane :: "bool \<Rightarrow> nat \<Rightarrow> nat \<Rightarrow> 'f admission_schedule \<Rightarrow> ('f admission_schedule, 'e) outcome" where
  "take_from_lane dbg lane count s =
     obind (idx (as_waiting s) lane) (\<lambda>w.
     let taken = min w count in
     obind (usize_sub dbg (as_total_waiting s) taken) (\<lambda>total.
     let s = s \<lparr> as_waiting := (as_waiting s)[lane := w - taken], as_total_waiting := total \<rparr> in
     obind (rotate_front lane s) discard_empty_front))"

definition MILLISECOND :: nat where
  "MILLISECOND = 1000000"

definition schedule_request ::
    "bool \<Rightarrow> 'f f64_ops \<Rightarrow> nat \<Rightarrow> nat \<Rightarrow> nat \<Rightarrow> nat \<Rightarrow> nat \<Rightarrow> nat \<Rightarrow> 'f admission_schedule \<Rightarrow>
       ('f admission_schedule \<times> admission_decision, 'e) outcome"
where
  "schedule_request dbg F now lane idle_workers capacity_work capacity_busy_ns outstanding s =
     obind (set_waiting lane idle_workers (observe_eval_capacity F capacity_work capacity_busy_ns outstanding s)) (\<lambda>s.
     if idle_workers = 0 then Ok (s, admission_decision_default)
     else
       obind (front_waiting_lane s) (\<lambda>(s, first).
       let front = (first = Some lane) in
       obind (admission_gap F s) (\<lambda>gap.
       let bootstrap_grants = (if front \<and> \<not> as_bootstrap_admitted s then 1 else 0);
           s = (if 0 < bootstrap_grants then s \<lparr> as_bootstrap_admitted := True \<rparr> else s);
           paced_grants = (if front \<and> bootstrap_grants = 0 \<and> gap \<noteq> None \<and> as_next_admission s \<le> now then 1 else 0);
           limit = bootstrap_grants + paced_grants
       in obind (take_from_lane dbg lane limit s) (\<lambda>s.
          let s = (case gap of
                     Some g \<Rightarrow> if 0 < limit then s \<lparr> as_next_admission := sat_add DURATION_MAX now g \<rparr> else s
                   | None \<Rightarrow> s) in
          obind (idx (as_waiting s) lane) (\<lambda>left.
          let retry_after = (if left = 0 then None
                             else if front \<and> gap \<noteq> None then Some (max (as_next_admission s - now) MILLISECOND)
                             else Some MILLISECOND)
          in Ok (s, \<lparr> ad_limit = limit, ad_bootstrap_grants = bootstrap_grants, ad_paced_grants = paced_grants,
                      ad_retry_after = retry_after \<rparr>))))))"

definition schedule_observe_episode_work :: "'f f64_ops \<Rightarrow> nat \<Rightarrow> 'f admission_schedule \<Rightarrow> 'f admission_schedule" where
  "schedule_observe_episode_work F evaluations s =
     (if evaluations = 0 then s
      else
        let s = (if as_eval_capacity_ema s = None then s \<lparr> as_allow_short_capacity_sample := True \<rparr> else s)
        in s \<lparr> as_episode_eval_work_ema := Some (ema F (as_episode_eval_work_ema s) (f_of_nat F evaluations) (1 / 10)) \<rparr>)"

definition restore_unused :: "nat \<Rightarrow> nat \<Rightarrow> bool \<Rightarrow> 'f admission_schedule \<Rightarrow> ('f admission_schedule, 'e) outcome" where
  "restore_unused lane unused bootstrap s =
     (if unused = 0 then Ok s
      else
        let s = (if bootstrap then s \<lparr> as_bootstrap_admitted := False \<rparr> else s) in
        obind (idx (as_waiting s) lane) (\<lambda>w.
          queue_lane lane (s \<lparr> as_waiting := (as_waiting s)[lane := sat_add USIZE_MAX w unused],
            as_total_waiting := sat_add USIZE_MAX (as_total_waiting s) unused \<rparr>)))"

definition schedule_clear_lane :: "nat \<Rightarrow> 'f admission_schedule \<Rightarrow> ('f admission_schedule, 'e) outcome" where
  "schedule_clear_lane lane s =
     obind (idx (as_waiting s) lane) (\<lambda>w.
       discard_empty_front (s \<lparr> as_total_waiting := as_total_waiting s - w, as_waiting := (as_waiting s)[lane := 0] \<rparr>))"

section \<open>Shared counters\<close>

record eval_pressure =
  ep_outstanding :: nat
  ep_reserved :: nat
  ep_capacity_work :: nat
  ep_capacity_busy_ns :: nat

definition eval_pressure_default :: eval_pressure where
  "eval_pressure_default = \<lparr> ep_outstanding = 0, ep_reserved = 0, ep_capacity_work = 0, ep_capacity_busy_ns = 0 \<rparr>"

text \<open>\<open>fetch_add\<close> on \<open>AtomicUsize\<close> wraps; \<open>fetch_update\<close> with a saturating closure is one atomic step.\<close>

definition usize_fetch_add :: "nat \<Rightarrow> nat \<Rightarrow> nat" where
  "usize_fetch_add v count = (v + count) mod 2 ^ 64"

definition atomic_saturating_sub :: "nat \<Rightarrow> nat \<Rightarrow> nat" where
  "atomic_saturating_sub v count = v - count"

definition atomic_saturating_add_u64 :: "nat \<Rightarrow> nat \<Rightarrow> nat" where
  "atomic_saturating_add_u64 v count = sat_add U64_MAX v count"

definition pressure_reserve :: "nat \<Rightarrow> eval_pressure \<Rightarrow> eval_pressure" where
  "pressure_reserve count p = p \<lparr> ep_reserved := usize_fetch_add (ep_reserved p) count \<rparr>"

definition cancel_reservations :: "nat \<Rightarrow> eval_pressure \<Rightarrow> eval_pressure" where
  "cancel_reservations count p = p \<lparr> ep_reserved := atomic_saturating_sub (ep_reserved p) count \<rparr>"

definition pressure_submit :: "bool \<Rightarrow> eval_pressure \<Rightarrow> eval_pressure" where
  "pressure_submit reserved p =
     (let p = p \<lparr> ep_outstanding := usize_fetch_add (ep_outstanding p) 1 \<rparr>
      in if reserved then p \<lparr> ep_reserved := atomic_saturating_sub (ep_reserved p) 1 \<rparr> else p)"

definition cancel_submission :: "eval_pressure \<Rightarrow> eval_pressure" where
  "cancel_submission p = p \<lparr> ep_outstanding := atomic_saturating_sub (ep_outstanding p) 1 \<rparr>"

definition pressure_complete :: "nat \<Rightarrow> eval_pressure \<Rightarrow> eval_pressure" where
  "pressure_complete count p = p \<lparr> ep_outstanding := atomic_saturating_sub (ep_outstanding p) count \<rparr>"

definition complete_current_batch :: "nat \<Rightarrow> nat \<Rightarrow> nat \<Rightarrow> eval_pressure \<Rightarrow> eval_pressure" where
  "complete_current_batch count capacity_work busy p =
     (let p = pressure_complete count p;
          busy_ns = min busy U64_MAX;
          p = p \<lparr> ep_capacity_busy_ns := atomic_saturating_add_u64 (ep_capacity_busy_ns p) (max busy_ns 1) \<rparr>
      in p \<lparr> ep_capacity_work := atomic_saturating_add_u64 (ep_capacity_work p) (min capacity_work U64_MAX) \<rparr>)"

section \<open>The shared shaper\<close>

record 'f admission_shaper =
  sh_schedule :: "'f admission_schedule"
  sh_pressure :: eval_pressure
  sh_bootstrap_grants :: nat
  sh_paced_grants :: nat
  sh_max_waiting :: nat
  sh_waiting_lanes :: "bool list"
  sh_next_stats_ms :: nat

definition checked_mul :: "nat \<Rightarrow> nat \<Rightarrow> nat option" where
  "checked_mul a b = (if a * b \<le> USIZE_MAX then Some (a * b) else None)"

definition nonzero :: "nat \<Rightarrow> nat option" where
  "nonzero n = (if n = 0 then None else Some n)"

definition ok_or :: "'a option \<Rightarrow> string \<Rightarrow> ('a, engine_error) outcome" where
  "ok_or v message = (case v of None \<Rightarrow> Err (orchestrator_internal message) | Some x \<Rightarrow> Ok x)"

text \<open>The worker count, the batch size and the smoothing seed are non-zero by their types.\<close>

definition shaper_new ::
    "'f f64_ops \<Rightarrow> nat \<Rightarrow> nat \<Rightarrow> nat \<Rightarrow> nat \<Rightarrow> nat \<Rightarrow> eval_pressure \<Rightarrow> ('f admission_shaper, engine_error) outcome"
where
  "shaper_new F lanes workers_per_lane evaluator_processes max_batch initial_work pressure =
     obind (ok_or (nonzero lanes) ''zero lanes'') (\<lambda>lanes.
     obind (ok_or (nonzero evaluator_processes) ''zero evaluator processes'') (\<lambda>evaluator_processes.
     obind (ok_or (Option.bind (checked_mul lanes workers_per_lane) nonzero) ''worker count overflow'') (\<lambda>total_workers.
     obind (ok_or (Option.bind (Option.bind (checked_mul max_batch EVAL_PIPELINE_DEPTH)
         (\<lambda>target. checked_mul target evaluator_processes)) nonzero) ''evaluator pressure target overflow'') (\<lambda>target_outstanding.
     obind (map_err (\<lambda>_. orchestrator_internal ''invalid admission smoothing config'')
         (schedule_new F lanes total_workers evaluator_processes target_outstanding initial_work)) (\<lambda>schedule.
     Ok \<lparr> sh_schedule = schedule, sh_pressure = pressure, sh_bootstrap_grants = 0, sh_paced_grants = 0,
          sh_max_waiting = 0, sh_waiting_lanes = replicate lanes False, sh_next_stats_ms = 30000 \<rparr>)))))"

text \<open>
  Of \<open>report_stats\<close> the text that is printed is left out. It computes the admission gap for it, which
  may panic, after it has moved the time of the next report.
\<close>

definition report_stats :: "'f f64_ops \<Rightarrow> nat \<Rightarrow> 'f admission_shaper \<Rightarrow> 'f admission_shaper \<times> (unit, engine_error) outcome" where
  "report_stats F now sh =
     (let elapsed_ms = min (now div 1000000) USIZE_MAX in
      if elapsed_ms < sh_next_stats_ms sh then (sh, Ok ())
      else (sh \<lparr> sh_next_stats_ms := sat_add USIZE_MAX elapsed_ms 30000 \<rparr>,
            obind (admission_gap F (sh_schedule sh)) (\<lambda>_. Ok ())))"

definition shaper_request ::
    "bool \<Rightarrow> 'f f64_ops \<Rightarrow> nat \<Rightarrow> nat \<Rightarrow> nat \<Rightarrow> 'f admission_shaper \<Rightarrow> 'f admission_shaper \<times> (admission_decision, engine_error) outcome"
where
  "shaper_request dbg F now lane idle_workers sh =
     (case (if idle_workers = 0 then idx (sh_waiting_lanes sh) lane else Ok True) of
        Err e \<Rightarrow> (sh, Err e)
      | Panic \<Rightarrow> (sh, Panic)
      | Ok False \<Rightarrow> (sh, Ok admission_decision_default)
      | Ok True \<Rightarrow>
          (let p = sh_pressure sh in
           case schedule_request dbg F now lane idle_workers (ep_capacity_work p) (ep_capacity_busy_ns p) (ep_outstanding p) (sh_schedule sh) of
             Err e \<Rightarrow> (sh, Err e)
           | Panic \<Rightarrow> (sh, Panic)
           | Ok (schedule, decision) \<Rightarrow>
               let waiting = as_total_waiting schedule;
                   sh = sh \<lparr> sh_schedule := schedule,
                             sh_waiting_lanes := (sh_waiting_lanes sh)[lane := 0 < as_waiting schedule ! lane],
                             sh_pressure := pressure_reserve (ad_limit decision) p,
                             sh_bootstrap_grants := usize_fetch_add (sh_bootstrap_grants sh) (ad_bootstrap_grants decision),
                             sh_paced_grants := usize_fetch_add (sh_paced_grants sh) (ad_paced_grants decision),
                             sh_max_waiting := max (sh_max_waiting sh) waiting \<rparr>
               in sbind (report_stats F now sh) (\<lambda>_ sh. (sh, Ok decision))))"

definition shaper_observe_episode_work :: "'f f64_ops \<Rightarrow> nat \<Rightarrow> 'f admission_shaper \<Rightarrow> 'f admission_shaper \<times> (unit, engine_error) outcome" where
  "shaper_observe_episode_work F evaluations sh =
     (sh \<lparr> sh_schedule := schedule_observe_episode_work F evaluations (sh_schedule sh) \<rparr>, Ok ())"

text \<open>The reservations are given back before the schedule is locked.\<close>

definition finish_admission ::
    "nat \<Rightarrow> admission_decision \<Rightarrow> nat \<Rightarrow> bool \<Rightarrow> 'f admission_shaper \<Rightarrow> 'f admission_shaper \<times> (unit, engine_error) outcome"
where
  "finish_admission lane decision admitted roots_exhausted sh =
     (let unused = ad_limit decision - admitted;
          sh = sh \<lparr> sh_pressure := cancel_reservations unused (sh_pressure sh) \<rparr>
      in sbind (slift (obind (restore_unused lane unused (0 < ad_bootstrap_grants decision) (sh_schedule sh))
            (\<lambda>s. if roots_exhausted then schedule_clear_lane lane s else Ok s)) sh) (\<lambda>s sh.
         sbind (slift (idx (as_waiting s) lane) (sh \<lparr> sh_schedule := s \<rparr>)) (\<lambda>w sh.
         (sh \<lparr> sh_waiting_lanes := (sh_waiting_lanes sh)[lane := 0 < w] \<rparr>, Ok ()))))"

definition shaper_clear_lane :: "nat \<Rightarrow> 'f admission_shaper \<Rightarrow> 'f admission_shaper \<times> (unit, engine_error) outcome" where
  "shaper_clear_lane lane sh =
     sbind (slift (schedule_clear_lane lane (sh_schedule sh)) sh) (\<lambda>s sh.
       (sh \<lparr> sh_schedule := s, sh_waiting_lanes := (sh_waiting_lanes sh)[lane := False] \<rparr>, Ok ()))"

definition build_admission_shaper ::
    "'f f64_ops \<Rightarrow> nat \<Rightarrow> nat \<Rightarrow> nat \<Rightarrow> nat \<Rightarrow> nat \<Rightarrow> nat option \<Rightarrow> eval_pressure \<Rightarrow> ('f admission_shaper option, engine_error) outcome"
where
  "build_admission_shaper F lanes evaluator_processes workers_per_lane max_batch admission_stagger smoothing pressure =
     (case smoothing of
        None \<Rightarrow> Ok None
      | Some initial_work \<Rightarrow>
          if admission_stagger \<noteq> 0
          then Err (orchestrator_internal ''fixed and adaptive admission pacing are mutually exclusive'')
          else obind (shaper_new F lanes workers_per_lane evaluator_processes max_batch initial_work pressure) (\<lambda>sh. Ok (Some sh)))"

section \<open>The fixed-interval pacer\<close>

record admission_pacer =
  pa_stagger :: nat
  pa_next :: nat
  pa_resume_offset :: nat

definition spread_duration :: "nat \<Rightarrow> nat \<Rightarrow> nat \<Rightarrow> nat" where
  "spread_duration duration index count =
     (if count \<le> 1 \<or> index = 0 \<or> duration = 0 then 0
      else min (min U128_MAX (duration * index) div count) U64_MAX)"

definition pacer_new :: "nat \<Rightarrow> nat \<Rightarrow> nat \<Rightarrow> nat \<Rightarrow> admission_pacer" where
  "pacer_new now lane lanes stagger =
     (if stagger = 0 then \<lparr> pa_stagger = stagger, pa_next = now, pa_resume_offset = 0 \<rparr>
      else let offset = spread_duration stagger lane lanes
           in \<lparr> pa_stagger = stagger, pa_next = now + offset, pa_resume_offset = offset \<rparr>)"

definition pacer_ready :: "nat \<Rightarrow> admission_pacer \<Rightarrow> admission_pacer \<times> bool" where
  "pacer_ready now p =
     (if pa_stagger p = 0 then (p, True)
      else let p = (if pa_stagger p \<le> now - pa_next p then p \<lparr> pa_next := now + pa_resume_offset p \<rparr> else p)
           in (p, pa_next p \<le> now))"

definition pacer_limit :: "admission_pacer \<Rightarrow> nat" where
  "pacer_limit p = (if pa_stagger p = 0 then USIZE_MAX else 1)"

definition pacer_record :: "nat \<Rightarrow> nat \<Rightarrow> admission_pacer \<Rightarrow> admission_pacer" where
  "pacer_record now admitted p =
     (if pa_stagger p = 0 \<or> admitted = 0 then p else p \<lparr> pa_next := now + pa_stagger p \<rparr>)"

definition sleep_until_ready :: "nat \<Rightarrow> admission_pacer \<Rightarrow> nat option" where
  "sleep_until_ready now p =
     (if pa_stagger p = 0 then None
      else let sleep = pa_next p - now in if sleep = 0 then None else Some sleep)"

section \<open>The queue of lanes\<close>

text \<open>
  The flags and the queue describe one set of lanes. On it the methods act as two list functions:
  \<open>enq\<close> appends a lane that waits and is not queued, \<open>trim\<close> drops the lanes at the front that no longer
  wait.
\<close>

definition queue_ok :: "nat \<Rightarrow> bool list \<Rightarrow> nat list \<Rightarrow> bool" where
  "queue_ok n queued order \<longleftrightarrow>
     length queued = n \<and> distinct order \<and> set order \<subseteq> {..<n} \<and> (\<forall>l < n. queued ! l \<longleftrightarrow> l \<in> set order)"

definition enq :: "nat list \<Rightarrow> nat \<Rightarrow> nat list \<Rightarrow> nat list" where
  "enq w l order = (if w ! l = 0 \<or> l \<in> set order then order else order @ [l])"

definition trim :: "nat list \<Rightarrow> nat list \<Rightarrow> nat list" where
  "trim w order = dropWhile (\<lambda>l. w ! l = 0) order"

definition sched_inv :: "nat \<Rightarrow> nat \<Rightarrow> 'f admission_schedule \<Rightarrow> bool" where
  "sched_inv n W s \<longleftrightarrow>
     length (as_waiting s) = n \<and> queue_ok n (as_queued s) (as_waiting_order s) \<and>
     as_total_waiting s = sum_list (as_waiting s) \<and> (\<forall>w \<in> set (as_waiting s). w \<le> W) \<and>
     trim (as_waiting s) (as_waiting_order s) = as_waiting_order s"

lemma queue_ok_pop: "queue_ok n queued (l # order) \<Longrightarrow> queue_ok n (queued[l := False]) order"
  by (auto simp: queue_ok_def nth_list_update)

lemma queue_ok_push: "queue_ok n queued order \<Longrightarrow> l < n \<Longrightarrow> l \<notin> set order \<Longrightarrow> queue_ok n (queued[l := True]) (order @ [l])"
  by (auto simp: queue_ok_def nth_list_update)

lemma discard_loop_trim:
  assumes "queue_ok n queued order" "length w = n"
  shows "\<exists>q. (discard_loop w queued order :: (_, 'e) outcome) = Ok (q, trim w order) \<and> queue_ok n q (trim w order)"
  using assms(1)
proof (induction order arbitrary: queued)
  case Nil
  then show ?case by (simp add: trim_def)
next
  case (Cons l order)
  have l: "l < length w" "l < length queued" using Cons.prems assms(2) by (auto simp: queue_ok_def)
  show ?case
  proof (cases "w ! l = 0")
    case True
    then show ?thesis using Cons.IH [OF queue_ok_pop [OF Cons.prems]] l by (simp add: trim_def)
  next
    case False
    then show ?thesis using Cons.prems l by (simp add: trim_def)
  qed
qed

lemma discard_empty_front_trim:
  assumes "queue_ok n (as_queued s) (as_waiting_order s)" "length (as_waiting s) = n"
  obtains q where "discard_empty_front s = Ok (s \<lparr> as_queued := q, as_waiting_order := trim (as_waiting s) (as_waiting_order s) \<rparr>)"
    "queue_ok n q (trim (as_waiting s) (as_waiting_order s))"
  using discard_loop_trim [OF assms] by (auto simp: discard_empty_front_def)

lemma queue_lane_enq:
  assumes "queue_ok n (as_queued s) (as_waiting_order s)" "length (as_waiting s) = n" "l < n"
  obtains q where "queue_lane l s = Ok (s \<lparr> as_queued := q, as_waiting_order := enq (as_waiting s) l (as_waiting_order s) \<rparr>)"
    "queue_ok n q (enq (as_waiting s) l (as_waiting_order s))"
proof -
  have idx: "l < length (as_waiting s)" "l < length (as_queued s)" "as_queued s ! l \<longleftrightarrow> l \<in> set (as_waiting_order s)"
    using assms by (auto simp: queue_ok_def)
  show thesis
  proof (cases "as_waiting s ! l = 0 \<or> l \<in> set (as_waiting_order s)")
    case True
    then show ?thesis using that [of "as_queued s"] assms(1) idx by (auto simp: queue_lane_def enq_def)
  next
    case False
    then show ?thesis using that [of "(as_queued s)[l := True]"] queue_ok_push [OF assms(1,3)] idx by (simp add: queue_lane_def enq_def)
  qed
qed

lemma trim_trim [simp]: "trim w (trim w order) = trim w order"
  by (simp add: trim_def dropWhile_idem)

lemma trim_front: "trim w order = l # rest \<Longrightarrow> w ! l \<noteq> 0"
  unfolding trim_def by (metis (mono_tags, lifting) hd_dropWhile list.distinct(1) list.sel(1))

lemma trim_fixed_iff: "trim w order = order \<longleftrightarrow> order = [] \<or> w ! hd order \<noteq> 0"
proof (cases order)
  case (Cons a list)
  have "dropWhile (\<lambda>l. w ! l = 0) list \<noteq> a # list" using length_dropWhile_le [of "\<lambda>l. w ! l = 0" list] by (metis impossible_Cons)
  then show ?thesis using Cons by (auto simp: trim_def)
qed (simp add: trim_def)

lemma sum_list_update_nat: "l < length (xs :: nat list) \<Longrightarrow> sum_list (xs[l := x]) + xs ! l = sum_list xs + x"
  by (induction xs arbitrary: l) (auto split: nat.splits simp: nth_Cons)

lemma nth_le_sum_list: "l < length (xs :: nat list) \<Longrightarrow> xs ! l \<le> sum_list xs"
  by (simp add: member_le_sum_list)

lemma sum_list_bound: "\<forall>x \<in> set xs. x \<le> (W :: nat) \<Longrightarrow> sum_list xs \<le> length xs * W"
  by (induction xs) auto

lemma sched_invD:
  assumes "sched_inv n W s"
  shows "length (as_waiting s) = n" "queue_ok n (as_queued s) (as_waiting_order s)" "as_total_waiting s = sum_list (as_waiting s)"
    "\<forall>w \<in> set (as_waiting s). w \<le> W" "trim (as_waiting s) (as_waiting_order s) = as_waiting_order s"
  using assms unfolding sched_inv_def by blast+

lemma set_update_le: "\<forall>w \<in> set xs. w \<le> (W :: nat) \<Longrightarrow> x \<le> W \<Longrightarrow> \<forall>w \<in> set (xs[l := x]). w \<le> W"
  using set_update_subset_insert [of xs l x] by auto

text \<open>What each method does to the queue; the capacity bound keeps the saturating sums exact.\<close>

lemma set_waiting_spec:
  assumes inv: "sched_inv n W s" and l: "l < n" and idle: "idle \<le> W" and cap: "n * W \<le> USIZE_MAX"
  defines "w \<equiv> (as_waiting s)[l := idle]"
  obtains q where "set_waiting l idle s = Ok (s \<lparr> as_waiting := w, as_total_waiting := sum_list w, as_queued := q,
      as_waiting_order := trim w (enq w l (as_waiting_order s)) \<rparr>)"
    "sched_inv n W (s \<lparr> as_waiting := w, as_total_waiting := sum_list w, as_queued := q,
      as_waiting_order := trim w (enq w l (as_waiting_order s)) \<rparr>)"
proof -
  note old = sched_invD [OF inv]
  have le: "\<forall>x \<in> set w. x \<le> W" unfolding w_def by (rule set_update_le [OF old(4) idle])
  have len: "length w = n" using old(1) by (simp add: w_def)
  have "sum_list w \<le> USIZE_MAX" using sum_list_bound [OF le] cap len by simp
  moreover have "as_total_waiting s - as_waiting s ! l + idle = sum_list w"
    using sum_list_update_nat [of l "as_waiting s" idle] nth_le_sum_list [of l "as_waiting s"] l old(1,3) by (simp add: w_def)
  ultimately have total: "sat_add USIZE_MAX (as_total_waiting s - as_waiting s ! l) idle = sum_list w" by (simp add: sat_add_def)
  let ?s = "s \<lparr> as_total_waiting := sum_list w, as_waiting := w \<rparr>"
  have "queue_ok n (as_queued ?s) (as_waiting_order ?s)" "length (as_waiting ?s) = n" using old(2) len by simp_all
  from queue_lane_enq [OF this l] obtain q where
    q: "\<And>e. queue_lane l ?s = (Ok (?s \<lparr> as_queued := q, as_waiting_order := enq w l (as_waiting_order s) \<rparr>) :: (_, 'b) outcome)"
    "queue_ok n q (enq w l (as_waiting_order s))" by auto
  let ?t = "?s \<lparr> as_queued := q, as_waiting_order := enq w l (as_waiting_order s) \<rparr>"
  have "queue_ok n (as_queued ?t) (as_waiting_order ?t)" "length (as_waiting ?t) = n" using q(2) len by simp_all
  from discard_empty_front_trim [OF this] obtain p where
    p: "discard_empty_front ?t = (Ok (?t \<lparr> as_queued := p, as_waiting_order := trim w (enq w l (as_waiting_order s)) \<rparr>) :: (_, 'b) outcome)"
    "queue_ok n p (trim w (enq w l (as_waiting_order s)))" by auto
  have run: "set_waiting l idle s = (Ok (s \<lparr> as_waiting := w, as_total_waiting := sum_list w, as_queued := p,
      as_waiting_order := trim w (enq w l (as_waiting_order s)) \<rparr>) :: (_, 'b) outcome)"
    using q(1) p(1) l old(1) total by (simp add: set_waiting_def w_def)
  show thesis by (rule that [OF run]) (simp add: sched_inv_def len p(2) le)
qed

lemma rotate_front_spec:
  assumes ok: "queue_ok n (as_queued s) (as_waiting_order s)" and len: "length (as_waiting s) = n" and l: "l < n"
  defines "order \<equiv> if l \<in> set (take 1 (as_waiting_order s)) then enq (as_waiting s) l (tl (as_waiting_order s)) else as_waiting_order s"
  obtains q where "rotate_front l s = Ok (s \<lparr> as_queued := q, as_waiting_order := order \<rparr>)" "queue_ok n q order"
proof (cases "l \<in> set (take 1 (as_waiting_order s))")
  case True
  then obtain rest where rest: "as_waiting_order s = l # rest" by (cases "as_waiting_order s") auto
  let ?u = "s \<lparr> as_waiting_order := rest, as_queued := (as_queued s)[l := False] \<rparr>"
  have "queue_ok n (as_queued ?u) (as_waiting_order ?u)" "length (as_waiting ?u) = n"
    using queue_ok_pop ok rest len by auto
  from queue_lane_enq [OF this l] obtain q where "queue_lane l ?u = (Ok (?u \<lparr> as_queued := q, as_waiting_order := enq (as_waiting s) l rest \<rparr>) :: (_, 'b) outcome)"
    "queue_ok n q (enq (as_waiting s) l rest)" by auto
  then show ?thesis using that [of q] True rest ok l by (simp add: rotate_front_def order_def queue_ok_def)
next
  case False
  then have "rotate_front l s = Ok s" by (cases "as_waiting_order s") (auto simp: rotate_front_def)
  then show ?thesis using that [of "as_queued s"] False ok by (simp add: order_def)
qed

lemma take_from_lane_spec:
  assumes inv: "sched_inv n W s" and l: "l < n" and c: "c \<le> as_waiting s ! l"
  defines "w \<equiv> (as_waiting s)[l := as_waiting s ! l - c]"
  defines "order \<equiv> trim w (if l \<in> set (take 1 (as_waiting_order s)) then enq w l (tl (as_waiting_order s)) else as_waiting_order s)"
  obtains q where "take_from_lane dbg l c s = Ok (s \<lparr> as_waiting := w, as_total_waiting := sum_list w, as_queued := q, as_waiting_order := order \<rparr>)"
    "sched_inv n W (s \<lparr> as_waiting := w, as_total_waiting := sum_list w, as_queued := q, as_waiting_order := order \<rparr>)"
proof -
  note old = sched_invD [OF inv]
  have lw: "as_waiting s ! l \<le> W" using old(1,4) l by simp
  have le: "\<forall>x \<in> set w. x \<le> W" unfolding w_def using lw by (intro set_update_le [OF old(4)]) simp
  have len: "length w = n" using old(1) by (simp add: w_def)
  have sum: "sum_list w = as_total_waiting s - c" "c \<le> as_total_waiting s"
    using sum_list_update_nat [of l "as_waiting s" "as_waiting s ! l - c"] nth_le_sum_list [of l "as_waiting s"] l old(1,3) c
    by (simp_all add: w_def)
  let ?s = "s \<lparr> as_waiting := w, as_total_waiting := sum_list w \<rparr>"
  let ?mid = "if l \<in> set (take 1 (as_waiting_order s)) then enq w l (tl (as_waiting_order s)) else as_waiting_order s"
  have "queue_ok n (as_queued ?s) (as_waiting_order ?s)" "length (as_waiting ?s) = n" using old(2) len by simp_all
  from rotate_front_spec [OF this l] obtain q where
    "rotate_front l ?s = (Ok (?s \<lparr> as_queued := q, as_waiting_order := if l \<in> set (take 1 (as_waiting_order ?s))
       then enq (as_waiting ?s) l (tl (as_waiting_order ?s)) else as_waiting_order ?s \<rparr>) :: (_, 'b) outcome)"
    "queue_ok n q (if l \<in> set (take 1 (as_waiting_order ?s)) then enq (as_waiting ?s) l (tl (as_waiting_order ?s)) else as_waiting_order ?s)" .
  then have q: "rotate_front l ?s = (Ok (?s \<lparr> as_queued := q, as_waiting_order := ?mid \<rparr>) :: (_, 'b) outcome)" "queue_ok n q ?mid" by (simp_all cong: if_cong)
  let ?t = "?s \<lparr> as_queued := q, as_waiting_order := ?mid \<rparr>"
  have "queue_ok n (as_queued ?t) (as_waiting_order ?t)" "length (as_waiting ?t) = n" using q(2) len by simp_all
  from discard_empty_front_trim [OF this] obtain p where
    p: "discard_empty_front ?t = (Ok (?t \<lparr> as_queued := p, as_waiting_order := order \<rparr>) :: (_, 'b) outcome)" "queue_ok n p order"
    unfolding order_def by auto
  have "min (as_waiting s ! l) c = c" using c by simp
  then have "take_from_lane dbg l c s = (obind (rotate_front l ?s) discard_empty_front :: (_, 'b) outcome)"
    using l old(1) sum(2) by (simp add: take_from_lane_def usize_sub_def Let_def) (simp add: sum(1) [unfolded w_def] w_def)
  then have run: "take_from_lane dbg l c s = (Ok (s \<lparr> as_waiting := w, as_total_waiting := sum_list w, as_queued := p, as_waiting_order := order \<rparr>) :: (_, 'b) outcome)"
    using q(1) p(1) by simp
  have "trim w order = order" unfolding order_def by simp
  then show thesis using p(2) by (intro that [OF run]) (simp add: sched_inv_def len le)
qed

lemma observe_frame [simp]:
  "as_waiting (observe_eval_capacity F cw cb out s) = as_waiting s" "as_queued (observe_eval_capacity F cw cb out s) = as_queued s"
  "as_waiting_order (observe_eval_capacity F cw cb out s) = as_waiting_order s"
  "as_total_waiting (observe_eval_capacity F cw cb out s) = as_total_waiting s"
  "as_next_admission (observe_eval_capacity F cw cb out s) = as_next_admission s"
  "as_bootstrap_admitted (observe_eval_capacity F cw cb out s) = as_bootstrap_admitted s"
  by (simp_all add: observe_eval_capacity_def Let_def)

lemma sched_inv_cong:
  "as_waiting s' = as_waiting s \<Longrightarrow> as_queued s' = as_queued s \<Longrightarrow> as_waiting_order s' = as_waiting_order s \<Longrightarrow>
     as_total_waiting s' = as_total_waiting s \<Longrightarrow> sched_inv n W s' = sched_inv n W s"
  by (simp add: sched_inv_def)

lemma pressure_gain_frame [simp]:
  "pressure_gain F (s \<lparr> as_waiting := a, as_total_waiting := b, as_queued := c, as_waiting_order := d \<rparr>) = pressure_gain F s"
  by (simp add: pressure_gain_def cong: option.case_cong)

lemma admission_gap_frame [simp]:
  "admission_gap F (s \<lparr> as_waiting := a, as_total_waiting := b, as_queued := c, as_waiting_order := d \<rparr>) = admission_gap F s"
  by (simp add: admission_gap_def cong: option.case_cong)

text \<open>
  The specification of a request: the queue after the lane has announced its idle workers, whether it
  is at the front of it, the grant, and the state it leaves.
\<close>

definition requested :: "nat \<Rightarrow> nat \<Rightarrow> 'f admission_schedule \<Rightarrow> nat list" where
  "requested l idle s = (let w = (as_waiting s)[l := idle] in trim w (enq w l (as_waiting_order s)))"

definition grants :: "nat \<Rightarrow> nat option \<Rightarrow> bool \<Rightarrow> 'f admission_schedule \<Rightarrow> nat" where
  "grants now gap front s = (if front \<and> (\<not> as_bootstrap_admitted s \<or> gap \<noteq> None \<and> as_next_admission s \<le> now) then 1 else 0)"

lemma request_spec:
  fixes F :: "'f f64_ops" and now :: nat
  assumes inv: "sched_inv n W s" and l: "l < n" and idle: "idle \<le> W" "idle \<noteq> 0" and cap: "n * W \<le> USIZE_MAX"
    and gap: "admission_gap F (observe_eval_capacity F cw cb out s) = (Ok gap :: (_, 'e) outcome)"
  defines "front \<equiv> take 1 (requested l idle s) = [l]"
  defines "limit \<equiv> grants now gap front s"
  defines "w \<equiv> (as_waiting s)[l := idle - limit]"
  obtains s' d where "schedule_request dbg F now l idle cw cb out s = (Ok (s', d) :: (_, 'e) outcome)" "sched_inv n W s'"
    "ad_limit d = limit" "ad_bootstrap_grants d = (if front \<and> \<not> as_bootstrap_admitted s then 1 else 0)"
    "ad_paced_grants d = limit - ad_bootstrap_grants d"
    "as_waiting s' = w" "as_waiting_order s' = trim w (if front then enq w l (tl (requested l idle s)) else requested l idle s)"
    "as_next_admission s' = (case gap of Some g \<Rightarrow> if limit = 1 then sat_add DURATION_MAX now g else as_next_admission s | None \<Rightarrow> as_next_admission s)"
    "as_bootstrap_admitted s' \<longleftrightarrow> as_bootstrap_admitted s \<or> front"
proof -
  let ?o = "observe_eval_capacity F cw cb out s" and ?w1 = "(as_waiting s)[l := idle]"
  have len: "length (as_waiting s) = n" using sched_invD(1) [OF inv] .
  have "sched_inv n W ?o" using inv by (simp add: sched_inv_def)
  from set_waiting_spec [OF this l idle(1) cap] obtain q where
    "set_waiting l idle ?o = (Ok (?o \<lparr> as_waiting := (as_waiting ?o)[l := idle], as_total_waiting := sum_list ((as_waiting ?o)[l := idle]),
      as_queued := q, as_waiting_order := trim ((as_waiting ?o)[l := idle]) (enq ((as_waiting ?o)[l := idle]) l (as_waiting_order ?o)) \<rparr>) :: (_, 'e) outcome)"
    "sched_inv n W (?o \<lparr> as_waiting := (as_waiting ?o)[l := idle], as_total_waiting := sum_list ((as_waiting ?o)[l := idle]),
      as_queued := q, as_waiting_order := trim ((as_waiting ?o)[l := idle]) (enq ((as_waiting ?o)[l := idle]) l (as_waiting_order ?o)) \<rparr>)" .
  then obtain s1 where s1: "set_waiting l idle ?o = (Ok s1 :: (_, 'e) outcome)" "sched_inv n W s1" "as_waiting s1 = ?w1"
      "as_waiting_order s1 = requested l idle s" and ema1: "admission_gap F s1 = (Ok gap :: (_, 'e) outcome)"
      and frame1: "as_next_admission s1 = as_next_admission s" "as_bootstrap_admitted s1 = as_bootstrap_admitted s"
    using gap by (simp add: requested_def Let_def)
  have "discard_empty_front s1 = (Ok s1 :: (_, 'e) outcome)"
  proof -
    note old = sched_invD [OF s1(2)]
    from discard_loop_trim [OF old(2,1), where 'e = 'e] obtain q where
      "discard_loop (as_waiting s1) (as_queued s1) (as_waiting_order s1) = (Ok (q, as_waiting_order s1) :: (_, 'e) outcome)" "queue_ok n q (as_waiting_order s1)"
      unfolding old(5) by blast
    moreover from this old(2) have "q = as_queued s1" by (auto simp: queue_ok_def intro: nth_equalityI)
    ultimately show ?thesis by (simp add: discard_empty_front_def)
  qed
  then have first: "front_waiting_lane s1 = (Ok (s1, case as_waiting_order s1 of [] \<Rightarrow> None | lane # _ \<Rightarrow> Some lane) :: (_, 'e) outcome)"
    by (simp add: front_waiting_lane_def)
  have front: "(case as_waiting_order s1 of [] \<Rightarrow> None | lane # _ \<Rightarrow> Some lane) = Some l \<longleftrightarrow> front"
    unfolding front_def s1(4) by (cases "requested l idle s") simp_all
  let ?boot = "if front \<and> \<not> as_bootstrap_admitted s then 1 else 0 :: nat"
  let ?s2 = "if 0 < ?boot then s1 \<lparr> as_bootstrap_admitted := True \<rparr> else s1"
  have s2: "sched_inv n W ?s2" "as_waiting ?s2 = ?w1" "as_waiting_order ?s2 = requested l idle s" "as_next_admission ?s2 = as_next_admission s"
    using s1(2,3,4) frame1 sched_inv_cong [of ?s2 s1 n W] by simp_all
  have boot2: "as_bootstrap_admitted ?s2 \<longleftrightarrow> as_bootstrap_admitted s \<or> front" using frame1 by auto
  have le: "limit \<le> as_waiting ?s2 ! l" using l len idle(2) by (simp add: s2(2) limit_def grants_def)
  have wl: "as_waiting ?s2 ! l - limit = idle - limit" "(as_waiting ?s2)[l := idle - limit] = w" using l len by (simp_all add: s2(2) w_def)
  have mem: "l \<in> set (take 1 (requested l idle s)) \<longleftrightarrow> front" unfolding front_def by (cases "requested l idle s") auto
  from take_from_lane_spec [OF s2(1) l le, where 'b = 'e and dbg = dbg] obtain q where
    "take_from_lane dbg l limit ?s2 = (Ok (?s2 \<lparr> as_waiting := w, as_total_waiting := sum_list w, as_queued := q,
       as_waiting_order := trim w (if front then enq w l (tl (requested l idle s)) else requested l idle s) \<rparr>) :: (_, 'e) outcome)"
    "sched_inv n W (?s2 \<lparr> as_waiting := w, as_total_waiting := sum_list w, as_queued := q,
       as_waiting_order := trim w (if front then enq w l (tl (requested l idle s)) else requested l idle s) \<rparr>)"
    unfolding wl s2(3) mem by metis
  then obtain s3 where s3: "take_from_lane dbg l limit ?s2 = (Ok s3 :: (_, 'e) outcome)" "sched_inv n W s3" "as_waiting s3 = w"
      "as_waiting_order s3 = trim w (if front then enq w l (tl (requested l idle s)) else requested l idle s)"
      "as_next_admission s3 = as_next_admission s" "as_bootstrap_admitted s3 \<longleftrightarrow> as_bootstrap_admitted s \<or> front"
    using s2(4) boot2 by simp
  let ?s4 = "case gap of Some g \<Rightarrow> if 0 < limit then s3 \<lparr> as_next_admission := sat_add DURATION_MAX now g \<rparr> else s3 | None \<Rightarrow> s3"
  have s4: "sched_inv n W ?s4" "as_waiting ?s4 = w" "as_waiting_order ?s4 = as_waiting_order s3" "as_bootstrap_admitted ?s4 = as_bootstrap_admitted s3"
    using s3(2,3) sched_inv_cong [of ?s4 s3 n W] by (auto split: option.splits)
  have "\<exists>d. schedule_request dbg F now l idle cw cb out s = (Ok (?s4, d) :: (_, 'e) outcome) \<and> ad_limit d = limit \<and> ad_bootstrap_grants d = ?boot \<and>
      ad_paced_grants d = limit - ad_bootstrap_grants d"
  proof -
    consider (boot) "front" "\<not> as_bootstrap_admitted s" "limit = 1"
      | (paced) "front" "as_bootstrap_admitted s" "gap \<noteq> None" "as_next_admission s \<le> now" "limit = 1"
      | (none) "front \<longrightarrow> as_bootstrap_admitted s \<and> (gap = None \<or> now < as_next_admission s)" "limit = 0"
      unfolding limit_def grants_def
      by (cases front; cases "as_bootstrap_admitted s"; cases "gap = None"; cases "as_next_admission s \<le> now") (simp_all add: not_le)
    then show ?thesis
    proof cases
      case boot
      then show ?thesis using idle(2) s1(1) first ema1 s3(1) l len s4(2) by (cases gap) (simp_all add: schedule_request_def front frame1 Let_def w_def)
    next
      case paced
      then show ?thesis using idle(2) s1(1) first ema1 s3(1) l len s4(2) by (cases gap) (simp_all add: schedule_request_def front frame1 Let_def w_def)
    next
      case none
      then show ?thesis using idle(2) s1(1) first ema1 s3(1) l len s4(2) by (cases gap) (auto simp: schedule_request_def front frame1 Let_def w_def)
    qed
  qed
  then obtain d where d: "schedule_request dbg F now l idle cw cb out s = (Ok (?s4, d) :: (_, 'e) outcome)" "ad_limit d = limit" "ad_bootstrap_grants d = ?boot" "ad_paced_grants d = limit - ad_bootstrap_grants d"
    by blast
  show thesis
    by (rule that [OF d(1) s4(1) d(2,3,4) s4(2)])
      (use s3 s4 limit_def in \<open>auto simp: grants_def split: option.splits\<close>)
qed

lemma request_idle_spec:
  fixes F :: "'f f64_ops"
  assumes inv: "sched_inv n W s" and l: "l < n" and cap: "n * W \<le> USIZE_MAX"
  obtains s' where "schedule_request dbg F now l 0 cw cb out s = (Ok (s', admission_decision_default) :: (_, 'e) outcome)" "sched_inv n W s'"
    "as_waiting s' = (as_waiting s)[l := 0]" "as_waiting_order s' = requested l 0 s" "as_next_admission s' = as_next_admission s"
    "as_bootstrap_admitted s' = as_bootstrap_admitted s"
proof -
  let ?o = "observe_eval_capacity F cw cb out s"
  have "sched_inv n W ?o" using inv by (simp add: sched_inv_def)
  from set_waiting_spec [OF this l _ cap, of 0] obtain q where
    "set_waiting l 0 ?o = (Ok (?o \<lparr> as_waiting := (as_waiting ?o)[l := 0], as_total_waiting := sum_list ((as_waiting ?o)[l := 0]),
      as_queued := q, as_waiting_order := trim ((as_waiting ?o)[l := 0]) (enq ((as_waiting ?o)[l := 0]) l (as_waiting_order ?o)) \<rparr>) :: (_, 'e) outcome)"
    "sched_inv n W (?o \<lparr> as_waiting := (as_waiting ?o)[l := 0], as_total_waiting := sum_list ((as_waiting ?o)[l := 0]),
      as_queued := q, as_waiting_order := trim ((as_waiting ?o)[l := 0]) (enq ((as_waiting ?o)[l := 0]) l (as_waiting_order ?o)) \<rparr>)"
    by auto
  then show thesis
    by (intro that [of "?o \<lparr> as_waiting := (as_waiting s)[l := 0], as_total_waiting := sum_list ((as_waiting s)[l := 0]),
        as_queued := q, as_waiting_order := requested l 0 s \<rparr>"]) (simp_all add: schedule_request_def requested_def Let_def)
qed

lemma restore_spec:
  assumes inv: "sched_inv n W s" and l: "l < n" and fits: "as_waiting s ! l + unused \<le> W" and cap: "n * W \<le> USIZE_MAX"
  obtains s' where "restore_unused l unused boot s = (Ok s' :: (_, 'e) outcome)" "sched_inv n W s'"
    "as_waiting s' = (as_waiting s)[l := as_waiting s ! l + unused]"
    "as_waiting_order s' = (if unused = 0 then as_waiting_order s else enq ((as_waiting s)[l := as_waiting s ! l + unused]) l (as_waiting_order s))"
    "as_next_admission s' = as_next_admission s"
proof (cases "unused = 0")
  case True
  then show ?thesis using that [of s] inv by (simp add: restore_unused_def)
next
  case False
  note old = sched_invD [OF inv]
  let ?w = "(as_waiting s)[l := as_waiting s ! l + unused]"
  have le: "\<forall>x \<in> set ?w. x \<le> W" by (rule set_update_le [OF old(4) fits])
  have sum: "sum_list ?w = as_total_waiting s + unused"
    using sum_list_update_nat [of l "as_waiting s" "as_waiting s ! l + unused"] l old(1,3) by simp
  have "sum_list ?w \<le> USIZE_MAX" using sum_list_bound [OF le] cap old(1) by simp
  moreover have "W \<le> n * W" using l by (cases n) simp_all
  then have "as_waiting s ! l + unused \<le> USIZE_MAX" using fits cap by linarith
  ultimately have sat: "sat_add USIZE_MAX (as_waiting s ! l) unused = as_waiting s ! l + unused"
    "sat_add USIZE_MAX (as_total_waiting s) unused = sum_list ?w"
    using sum by (simp_all add: sat_add_def)
  let ?s = "(if boot then s \<lparr> as_bootstrap_admitted := False \<rparr> else s) \<lparr> as_waiting := ?w, as_total_waiting := sum_list ?w \<rparr>"
  have "queue_ok n (as_queued ?s) (as_waiting_order ?s)" "length (as_waiting ?s) = n" using old(1,2) by simp_all
  from queue_lane_enq [OF this l] obtain q where
    "queue_lane l ?s = (Ok (?s \<lparr> as_queued := q, as_waiting_order := enq (as_waiting ?s) l (as_waiting_order ?s) \<rparr>) :: (_, 'e) outcome)"
    "queue_ok n q (enq (as_waiting ?s) l (as_waiting_order ?s))" .
  then have q: "queue_lane l ?s = (Ok (?s \<lparr> as_queued := q, as_waiting_order := enq ?w l (as_waiting_order s) \<rparr>) :: (_, 'e) outcome)"
    "queue_ok n q (enq ?w l (as_waiting_order s))" by (simp_all split: if_splits)
  have "trim ?w (enq ?w l (as_waiting_order s)) = enq ?w l (as_waiting_order s)"
    using old(1,5) l False by (cases "as_waiting_order s") (auto simp: trim_fixed_iff enq_def nth_list_update)
  then show ?thesis using q le old(1) l False sat
    by (intro that [of "?s \<lparr> as_queued := q, as_waiting_order := enq ?w l (as_waiting_order s) \<rparr>"]; cases boot)
      (simp_all add: restore_unused_def sched_inv_def)
qed

lemma clear_spec:
  assumes inv: "sched_inv n W s" and l: "l < n"
  obtains s' where "schedule_clear_lane l s = (Ok s' :: (_, 'e) outcome)" "sched_inv n W s'"
    "as_waiting s' = (as_waiting s)[l := 0]" "as_waiting_order s' = trim ((as_waiting s)[l := 0]) (as_waiting_order s)"
    "as_next_admission s' = as_next_admission s"
proof -
  note old = sched_invD [OF inv]
  let ?w = "(as_waiting s)[l := 0]"
  let ?s = "s \<lparr> as_total_waiting := as_total_waiting s - as_waiting s ! l, as_waiting := ?w \<rparr>"
  have sum: "as_total_waiting s - as_waiting s ! l = sum_list ?w"
    using sum_list_update_nat [of l "as_waiting s" 0] l old(1,3) by simp
  have le: "\<forall>x \<in> set ?w. x \<le> W" by (rule set_update_le [OF old(4)]) simp
  have "queue_ok n (as_queued ?s) (as_waiting_order ?s)" "length (as_waiting ?s) = n" using old(1,2) by simp_all
  from discard_empty_front_trim [OF this] obtain p where
    "discard_empty_front ?s = (Ok (?s \<lparr> as_queued := p, as_waiting_order := trim (as_waiting ?s) (as_waiting_order ?s) \<rparr>) :: (_, 'e) outcome)"
    "queue_ok n p (trim (as_waiting ?s) (as_waiting_order ?s))" .
  then show thesis
    using l old(1) sum le by (intro that [of "?s \<lparr> as_queued := p, as_waiting_order := trim ?w (as_waiting_order s) \<rparr>"])
      (simp_all add: schedule_clear_lane_def sched_inv_def)
qed

section \<open>Runs of the schedule\<close>

datatype sched_event =
    Request nat nat nat nat nat nat
  | ObserveWork nat
  | Restore nat nat bool
  | ClearLane nat

fun sched_exec ::
    "bool \<Rightarrow> 'f f64_ops \<Rightarrow> sched_event \<Rightarrow> 'f admission_schedule \<Rightarrow> ('f admission_schedule \<times> admission_decision, unit) outcome"
where
  "sched_exec dbg F (Request now lane idle cw cb out) s = schedule_request dbg F now lane idle cw cb out s"
| "sched_exec dbg F (ObserveWork evaluations) s = Ok (schedule_observe_episode_work F evaluations s, admission_decision_default)"
| "sched_exec dbg F (Restore lane unused bootstrap) s =
     obind (restore_unused lane unused bootstrap s) (\<lambda>s. Ok (s, admission_decision_default))"
| "sched_exec dbg F (ClearLane lane) s = obind (schedule_clear_lane lane s) (\<lambda>s. Ok (s, admission_decision_default))"

text \<open>
  The calls the lanes make: with a lane of the schedule, and never announcing more idle workers than a
  lane has, nor giving back more than it took.
\<close>

fun sched_allowed :: "nat \<Rightarrow> nat \<Rightarrow> sched_event \<Rightarrow> 'f admission_schedule \<Rightarrow> bool" where
  "sched_allowed n W (Request now lane idle cw cb out) s = (lane < n \<and> idle \<le> W)"
| "sched_allowed n W (ObserveWork evaluations) s = True"
| "sched_allowed n W (Restore lane unused bootstrap) s = (lane < n \<and> as_waiting s ! lane + unused \<le> W)"
| "sched_allowed n W (ClearLane lane) s = (lane < n)"

text \<open>A run with its trace: the state before each event, the event, and the decision it returned.\<close>

inductive sched_run ::
    "nat \<Rightarrow> nat \<Rightarrow> bool \<Rightarrow> 'f f64_ops \<Rightarrow> 'f admission_schedule \<Rightarrow>
       ('f admission_schedule \<times> sched_event \<times> admission_decision) list \<Rightarrow> 'f admission_schedule \<Rightarrow> bool"
  for n W dbg F s0 where
  sched_run_Nil: "sched_run n W dbg F s0 [] s0"
| sched_run_snoc: "sched_run n W dbg F s0 tr s \<Longrightarrow> sched_allowed n W ev s \<Longrightarrow> sched_exec dbg F ev s = Ok (s', d) \<Longrightarrow>
     sched_run n W dbg F s0 (tr @ [(s, ev, d)]) s'"

lemma observe_work_frame [simp]:
  "as_waiting (schedule_observe_episode_work F x s) = as_waiting s" "as_queued (schedule_observe_episode_work F x s) = as_queued s"
  "as_waiting_order (schedule_observe_episode_work F x s) = as_waiting_order s"
  "as_total_waiting (schedule_observe_episode_work F x s) = as_total_waiting s"
  "as_next_admission (schedule_observe_episode_work F x s) = as_next_admission s"
  by (simp_all add: schedule_observe_episode_work_def Let_def)

lemma schedule_new_inv:
  assumes "schedule_new F n workers p t work = Ok s" "0 < n"
  shows "sched_inv n (workers div n) s" "as_waiting_order s = []" "n * (workers div n) = workers"
proof -
  have "workers mod n = 0" using assms(1) by (simp add: schedule_new_def split: if_splits)
  then show eq: "n * (workers div n) = workers" using mult_div_mod_eq [of n workers] by simp
  then show "sched_inv n (workers div n) s" "as_waiting_order s = []"
    using assms(1) by (auto simp: schedule_new_def sched_inv_def queue_ok_def trim_def sum_list_replicate split: if_splits)
qed

text \<open>Every allowed call returns, unless the pacing interval has no representation as a duration.\<close>

lemma sched_exec_inv:
  fixes F :: "'f f64_ops"
  assumes inv: "sched_inv n W s" and ok: "sched_allowed n W ev s" and cap: "n * W \<le> USIZE_MAX"
  shows "(\<exists>s' d. sched_exec dbg F ev s = Ok (s', d) \<and> sched_inv n W s' \<and> ad_limit d \<le> 1) \<or>
    (\<exists>now l idle cw cb out. ev = Request now l idle cw cb out \<and> admission_gap F (observe_eval_capacity F cw cb out s) = (Panic :: (_, unit) outcome))"
proof (cases ev)
  case (Request now l idle cw cb out)
  then have l: "l < n" "idle \<le> W" using ok by simp_all
  show ?thesis
  proof (cases "idle = 0")
    case True
    obtain s' where "schedule_request dbg F now l 0 cw cb out s = (Ok (s', admission_decision_default) :: (_, unit) outcome)" "sched_inv n W s'"
      by (rule request_idle_spec [OF inv l(1) cap])
    then show ?thesis using Request True by (simp add: admission_decision_default_def)
  next
    case False
    show ?thesis
    proof (cases "admission_gap F (observe_eval_capacity F cw cb out s) :: (_, unit) outcome")
      case (Ok gap)
      obtain s' d where "schedule_request dbg F now l idle cw cb out s = (Ok (s', d) :: (_, unit) outcome)" "sched_inv n W s'"
        "ad_limit d = grants now gap (take 1 (requested l idle s) = [l]) s"
        by (rule request_spec [OF inv l False cap Ok])
      then show ?thesis using Request by (simp add: grants_def)
    next
      case (Err e)
      then show ?thesis by (auto simp: admission_gap_def Let_def split: option.splits if_splits)
    next
      case Panic
      then show ?thesis using Request by blast
    qed
  qed
next
  case (ObserveWork x)
  then show ?thesis using inv sched_inv_cong [of "schedule_observe_episode_work F x s" s n W] by (simp add: admission_decision_default_def)
next
  case (Restore l unused boot)
  then have "l < n" "as_waiting s ! l + unused \<le> W" using ok by simp_all
  then obtain s' where "restore_unused l unused boot s = (Ok s' :: (_, unit) outcome)" "sched_inv n W s'"
    by (rule restore_spec [OF inv _ _ cap])
  then show ?thesis using Restore by (simp add: admission_decision_default_def)
next
  case (ClearLane l)
  then have "l < n" using ok by simp
  then obtain s' where "schedule_clear_lane l s = (Ok s' :: (_, unit) outcome)" "sched_inv n W s'"
    by (rule clear_spec [OF inv])
  then show ?thesis using ClearLane by (simp add: admission_decision_default_def)
qed

text \<open>A request that returns has computed a pacing interval.\<close>

lemma request_gap:
  fixes F :: "'f f64_ops"
  assumes inv: "sched_inv n W s" and l: "l < n" and idle: "idle \<le> W" "idle \<noteq> 0" and cap: "n * W \<le> USIZE_MAX"
    and run: "schedule_request dbg F now l idle cw cb out s = (Ok r :: (_, 'e) outcome)"
  obtains gap where "admission_gap F (observe_eval_capacity F cw cb out s) = (Ok gap :: (_, 'e) outcome)"
proof -
  let ?o = "observe_eval_capacity F cw cb out s"
  have "sched_inv n W ?o" using inv by (simp add: sched_inv_def)
  from set_waiting_spec [OF this l idle(1) cap] obtain q where
    "set_waiting l idle ?o = (Ok (?o \<lparr> as_waiting := (as_waiting ?o)[l := idle], as_total_waiting := sum_list ((as_waiting ?o)[l := idle]),
      as_queued := q, as_waiting_order := trim ((as_waiting ?o)[l := idle]) (enq ((as_waiting ?o)[l := idle]) l (as_waiting_order ?o)) \<rparr>) :: (_, 'e) outcome)" .
  then obtain s1 where s1: "set_waiting l idle ?o = (Ok s1 :: (_, 'e) outcome)" "admission_gap F s1 = (admission_gap F ?o :: (_, 'e) outcome)" by simp
  have disc: "admission_gap F s2 = (admission_gap F s1 :: (_, 'e) outcome)" if found: "front_waiting_lane s1 = (Ok (s2, first) :: (_, 'e) outcome)" for s2 first
  proof -
    obtain q order where "s2 = s1 \<lparr> as_queued := q, as_waiting_order := order \<rparr>"
      using found by (auto simp: front_waiting_lane_def discard_empty_front_def split: prod.splits)
    then show ?thesis using admission_gap_frame [where s = s1 and a = "as_waiting s1" and b = "as_total_waiting s1" and c = q and d = order] by simp
  qed
  show thesis
  proof (rule ccontr)
    assume "\<not> thesis"
    then have "admission_gap F ?o \<noteq> (Ok gap :: (_, 'e) outcome)" for gap using that by blast
    then have "admission_gap F s1 \<noteq> (Ok gap :: (_, 'e) outcome)" "(Ok gap :: (_, 'e) outcome) \<noteq> admission_gap F s1" for gap
      using s1(2) by (simp, metis)
    then show False using run s1(1) idle(2) disc by (auto simp: schedule_request_def Let_def)
  qed
qed

lemma sched_exec_request:
  fixes F :: "'f f64_ops"
  assumes inv: "sched_inv n W s" and ok: "l < n" "idle \<le> W" "idle \<noteq> 0" and cap: "n * W \<le> USIZE_MAX"
    and run: "schedule_request dbg F now l idle cw cb out s = (Ok (s', d) :: (_, 'e) outcome)"
  defines "front \<equiv> take 1 (requested l idle s) = [l]"
  obtains gap where "admission_gap F (observe_eval_capacity F cw cb out s) = (Ok gap :: (_, 'e) outcome)" "sched_inv n W s'"
    "ad_limit d = grants now gap front s" "ad_bootstrap_grants d = (if front \<and> \<not> as_bootstrap_admitted s then 1 else 0)"
    "ad_paced_grants d = ad_limit d - ad_bootstrap_grants d" "as_waiting s' = (as_waiting s)[l := idle - ad_limit d]"
    "as_waiting_order s' = trim (as_waiting s') (if front then enq (as_waiting s') l (tl (requested l idle s)) else requested l idle s)"
    "as_next_admission s' = (case gap of Some g \<Rightarrow> if ad_limit d = 1 then sat_add DURATION_MAX now g else as_next_admission s | None \<Rightarrow> as_next_admission s)"
proof -
  obtain gap where gap: "admission_gap F (observe_eval_capacity F cw cb out s) = (Ok gap :: (_, 'e) outcome)"
    by (rule request_gap [OF inv ok cap run])
  obtain t e where t: "schedule_request dbg F now l idle cw cb out s = (Ok (t, e) :: (_, 'e) outcome)" "sched_inv n W t"
    "ad_limit e = grants now gap front s" "ad_bootstrap_grants e = (if front \<and> \<not> as_bootstrap_admitted s then 1 else 0)"
    "ad_paced_grants e = grants now gap front s - ad_bootstrap_grants e"
    "as_waiting t = (as_waiting s)[l := idle - grants now gap front s]"
    "as_waiting_order t = trim ((as_waiting s)[l := idle - grants now gap front s])
       (if front then enq ((as_waiting s)[l := idle - grants now gap front s]) l (tl (requested l idle s)) else requested l idle s)"
    "as_next_admission t = (case gap of Some g \<Rightarrow> if grants now gap front s = 1 then sat_add DURATION_MAX now g else as_next_admission s | None \<Rightarrow> as_next_admission s)"
    unfolding front_def by (rule request_spec [OF inv ok cap gap])
  have eq: "t = s'" "e = d" using t(1) run by simp_all
  note t' = t(2-8) [unfolded eq]
  show thesis
    by (rule that [OF gap t'(1,2,3) t'(4) [folded t'(2)] t'(5) [folded t'(2)] t'(6) [folded t'(5)] t'(7) [folded t'(2)]])
qed

lemma sched_exec_keeps_inv:
  assumes inv: "sched_inv n W s" and ok: "sched_allowed n W ev s" and cap: "n * W \<le> USIZE_MAX" and run: "sched_exec dbg F ev s = Ok (s', d)"
  shows "sched_inv n W s' \<and> ad_limit d \<le> 1"
proof (cases ev)
  case (Request now l idle cw cb out)
  then have l: "l < n" "idle \<le> W" and req: "schedule_request dbg F now l idle cw cb out s = (Ok (s', d) :: (_, unit) outcome)"
    using ok run by simp_all
  show ?thesis
  proof (cases "idle = 0")
    case True
    obtain t where "schedule_request dbg F now l 0 cw cb out s = (Ok (t, admission_decision_default) :: (_, unit) outcome)" "sched_inv n W t"
      by (rule request_idle_spec [OF inv l(1) cap])
    then show ?thesis using req True by (auto simp: admission_decision_default_def)
  next
    case False
    obtain gap where "sched_inv n W s'" "ad_limit d = grants now gap (take 1 (requested l idle s) = [l]) s"
      by (rule sched_exec_request [OF inv l False cap req])
    then show ?thesis by (simp add: grants_def)
  qed
next
  case (ObserveWork x)
  then show ?thesis using inv run sched_inv_cong [of "schedule_observe_episode_work F x s" s n W] by (auto simp: admission_decision_default_def)
next
  case (Restore l unused boot)
  then have "l < n" "as_waiting s ! l + unused \<le> W" using ok by simp_all
  then obtain t where "restore_unused l unused boot s = (Ok t :: (_, unit) outcome)" "sched_inv n W t"
    by (rule restore_spec [OF inv _ _ cap])
  then show ?thesis using run Restore by (auto simp: admission_decision_default_def)
next
  case (ClearLane l)
  then have "l < n" using ok by simp
  then obtain t where "schedule_clear_lane l s = (Ok t :: (_, unit) outcome)" "sched_inv n W t"
    by (rule clear_spec [OF inv])
  then show ?thesis using run ClearLane by (auto simp: admission_decision_default_def)
qed

lemma sched_run_inv: "sched_run n W dbg F s0 tr s \<Longrightarrow> sched_inv n W s0 \<Longrightarrow> n * W \<le> USIZE_MAX \<Longrightarrow> sched_inv n W s"
  by (induction rule: sched_run.induct) (use sched_exec_keeps_inv in blast)+

text \<open>The clock moves only with a grant.\<close>

lemma sched_exec_clock:
  assumes inv: "sched_inv n W s" and ok: "sched_allowed n W ev s" and cap: "n * W \<le> USIZE_MAX" and run: "sched_exec dbg F ev s = Ok (s', d)"
    and none: "ad_limit d = 0"
  shows "as_next_admission s' = as_next_admission s"
proof (cases ev)
  case (Request now l idle cw cb out)
  then have l: "l < n" "idle \<le> W" and req: "schedule_request dbg F now l idle cw cb out s = (Ok (s', d) :: (_, unit) outcome)"
    using ok run by simp_all
  show ?thesis
  proof (cases "idle = 0")
    case True
    obtain t where "schedule_request dbg F now l 0 cw cb out s = (Ok (t, admission_decision_default) :: (_, unit) outcome)"
      "as_next_admission t = as_next_admission s"
      by (rule request_idle_spec [OF inv l(1) cap])
    then show ?thesis using req True by auto
  next
    case False
    obtain gap where "as_next_admission s' = (case gap of Some g \<Rightarrow> if ad_limit d = 1 then sat_add DURATION_MAX now g else as_next_admission s | None \<Rightarrow> as_next_admission s)"
      by (rule sched_exec_request [OF inv l False cap req])
    then show ?thesis using none by (simp split: option.splits)
  qed
next
  case (ObserveWork x)
  then show ?thesis using run by auto
next
  case (Restore l unused boot)
  then have "l < n" "as_waiting s ! l + unused \<le> W" using ok by simp_all
  then obtain t where "restore_unused l unused boot s = (Ok t :: (_, unit) outcome)" "as_next_admission t = as_next_admission s"
    by (rule restore_spec [OF inv _ _ cap])
  then show ?thesis using run Restore by auto
next
  case (ClearLane l)
  then have "l < n" using ok by simp
  then obtain t where "schedule_clear_lane l s = (Ok t :: (_, unit) outcome)" "as_next_admission t = as_next_admission s"
    by (rule clear_spec [OF inv])
  then show ?thesis using run ClearLane by auto
qed

lemma sched_run_clock:
  "sched_run n W dbg F s0 tr s \<Longrightarrow> sched_inv n W s0 \<Longrightarrow> n * W \<le> USIZE_MAX \<Longrightarrow>
     \<forall>(s, ev, d) \<in> set tr. ad_limit d = 0 \<Longrightarrow> as_next_admission s = as_next_admission s0"
proof (induction rule: sched_run.induct)
  case (sched_run_snoc tr s ev s' d)
  then have "as_next_admission s = as_next_admission s0" "ad_limit d = 0" by auto
  moreover have "sched_inv n W s" using sched_run_inv sched_run_snoc by blast
  ultimately show ?case using sched_exec_clock sched_run_snoc by metis
qed simp

section \<open>Properties of the schedule\<close>

text \<open>
  C9: The admission queue stays consistent. Over any interleaving of the lanes' calls, starting from a
  new schedule, the total is the exact sum of the waiting workers, the flags describe the queue, no
  lane is queued twice, the lane at the front waits, and every call returns with at most one grant,
  unless the pacing interval itself cannot be represented as a duration.
\<close>

theorem admission_queue_invariant:
  assumes "schedule_new F lanes workers processes target work = Ok s0" "0 < lanes" "workers \<le> USIZE_MAX"
    and "sched_run lanes (workers div lanes) dbg F s0 tr s"
  shows "as_total_waiting s = sum_list (as_waiting s) \<and> distinct (as_waiting_order s) \<and>
    (\<forall>l < lanes. as_queued s ! l \<longleftrightarrow> l \<in> set (as_waiting_order s)) \<and>
    (as_waiting_order s = [] \<or> 0 < as_waiting s ! hd (as_waiting_order s)) \<and>
    (\<forall>ev. sched_allowed lanes (workers div lanes) ev s \<longrightarrow> (\<exists>s' d. sched_exec dbg F ev s = Ok (s', d) \<and> ad_limit d \<le> 1) \<or>
      (\<exists>now l idle cw cb out. ev = Request now l idle cw cb out \<and> admission_gap F (observe_eval_capacity F cw cb out s) = (Panic :: (_, unit) outcome)))"
proof -
  note new = schedule_new_inv [OF assms(1,2)]
  have cap: "lanes * (workers div lanes) \<le> USIZE_MAX" using new(3) assms(3) by simp
  have inv: "sched_inv lanes (workers div lanes) s" by (rule sched_run_inv [OF assms(4) new(1) cap])
  have "\<forall>ev. sched_allowed lanes (workers div lanes) ev s \<longrightarrow> (\<exists>s' d. sched_exec dbg F ev s = Ok (s', d) \<and> ad_limit d \<le> 1) \<or>
      (\<exists>now l idle cw cb out. ev = Request now l idle cw cb out \<and> admission_gap F (observe_eval_capacity F cw cb out s) = (Panic :: (_, unit) outcome))"
    using sched_exec_inv [OF inv _ cap, of _ dbg F] by blast
  then show ?thesis using inv trim_fixed_iff [of "as_waiting s" "as_waiting_order s"] by (simp add: sched_inv_def queue_ok_def)
qed

text \<open>
  C21: Admissions are paced. If a grant is made at time \<open>t\<close> when the estimated interval between admissions
  is \<open>g\<close>, and nothing is granted in between, then the next grant, unless it is a bootstrap one, is made at
  time \<open>t + g\<close> or later (or at the largest duration there is). In between the lanes may ask in vain, finish
  and submit in any order.
\<close>

theorem admission_pacing:
  assumes inv: "sched_inv lanes W s" and cap: "lanes * W \<le> USIZE_MAX"
    and first: "l < lanes" "idle \<le> W" "idle \<noteq> 0" "schedule_request dbg F t l idle cw cb out s = (Ok (s1, d1) :: (_, unit) outcome)" "ad_limit d1 = 1"
    and gap: "admission_gap F (observe_eval_capacity F cw cb out s) = (Ok (Some g) :: (_, unit) outcome)"
    and run: "sched_run lanes W dbg F s1 tr s2" "\<forall>(s, ev, d) \<in> set tr. ad_limit d = 0"
    and second: "k < lanes" "idle' \<le> W" "idle' \<noteq> 0" "schedule_request dbg F now k idle' cw' cb' out' s2 = (Ok (s3, d2) :: (_, unit) outcome)"
      "ad_paced_grants d2 = 1"
  shows "min DURATION_MAX (t + g) \<le> now"
proof -
  obtain gap1 where "admission_gap F (observe_eval_capacity F cw cb out s) = (Ok gap1 :: (_, unit) outcome)" "sched_inv lanes W s1"
    "as_next_admission s1 = (case gap1 of Some g \<Rightarrow> if ad_limit d1 = 1 then sat_add DURATION_MAX t g else as_next_admission s | None \<Rightarrow> as_next_admission s)"
    by (rule sched_exec_request [OF inv first(1-3) cap first(4)])
  then have s1: "sched_inv lanes W s1" "as_next_admission s1 = min DURATION_MAX (t + g)" using gap first(5) by (auto simp: sat_add_def)
  have s2: "sched_inv lanes W s2" "as_next_admission s2 = as_next_admission s1"
    using sched_run_inv [OF run(1) s1(1) cap] sched_run_clock [OF run(1) s1(1) cap run(2)] by simp_all
  obtain gap2 where "ad_limit d2 = grants now gap2 (take 1 (requested k idle' s2) = [k]) s2"
    "ad_bootstrap_grants d2 = (if take 1 (requested k idle' s2) = [k] \<and> \<not> as_bootstrap_admitted s2 then 1 else 0)"
    "ad_paced_grants d2 = ad_limit d2 - ad_bootstrap_grants d2"
    by (rule sched_exec_request [OF s2(1) second(1-3) cap second(4)])
  then have "as_next_admission s2 \<le> now" using second(5) by (auto simp: grants_def split: if_splits)
  then show ?thesis using s1(2) s2(2) by simp
qed

text \<open>How far a lane is from the front.\<close>

definition ahead :: "nat \<Rightarrow> nat list \<Rightarrow> nat" where
  "ahead b order = length (takeWhile (\<lambda>x. x \<noteq> b) order)"

lemma ahead_enq: "b \<in> set order \<Longrightarrow> b \<in> set (enq w l order) \<and> ahead b (enq w l order) = ahead b order"
  by (auto simp: enq_def ahead_def)

lemma ahead_trim: "b \<in> set order \<Longrightarrow> w ! b \<noteq> 0 \<Longrightarrow> b \<in> set (trim w order) \<and> ahead b (trim w order) \<le> ahead b order"
  by (induction order) (auto simp: trim_def ahead_def)

lemma ahead_tl: "take 1 order = [l] \<Longrightarrow> l \<noteq> b \<Longrightarrow> b \<in> set order \<Longrightarrow> b \<in> set (tl order) \<and> Suc (ahead b (tl order)) = ahead b order"
  by (cases order) (auto simp: ahead_def)

lemma ahead_front: "b \<in> set order \<Longrightarrow> ahead b order = 0 \<longleftrightarrow> take 1 order = [b]"
  by (cases order) (auto simp: ahead_def)

text \<open>A request of a lane that is at the front when it asks.\<close>

fun front_request :: "'f admission_schedule \<times> sched_event \<times> admission_decision \<Rightarrow> bool" where
  "front_request (s, Request now l idle cw cb out, d) \<longleftrightarrow> idle \<noteq> 0 \<and> take 1 (requested l idle s) = [l]"
| "front_request _ \<longleftrightarrow> False"

fun event_lane :: "sched_event \<Rightarrow> nat option" where
  "event_lane (Request now l idle cw cb out) = Some l"
| "event_lane (ObserveWork x) = None"
| "event_lane (Restore l unused boot) = Some l"
| "event_lane (ClearLane l) = Some l"

definition queued_at :: "nat \<Rightarrow> nat \<Rightarrow> 'f admission_schedule \<Rightarrow> bool" where
  "queued_at b k s \<longleftrightarrow> b \<in> set (as_waiting_order s) \<and> as_waiting s ! b \<noteq> 0 \<and> ahead b (as_waiting_order s) \<le> k"

lemma sched_exec_turn:
  assumes inv: "sched_inv n W s" and ok: "sched_allowed n W ev s" and cap: "n * W \<le> USIZE_MAX" and run: "sched_exec dbg F ev s = Ok (s', d)"
    and b: "queued_at b k s" "event_lane ev \<noteq> Some b"
  shows "queued_at b (k - (if front_request (s, ev, d) then 1 else 0)) s' \<and> (front_request (s, ev, d) \<longrightarrow> 0 < k)"
proof (cases ev)
  case (Request now l idle cw cb out)
  then have l: "l < n" "idle \<le> W" and req: "schedule_request dbg F now l idle cw cb out s = (Ok (s', d) :: (_, unit) outcome)"
    and lb: "l \<noteq> b" using ok run b(2) by simp_all
  have wb: "((as_waiting s)[l := x]) ! b = as_waiting s ! b" for x using lb by simp
  have mid: "b \<in> set (requested l idle s) \<and> ahead b (requested l idle s) \<le> k"
    using b(1) ahead_enq [of b "as_waiting_order s" "(as_waiting s)[l := idle]" l]
      ahead_trim [of b "enq ((as_waiting s)[l := idle]) l (as_waiting_order s)" "(as_waiting s)[l := idle]"] wb
    by (simp add: requested_def Let_def queued_at_def)
  show ?thesis
  proof (cases "idle = 0")
    case True
    obtain t where "schedule_request dbg F now l 0 cw cb out s = (Ok (t, admission_decision_default) :: (_, unit) outcome)"
      "as_waiting t = (as_waiting s)[l := 0]" "as_waiting_order t = requested l 0 s"
      by (rule request_idle_spec [OF inv l(1) cap])
    then have "as_waiting s' = (as_waiting s)[l := 0]" "as_waiting_order s' = requested l 0 s" using req True by auto
    then show ?thesis using mid b(1) wb True Request by (simp add: queued_at_def)
  next
    case False
    let ?front = "take 1 (requested l idle s) = [l]"
    obtain gap where s': "as_waiting s' = (as_waiting s)[l := idle - ad_limit d]"
      "as_waiting_order s' = trim (as_waiting s') (if ?front then enq (as_waiting s') l (tl (requested l idle s)) else requested l idle s)"
      by (rule sched_exec_request [OF inv l False cap req])
    have w': "as_waiting s' ! b \<noteq> 0" using s'(1) b(1) wb by (simp add: queued_at_def)
    show ?thesis
    proof (cases ?front)
      case True
      have "b \<in> set (tl (requested l idle s)) \<and> Suc (ahead b (tl (requested l idle s))) \<le> k"
        using ahead_tl [OF True lb] mid by auto
      then have "queued_at b (k - 1) s' \<and> 0 < k"
        using True w' s'(2) ahead_enq [of b "tl (requested l idle s)" "as_waiting s'" l]
          ahead_trim [of b "enq (as_waiting s') l (tl (requested l idle s))" "as_waiting s'"] by (auto simp: queued_at_def)
      then show ?thesis using Request False True by simp
    next
      case nf: False
      then have "queued_at b k s'" using w' s'(2) mid ahead_trim [of b "requested l idle s" "as_waiting s'"] by (auto simp: queued_at_def)
      then show ?thesis using Request False nf by simp
    qed
  qed
next
  case (ObserveWork x)
  then have "s' = schedule_observe_episode_work F x s" using run by simp
  then show ?thesis using b(1) ObserveWork by (simp add: queued_at_def)
next
  case (Restore l unused boot)
  then have lw: "l < n" "as_waiting s ! l + unused \<le> W" and lb: "l \<noteq> b" using ok b(2) by simp_all
  obtain t where "restore_unused l unused boot s = (Ok t :: (_, unit) outcome)"
    "as_waiting t = (as_waiting s)[l := as_waiting s ! l + unused]"
    "as_waiting_order t = (if unused = 0 then as_waiting_order s else enq ((as_waiting s)[l := as_waiting s ! l + unused]) l (as_waiting_order s))"
    by (rule restore_spec [OF inv lw cap])
  moreover from this have "t = s'" using run Restore by simp
  ultimately show ?thesis using b(1) lb ahead_enq [of b "as_waiting_order s"] Restore by (auto simp: queued_at_def)
next
  case (ClearLane l)
  then have l: "l < n" and lb: "l \<noteq> b" using ok b(2) by simp_all
  obtain t where "schedule_clear_lane l s = (Ok t :: (_, unit) outcome)" "as_waiting t = (as_waiting s)[l := 0]"
    "as_waiting_order t = trim ((as_waiting s)[l := 0]) (as_waiting_order s)"
    by (rule clear_spec [OF inv l])
  moreover from this have "t = s'" using run ClearLane by simp
  moreover have "((as_waiting s)[l := 0]) ! b = as_waiting s ! b" using lb by simp
  ultimately show ?thesis using b(1) ahead_trim [of b "as_waiting_order s" "(as_waiting s)[l := 0]"] ClearLane
    by (auto simp: queued_at_def)
qed

lemma sched_run_turn:
  "sched_run n W dbg F s0 tr s \<Longrightarrow> sched_inv n W s0 \<Longrightarrow> n * W \<le> USIZE_MAX \<Longrightarrow> queued_at b k s0 \<Longrightarrow>
     \<forall>(s, ev, d) \<in> set tr. event_lane ev \<noteq> Some b \<Longrightarrow>
     length (filter front_request tr) \<le> k \<and> queued_at b (k - length (filter front_request tr)) s"
proof (induction rule: sched_run.induct)
  case (sched_run_snoc tr s ev s' d)
  let ?m = "length (filter front_request tr)"
  have IH: "?m \<le> k" "queued_at b (k - ?m) s" using sched_run_snoc by auto
  have inv: "sched_inv n W s" using sched_run_inv sched_run_snoc by blast
  have lane: "event_lane ev \<noteq> Some b" using sched_run_snoc.prems(4) by auto
  from sched_exec_turn [OF inv sched_run_snoc.hyps(2) sched_run_snoc.prems(2) sched_run_snoc.hyps(3) IH(2) lane] IH(1)
  show ?case by (auto split: if_splits)
qed simp

text \<open>
  C36: Lanes take turns. While a lane waits in the queue and does nothing, requests by lanes at the front
  can come at most as often as there are lanes ahead of it, since each sends its lane behind it; once
  there have been as many, it is at the front, and its own request is then granted as soon as the
  pacing allows it (or at once if the bootstrap grant is still open).
\<close>

theorem admission_turns:
  fixes F :: "'f f64_ops"
  assumes inv: "sched_inv lanes W s0" and cap: "lanes * W \<le> USIZE_MAX" and b: "queued_at b k s0"
    and run: "sched_run lanes W dbg F s0 tr s" "\<forall>(s, ev, d) \<in> set tr. event_lane ev \<noteq> Some b"
  shows "length (filter front_request tr) \<le> k \<and>
    (length (filter front_request tr) = k \<longrightarrow>
       take 1 (as_waiting_order s) = [b] \<and>
       (\<forall>now idle cw cb out s' d gap. 0 < idle \<longrightarrow> idle \<le> W \<longrightarrow>
          schedule_request dbg F now b idle cw cb out s = (Ok (s', d) :: (_, unit) outcome) \<longrightarrow>
          admission_gap F (observe_eval_capacity F cw cb out s) = (Ok gap :: (_, unit) outcome) \<longrightarrow>
          ad_limit d = (if \<not> as_bootstrap_admitted s \<or> gap \<noteq> None \<and> as_next_admission s \<le> now then 1 else 0)))"
proof -
  note turn = sched_run_turn [OF run(1) inv cap b run(2)]
  have inv': "sched_inv lanes W s" by (rule sched_run_inv [OF run(1) inv cap])
  have front: "take 1 (as_waiting_order s) = [b]" if "length (filter front_request tr) = k"
    using turn that ahead_front [of b "as_waiting_order s"] by (simp add: queued_at_def)
  have grant: "ad_limit d = (if \<not> as_bootstrap_admitted s \<or> gap \<noteq> None \<and> as_next_admission s \<le> now then 1 else 0)"
    if k: "length (filter front_request tr) = k" and idle: "0 < idle" "idle \<le> W"
      and req: "schedule_request dbg F now b idle cw cb out s = (Ok (s', d) :: (_, unit) outcome)"
      and gap: "admission_gap F (observe_eval_capacity F cw cb out s) = (Ok gap :: (_, unit) outcome)" for now idle cw cb out s' d gap
  proof -
    obtain rest where rest: "as_waiting_order s = b # rest" using front [OF k] by (cases "as_waiting_order s") auto
    then have bl: "b < lanes" using sched_invD(2) [OF inv'] by (simp add: queue_ok_def)
    have "take 1 (requested b idle s) = [b]"
      using rest idle(1) bl sched_invD(1) [OF inv'] by (simp add: requested_def Let_def enq_def trim_def)
    moreover obtain gap' where "admission_gap F (observe_eval_capacity F cw cb out s) = (Ok gap' :: (_, unit) outcome)"
      "ad_limit d = grants now gap' (take 1 (requested b idle s) = [b]) s"
      using sched_exec_request [OF inv' bl idle(2) _ cap req] idle(1) by (metis less_not_refl)
    ultimately show ?thesis using gap by (simp add: grants_def)
  qed
  show ?thesis using turn front grant by blast
qed

section \<open>A concrete run\<close>

text \<open>A concrete run: rational arithmetic for \<open>f64\<close>, two lanes of two workers each.\<close>

definition rat_ops :: "rat f64_ops" where
  "rat_ops = \<lparr> f_of_nat = of_nat, f_lit = (\<lambda>x. x), f_add = (+), f_sub = (-), f_mul = (*), f_div = (/), f_max = max,
     f_clamp = (\<lambda>x lo hi. min (max x lo) hi), f_finite = (\<lambda>x. True), f_positive = (\<lambda>x. 0 < x),
     f_from_secs = (\<lambda>x. Some (nat \<lfloor>x * 1000000000\<rfloor>)) \<rparr>"

definition sample_schedule :: "nat list \<Rightarrow> bool list \<Rightarrow> nat list \<Rightarrow> nat \<Rightarrow> rat admission_schedule" where
  "sample_schedule waiting queued order next =
     \<lparr> as_waiting = waiting, as_queued = queued, as_waiting_order = order, as_total_waiting = sum_list waiting,
       as_next_admission = next, as_bootstrap_admitted = True, as_evaluator_processes = 1, as_target_outstanding = 3,
       as_last_capacity_work = 100, as_last_capacity_busy_ns = 1000000000, as_allow_short_capacity_sample = False,
       as_eval_capacity_ema = Some 100, as_outstanding_ema = Some 1, as_episode_eval_work_ema = Some 300 \<rparr>"

lemmas schedule_eval = schedule_request_def observe_eval_capacity_def set_waiting_def queue_lane_def discard_empty_front_def
  front_waiting_lane_def admission_gap_def pressure_gain_def take_from_lane_def rotate_front_def usize_sub_def sat_add_def
  ema_def rat_ops_def sample_schedule_def Let_def CAPACITY_SAMPLE_BUSY_NS_def DURATION_MAX_def MILLISECOND_def USIZE_MAX_def idx_def

lemma sample_new: "schedule_new rat_ops 2 4 1 3 300 = Ok (sample_schedule [2, 2] [False, False] [] 0
    \<lparr> as_bootstrap_admitted := False, as_last_capacity_work := 0, as_last_capacity_busy_ns := 0,
      as_eval_capacity_ema := None, as_outstanding_ema := None \<rparr>)"
  by (simp add: schedule_new_def sample_schedule_def rat_ops_def) (simp add: numeral_2_eq_2)

lemma sample_bootstrap:
  "schedule_request dbg rat_ops 0 0 2 100 1000000000 1 (sample_schedule [2, 2] [False, False] [] 0
    \<lparr> as_bootstrap_admitted := False, as_last_capacity_work := 0, as_last_capacity_busy_ns := 0,
      as_eval_capacity_ema := None, as_outstanding_ema := None \<rparr>) =
   Ok (sample_schedule [1, 2] [True, False] [0] 2000000000,
     \<lparr> ad_limit = 1, ad_bootstrap_grants = 1, ad_paced_grants = 0, ad_retry_after = Some 2000000000 \<rparr>)"
  by (simp add: schedule_eval)

lemma sample_second_lane:
  "schedule_request dbg rat_ops 5 1 2 100 1000000000 1 (sample_schedule [1, 2] [True, False] [0] 2000000000) =
   Ok (sample_schedule [1, 2] [True, True] [0, 1] 2000000000,
     \<lparr> ad_limit = 0, ad_bootstrap_grants = 0, ad_paced_grants = 0, ad_retry_after = Some 1000000 \<rparr>)"
  by (simp add: schedule_eval)

lemma sample_too_early:
  "schedule_request dbg rat_ops 7 0 1 100 1000000000 1 (sample_schedule [1, 2] [True, True] [0, 1] 2000000000) =
   Ok (sample_schedule [1, 2] [True, True] [1, 0] 2000000000,
     \<lparr> ad_limit = 0, ad_bootstrap_grants = 0, ad_paced_grants = 0, ad_retry_after = Some 1999999993 \<rparr>)"
  by (simp add: schedule_eval)

lemma sample_due:
  "schedule_request dbg rat_ops 2000000000 0 1 100 1000000000 1 (sample_schedule [1, 2] [True, True] [1, 0] 2000000000) =
   Ok (sample_schedule [1, 2] [True, True] [1, 0] 2000000000,
     \<lparr> ad_limit = 0, ad_bootstrap_grants = 0, ad_paced_grants = 0, ad_retry_after = Some 1000000 \<rparr>)"
  by (simp add: schedule_eval)

lemma sample_granted:
  "schedule_request dbg rat_ops 2000000001 1 2 100 1000000000 1 (sample_schedule [1, 2] [True, True] [1, 0] 2000000000) =
   Ok (sample_schedule [1, 1] [True, True] [0, 1] 4000000001,
     \<lparr> ad_limit = 1, ad_bootstrap_grants = 0, ad_paced_grants = 1, ad_retry_after = Some 2000000000 \<rparr>)"
  by (simp add: schedule_eval)


lemma sched_run_Cons:
  assumes "sched_allowed n W ev s0" "sched_exec dbg F ev s0 = Ok (s1, d)" "sched_run n W dbg F s1 tr s"
  shows "sched_run n W dbg F s0 ((s0, ev, d) # tr) s"
  using assms(3)
proof (induction rule: sched_run.induct)
  case sched_run_Nil
  show ?case using sched_run_snoc [OF sched_run.sched_run_Nil assms(1,2)] by simp
next
  case (sched_run_snoc tr s ev s' d)
  then show ?case using sched_run.sched_run_snoc by fastforce
qed

lemma sample_granted_ex:
  "\<exists>s d. schedule_request dbg rat_ops 2000000001 1 2 100 1000000000 1 (sample_schedule [1, 2] [True, True] [1, 0] 2000000000) =
     Ok (s, d) \<and> ad_paced_grants d = 1 \<and> ad_limit d = 1"
  by ((rule exI)+, rule conjI [OF sample_granted]) simp

abbreviation sample_start :: "rat admission_schedule" where
  "sample_start \<equiv> sample_schedule [2, 2] [False, False] [] 0
    \<lparr> as_bootstrap_admitted := False, as_last_capacity_work := 0, as_last_capacity_busy_ns := 0,
      as_eval_capacity_ema := None, as_outstanding_ema := None \<rparr>"

abbreviation denied :: "nat \<Rightarrow> admission_decision" where
  "denied retry \<equiv> \<lparr> ad_limit = 0, ad_bootstrap_grants = 0, ad_paced_grants = 0, ad_retry_after = Some retry \<rparr>"

lemma sample_early_run:
  "sched_run 2 2 dbg rat_ops (sample_schedule [1, 2] [True, True] [0, 1] 2000000000)
     [(sample_schedule [1, 2] [True, True] [0, 1] 2000000000, Request 7 0 1 100 1000000000 1, denied 1999999993)]
     (sample_schedule [1, 2] [True, True] [1, 0] 2000000000)"
  by (rule sched_run_Cons [OF _ _ sched_run_Nil]) (simp_all add: sample_too_early del: One_nat_def)

lemma sample_denied_run:
  "sched_run 2 2 dbg rat_ops (sample_schedule [1, 2] [True, False] [0] 2000000000)
     [(sample_schedule [1, 2] [True, False] [0] 2000000000, Request 5 1 2 100 1000000000 1, denied 1000000),
      (sample_schedule [1, 2] [True, True] [0, 1] 2000000000, Request 7 0 1 100 1000000000 1, denied 1999999993)]
     (sample_schedule [1, 2] [True, True] [1, 0] 2000000000)"
  by (rule sched_run_Cons [OF _ _ sample_early_run]) (simp_all add: sample_second_lane del: One_nat_def)

lemma sample_inv: "sched_inv 2 2 (sample_schedule [1, 2] [True, True] [0, 1] 2000000000)" "sched_inv 2 2 sample_start"
  by (auto simp: sched_inv_def queue_ok_def sample_schedule_def trim_def less_2_cases_iff)

lemma admission_queue_invariant_witness:
  "\<exists>tr s. sched_run 2 2 True rat_ops sample_start tr s \<and> tr \<noteq> [] \<and> as_waiting_order s = [1, 0] \<and>
     as_total_waiting s = sum_list (as_waiting s) \<and> distinct (as_waiting_order s)"
proof -
  let ?s = "sample_schedule [1, 2] [True, True] [1, 0] 2000000000"
  have "\<exists>tr. sched_run 2 2 True rat_ops sample_start tr ?s \<and> tr \<noteq> []"
    using sched_run_Cons [OF _ _ sample_denied_run, of "Request 0 0 2 100 1000000000 1" sample_start] sample_bootstrap by auto
  then obtain tr where run: "sched_run 2 2 True rat_ops sample_start tr ?s" "tr \<noteq> []" by blast
  have "as_total_waiting ?s = sum_list (as_waiting ?s) \<and> distinct (as_waiting_order ?s)"
    using admission_queue_invariant [OF sample_new, of True tr ?s] run(1) by (simp add: USIZE_MAX_def)
  moreover have "as_waiting_order ?s = [1, 0]" by (simp add: sample_schedule_def)
  ultimately show ?thesis using run by blast
qed

lemma sample_gap: "admission_gap rat_ops (observe_eval_capacity rat_ops 100 1000000000 1 sample_start) = Ok (Some 2000000000)"
  by (simp add: schedule_eval)

lemma admission_pacing_witness:
  "\<exists>s3 d2. schedule_request True rat_ops 2000000001 1 2 100 1000000000 1 (sample_schedule [1, 2] [True, True] [1, 0] 2000000000)
     = (Ok (s3, d2) :: (_, unit) outcome) \<and> ad_paced_grants d2 = 1 \<and> min DURATION_MAX (0 + 2000000000) \<le> 2000000001"
proof -
  have "min DURATION_MAX (0 + 2000000000) \<le> 2000000001"
    by (rule admission_pacing [OF sample_inv(2) _ _ _ _ sample_bootstrap _ sample_gap sample_denied_run _ _ _ _ sample_granted])
      (simp_all add: USIZE_MAX_def)
  then show ?thesis using sample_granted_ex [of True] by blast
qed

lemma admission_turns_witness:
  "take 1 (as_waiting_order (sample_schedule [1, 2] [True, True] [1, 0] 2000000000)) = [1] \<and>
   (\<exists>s' d. schedule_request True rat_ops 2000000001 1 2 100 1000000000 1 (sample_schedule [1, 2] [True, True] [1, 0] 2000000000)
     = (Ok (s', d) :: (_, unit) outcome) \<and> ad_limit d = 1)"
proof -
  have q: "queued_at 1 1 (sample_schedule [1, 2] [True, True] [0, 1] 2000000000)"
    by (simp add: queued_at_def sample_schedule_def ahead_def)
  have "take 1 (as_waiting_order (sample_schedule [1, 2] [True, True] [1, 0] 2000000000)) = [1]"
    using admission_turns [OF sample_inv(1) _ q sample_early_run [of True]]
    by (simp add: USIZE_MAX_def sample_schedule_def requested_def enq_def trim_def)
  then show ?thesis using sample_granted_ex [of True] by blast
qed

section \<open>The fixed-interval pacer\<close>

lemma pacer_ready_mono: "pa_next p \<le> pa_next (fst (pacer_ready now p)) \<and> pa_stagger (fst (pacer_ready now p)) = pa_stagger p"
  by (auto simp: pacer_ready_def Let_def)

lemma pacer_polls_mono:
  "pa_next p \<le> pa_next (fold (\<lambda>t p. fst (pacer_ready t p)) ts p) \<and> pa_stagger (fold (\<lambda>t p. fst (pacer_ready t p)) ts p) = pa_stagger p"
proof (induction ts arbitrary: p)
  case (Cons t ts)
  then show ?case using pacer_ready_mono [of p t] order_trans by (metis comp_apply fold_simps(2))
qed simp

lemma spread_duration_le: "index \<le> count \<Longrightarrow> spread_duration d index count \<le> d"
proof -
  assume "index \<le> count"
  then have "d * index div count \<le> d" by (metis div_le_mono div_mult_self_is_m gr0I le_zero_eq mult_0_right mult_le_mono2 div_0 zero_le)
  moreover have "min U128_MAX (d * index) div count \<le> d * index div count" by (simp add: div_le_mono)
  ultimately show ?thesis by (auto simp: spread_duration_def)
qed

text \<open>
  The fixed-interval pacer spaces a lane's admissions. After an admission at time \<open>t\<close>, however often
  the lane polls, it is not ready before \<open>t + stagger\<close>; and a lane that sleeps for the time the pacer
  tells it is ready when it wakes up, if it wakes up less than an interval late.
\<close>

theorem pacer_interval:
  assumes "pa_stagger p \<noteq> 0" "0 < admitted" "p' = fold (\<lambda>t p. fst (pacer_ready t p)) polls (pacer_record t admitted p)"
  shows "(snd (pacer_ready now p') \<longrightarrow> t + pa_stagger p \<le> now) \<and>
    (\<forall>d late. sleep_until_ready now p' = Some d \<longrightarrow> late < pa_stagger p \<longrightarrow> snd (pacer_ready (now + d + late) p'))"
proof -
  have p': "t + pa_stagger p \<le> pa_next p'" "pa_stagger p' = pa_stagger p"
    using pacer_polls_mono [of "pacer_record t admitted p" polls] assms by (simp_all add: pacer_record_def)
  show ?thesis
    using p' assms(1) by (auto simp: pacer_ready_def sleep_until_ready_def Let_def split: if_splits)
qed

theorem pacer_interval_witness:
  "\<not> snd (pacer_ready 17 (fst (pacer_ready 3 (pacer_record 10 1 (pacer_new 0 1 2 8)))))"
  using pacer_interval [of "pacer_new 0 1 2 8" 1 _ "[3]" 10 17]
  by (auto simp: pacer_new_def spread_duration_def U128_MAX_def U64_MAX_def Let_def)

section \<open>Reservations\<close>

lemma report_stats_frame: "report_stats F now sh = (sh', r) \<Longrightarrow> sh' = sh \<lparr> sh_next_stats_ms := sh_next_stats_ms sh' \<rparr>"
  by (auto simp: report_stats_def Let_def split: if_splits)

lemma shaper_request_Ok:
  assumes run: "shaper_request dbg F now lane idle sh = (sh1, Ok d)" and idle: "0 < idle"
  obtains s where "schedule_request dbg F now lane idle (ep_capacity_work (sh_pressure sh)) (ep_capacity_busy_ns (sh_pressure sh))
      (ep_outstanding (sh_pressure sh)) (sh_schedule sh) = (Ok (s, d) :: (_, engine_error) outcome)"
    "sh_schedule sh1 = s" "sh_pressure sh1 = pressure_reserve (ad_limit d) (sh_pressure sh)"
proof -
  have "\<exists>s. schedule_request dbg F now lane idle (ep_capacity_work (sh_pressure sh)) (ep_capacity_busy_ns (sh_pressure sh))
      (ep_outstanding (sh_pressure sh)) (sh_schedule sh) = (Ok (s, d) :: (_, engine_error) outcome) \<and>
    sh_schedule sh1 = s \<and> sh_pressure sh1 = pressure_reserve (ad_limit d) (sh_pressure sh)"
    using run idle by (auto simp: shaper_request_def Let_def sbind_def report_stats_def split: outcome.splits prod.splits if_splits)
  then show thesis using that by blast
qed


lemma finish_admission_Ok:
  assumes run: "finish_admission lane d admitted False sh = (sh2, Ok ())"
  obtains s where "restore_unused lane (ad_limit d - admitted) (0 < ad_bootstrap_grants d) (sh_schedule sh) = (Ok s :: (_, engine_error) outcome)"
    "sh_schedule sh2 = s" "sh_pressure sh2 = cancel_reservations (ad_limit d - admitted) (sh_pressure sh)"
proof -
  have "\<exists>s. restore_unused lane (ad_limit d - admitted) (0 < ad_bootstrap_grants d) (sh_schedule sh) = (Ok s :: (_, engine_error) outcome) \<and>
    sh_schedule sh2 = s \<and> sh_pressure sh2 = cancel_reservations (ad_limit d - admitted) (sh_pressure sh)"
    using run by (auto simp: finish_admission_def Let_def sbind_def slift_def split: outcome.splits prod.splits if_splits)
  then show thesis using that by blast
qed

lemma submits:
  assumes "k \<le> ep_reserved p" "ep_outstanding p + k < 2 ^ 64"
  shows "ep_reserved ((pressure_submit True ^^ k) p) = ep_reserved p - k \<and> ep_outstanding ((pressure_submit True ^^ k) p) = ep_outstanding p + k"
  using assms by (induction k) (auto simp: pressure_submit_def Let_def atomic_saturating_sub_def usize_fetch_add_def)

text \<open>
  C37: Grants are accounted for. A request that is granted reserves one evaluation per grant; when the lane
  reports that it admitted fewer workers, the rest of the reservation is cancelled and the workers wait
  again. After the admitted workers submit their first evaluations, nothing of the reservation is left:
  the reserved count is what it was, and the outstanding count has grown by the workers admitted.
\<close>

theorem admission_accounting:
  assumes inv: "sched_inv lanes W (sh_schedule sh)" and cap: "lanes * W \<le> USIZE_MAX"
    and lane: "lane < lanes" "0 < idle" "idle \<le> W" and req: "shaper_request dbg F now lane idle sh = (sh1, Ok d)"
    and fin: "admitted \<le> ad_limit d" "finish_admission lane d admitted False sh1 = (sh2, Ok ())"
    and room: "ep_reserved (sh_pressure sh) + 1 < 2 ^ 64" "ep_outstanding (sh_pressure sh) + 1 < 2 ^ 64"
  shows "as_waiting (sh_schedule sh2) = (as_waiting (sh_schedule sh))[lane := idle - admitted] \<and>
    ep_reserved (sh_pressure sh2) = ep_reserved (sh_pressure sh) + admitted \<and>
    ep_reserved ((pressure_submit True ^^ admitted) (sh_pressure sh2)) = ep_reserved (sh_pressure sh) \<and>
    ep_outstanding ((pressure_submit True ^^ admitted) (sh_pressure sh2)) = ep_outstanding (sh_pressure sh) + admitted"
proof -
  let ?p = "sh_pressure sh"
  obtain s where s: "schedule_request dbg F now lane idle (ep_capacity_work ?p) (ep_capacity_busy_ns ?p) (ep_outstanding ?p) (sh_schedule sh)
      = (Ok (s, d) :: (_, engine_error) outcome)" "sh_schedule sh1 = s" "sh_pressure sh1 = pressure_reserve (ad_limit d) ?p"
    by (rule shaper_request_Ok [OF req lane(2)])
  obtain gap where s': "sched_inv lanes W s" "ad_limit d = grants now gap (take 1 (requested lane idle (sh_schedule sh)) = [lane]) (sh_schedule sh)"
    "as_waiting s = (as_waiting (sh_schedule sh))[lane := idle - ad_limit d]"
    using sched_exec_request [OF inv lane(1,3) _ cap s(1)] lane(2) by (metis less_not_refl)
  have limit: "ad_limit d \<le> 1" using s'(2) by (simp add: grants_def)
  have len: "lane < length (as_waiting (sh_schedule sh))" using sched_invD(1) [OF inv] lane(1) by simp
  have wl: "as_waiting s ! lane + (ad_limit d - admitted) = idle - admitted" using s'(3) len limit fin(1) lane(2) by simp
  obtain u where u: "restore_unused lane (ad_limit d - admitted) (0 < ad_bootstrap_grants d) (sh_schedule sh1) = (Ok u :: (_, engine_error) outcome)"
    "sh_schedule sh2 = u" "sh_pressure sh2 = cancel_reservations (ad_limit d - admitted) (sh_pressure sh1)"
    by (rule finish_admission_Ok [OF fin(2)])
  have "as_waiting s ! lane + (ad_limit d - admitted) \<le> W" using wl lane(3) by simp
  from restore_spec [OF s'(1) lane(1) this cap, of "0 < ad_bootstrap_grants d"] obtain t where
    "restore_unused lane (ad_limit d - admitted) (0 < ad_bootstrap_grants d) s = (Ok t :: (_, engine_error) outcome)"
    "as_waiting t = (as_waiting s)[lane := as_waiting s ! lane + (ad_limit d - admitted)]" by blast
  then have w: "as_waiting (sh_schedule sh2) = (as_waiting (sh_schedule sh))[lane := idle - admitted]" using u s(2) wl s'(3) by simp
  have r: "ep_reserved (sh_pressure sh2) = ep_reserved ?p + admitted" "ep_outstanding (sh_pressure sh2) = ep_outstanding ?p"
    using u(3) s(3) limit fin(1) room
    by (simp_all add: cancel_reservations_def pressure_reserve_def atomic_saturating_sub_def usize_fetch_add_def)
  show ?thesis using w r submits [of admitted "sh_pressure sh2"] limit fin(1) room by simp
qed


definition sample_shaper :: "rat admission_shaper" where
  "sample_shaper = \<lparr> sh_schedule = sample_schedule [1, 2] [True, True] [1, 0] 2000000000,
     sh_pressure = \<lparr> ep_outstanding = 1, ep_reserved = 0, ep_capacity_work = 100, ep_capacity_busy_ns = 1000000000 \<rparr>,
     sh_bootstrap_grants = 1, sh_paced_grants = 0, sh_max_waiting = 4, sh_waiting_lanes = [True, True], sh_next_stats_ms = 30000 \<rparr>"

lemma sample_shaper_request:
  "shaper_request True rat_ops 2000000001 1 2 sample_shaper =
     (sample_shaper \<lparr> sh_schedule := sample_schedule [1, 1] [True, True] [0, 1] 4000000001,
        sh_pressure := pressure_reserve 1 (sh_pressure sample_shaper), sh_paced_grants := 1 \<rparr>,
      Ok \<lparr> ad_limit = 1, ad_bootstrap_grants = 0, ad_paced_grants = 1, ad_retry_after = Some 2000000000 \<rparr>)"
  by (simp add: shaper_request_def sample_shaper_def schedule_eval report_stats_def sbind_def usize_fetch_add_def)

lemma sample_finish:
  "\<exists>sh2. finish_admission 1 \<lparr> ad_limit = 1, ad_bootstrap_grants = 0, ad_paced_grants = 1, ad_retry_after = Some 2000000000 \<rparr> 0 False
     (sample_shaper \<lparr> sh_schedule := sample_schedule [1, 1] [True, True] [0, 1] 4000000001,
        sh_pressure := pressure_reserve 1 (sh_pressure sample_shaper), sh_paced_grants := 1 \<rparr>) = (sh2, Ok ())"
  by (simp add: sample_shaper_def schedule_eval sbind_def finish_admission_def slift_def restore_unused_def)

theorem admission_accounting_witness:
  "\<exists>sh1 d sh2. shaper_request True rat_ops 2000000001 1 2 sample_shaper = (sh1, Ok d) \<and>
     finish_admission 1 d 0 False sh1 = (sh2, Ok ()) \<and> as_waiting (sh_schedule sh2) = [1, 2] \<and> ep_reserved (sh_pressure sh2) = 0"
proof -
  obtain sh1 d sh2 where run: "shaper_request True rat_ops 2000000001 1 2 sample_shaper = (sh1, Ok d)"
    "finish_admission 1 d 0 False sh1 = (sh2, Ok ())" using sample_shaper_request sample_finish by blast
  have "sched_inv 2 2 (sh_schedule sample_shaper)"
    by (auto simp: sample_shaper_def sched_inv_def queue_ok_def sample_schedule_def trim_def less_2_cases_iff)
  from admission_accounting [OF this _ _ _ _ run(1) _ run(2)]
  have "as_waiting (sh_schedule sh2) = (as_waiting (sh_schedule sample_shaper))[1 := 2] \<and> ep_reserved (sh_pressure sh2) = ep_reserved (sh_pressure sample_shaper)"
    by (simp add: USIZE_MAX_def sample_shaper_def)
  then have "as_waiting (sh_schedule sh2) = [1, 2] \<and> ep_reserved (sh_pressure sh2) = 0" by (simp add: sample_shaper_def sample_schedule_def)
  then show ?thesis using run by blast
qed

end
