(* ===== verification/Measure_Protocol.thy ===== *)
theory Measure_Protocol
  imports Whittle_Arena Model_Leases
begin

text \<open>
  The vocabulary of the measurement service \<open>crates/gz-measure-service\<close>: its errors (\<open>error.rs\<close>), its
  identifiers (\<open>ids.rs\<close>), the submissions and the hashes that name them (\<open>protocol.rs\<close>), and the
  messages of the wire protocol. The message types are generated from \<open>proto/measure.proto\<close>; their
  fields are given here with the types the generated code has (an enumeration is an \<open>i32\<close>). A
  \<open>double\<close> is its bit pattern. Byte strings, hashes and identifiers are lists of bytes; text is the
  list of its UTF-8 bytes.
\<close>

type_synonym bytes = "u8 list"

section \<open>Errors\<close>

datatype service_error =
    Configuration string | Capacity string | Authentication string | Protocol string | Transport string
  | Timeout string | RemoteFailure u32 string | IoError string | Closed

definition MAX_ERROR_BYTES :: nat where
  "MAX_ERROR_BYTES = 512"

text \<open>The length in bytes of a character, from its first byte in UTF-8.\<close>

definition len_utf8 :: "char \<Rightarrow> nat" where
  "len_utf8 c = (let b = of_char c :: nat in if b < 192 then 1 else if b < 224 then 2 else if b < 240 then 3 else 4)"

lemma len_utf8_pos [simp]: "0 < len_utf8 c"
  by (simp add: len_utf8_def Let_def)

function bound_end :: "string \<Rightarrow> nat \<Rightarrow> nat" where
  "bound_end [] end_index = end_index"
| "bound_end (c # cs) end_index =
     (let following = end_index + len_utf8 c in
      if MAX_ERROR_BYTES < following then end_index else bound_end (drop (len_utf8 c - 1) cs) following)"
  by pat_completeness auto
termination by (relation "measure (\<lambda>(m, e). length m)") auto

definition bound_message :: "string \<Rightarrow> string" where
  "bound_message message = (if length message \<le> MAX_ERROR_BYTES then message else take (bound_end message 0) message)"

definition configuration :: "string \<Rightarrow> service_error" where
  "configuration message = Configuration (bound_message message)"

definition capacity_error :: "string \<Rightarrow> service_error" where
  "capacity_error message = Capacity (bound_message message)"

definition authentication :: "string \<Rightarrow> service_error" where
  "authentication message = Authentication (bound_message message)"

definition protocol_error :: "string \<Rightarrow> service_error" where
  "protocol_error message = Protocol (bound_message message)"

definition io_error :: "string \<Rightarrow> service_error" where
  "io_error message = IoError (bound_message message)"

lemma bound_end_le: "e \<le> MAX_ERROR_BYTES \<Longrightarrow> bound_end m e \<le> MAX_ERROR_BYTES"
  by (induction m e rule: bound_end.induct) (auto simp: Let_def)

lemma bound_message_le: "length (bound_message m) \<le> MAX_ERROR_BYTES"
  using bound_end_le [of 0 m] by (auto simp: bound_message_def)

section \<open>Identifiers\<close>

text \<open>
  \<open>define_id!\<close> defines nine types of fixed-length byte arrays; here they are byte lists, and
  \<open>from_slice\<close> is the only way bytes of a message become one.
\<close>

definition from_slice :: "string \<Rightarrow> nat \<Rightarrow> bytes \<Rightarrow> (bytes, service_error) outcome" where
  "from_slice name len bytes =
     (if length bytes = len then Ok bytes
      else Err (protocol_error (name @ '' must be '' @ show_nat len @ '' bytes, got '' @ show_nat (length bytes))))"

abbreviation device_id_from_slice where "device_id_from_slice \<equiv> from_slice ''DeviceId'' 16"
abbreviation session_id_from_slice where "session_id_from_slice \<equiv> from_slice ''SessionId'' 16"
abbreviation lease_id_from_slice where "lease_id_from_slice \<equiv> from_slice ''LeaseId'' 16"
abbreviation artifact_digest_from_slice where "artifact_digest_from_slice \<equiv> from_slice ''ArtifactDigest'' 32"
abbreviation job_id_from_slice where "job_id_from_slice \<equiv> from_slice ''JobId'' 32"

lemma from_slice_Ok [simp]: "from_slice name len bytes = Ok x \<longleftrightarrow> length bytes = len \<and> x = bytes"
  by (auto simp: from_slice_def)

lemma from_slice_ok [simp]: "length bytes = len \<Longrightarrow> from_slice name len bytes = Ok bytes"
  by simp

lemma from_slice_not_Panic [simp]: "from_slice name len bytes \<noteq> Panic"
  by (simp add: from_slice_def)

section \<open>Submissions\<close>

record engine_identity =
  ei_engine_id :: digest
  ei_engine_version :: digest
  ei_action_set_hash :: digest

datatype graph_artifact_format = TextFormat | JsonFormat | DotFormat | BinaryFormat | AdapterSpecific u32

record graph_artifact =
  ga_graph_hash :: digest
  ga_format :: graph_artifact_format
  ga_bytes :: bytes

record encoded_measure_config =
  mc_encoding :: u32
  mc_payload :: bytes

datatype measure_submission_kind = Single | SymmetricPair

primrec kind_wire :: "measure_submission_kind \<Rightarrow> int" where
  "kind_wire Single = 1"
| "kind_wire SymmetricPair = 2"

primrec subject_count :: "measure_submission_kind \<Rightarrow> nat" where
  "subject_count Single = 1"
| "subject_count SymmetricPair = 2"

record measure_submission =
  ms_kind :: measure_submission_kind
  ms_engine :: engine_identity
  ms_subjects :: "graph_artifact list"
  ms_options :: measure_options
  ms_measure_config :: encoded_measure_config
  ms_target_device_profile_hash :: digest

record artifact_desc =
  desc_digest :: digest
  desc_size :: u64
  desc_format_kind :: int
  desc_adapter_format_id :: u32

primrec artifact_format :: "graph_artifact_format \<Rightarrow> int \<times> u32" where
  "artifact_format TextFormat = (1, 0)"
| "artifact_format JsonFormat = (2, 0)"
| "artifact_format DotFormat = (3, 0)"
| "artifact_format BinaryFormat = (4, 0)"
| "artifact_format (AdapterSpecific i) = (5, i)"

text \<open>\<open>blake3\<close> is a parameter; the streaming hasher hashes the concatenation of its updates.\<close>

definition ascii :: "string \<Rightarrow> bytes" where
  "ascii = map of_char"

definition artifact_descriptor :: "(bytes \<Rightarrow> digest) \<Rightarrow> graph_artifact \<Rightarrow> (artifact_desc, service_error) outcome" where
  "artifact_descriptor blake3 artifact =
     (let (format_kind, adapter_format_id) = artifact_format (ga_format artifact) in
      if 2 ^ 64 \<le> length (ga_bytes artifact) then Err (capacity_error ''artifact length does not fit u64'')
      else Ok \<lparr> desc_digest = blake3 (ascii ''gz-graph-artifact-v1'' @ [0] @ u32_to_le (of_int format_kind) @
                  u32_to_le adapter_format_id @ ga_bytes artifact),
                desc_size = of_nat (length (ga_bytes artifact)), desc_format_kind = format_kind,
                desc_adapter_format_id = adapter_format_id \<rparr>)"

definition measurement_key :: "(bytes \<Rightarrow> digest) \<Rightarrow> measure_submission \<Rightarrow> artifact_desc list \<Rightarrow> digest" where
  "measurement_key blake3 submission descriptors =
     blake3 (ascii ''gz-measure-key-v1'' @ [0] @ u32_to_le (of_int (kind_wire (ms_kind submission))) @
       ei_engine_id (ms_engine submission) @ ei_engine_version (ms_engine submission) @ ei_action_set_hash (ms_engine submission) @
       mo_config_hash (ms_options submission) @ ms_target_device_profile_hash submission @
       u32_to_le (of_nat (length (ms_subjects submission))) @
       concat (map (\<lambda>(logical_index, subject, descriptor).
           u32_to_le (of_nat logical_index) @ ga_graph_hash subject @ u32_to_le (of_int (desc_format_kind descriptor)) @
           u32_to_le (desc_adapter_format_id descriptor) @ desc_digest descriptor @ u64_to_le (desc_size descriptor))
         (zip [0..<length (ms_subjects submission)] (zip (ms_subjects submission) descriptors))))"

definition job_id_of :: "(bytes \<Rightarrow> digest) \<Rightarrow> digest \<Rightarrow> bytes \<Rightarrow> digest" where
  "job_id_of blake3 key nonce = blake3 (ascii ''gz-measure-job-v1'' @ [0] @ key @ nonce)"

section \<open>Wire messages\<close>

record wire_engine_identity =
  we_engine_id :: bytes
  we_engine_version :: bytes
  we_action_set_hash :: bytes

definition engine_identity_to_wire :: "engine_identity \<Rightarrow> wire_engine_identity" where
  "engine_identity_to_wire identity =
     \<lparr> we_engine_id = ei_engine_id identity, we_engine_version = ei_engine_version identity,
       we_action_set_hash = ei_action_set_hash identity \<rparr>"

definition fixed_bytes :: "nat \<Rightarrow> string \<Rightarrow> bytes \<Rightarrow> (bytes, service_error) outcome" where
  "fixed_bytes n name bytes =
     (if length bytes = n then Ok bytes
      else Err (protocol_error (name @ '' must be '' @ show_nat n @ '' bytes, got '' @ show_nat (length bytes))))"

definition engine_identity_from_wire :: "wire_engine_identity \<Rightarrow> (engine_identity, service_error) outcome" where
  "engine_identity_from_wire identity =
     obind (fixed_bytes 32 ''engine_id'' (we_engine_id identity)) (\<lambda>engine_id.
     obind (fixed_bytes 32 ''engine_version'' (we_engine_version identity)) (\<lambda>engine_version.
     obind (fixed_bytes 32 ''action_set_hash'' (we_action_set_hash identity)) (\<lambda>action_set_hash.
     Ok \<lparr> ei_engine_id = engine_id, ei_engine_version = engine_version, ei_action_set_hash = action_set_hash \<rparr>)))"

record artifact_format_capability =
  af_format_kind :: int
  af_adapter_format_id :: u32

record engine_capability =
  cap_engine :: "wire_engine_identity option"
  cap_artifact_formats :: "artifact_format_capability list"
  cap_measure_config_encodings :: "u32 list"
  cap_measurement_protocol_versions :: "u32 list"

record device_profile =
  dp_platform_family :: string
  dp_board_model :: string
  dp_soc :: string
  dp_gpu_architecture :: string
  dp_usable_memory_bytes :: u64
  dp_operating_system_image_digest :: bytes
  dp_platform_release :: string
  dp_cuda_version :: string
  dp_gpu_driver_version :: string
  dp_compiler_version :: string
  dp_compiler_runtime_version :: string
  dp_agent_image_digest :: bytes
  dp_power_profile :: string
  dp_clock_policy :: string
  dp_cooling_policy :: string
  dp_measurement_protocol_version :: u32

definition device_profile_hash :: "(bytes \<Rightarrow> digest) \<Rightarrow> (device_profile \<Rightarrow> bytes) \<Rightarrow> device_profile \<Rightarrow> digest" where
  "device_profile_hash blake3 encode profile = blake3 (ascii ''gz-device-profile-v1'' @ [0] @ encode profile)"

text \<open>A report of a measurement. The device readings inside a telemetry sample are left out: the service only counts the samples.\<close>

record subject_measurement =
  sm_logical_index :: u32
  sm_graph_hash :: bytes
  sm_compile_elapsed_ns :: "u64 option"
  sm_capture_elapsed_ns :: "u64 option"
  sm_scalar_reward :: "u64 option"
  sm_engine_metadata :: bytes

record measurement_sample =
  sa_schedule_index :: u32
  sa_logical_index :: u32
  sa_subject_sample_index :: u32
  sa_gpu_elapsed_ns :: u64
  sa_end_to_end_elapsed_ns :: u64

record failure_detail =
  fd_engine_error_code :: u32
  fd_bounded_message :: string
  fd_agent_considers_retriable :: bool

record telemetry_sample =
  ts_attempt_elapsed_ms :: u64
  ts_phase :: int

record measure_report =
  rp_origin_session_id :: bytes
  rp_device_id :: bytes
  rp_device_profile_hash :: bytes
  rp_job_id :: bytes
  rp_measurement_key :: bytes
  rp_request_nonce :: bytes
  rp_lease_id :: bytes
  rp_engine :: "wire_engine_identity option"
  rp_measure_config_hash :: bytes
  rp_kind :: int
  rp_outcome :: int
  rp_subjects :: "subject_measurement list"
  rp_samples :: "measurement_sample list"
  rp_telemetry :: "telemetry_sample list"
  rp_failure :: "failure_detail option"

text \<open>The message with every field at its default, which is what the empty byte string encodes.\<close>

definition default_report :: measure_report where
  "default_report = \<lparr> rp_origin_session_id = [], rp_device_id = [], rp_device_profile_hash = [], rp_job_id = [],
     rp_measurement_key = [], rp_request_nonce = [], rp_lease_id = [], rp_engine = None, rp_measure_config_hash = [],
     rp_kind = 0, rp_outcome = 0, rp_subjects = [], rp_samples = [], rp_telemetry = [], rp_failure = None \<rparr>"

text \<open>\<open>f64::is_finite\<close>: the exponent is not all ones.\<close>

definition f64_is_finite :: "u64 \<Rightarrow> bool" where
  "f64_is_finite b \<longleftrightarrow> drop_bit 52 b AND 2047 \<noteq> 2047"

end
