(* ===== verification/Measure_Receipts.thy ===== *)
theory Measure_Receipts
  imports Measure_Protocol "HOL-Library.AList"
begin

text \<open>
  The receipt ledger of the measurement service, \<open>crates/gz-measure-service/src/receipt.rs\<close>: the digests
  of the committed reports by job, in memory or backed by an append-only log of length-prefixed
  encoded reports. The encoder and the decoder of the report message are generated code and are
  parameters, as is \<open>blake3\<close>. The log file is its bytes. Of the failures of the file system, the
  model has the one that changes the file: an append that fails after some of its bytes were
  written. A \<open>HashMap\<close> is an association list with distinct keys.
\<close>

section \<open>The ledger\<close>

definition MAX_RECORD_BYTES :: nat where
  "MAX_RECORD_BYTES = 16 * 1024 * 1024"

datatype receipt_ledger_config = MemoryConfig nat | DirectoryConfig string

datatype receipt_ledger = MemoryLedger nat "(digest \<times> digest) list" | FileLedger bytes "(digest \<times> digest) list"

datatype receipt_state = Missing | Identical | Conflict

record report_codec =
  rc_blake3 :: "bytes \<Rightarrow> digest"
  rc_encode :: "measure_report \<Rightarrow> bytes"
  rc_decode :: "bytes \<Rightarrow> (measure_report, string) outcome"

definition receipt_config_validate :: "receipt_ledger_config \<Rightarrow> (unit, service_error) outcome" where
  "receipt_config_validate c =
     (case c of
        MemoryConfig capacity \<Rightarrow> if capacity = 0 then Err (configuration ''receipt ledger capacity must be greater than zero'') else Ok ()
      | DirectoryConfig path \<Rightarrow> if path = [] then Err (configuration ''receipt ledger directory is empty'') else Ok ())"

primrec ledger_receipts :: "receipt_ledger \<Rightarrow> (digest \<times> digest) list" where
  "ledger_receipts (MemoryLedger capacity receipts) = receipts"
| "ledger_receipts (FileLedger file receipts) = receipts"

definition report_digest :: "report_codec \<Rightarrow> measure_report \<Rightarrow> digest" where
  "report_digest C report = rc_blake3 C (rc_encode C report)"

primrec can_admit :: "nat \<Rightarrow> receipt_ledger \<Rightarrow> bool" where
  "can_admit active_jobs (MemoryLedger capacity receipts) \<longleftrightarrow>
     active_jobs + length receipts \<le> USIZE_MAX \<and> active_jobs + length receipts < capacity"
| "can_admit active_jobs (FileLedger file receipts) \<longleftrightarrow> True"

definition ledger_len :: "receipt_ledger \<Rightarrow> nat" where
  "ledger_len l = length (ledger_receipts l)"

definition receipt_state_of :: "report_codec \<Rightarrow> digest \<Rightarrow> measure_report \<Rightarrow> receipt_ledger \<Rightarrow> receipt_state" where
  "receipt_state_of C job report l =
     (case map_of (ledger_receipts l) job of
        None \<Rightarrow> Missing
      | Some expected \<Rightarrow> if expected = report_digest C report then Identical else Conflict)"

definition ledger_contains :: "digest \<Rightarrow> receipt_ledger \<Rightarrow> bool" where
  "ledger_contains job l \<longleftrightarrow> map_of (ledger_receipts l) job \<noteq> None"

text \<open>
  The two writes and the sync of one record. \<open>None\<close>: they succeed. \<open>Some (k, message)\<close>: \<open>k\<close> bytes
  reached the file and an error was returned.
\<close>

definition append_record :: "(nat \<times> string) option \<Rightarrow> bytes \<Rightarrow> bytes \<Rightarrow> bytes \<times> (unit, service_error) outcome" where
  "append_record fault record file =
     (case fault of
        None \<Rightarrow> (file @ record, Ok ())
      | Some (k, message) \<Rightarrow> (file @ take k record, Err (io_error message)))"

definition record_bytes :: "bytes \<Rightarrow> bytes" where
  "record_bytes encoded = u32_to_le (of_nat (length encoded)) @ encoded"

fun ledger_commit ::
    "report_codec \<Rightarrow> (nat \<times> string) option \<Rightarrow> digest \<Rightarrow> measure_report \<Rightarrow> receipt_ledger \<Rightarrow> receipt_ledger \<times> (receipt_state, service_error) outcome"
where
  "ledger_commit C fault job report (MemoryLedger capacity receipts) =
     (case map_of receipts job of
        Some existing \<Rightarrow> (MemoryLedger capacity receipts, Ok (if existing = report_digest C report then Identical else Conflict))
      | None \<Rightarrow>
          if capacity \<le> length receipts then (MemoryLedger capacity receipts, Err (capacity_error ''coordinator receipt ledger is full''))
          else (MemoryLedger capacity (AList.update job (report_digest C report) receipts), Ok Missing))"
| "ledger_commit C fault job report (FileLedger file receipts) =
     (case map_of receipts job of
        Some existing \<Rightarrow> (FileLedger file receipts, Ok (if existing = report_digest C report then Identical else Conflict))
      | None \<Rightarrow>
          let encoded = rc_encode C report in
          if MAX_RECORD_BYTES < length encoded then (FileLedger file receipts, Err (capacity_error ''receipt record is too large''))
          else if 2 ^ 32 \<le> length encoded then (FileLedger file receipts, Err (capacity_error ''receipt record is too large''))
          else case append_record fault (record_bytes encoded) file of
                 (file, Ok _) \<Rightarrow> (FileLedger file (AList.update job (report_digest C report) receipts), Ok Missing)
               | (file, Err e) \<Rightarrow> (FileLedger file receipts, Err e)
               | (file, Panic) \<Rightarrow> (FileLedger file receipts, Panic))"

text \<open>The loop of \<open>read_receipts\<close> from the current position in the file; a short read ends it.\<close>

function read_loop ::
    "report_codec \<Rightarrow> bytes \<Rightarrow> (digest \<times> digest) list \<Rightarrow> nat \<Rightarrow> ((digest \<times> digest) list \<times> nat, service_error) outcome"
where
  "read_loop C (a # b # c # d # rest) receipts valid_bytes =
     (let len = unat (u32_of_le a b c d) in
      if len = 0 \<or> MAX_RECORD_BYTES < len then Err (protocol_error ''receipt ledger contains an invalid record length'')
      else if length rest < len then Ok (receipts, valid_bytes)
      else
        let encoded = take len rest in
        obind (map_err protocol_error (rc_decode C encoded)) (\<lambda>report.
        obind (job_id_from_slice (rp_job_id report)) (\<lambda>job.
        let hash = rc_blake3 C encoded in
        if map_of receipts job \<noteq> None \<and> map_of receipts job \<noteq> Some hash
        then Err (protocol_error ''receipt ledger contains conflicting reports for one job'')
        else if 2 ^ 64 \<le> valid_bytes + 4 + len then Err (capacity_error ''receipt ledger offset overflow'')
        else read_loop C (drop len rest) (AList.update job hash receipts) (valid_bytes + 4 + len))))"
| "read_loop C [] receipts valid_bytes = Ok (receipts, valid_bytes)"
| "read_loop C [a] receipts valid_bytes = Ok (receipts, valid_bytes)"
| "read_loop C [a, b] receipts valid_bytes = Ok (receipts, valid_bytes)"
| "read_loop C [a, b, c] receipts valid_bytes = Ok (receipts, valid_bytes)"
  by pat_completeness auto
termination by (relation "measure (\<lambda>(C, file, r, v). length file)") auto

definition read_receipts :: "report_codec \<Rightarrow> bytes \<Rightarrow> ((digest \<times> digest) list \<times> nat, service_error) outcome" where
  "read_receipts C file = read_loop C file [] 0"

definition open_file_ledger :: "report_codec \<Rightarrow> bytes \<Rightarrow> (receipt_ledger, service_error) outcome" where
  "open_file_ledger C file =
     obind (read_receipts C file) (\<lambda>(receipts, valid_bytes).
       Ok (FileLedger (if valid_bytes \<noteq> length file then take valid_bytes file else file) receipts))"

text \<open>Opening a directory finds the bytes \<open>stored\<close> in its log, none if it is new.\<close>

definition ledger_open :: "report_codec \<Rightarrow> bytes \<Rightarrow> receipt_ledger_config \<Rightarrow> (receipt_ledger, service_error) outcome" where
  "ledger_open C stored config =
     (case config of
        MemoryConfig capacity \<Rightarrow> Ok (MemoryLedger capacity [])
      | DirectoryConfig path \<Rightarrow> open_file_ledger C stored)"

section \<open>Reading back what was written\<close>

definition commit_all :: "report_codec \<Rightarrow> measure_report list \<Rightarrow> receipt_ledger" where
  "commit_all C rs = fold (\<lambda>r l. fst (ledger_commit C None (rp_job_id r) r l)) rs (FileLedger [] [])"

primrec ledger_file :: "receipt_ledger \<Rightarrow> bytes" where
  "ledger_file (MemoryLedger capacity receipts) = []"
| "ledger_file (FileLedger file receipts) = file"

lemma unat_u32_of_le: "unat (u32_of_le a b c d) = unat a + 2 ^ 8 * unat b + 2 ^ 16 * unat c + 2 ^ 24 * unat d"
proof -
  have bounds: "unat a < 2 ^ 8" "unat b < 2 ^ 8" "unat c < 2 ^ 8" "unat d < 2 ^ 8"
    using unsigned_less [of a] unsigned_less [of b] unsigned_less [of c] unsigned_less [of d] by simp_all
  have "u32_of_le a b c d = ucast a + push_bit 8 (ucast b) + push_bit 16 (ucast c) + push_bit 24 (ucast d)"
  proof -
    have high: "n < 8" if "bit (x :: u8) n" for x n using that bit_imp_le_length [of x n] by simp
    have 1: "(push_bit 16 (ucast c) OR push_bit 24 (ucast d) :: u32) = push_bit 16 (ucast c) + push_bit 24 (ucast d)"
      by (rule disjunctive_add [symmetric]) (auto simp: bit_simps dest!: high)
    have 2: "(push_bit 8 (ucast b) OR push_bit 16 (ucast c) OR push_bit 24 (ucast d) :: u32) =
        push_bit 8 (ucast b) + (push_bit 16 (ucast c) OR push_bit 24 (ucast d))"
      by (rule disjunctive_add [symmetric]) (auto simp: bit_simps dest!: high)
    have 3: "u32_of_le a b c d = ucast a + (push_bit 8 (ucast b) OR push_bit 16 (ucast c) OR push_bit 24 (ucast d))"
      unfolding u32_of_le_def by (rule disjunctive_add [symmetric]) (auto simp: bit_simps dest!: high)
    show ?thesis unfolding 3 unfolding 2 unfolding 1 by (simp add: add.assoc)
  qed
  also have "\<dots> = of_nat (unat a + 2 ^ 8 * unat b + 2 ^ 16 * unat c + 2 ^ 24 * unat d)"
    by (simp add: push_bit_eq_mult)
  finally show ?thesis using bounds by (simp add: unsigned_of_nat take_bit_nat_eq_self del: of_nat_add of_nat_mult)
qed

lemma record_bytes_length [simp]: "length (record_bytes encoded) = 4 + length encoded"
  by (simp add: record_bytes_def)

lemma MAX_RECORD_u32: "MAX_RECORD_BYTES < 2 ^ 32"
  by (simp add: MAX_RECORD_BYTES_def)

lemma record_bytes_shape:
  assumes "length encoded \<le> MAX_RECORD_BYTES"
  obtains a b c d where "record_bytes encoded = a # b # c # d # encoded" "unat (u32_of_le a b c d) = length encoded"
proof -
  let ?w = "of_nat (length encoded) :: u32"
  have "unat ?w = length encoded" using assms MAX_RECORD_u32 by (simp add: unsigned_of_nat take_bit_nat_eq_self)
  then show thesis using that unfolding record_bytes_def u32_to_le_def by simp
qed

lemma read_loop_record:
  assumes "length encoded \<le> MAX_RECORD_BYTES" "encoded \<noteq> []" "rc_decode C encoded = Ok report" "length (rp_job_id report) = 32"
    "map_of receipts (rp_job_id report) = None" "valid + 4 + length encoded < 2 ^ 64"
  shows "read_loop C (record_bytes encoded @ rest) receipts valid =
    read_loop C rest (AList.update (rp_job_id report) (rc_blake3 C encoded) receipts) (valid + 4 + length encoded)"
proof -
  obtain a b c d where "record_bytes encoded = a # b # c # d # encoded" "unat (u32_of_le a b c d) = length encoded"
    by (rule record_bytes_shape [OF assms(1)])
  then show ?thesis using assms by (simp add: Let_def)
qed

lemma read_loop_torn:
  assumes "length encoded \<le> MAX_RECORD_BYTES" "encoded \<noteq> []" "k < length (record_bytes encoded)"
  shows "read_loop C (take k (record_bytes encoded)) receipts valid = Ok (receipts, valid)"
proof -
  obtain a b c d where r: "record_bytes encoded = a # b # c # d # encoded" "unat (u32_of_le a b c d) = length encoded"
    by (rule record_bytes_shape [OF assms(1)])
  have "k < 4 \<or> (\<exists>m. k = 4 + m \<and> m < length encoded)" using assms(3) nat_le_iff_add [of 4 k] by auto
  then consider "k = 0" | "k = 1" | "k = 2" | "k = 3" | m where "k = 4 + m" "m < length encoded" by fastforce
  then show ?thesis using r assms(1,2) by cases (simp_all add: numeral_eq_Suc)
qed

text \<open>What has been read so far can be continued: the log is a sequence of whole records.\<close>

definition resumes :: "report_codec \<Rightarrow> bytes \<Rightarrow> (digest \<times> digest) list \<Rightarrow> bool" where
  "resumes C file receipts \<longleftrightarrow> (\<forall>rest. read_loop C (file @ rest) [] 0 = read_loop C rest receipts (length file))"

lemma commit_cases:
  assumes dec: "rc_decode C (rc_encode C r) = Ok r" "rc_decode C [] = Ok default_report" and job: "length (rp_job_id r) = 32"
    and res: "resumes C file receipts"
  obtains "fst (ledger_commit C None (rp_job_id r) r (FileLedger file receipts)) = FileLedger file receipts"
  | "fst (ledger_commit C None (rp_job_id r) r (FileLedger file receipts)) =
       FileLedger (file @ record_bytes (rc_encode C r)) (AList.update (rp_job_id r) (report_digest C r) receipts)"
    "length (rc_encode C r) \<le> MAX_RECORD_BYTES" "rc_encode C r \<noteq> []"
    "length file + length (record_bytes (rc_encode C r)) < 2 ^ 64 \<Longrightarrow>
       resumes C (file @ record_bytes (rc_encode C r)) (AList.update (rp_job_id r) (report_digest C r) receipts)"
proof (cases "map_of receipts (rp_job_id r) = None \<and> length (rc_encode C r) \<le> MAX_RECORD_BYTES")
  case True
  have ne: "rc_encode C r \<noteq> []" using dec job by (auto simp: default_report_def)
  have step: "read_loop C (record_bytes (rc_encode C r) @ rest) receipts (length file) =
      read_loop C rest (AList.update (rp_job_id r) (report_digest C r) receipts) (length file + length (record_bytes (rc_encode C r)))"
    if "length file + length (record_bytes (rc_encode C r)) < 2 ^ 64" for rest
    using read_loop_record [of "rc_encode C r" C r receipts "length file" rest] True ne dec(1) job that
    by (simp add: report_digest_def add.assoc)
  show ?thesis
    using that(2) True ne step res MAX_RECORD_u32 by (auto simp: Let_def append_record_def resumes_def)
next
  case False
  then show ?thesis using that(1) by (auto simp: Let_def split: option.splits)
qed

lemma commit_all_snoc: "commit_all C (rs @ [r]) = fst (ledger_commit C None (rp_job_id r) r (commit_all C rs))"
  by (simp add: commit_all_def)

lemma commit_all_resumes:
  assumes dec: "rc_decode C [] = Ok default_report"
  shows "\<forall>r \<in> set rs. length (rp_job_id r) = 32 \<and> rc_decode C (rc_encode C r) = Ok r \<Longrightarrow> length (ledger_file (commit_all C rs)) < 2 ^ 64 \<Longrightarrow>
    \<exists>file receipts. commit_all C rs = FileLedger file receipts \<and> resumes C file receipts"
proof (induction rs rule: rev_induct)
  case Nil
  then show ?case by (simp add: commit_all_def resumes_def)
next
  case (snoc r rs)
  have mono: "length (ledger_file l) \<le> length (ledger_file (fst (ledger_commit C None j r l)))" for l j
    by (cases l) (auto simp: Let_def append_record_def split: option.splits)
  have "length (ledger_file (commit_all C rs)) < 2 ^ 64"
    using snoc.prems(2) mono [of "commit_all C rs" "rp_job_id r"] by (simp add: commit_all_snoc)
  then obtain f receipts where l: "commit_all C rs = FileLedger f receipts" "resumes C f receipts" using snoc by auto
  have job: "length (rp_job_id r) = 32" "rc_decode C (rc_encode C r) = Ok r" using snoc.prems(1) by simp_all
  show ?case
    by (rule commit_cases [OF job(2) dec job(1) l(2)]) (use snoc.prems(2) l in \<open>auto simp: commit_all_snoc\<close>)
qed

lemma commit_all_mono:
  assumes "i \<le> k" "k \<le> length rs"
  shows "\<exists>t. ledger_file (commit_all C (take k rs)) = ledger_file (commit_all C (take i rs)) @ t"
  using assms
proof (induction k)
  case (Suc k)
  have step: "\<exists>t. ledger_file (fst (ledger_commit C None j r l)) = ledger_file l @ t" for j r l
    by (cases l) (auto simp: Let_def append_record_def split: option.splits)
  show ?case
  proof (cases "i = Suc k")
    case False
    then obtain t where "ledger_file (commit_all C (take k rs)) = ledger_file (commit_all C (take i rs)) @ t" using Suc by auto
    moreover have "take (Suc k) rs = take k rs @ [rs ! k]" using Suc.prems(2) by (simp add: take_Suc_conv_app_nth)
    ultimately show ?thesis using step [of "rp_job_id (rs ! k)" "rs ! k" "commit_all C (take k rs)"] by (auto simp: commit_all_snoc)
  qed simp
qed simp

lemma open_resumes:
  assumes "resumes C f receipts" "read_loop C rest receipts (length f) = Ok (receipts, length f)"
  shows "open_file_ledger C (f @ rest) = Ok (FileLedger f receipts)"
  using assms unfolding open_file_ledger_def read_receipts_def resumes_def by auto

text \<open>
  C8: The receipt log survives a crash. Take any sequence of reports committed to a new log, and cut the
  log off after any number of bytes. Opening what is left succeeds and gives exactly the ledger, file
  and receipts, that was there after the first \<open>k\<close> reports, where \<open>k\<close> covers every report whose
  record is within the bytes that are left. It is required of the message encoding that decoding
  inverts it on these reports and that the empty string decodes to the default message.
\<close>

theorem receipts_crash_recovery:
  assumes dec: "rc_decode C [] = Ok default_report"
    and jobs: "\<forall>r \<in> set rs. length (rp_job_id r) = 32 \<and> rc_decode C (rc_encode C r) = Ok r" and size: "length (ledger_file (commit_all C rs)) < 2 ^ 64"
  shows "\<exists>k \<le> length rs. open_file_ledger C (take n (ledger_file (commit_all C rs))) = Ok (commit_all C (take k rs)) \<and>
    (\<forall>m \<le> length rs. length (ledger_file (commit_all C (take m rs))) \<le> n \<longrightarrow> m \<le> k)"
proof -
  let ?L = "\<lambda>k. commit_all C (take k rs)"
  let ?F = "\<lambda>k. ledger_file (?L k)"
  let ?K = "Max {k. k \<le> length rs \<and> length (?F k) \<le> n}"
  have fin: "finite {k. k \<le> length rs \<and> length (?F k) \<le> n}" by simp
  have "0 \<in> {k. k \<le> length rs \<and> length (?F k) \<le> n}" by (simp add: commit_all_def)
  then have "?K \<in> {k. k \<le> length rs \<and> length (?F k) \<le> n}" by (intro Max_in [OF fin]) blast
  then have K: "?K \<le> length rs" "length (?F ?K) \<le> n" by simp_all
  have top: "m \<le> ?K" if "m \<le> length rs" "length (?F m) \<le> n" for m using Max_ge [OF fin] that by simp
  have "length (?F ?K) < 2 ^ 64" using commit_all_mono [OF K(1) order_refl, of C] size by auto
  moreover have "\<forall>r \<in> set (take ?K rs). length (rp_job_id r) = 32 \<and> rc_decode C (rc_encode C r) = Ok r" using jobs in_set_takeD by fast
  ultimately obtain f receipts where l: "?L ?K = FileLedger f receipts" "resumes C f receipts"
    using commit_all_resumes [OF dec, of "take ?K rs"] by blast
  have "open_file_ledger C (take n (ledger_file (commit_all C rs))) = Ok (?L ?K)"
  proof (cases "?K = length rs")
    case True
    then have "take n (ledger_file (commit_all C rs)) = f @ []" using l(1) K(2) by simp
    then show ?thesis using open_resumes [OF l(2), of "[]"] l(1) by simp
  next
    case False
    then have lt: "?K < length rs" using K(1) by simp
    let ?r = "rs ! ?K"
    have next_ledger: "?L (Suc ?K) = fst (ledger_commit C None (rp_job_id ?r) ?r (FileLedger f receipts))"
      using l(1) by (simp add: take_Suc_conv_app_nth [OF lt] commit_all_snoc)
    have long: "n < length (?F (Suc ?K))" using top [of "Suc ?K"] lt by fastforce
    have job: "length (rp_job_id ?r) = 32" "rc_decode C (rc_encode C ?r) = Ok ?r" using jobs lt by simp_all
    obtain enc where enc: "?F (Suc ?K) = f @ record_bytes enc" "length enc \<le> MAX_RECORD_BYTES" "enc \<noteq> []"
      by (rule commit_cases [OF job(2) dec job(1) l(2)]) (use long K(2) l(1) next_ledger in auto)
    obtain t where "ledger_file (commit_all C rs) = ?F (Suc ?K) @ t" using commit_all_mono [of "Suc ?K" "length rs" rs C] lt by auto
    then have "take n (ledger_file (commit_all C rs)) = f @ take (n - length f) (record_bytes enc)" using enc(1) long K(2) l(1) by simp
    moreover have "n - length f < length (record_bytes enc)" using long enc(1) K(2) l(1) by auto
    ultimately show ?thesis using open_resumes [OF l(2) read_loop_torn [OF enc(2,3), of "n - length f" C receipts "length f"]] l(1) by simp
  qed
  then show ?thesis using K(1) top by blast
qed

text \<open>
  A failed append is not repaired: what it wrote stays in the log, and the next commit appends behind it. What the
  next opening makes of it depends on where the record was torn.
\<close>

lemma commits_append: "\<exists>t. ledger_file (fold (\<lambda>r l. fst (ledger_commit C None (rp_job_id r) r l)) rs l) = ledger_file l @ t"
proof (induction rs arbitrary: l)
  case (Cons r rs)
  have "\<exists>t. ledger_file (fst (ledger_commit C None (rp_job_id r) r l)) = ledger_file l @ t"
    by (cases l) (auto simp: Let_def append_record_def split: option.splits)
  then show ?case using Cons [of "fst (ledger_commit C None (rp_job_id r) r l)"] by auto
qed simp

lemma read_loop_incomplete:
  assumes "length encoded \<le> MAX_RECORD_BYTES" "encoded \<noteq> []" "4 \<le> k" "k \<le> length (record_bytes encoded)"
    "k + length t < length (record_bytes encoded)"
  shows "read_loop C (take k (record_bytes encoded) @ t) receipts valid = Ok (receipts, valid)"
proof -
  obtain a b c d where r: "record_bytes encoded = a # b # c # d # encoded" "unat (u32_of_le a b c d) = length encoded"
    by (rule record_bytes_shape [OF assms(1)])
  obtain m where m: "k = 4 + m" using assms(3) nat_le_iff_add by blast
  then have "m + length t < length encoded" using assms(5) by simp
  then show ?thesis using r assms(1,2) m by (simp add: numeral_eq_Suc Let_def)
qed

text \<open>
  C29: A torn append loses later commits. Take any sequence of reports committed to a new log, and an append that
  then fails after its four length bytes and part, but not all, of the encoded report have reached the
  file. The ledger goes on and acknowledges further commits, whatever they are. As long as these have added
  fewer bytes to the log than are missing of the torn record, opening the log succeeds but gives the ledger
  from before the tear: all receipts committed since are gone, and are cut off from the file.
\<close>

theorem torn_append_loses_commits:
  assumes dec: "rc_decode C [] = Ok default_report"
    and jobs: "\<forall>r \<in> set rs. length (rp_job_id r) = 32 \<and> rc_decode C (rc_encode C r) = Ok r"
    and torn: "ledger_commit C (Some (k, message)) job report (commit_all C rs) = (torn, Err e)"
    and body: "4 \<le> k" "k < 4 + length (rc_encode C report)" "length (rc_encode C report) \<le> MAX_RECORD_BYTES"
    and later: "later = fold (\<lambda>r l. fst (ledger_commit C None (rp_job_id r) r l)) rs' torn"
    and few: "length (ledger_file later) - length (ledger_file torn) < 4 + length (rc_encode C report) - k"
    and size: "length (ledger_file (commit_all C rs)) < 2 ^ 64"
  shows "open_file_ledger C (ledger_file later) = Ok (commit_all C rs)"
proof -
  obtain f receipts where l: "commit_all C rs = FileLedger f receipts" "resumes C f receipts"
    using commit_all_resumes [OF dec jobs size] by blast
  have "map_of receipts job = None" using torn l(1) by (cases "map_of receipts job") auto
  then have "torn = FileLedger (f @ take k (record_bytes (rc_encode C report))) receipts"
    using torn l(1) body(3) MAX_RECORD_u32 by (simp add: Let_def append_record_def)
  moreover obtain t where "ledger_file later = ledger_file torn @ t" using commits_append later by blast
  ultimately have log: "ledger_file later = f @ take k (record_bytes (rc_encode C report)) @ t" "length t < 4 + length (rc_encode C report) - k"
    using few by simp_all
  have "read_loop C (take k (record_bytes (rc_encode C report)) @ t) receipts (length f) = Ok (receipts, length f)"
    by (rule read_loop_incomplete [OF body(3)]) (use body log(2) in auto)
  then show ?thesis using open_resumes [OF l(2)] log(1) l(1) by simp
qed

text \<open>
  If instead only two of the length bytes reach the log, and a report of 256 to 65535 encoded bytes is committed next, the
  two bytes shift every later record: the length that is read exceeds the limit, and the log cannot be
  opened any more.
\<close>

lemma torn_append_blocks_reopen:
  assumes fail: "ledger_commit C (Some (2, message)) job1 report1 (FileLedger file receipts) = (torn, Err e)" "resumes C file receipts"
    and short: "length (rc_encode C report1) \<le> MAX_RECORD_BYTES" "length (rc_encode C report1) mod 2 ^ 16 \<noteq> 0"
    and commit: "ledger_commit C None job2 report2 torn = (after_commit, Ok Missing)"
    and size: "256 \<le> length (rc_encode C report2)" "length (rc_encode C report2) < 2 ^ 16"
  shows "open_file_ledger C (ledger_file after_commit) = Err (protocol_error ''receipt ledger contains an invalid record length'')"
proof -
  let ?w = "\<lambda>r. of_nat (length (rc_encode C r)) :: u32"
  have n1: "map_of receipts job1 = None" using fail(1) by (cases "map_of receipts job1") auto
  have torn: "torn = FileLedger (file @ [ucast (?w report1), ucast (drop_bit 8 (?w report1))]) receipts"
    using fail(1) n1 short(1) MAX_RECORD_u32 by (simp add: Let_def append_record_def record_bytes_def u32_to_le_def)
  have n2: "map_of receipts job2 = None" using commit torn by (cases "map_of receipts job2") (auto split: if_splits)
  let ?a = "ucast (?w report1) :: u8" and ?b = "ucast (drop_bit 8 (?w report1)) :: u8"
  let ?c = "ucast (?w report2) :: u8" and ?d = "ucast (drop_bit 8 (?w report2)) :: u8"
  obtain rest where log: "ledger_file after_commit = file @ ?a # ?b # ?c # ?d # rest"
    using commit torn n2 MAX_RECORD_u32 by (auto simp: Let_def append_record_def record_bytes_def u32_to_le_def split: if_splits)
  have bytes: "unat (ucast (w :: u32) :: u8) = unat w mod 2 ^ 8" "unat (ucast (drop_bit 8 w) :: u8) = unat w div 2 ^ 8 mod 2 ^ 8" for w
    by (simp_all add: unsigned_ucast_eq unsigned_drop_bit_eq drop_bit_eq_div take_bit_eq_mod unat_div_distrib)
  have w1: "unat (?w report1) = length (rc_encode C report1)" and w2: "unat (?w report2) = length (rc_encode C report2)"
    using short(1) size(2) MAX_RECORD_u32 by (simp_all add: unsigned_of_nat take_bit_nat_eq_self)
  have ab: "unat ?a = length (rc_encode C report1) mod 2 ^ 8" "unat ?b = length (rc_encode C report1) div 2 ^ 8 mod 2 ^ 8"
    by (simp only: bytes(1) w1, simp only: bytes(2) w1)
  have low: "0 < unat ?a + 2 ^ 8 * unat ?b" using short(2) unfolding ab by (auto simp: mod_mult2_eq [of _ 256 256, simplified])
  have "unat ?d = length (rc_encode C report2) div 2 ^ 8 mod 2 ^ 8" by (simp only: bytes(2) w2)
  also have "\<dots> = length (rc_encode C report2) div 2 ^ 8" using size(2) by (simp add: div_less_iff_less_mult)
  finally have "unat ?d = length (rc_encode C report2) div 2 ^ 8" .
  then have "1 \<le> unat ?d" using size(1) by simp
  moreover have "0 < x + 256 * y \<Longrightarrow> 1 \<le> v \<Longrightarrow> 16777216 < x + 256 * y + 65536 * z + 16777216 * v" for x y z v :: nat by linarith
  ultimately have "MAX_RECORD_BYTES < unat (u32_of_le ?a ?b ?c ?d)" using low unfolding unat_u32_of_le MAX_RECORD_BYTES_def by simp
  then have "read_loop C (?a # ?b # ?c # ?d # rest) receipts (length file) =
      Err (protocol_error ''receipt ledger contains an invalid record length'')" by (simp add: Let_def)
  then show ?thesis using fail(2) log by (simp add: open_file_ledger_def read_receipts_def resumes_def)
qed

section \<open>Examples\<close>

text \<open>
  Codecs that keep the job of a report, for the instances below: one with a fixed padding, and one whose padding depends on the
  job, so that reports have different sizes.
\<close>

definition job_codec :: "nat \<Rightarrow> report_codec" where
  "job_codec pad = \<lparr> rc_blake3 = (\<lambda>b. b), rc_encode = (\<lambda>r. rp_job_id r @ replicate pad 0),
     rc_decode = (\<lambda>b. Ok (default_report \<lparr> rp_job_id := b \<rparr>)) \<rparr>"

definition sized_codec :: report_codec where
  "sized_codec = \<lparr> rc_blake3 = (\<lambda>b. b), rc_encode = (\<lambda>r. rp_job_id r @ replicate (7 * unat (hd (rp_job_id r))) 0),
     rc_decode = (\<lambda>b. Ok (default_report \<lparr> rp_job_id := take 32 b \<rparr>)) \<rparr>"

definition job_report :: "u8 \<Rightarrow> measure_report" where
  "job_report n = default_report \<lparr> rp_job_id := replicate 32 n \<rparr>"

theorem receipts_crash_recovery_witness:
  "\<exists>k \<le> 2. open_file_ledger (job_codec 0) (take 50 (ledger_file (commit_all (job_codec 0) [job_report 1, job_report 2])))
     = Ok (commit_all (job_codec 0) (take k [job_report 1, job_report 2])) \<and> 1 \<le> k"
proof -
  let ?C = "job_codec 0" and ?rs = "[job_report 1, job_report 2]"
  have sizes: "length (ledger_file (commit_all ?C ?rs)) = 72" "length (ledger_file (commit_all ?C (take 1 ?rs))) = 36" 
    by (simp_all add: commit_all_def job_codec_def job_report_def append_record_def MAX_RECORD_BYTES_def Let_def)
  have dec: "rc_decode ?C [] = Ok default_report" by (simp add: job_codec_def default_report_def)
  have rs: "\<forall>r \<in> set ?rs. length (rp_job_id r) = 32 \<and> rc_decode ?C (rc_encode ?C r) = Ok r" by (simp add: job_codec_def job_report_def)
  obtain k where "k \<le> length ?rs" "open_file_ledger ?C (take 50 (ledger_file (commit_all ?C ?rs))) = Ok (commit_all ?C (take k ?rs))"
    "\<forall>m \<le> length ?rs. length (ledger_file (commit_all ?C (take m ?rs))) \<le> 50 \<longrightarrow> m \<le> k"
    using receipts_crash_recovery [OF dec rs, of 50] sizes(1) by auto
  moreover from this(3) [rule_format, of 1] have "1 \<le> k" using sizes(2) by simp
  ultimately show ?thesis by (intro exI [of _ k]) simp
qed

theorem torn_append_loses_commits_witness:
  "\<exists>e torn later. ledger_commit sized_codec (Some (10, ''no space'')) (rp_job_id (job_report 32)) (job_report 32)
       (commit_all sized_codec [job_report 0]) = (torn, Err e) \<and>
     ledger_commit sized_codec None (rp_job_id (job_report 1)) (job_report 1) torn = (later, Ok Missing) \<and>
     open_file_ledger sized_codec (ledger_file later) = Ok (commit_all sized_codec [job_report 0])"
proof -
  let ?C = sized_codec and ?log = "commit_all sized_codec [job_report 0]"
  have job: "hd (rp_job_id (job_report n)) = n" "length (rp_job_id (job_report n)) = 32" for n by (simp_all add: job_report_def hd_replicate)
  have other: "rp_job_id (job_report n) = rp_job_id (job_report m) \<longleftrightarrow> n = m" for n m using job(1) by metis
  have len: "length (rc_encode ?C (job_report n)) = 32 + 7 * unat n" for n using job by (simp add: sized_codec_def)
  have dec: "rc_decode ?C [] = Ok default_report" "rc_decode ?C (rc_encode ?C (job_report n)) = Ok (job_report n)" for n
    using job by (simp_all add: sized_codec_def job_report_def default_report_def)
  have log: "?log = FileLedger (record_bytes (rc_encode ?C (job_report 0))) [(rp_job_id (job_report 0), report_digest ?C (job_report 0))]"
    using len [of 0] by (simp add: commit_all_def append_record_def MAX_RECORD_BYTES_def Let_def)
  let ?torn = "FileLedger (record_bytes (rc_encode ?C (job_report 0)) @ take 10 (record_bytes (rc_encode ?C (job_report 32))))
    [(rp_job_id (job_report 0), report_digest ?C (job_report 0))]"
  have torn: "ledger_commit ?C (Some (10, ''no space'')) (rp_job_id (job_report 32)) (job_report 32) ?log = (?torn, Err (io_error ''no space''))"
    using len [of 32] other unfolding log by (simp add: append_record_def MAX_RECORD_BYTES_def Let_def)
  define later where "later = fst (ledger_commit ?C None (rp_job_id (job_report 1)) (job_report 1) ?torn)"
  have commit: "ledger_commit ?C None (rp_job_id (job_report 1)) (job_report 1) ?torn = (later, Ok Missing)"
    and size: "length (ledger_file later) = length (ledger_file ?torn) + 43"
    using len [of 1] other by (simp_all add: later_def append_record_def MAX_RECORD_BYTES_def Let_def)
  have "open_file_ledger ?C (ledger_file later) = Ok ?log"
    by (rule torn_append_loses_commits [OF dec(1) _ torn, where rs' = "[job_report 1]"])
      (use job dec(2) len [of 32] len [of 0] size log later_def in \<open>simp_all add: MAX_RECORD_BYTES_def\<close>)
  then show ?thesis using torn commit by blast
qed

end
