(* ===== verification/Measure_Coordinator.thy ===== *)
theory Measure_Coordinator
  imports Measure_Receipts "HOL-Library.List_Lexorder"
begin

text \<open>
  The coordinator of the measurement fleet, \<open>crates/gz-measure-service/src/coordinator.rs\<close>: jobs wait in a
  queue, are leased to connected agents that match them, and end with a committed report or a
  cancellation; a lease that expires or whose agent disconnects goes back to the queue, and an agent
  that reconnects with a persisted report may resume its lease.

  The state is behind one mutex, so every handler is one atomic step; the clock (\<open>now\<close>, in
  nanoseconds, read once per handler) and the random identifiers are arguments of the handlers. A deadline
  that does not fit into an \<open>Instant\<close> is a panic, after which the state is what the handler had made of
  it. A \<open>BTreeMap\<close> is an
  association list sorted by key, a \<open>HashMap\<close> one with distinct keys in no particular order; where
  the code iterates over a \<open>HashMap\<close>, the order is the parameter \<open>hash_order\<close>. The command channel
  of an agent is a parameter too: \<open>try_send\<close> tells whether the channel took the command. The
  slot counts of a session, \<open>u32\<close> in the code, are \<open>nat\<close>: they come from \<open>u32\<close> fields of messages
  and are only lowered, under guards.
\<close>

section \<open>Configuration\<close>

datatype enrollment = MutualTls "(bytes \<times> bytes) list" | InsecureForTests "bytes list"

record coordinator_config =
  cc_enrollment :: enrollment
  cc_queue_capacity :: nat
  cc_artifact_item_capacity :: nat
  cc_artifact_byte_capacity :: nat
  cc_receipt_ledger :: receipt_ledger_config
  cc_command_capacity :: nat
  cc_max_artifact_bytes :: nat
  cc_artifact_chunk_bytes :: nat
  cc_max_measure_config_bytes :: nat
  cc_max_engine_metadata_bytes :: nat
  cc_max_samples_per_subject :: nat
  cc_max_telemetry_samples :: nat
  cc_heartbeat_interval :: nat
  cc_accept_timeout :: nat
  cc_lease_duration :: nat

primrec check_nonzero :: "(string \<times> nat) list \<Rightarrow> (unit, service_error) outcome" where
  "check_nonzero [] = Ok ()"
| "check_nonzero (nv # rest) =
     (if snd nv = 0 then Err (configuration (fst nv @ '' must be greater than zero'')) else check_nonzero rest)"

definition config_validate :: "coordinator_config \<Rightarrow> (unit, service_error) outcome" where
  "config_validate c =
     obind (check_nonzero [(''queue_capacity'', cc_queue_capacity c), (''artifact_item_capacity'', cc_artifact_item_capacity c),
       (''artifact_byte_capacity'', cc_artifact_byte_capacity c), (''command_capacity'', cc_command_capacity c),
       (''max_artifact_bytes'', cc_max_artifact_bytes c), (''artifact_chunk_bytes'', cc_artifact_chunk_bytes c),
       (''max_measure_config_bytes'', cc_max_measure_config_bytes c), (''max_engine_metadata_bytes'', cc_max_engine_metadata_bytes c),
       (''max_samples_per_subject'', cc_max_samples_per_subject c), (''max_telemetry_samples'', cc_max_telemetry_samples c)]) (\<lambda>_.
     obind (receipt_config_validate (cc_receipt_ledger c)) (\<lambda>_.
     if cc_max_artifact_bytes c < cc_artifact_chunk_bytes c
     then Err (configuration ''artifact_chunk_bytes cannot exceed max_artifact_bytes'')
     else
       obind (check_nonzero [(''heartbeat_interval'', cc_heartbeat_interval c), (''accept_timeout'', cc_accept_timeout c),
         (''lease_duration'', cc_lease_duration c)]) (\<lambda>_.
       if cc_lease_duration c \<le> cc_heartbeat_interval c
       then Err (configuration ''lease_duration must exceed heartbeat_interval'')
       else Ok ())))"

definition config_default :: coordinator_config where
  "config_default = \<lparr> cc_enrollment = InsecureForTests [], cc_queue_capacity = 256, cc_artifact_item_capacity = 256,
     cc_artifact_byte_capacity = 256 * 1024 * 1024, cc_receipt_ledger = MemoryConfig 4096, cc_command_capacity = 8,
     cc_max_artifact_bytes = 16 * 1024 * 1024, cc_artifact_chunk_bytes = 256 * 1024,
     cc_max_measure_config_bytes = 64 * 1024, cc_max_engine_metadata_bytes = 64 * 1024,
     cc_max_samples_per_subject = 4096, cc_max_telemetry_samples = 4096, cc_heartbeat_interval = 2000000000,
     cc_accept_timeout = 5000000000, cc_lease_duration = 15000000000 \<rparr>"

section \<open>Messages between coordinator and agents\<close>

record lease_recovery =
  lr_job_id :: bytes
  lr_lease_id :: bytes
  lr_phase :: int
  lr_report_persisted :: bool

record agent_hello =
  ah_protocol_major :: u32
  ah_protocol_minor :: u32
  ah_device_id :: bytes
  ah_agent_build :: string
  ah_profile :: "device_profile option"
  ah_capabilities :: "engine_capability list"
  ah_recoveries :: "lease_recovery list"
  ah_job_slots :: u32

text \<open>
  The events after the hello carry the session, and those about a job the job and the lease; the
  telemetry, phases and reasons in them are not read by the coordinator.
\<close>

datatype agent_event =
    HelloEvent agent_hello
  | ReadyEvent bytes u32
  | AcceptedEvent bytes bytes bytes
  | RejectedEvent bytes bytes bytes
  | HeartbeatEvent bytes bytes bytes
  | DrainingEvent bytes

record graph_subject =
  gs_logical_index :: u32
  gs_graph_hash :: bytes
  gs_artifact_digest :: bytes
  gs_artifact_size :: u64
  gs_format_kind :: int
  gs_adapter_format_id :: u32

record measure_lease =
  ml_session_id :: bytes
  ml_job_id :: bytes
  ml_measurement_key :: bytes
  ml_request_nonce :: bytes
  ml_lease_id :: bytes
  ml_lease_duration_ms :: nat
  ml_kind :: int
  ml_engine :: "wire_engine_identity option"
  ml_measure_config_hash :: bytes
  ml_measure_config_encoding :: u32
  ml_measure_config_payload :: bytes
  ml_target_device_profile_hash :: bytes
  ml_subjects :: "graph_subject list"

record recovery_disposition =
  rd_job_id :: bytes
  rd_lease_id :: bytes
  rd_action :: int

abbreviation (input) RECOVERY_SUBMIT_REPORT :: int where "RECOVERY_SUBMIT_REPORT \<equiv> 2"
abbreviation (input) RECOVERY_CANCEL :: int where "RECOVERY_CANCEL \<equiv> 3"
abbreviation (input) RECOVERY_ALREADY_COMMITTED :: int where "RECOVERY_ALREADY_COMMITTED \<equiv> 4"

record agent_welcome =
  aw_session_id :: bytes
  aw_negotiated_minor :: u32
  aw_device_profile_hash :: bytes
  aw_heartbeat_interval_ms :: nat
  aw_accept_timeout_ms :: nat
  aw_default_lease_duration_ms :: nat
  aw_max_artifact_bytes :: nat
  aw_artifact_chunk_bytes :: u32
  aw_max_measure_config_bytes :: u32
  aw_max_engine_metadata_bytes :: u32
  aw_max_samples_per_subject :: u32
  aw_max_telemetry_samples :: u32
  aw_max_bounded_string_bytes :: u32
  aw_recoveries :: "recovery_disposition list"

datatype coordinator_command =
    WelcomeCommand agent_welcome
  | LeaseCommand measure_lease
  | CancelCommand bytes bytes int
  | DrainCommand bool

datatype status_code = InvalidArgument | PermissionDenied | NotFound | DataLoss | FailedPrecondition
  | ResourceExhausted | Unauthenticated | DeadlineExceeded | Unavailable

datatype status = Status status_code string

definition status_for_error :: "service_error \<Rightarrow> status" where
  "status_for_error e =
     (case e of
        Authentication message \<Rightarrow> Status Unauthenticated message
      | Capacity message \<Rightarrow> Status ResourceExhausted message
      | Configuration message \<Rightarrow> Status InvalidArgument message
      | Protocol message \<Rightarrow> Status InvalidArgument message
      | Timeout message \<Rightarrow> Status DeadlineExceeded message
      | Transport message \<Rightarrow> Status Unavailable message
      | IoError message \<Rightarrow> Status Unavailable message
      | RemoteFailure code message \<Rightarrow> Status FailedPrecondition message
      | Closed \<Rightarrow> Status Unavailable ''measurement service closed'')"

section \<open>State\<close>

record active_lease =
  al_device_id :: bytes
  al_current_session_id :: bytes
  al_origin_session_id :: bytes
  al_lease_id :: bytes
  al_deadline :: nat

datatype job_state = Queued | Offered active_lease | Running active_lease

text \<open>\<open>jb_reply\<close>: the sender of the one-shot channel to the caller is still held.\<close>

record job =
  jb_submission :: measure_submission
  jb_descriptors :: "artifact_desc list"
  jb_measurement_key :: digest
  jb_request_nonce :: bytes
  jb_reply :: bool
  jb_state :: job_state
  jb_recovery :: "active_lease option"

record 'tx agent_session =
  ag_session_id :: bytes
  ag_profile_hash :: digest
  ag_capabilities :: "engine_capability list"
  ag_command_tx :: 'tx
  ag_peer_fingerprint :: "bytes option"
  ag_slot_capacity :: nat
  ag_free_slots :: nat
  ag_draining :: bool
  ag_active :: "(bytes \<times> bytes) list"

record artifact_record =
  ar_bytes :: bytes
  ar_references :: nat

text \<open>\<open>cs_replies\<close> records what was sent to callers.\<close>

record 'tx coordinator_state =
  cs_agents :: "(bytes \<times> 'tx agent_session) list"
  cs_jobs :: "(bytes \<times> job) list"
  cs_queue :: "bytes list"
  cs_artifacts :: "(digest \<times> artifact_record) list"
  cs_artifact_bytes :: nat
  cs_receipts :: receipt_ledger
  cs_replies :: "(bytes \<times> measure_report) list"

text \<open>
  What the coordinator uses of code outside the repository. \<open>new_channel\<close> is None for the capacities at which
  \<open>mpsc::channel\<close> panics.
\<close>

record 'tx service_env =
  hash_order :: "bytes list \<Rightarrow> bytes list"
  try_send :: "'tx \<Rightarrow> coordinator_command \<Rightarrow> 'tx \<times> bool"
  new_channel :: "nat \<Rightarrow> 'tx option"
  env_codec :: report_codec
  encode_profile :: "device_profile \<Rightarrow> bytes"

definition coordinator_new :: "report_codec \<Rightarrow> bytes \<Rightarrow> coordinator_config \<Rightarrow> ('tx coordinator_state, service_error) outcome" where
  "coordinator_new C stored c =
     obind (config_validate c) (\<lambda>_.
     obind (ledger_open C stored (cc_receipt_ledger c)) (\<lambda>receipts.
     Ok \<lparr> cs_agents = [], cs_jobs = [], cs_queue = [], cs_artifacts = [], cs_artifact_bytes = 0,
          cs_receipts = receipts, cs_replies = [] \<rparr>))"

section \<open>Maps\<close>

text \<open>Insertion into a sorted association list, and the entries of a hash map in iteration order.\<close>

fun btree_insert :: "bytes \<Rightarrow> 'v \<Rightarrow> (bytes \<times> 'v) list \<Rightarrow> (bytes \<times> 'v) list" where
  "btree_insert k v [] = [(k, v)]"
| "btree_insert k v ((k', v') # rest) =
     (if k < k' then (k, v) # (k', v') # rest
      else if k = k' then (k, v) # rest
      else (k', v') # btree_insert k v rest)"

definition hash_entries :: "'tx service_env \<Rightarrow> (bytes \<times> 'v) list \<Rightarrow> (bytes \<times> 'v) list" where
  "hash_entries E m = List.map_filter (\<lambda>k. map_option (Pair k) (map_of m k)) (hash_order E (map fst m))"

fun find_map :: "('a \<Rightarrow> 'b option) \<Rightarrow> 'a list \<Rightarrow> 'b option" where
  "find_map f [] = None"
| "find_map f (x # xs) = (case f x of Some y \<Rightarrow> Some y | None \<Rightarrow> find_map f xs)"

section \<open>Leases and the queue\<close>

definition duration_ms :: "nat \<Rightarrow> nat" where
  "duration_ms d = min (d div 1000000) (2 ^ 64 - 1)"

definition MEASUREMENT_PROTOCOL_VERSION :: u32 where
  "MEASUREMENT_PROTOCOL_VERSION = 1"

definition agent_matches :: "'tx agent_session \<Rightarrow> job \<Rightarrow> bool" where
  "agent_matches agent job \<longleftrightarrow>
     0 < ag_free_slots agent \<and> \<not> ag_draining agent \<and>
     ag_profile_hash agent = ms_target_device_profile_hash (jb_submission job) \<and>
     list_ex (\<lambda>capability.
         cap_engine capability = Some (engine_identity_to_wire (ms_engine (jb_submission job))) \<and>
         list_all (\<lambda>descriptor. list_ex (\<lambda>fmt. af_format_kind fmt = desc_format_kind descriptor \<and>
             af_adapter_format_id fmt = desc_adapter_format_id descriptor) (cap_artifact_formats capability)) (jb_descriptors job) \<and>
         mc_encoding (ms_measure_config (jb_submission job)) \<in> set (cap_measure_config_encodings capability) \<and>
         MEASUREMENT_PROTOCOL_VERSION \<in> set (cap_measurement_protocol_versions capability))
       (ag_capabilities agent)"

definition lease_command :: "coordinator_config \<Rightarrow> job \<Rightarrow> bytes \<Rightarrow> active_lease \<Rightarrow> coordinator_command" where
  "lease_command c job job_id active = LeaseCommand
     \<lparr> ml_session_id = al_current_session_id active, ml_job_id = job_id, ml_measurement_key = jb_measurement_key job,
       ml_request_nonce = jb_request_nonce job, ml_lease_id = al_lease_id active,
       ml_lease_duration_ms = duration_ms (cc_lease_duration c), ml_kind = kind_wire (ms_kind (jb_submission job)),
       ml_engine = Some (engine_identity_to_wire (ms_engine (jb_submission job))),
       ml_measure_config_hash = mo_config_hash (ms_options (jb_submission job)),
       ml_measure_config_encoding = mc_encoding (ms_measure_config (jb_submission job)),
       ml_measure_config_payload = mc_payload (ms_measure_config (jb_submission job)),
       ml_target_device_profile_hash = ms_target_device_profile_hash (jb_submission job),
       ml_subjects = map (\<lambda>(logical_index, subject, descriptor).
           \<lparr> gs_logical_index = of_nat logical_index, gs_graph_hash = ga_graph_hash subject,
             gs_artifact_digest = desc_digest descriptor, gs_artifact_size = desc_size descriptor,
             gs_format_kind = desc_format_kind descriptor, gs_adapter_format_id = desc_adapter_format_id descriptor \<rparr>)
         (zip [0..<length (ms_subjects (jb_submission job))] (zip (ms_subjects (jb_submission job)) (jb_descriptors job))) \<rparr>"

definition requeue_active :: "bytes \<Rightarrow> active_lease \<Rightarrow> bool \<Rightarrow> 'tx coordinator_state \<Rightarrow> 'tx coordinator_state" where
  "requeue_active job_id active preserve_for_recovery st =
     (let st = (case map_of (cs_jobs st) job_id of
          None \<Rightarrow> st
        | Some job \<Rightarrow> st \<lparr>
            cs_jobs := AList.update job_id (job \<lparr> jb_state := Queued,
              jb_recovery := if preserve_for_recovery then Some active else None \<rparr>) (cs_jobs st),
            cs_queue := if job_id \<in> set (cs_queue st) then cs_queue st else cs_queue st @ [job_id] \<rparr>)
      in case map_of (cs_agents st) (al_device_id active) of
           None \<Rightarrow> st
         | Some agent \<Rightarrow>
             if ag_session_id agent = al_current_session_id active \<and> map_of (ag_active agent) job_id = Some (al_lease_id active)
             then st \<lparr> cs_agents := AList.update (al_device_id active)
                    (agent \<lparr> ag_active := AList.delete job_id (ag_active agent) \<rparr>) (cs_agents st) \<rparr>
             else st)"

text \<open>The lease of a job, as the \<open>Offered(active) | Running(active)\<close> patterns bind it.\<close>

fun lease_of :: "job_state \<Rightarrow> active_lease option" where
  "lease_of Queued = None"
| "lease_of (Offered active) = Some active"
| "lease_of (Running active) = Some active"

definition expire_leases :: "'tx service_env \<Rightarrow> nat \<Rightarrow> 'tx coordinator_state \<Rightarrow> 'tx coordinator_state" where
  "expire_leases E now st =
     (let expired = List.map_filter (\<lambda>(job_id, job).
            case lease_of (jb_state job) of
              Some active \<Rightarrow> if al_deadline active \<le> now then Some (job_id, active) else None
            | None \<Rightarrow> None) (hash_entries E (cs_jobs st))
      in fold (\<lambda>(job_id, active) st. requeue_active job_id active False st) expired st)"

definition revoke_lease :: "bytes \<Rightarrow> bytes \<Rightarrow> 'tx coordinator_state \<Rightarrow> 'tx coordinator_state" where
  "revoke_lease job_id lease_id st =
     (case Option.bind (map_of (cs_jobs st) job_id) (\<lambda>job.
         case jb_state job of
           Offered active \<Rightarrow> if al_lease_id active = lease_id then Some (active, False) else None
         | Running active \<Rightarrow> if al_lease_id active = lease_id then Some (active, True) else None
         | Queued \<Rightarrow> None) of
        Some (active, preserve_for_recovery) \<Rightarrow> requeue_active job_id active preserve_for_recovery st
      | None \<Rightarrow> st)"

definition remove_agent_session :: "'tx service_env \<Rightarrow> bytes \<Rightarrow> 'tx coordinator_state \<Rightarrow> 'tx coordinator_state" where
  "remove_agent_session E device_id st =
     (case map_of (cs_agents st) device_id of
        None \<Rightarrow> st
      | Some agent \<Rightarrow>
          fold (\<lambda>(job_id, lease_id) st. revoke_lease job_id lease_id st) (hash_entries E (ag_active agent))
            (st \<lparr> cs_agents := AList.delete device_id (cs_agents st) \<rparr>))"

definition find_assignment :: "'tx coordinator_state \<Rightarrow> (bytes \<times> bytes) option" where
  "find_assignment st =
     find_map (\<lambda>job_id. Option.bind (map_of (cs_jobs st) job_id) (\<lambda>job.
       map_option (\<lambda>(device_id, _). (job_id, device_id)) (find (\<lambda>(_, agent). agent_matches agent job) (cs_agents st)))) (cs_queue st)"

text \<open>
  A deadline is \<open>Instant::now()\<close> plus a configured \<open>Duration\<close>. An \<open>Instant\<close> holds its seconds in an \<open>i64\<close> and its
  nanoseconds below one second beside them, and the addition panics if the sum does not fit. The
  validation of the configuration sets no upper bound on the durations.
\<close>

definition INSTANT_MAX :: nat where
  "INSTANT_MAX = 2 ^ 63 * 1000000000 - 1"

definition instant_add :: "nat \<Rightarrow> nat \<Rightarrow> (nat, 'e) outcome" where
  "instant_add now duration = (if now + duration \<le> INSTANT_MAX then Ok (now + duration) else Panic)"

text \<open>
  One round of the loop of \<open>schedule\<close> for an assignment; \<open>lease_id\<close> is the fresh random identifier. The job is
  taken out of the queue first, so this is what a panic leaves behind.
\<close>

definition offer :: "'tx service_env \<Rightarrow> coordinator_config \<Rightarrow> nat \<Rightarrow> bytes \<Rightarrow> bytes \<Rightarrow> bytes \<Rightarrow> 'tx coordinator_state \<Rightarrow> 'tx coordinator_state \<times> (unit, service_error) outcome" where
  "offer E c now lease_id job_id device_id st =
     (let st = st \<lparr> cs_queue := remove1 job_id (cs_queue st) \<rparr> in
      case map_of (cs_agents st) device_id of
        None \<Rightarrow> (st, Panic)
      | Some agent \<Rightarrow>
          sbind (slift (instant_add now (cc_accept_timeout c)) st) (\<lambda>deadline st.
          case map_of (cs_jobs st) job_id of
            None \<Rightarrow> (st, Panic)
          | Some job \<Rightarrow>
              let active = \<lparr> al_device_id = device_id, al_current_session_id = ag_session_id agent,
                             al_origin_session_id = ag_session_id agent, al_lease_id = lease_id, al_deadline = deadline \<rparr>;
                  (tx, sent) = try_send E (ag_command_tx agent) (lease_command c job job_id active);
                  st = st \<lparr> cs_jobs := AList.update job_id (job \<lparr> jb_state := Offered active, jb_recovery := None \<rparr>) (cs_jobs st),
                    cs_agents := AList.update device_id (agent \<lparr> ag_free_slots := ag_free_slots agent - 1,
                      ag_active := AList.update job_id lease_id (ag_active agent), ag_command_tx := tx \<rparr>) (cs_agents st) \<rparr>
              in (if sent then st else remove_agent_session E device_id st, Ok ())))"

lemma map_of_in_keys: "map_of m k = Some v \<Longrightarrow> k \<in> set (map fst m)"
  by (metis domI dom_map_of_conv_image_fst list.set_map)

lemma keys_update [simp]: "map_of m k = Some w \<Longrightarrow> map fst (AList.update k v m) = map fst m"
  using map_of_in_keys [of m k w] by (simp add: update_keys)

lemma requeue_active_agents [simp]: "map fst (cs_agents (requeue_active j a p st)) = map fst (cs_agents st)"
  by (auto simp: requeue_active_def Let_def split: option.splits)

lemma revoke_lease_agents [simp]: "map fst (cs_agents (revoke_lease j l st)) = map fst (cs_agents st)"
  by (auto simp: revoke_lease_def split: option.splits prod.splits)

lemma revoke_all_agents: "map fst (cs_agents (fold (\<lambda>(j, l) st. revoke_lease j l st) js st)) = map fst (cs_agents st)"
  by (induction js arbitrary: st) auto

lemma remove_agent_session_agents: "map fst (cs_agents (remove_agent_session E d st)) = removeAll d (map fst (cs_agents st))"
proof (cases "map_of (cs_agents st) d")
  case None
  then have "d \<notin> set (map fst (cs_agents st))" by (simp add: map_of_eq_None_iff)
  then show ?thesis using None by (simp add: remove_agent_session_def)
next
  case (Some agent)
  then show ?thesis by (simp add: remove_agent_session_def revoke_all_agents delete_keys)
qed

lemma find_map_Some: "find_map f xs = Some y \<Longrightarrow> \<exists>x \<in> set xs. f x = Some y"
  by (induction xs) (auto split: option.splits)

lemma find_map_None: "find_map f xs = None \<longleftrightarrow> (\<forall>x \<in> set xs. f x = None)"
  by (induction xs) (auto split: option.splits)

lemma find_assignment_SomeD:
  assumes "find_assignment st = Some (j, d)"
  obtains job agent where "j \<in> set (cs_queue st)" "map_of (cs_jobs st) j = Some job" "(d, agent) \<in> set (cs_agents st)" "agent_matches agent job"
proof -
  obtain job x where "j \<in> set (cs_queue st)" "map_of (cs_jobs st) j = Some job" "find (\<lambda>(_, agent). agent_matches agent job) (cs_agents st) = Some x" "fst x = d"
    using find_map_Some [OF assms [unfolded find_assignment_def]] by (auto split: prod.splits bind_splits)
  then show thesis using that [of job "snd x"] by (auto simp: find_Some_iff split: prod.splits) (metis nth_mem prod.collapse)
qed

lemma offer_decreases:
  assumes "offer E c now l j d st = (st', Ok u)" "j \<in> set (cs_queue st)"
  shows "length (cs_agents st') < length (cs_agents st) \<or>
    length (cs_agents st') = length (cs_agents st) \<and> length (cs_queue st') < length (cs_queue st)"
proof -
  obtain agent job where found: "map_of (cs_agents st) d = Some agent" "now + cc_accept_timeout c \<le> INSTANT_MAX" "map_of (cs_jobs st) j = Some job"
    using assms(1) by (auto simp: offer_def Let_def instant_add_def split: option.splits if_splits)
  then have d: "d \<in> set (map fst (cs_agents st))" by (intro map_of_in_keys)
  have "map fst (cs_agents st') = map fst (cs_agents st) \<and> cs_queue st' = remove1 j (cs_queue st) \<or>
      map fst (cs_agents st') = removeAll d (map fst (cs_agents st))"
    using assms(1) found by (auto simp: offer_def Let_def instant_add_def remove_agent_session_agents split: prod.splits if_splits)
  moreover have "length (removeAll d (map fst (cs_agents st))) < length (map fst (cs_agents st))"
    using d by (intro length_removeAll_less)
  moreover have "length (remove1 j (cs_queue st)) < length (cs_queue st)"
    using assms(2) length_pos_if_in_set [OF assms(2)] by (simp add: length_remove1)
  ultimately show ?thesis by (metis length_map)
qed

function schedule ::
    "'tx service_env \<Rightarrow> coordinator_config \<Rightarrow> nat \<Rightarrow> (nat \<Rightarrow> bytes) \<Rightarrow> nat \<Rightarrow> 'tx coordinator_state \<Rightarrow> 'tx coordinator_state \<times> (unit, service_error) outcome"
where
  "schedule E c now random n st =
     (case find_assignment st of
        None \<Rightarrow> (st, Ok ())
      | Some (job_id, device_id) \<Rightarrow>
          if job_id \<in> set (cs_queue st)
          then (case offer E c now (random n) job_id device_id st of
                  (st, Ok _) \<Rightarrow> schedule E c now random (n + 1) st
                | (st, Err e) \<Rightarrow> (st, Err e)
                | (st, Panic) \<Rightarrow> (st, Panic))
          else schedule E c now random n st)"
  by pat_completeness auto
termination
proof (relation "inv_image (less_than <*lex*> less_than) (\<lambda>(E, c, now, random, n, st). (length (cs_agents st), length (cs_queue st)))", goal_cases)
  case (2 E c now random n st a j d st' r u)
  then have "offer E c now (random n) j d st = (st', Ok u)" by simp
  then have "length (cs_agents st') < length (cs_agents st) \<or>
      length (cs_agents st') = length (cs_agents st) \<and> length (cs_queue st') < length (cs_queue st)"
    by (rule offer_decreases) (use 2 in simp)
  then show ?case by auto
next
  case (3 E c now random n st a j d)
  then have "find_assignment st = Some (j, d)" by simp
  then show ?case using 3 by (auto elim!: find_assignment_SomeD)
qed auto

declare schedule.simps [simp del]

section \<open>Admission of jobs\<close>

definition validate_submission :: "coordinator_config \<Rightarrow> measure_submission \<Rightarrow> (unit, service_error) outcome" where
  "validate_submission c submission =
     (if length (ms_subjects submission) \<noteq> subject_count (ms_kind submission)
      then Err (configuration ''measurement kind has the wrong subject count'')
      else if list_ex (\<lambda>artifact. cc_max_artifact_bytes c < length (ga_bytes artifact)) (ms_subjects submission)
      then Err (capacity_error ''artifact exceeds configured maximum'')
      else if mc_encoding (ms_measure_config submission) = 0
      then Err (configuration ''measure config encoding must be non-zero'')
      else if cc_max_measure_config_bytes c < length (mc_payload (ms_measure_config submission))
      then Err (capacity_error ''measure config exceeds configured maximum'')
      else Ok ())"

fun request_artifacts :: "(artifact_desc \<times> graph_artifact) list \<Rightarrow> (digest \<times> bytes \<times> nat) list \<Rightarrow> ((digest \<times> bytes \<times> nat) list, service_error) outcome" where
  "request_artifacts [] requested = Ok requested"
| "request_artifacts ((descriptor, artifact) # rest) requested =
     (case map_of requested (desc_digest descriptor) of
        Some (bytes, references) \<Rightarrow>
          if bytes \<noteq> ga_bytes artifact then Err (protocol_error ''artifact digest collision with different bytes'')
          else if USIZE_MAX < references + 1 then Err (capacity_error ''artifact reference count overflow'')
          else request_artifacts rest (AList.update (desc_digest descriptor) (bytes, references + 1) requested)
      | None \<Rightarrow> request_artifacts rest (AList.update (desc_digest descriptor) (ga_bytes artifact, 1) requested))"

fun count_new :: "(digest \<times> artifact_record) list \<Rightarrow> (digest \<times> bytes \<times> nat) list \<Rightarrow> nat \<Rightarrow> nat \<Rightarrow> (nat \<times> nat, service_error) outcome" where
  "count_new artifacts [] new_items new_bytes = Ok (new_items, new_bytes)"
| "count_new artifacts ((hash, bytes, references) # rest) new_items new_bytes =
     (case map_of artifacts hash of
        Some artifact \<Rightarrow>
          if ar_bytes artifact \<noteq> bytes then Err (protocol_error ''artifact digest collision with different bytes'')
          else if USIZE_MAX < ar_references artifact + references then Err (capacity_error ''artifact reference count overflow'')
          else count_new artifacts rest new_items new_bytes
      | None \<Rightarrow>
          if USIZE_MAX < new_items + 1 then Err (capacity_error ''artifact item count overflow'')
          else if USIZE_MAX < new_bytes + length bytes then Err (capacity_error ''artifact byte count overflow'')
          else count_new artifacts rest (new_items + 1) (new_bytes + length bytes))"

definition keep_artifact :: "digest \<times> bytes \<times> nat \<Rightarrow> (digest \<times> artifact_record) list \<Rightarrow> (digest \<times> artifact_record) list" where
  "keep_artifact entry artifacts =
     (case entry of (hash, bytes, references) \<Rightarrow>
        case map_of artifacts hash of
          Some artifact \<Rightarrow> AList.update hash (artifact \<lparr> ar_references := ar_references artifact + references \<rparr>) artifacts
        | None \<Rightarrow> AList.update hash \<lparr> ar_bytes = bytes, ar_references = references \<rparr> artifacts)"

definition retain_artifacts ::
    "'tx service_env \<Rightarrow> coordinator_config \<Rightarrow> artifact_desc list \<Rightarrow> graph_artifact list \<Rightarrow> 'tx coordinator_state \<Rightarrow> ('tx coordinator_state, service_error) outcome"
where
  "retain_artifacts E c descriptors artifacts st =
     obind (request_artifacts (zip descriptors artifacts) []) (\<lambda>requested.
     obind (count_new (cs_artifacts st) (hash_entries E requested) 0 0) (\<lambda>(new_items, new_bytes).
     if USIZE_MAX < length (cs_artifacts st) + new_items \<or> cc_artifact_item_capacity c < length (cs_artifacts st) + new_items
     then Err (capacity_error ''artifact item capacity is full'')
     else if USIZE_MAX < cs_artifact_bytes st + new_bytes then Err (capacity_error ''artifact byte count overflow'')
     else if cc_artifact_byte_capacity c < cs_artifact_bytes st + new_bytes then Err (capacity_error ''artifact byte capacity is full'')
     else Ok (st \<lparr> cs_artifact_bytes := cs_artifact_bytes st + new_bytes,
       cs_artifacts := fold keep_artifact (hash_entries E requested) (cs_artifacts st) \<rparr>)))"

definition release_artifact :: "digest \<Rightarrow> 'tx coordinator_state \<Rightarrow> 'tx coordinator_state" where
  "release_artifact hash st =
     (case map_of (cs_artifacts st) hash of
        Some artifact \<Rightarrow>
          if 1 < ar_references artifact
          then st \<lparr> cs_artifacts := AList.update hash (artifact \<lparr> ar_references := ar_references artifact - 1 \<rparr>) (cs_artifacts st) \<rparr>
          else st \<lparr> cs_artifacts := AList.delete hash (cs_artifacts st),
                    cs_artifact_bytes := cs_artifact_bytes st - length (ar_bytes artifact) \<rparr>
      | None \<Rightarrow> st)"

definition release_artifacts :: "artifact_desc list \<Rightarrow> 'tx coordinator_state \<Rightarrow> 'tx coordinator_state" where
  "release_artifacts descriptors st = fold (\<lambda>descriptor. release_artifact (desc_digest descriptor)) descriptors st"

text \<open>
  A handler returns the new state and its outcome. The last call of most of them is \<open>schedule\<close>. If it panics, so
  does the handler, and the state stays as it was at that point: \<open>lock_state\<close> takes the state out of
  a poisoned mutex and carries on.
\<close>

definition finish_with :: "'tx coordinator_state \<times> (unit, service_error) outcome \<Rightarrow> ('a, 'e) outcome \<Rightarrow> 'tx coordinator_state \<times> ('a, 'e) outcome" where
  "finish_with r result = (case r of (st, Ok _) \<Rightarrow> (st, result) | (st, _) \<Rightarrow> (st, Panic))"

definition enqueue ::
    "'tx service_env \<Rightarrow> coordinator_config \<Rightarrow> nat \<Rightarrow> (nat \<Rightarrow> bytes) \<Rightarrow> measure_submission \<Rightarrow> bytes \<Rightarrow>
       'tx coordinator_state \<Rightarrow> 'tx coordinator_state \<times> (bytes, service_error) outcome"
where
  "enqueue E c now random submission request_nonce st =
     sbind (slift (validate_submission c submission) st) (\<lambda>_ st.
     sbind (slift (omap (artifact_descriptor (rc_blake3 (env_codec E))) (ms_subjects submission)) st) (\<lambda>descriptors st.
     let key = measurement_key (rc_blake3 (env_codec E)) submission descriptors;
         job_id = job_id_of (rc_blake3 (env_codec E)) key request_nonce;
         st = expire_leases E now st
     in if map_of (cs_jobs st) job_id \<noteq> None \<or> ledger_contains job_id (cs_receipts st)
        then (st, Err (protocol_error ''job id is already admitted''))
        else if cc_queue_capacity c \<le> length (cs_queue st)
        then (st, Err (capacity_error ''coordinator job queue is full''))
        else if \<not> can_admit (length (cs_jobs st)) (cs_receipts st)
        then (st, Err (capacity_error ''coordinator receipt ledger is full''))
        else
          case retain_artifacts E c descriptors (ms_subjects submission) st of
            Err e \<Rightarrow> (st, Err e)
          | Panic \<Rightarrow> (st, Panic)
          | Ok st \<Rightarrow>
              let st = st \<lparr> cs_jobs := AList.update job_id
                    \<lparr> jb_submission = submission, jb_descriptors = descriptors, jb_measurement_key = key,
                      jb_request_nonce = request_nonce, jb_reply = True, jb_state = Queued, jb_recovery = None \<rparr> (cs_jobs st),
                    cs_queue := cs_queue st @ [job_id] \<rparr>
              in finish_with (schedule E c now random 0 st) (Ok job_id)))"

definition reap_expired :: "'tx service_env \<Rightarrow> coordinator_config \<Rightarrow> nat \<Rightarrow> (nat \<Rightarrow> bytes) \<Rightarrow> 'tx coordinator_state \<Rightarrow> 'tx coordinator_state \<times> (unit, service_error) outcome" where
  "reap_expired E c now random st =
     (let st = expire_leases E now st in finish_with (schedule E c now random 0 st) (Ok ()))"

definition drain_agents :: "'tx service_env \<Rightarrow> 'tx coordinator_state \<Rightarrow> 'tx coordinator_state" where
  "drain_agents E st = st \<lparr> cs_agents := map (\<lambda>(device_id, agent). (device_id,
     agent \<lparr> ag_draining := True, ag_free_slots := 0, ag_command_tx := fst (try_send E (ag_command_tx agent) (DrainCommand False)) \<rparr>))
     (cs_agents st) \<rparr>"

text \<open>\<open>measure\<close> calls it when the deadline of the caller has passed. The reason is \<open>CANCEL_CALLER_DEADLINE\<close>.\<close>

definition cancel_job :: "'tx service_env \<Rightarrow> bytes \<Rightarrow> 'tx coordinator_state \<Rightarrow> 'tx coordinator_state" where
  "cancel_job E job_id st =
     (let st = st \<lparr> cs_queue := remove1 job_id (cs_queue st) \<rparr> in
      case map_of (cs_jobs st) job_id of
        None \<Rightarrow> st
      | Some job \<Rightarrow>
          let st = st \<lparr> cs_jobs := AList.delete job_id (cs_jobs st) \<rparr>;
              st = (case lease_of (jb_state job) of
                      None \<Rightarrow> st
                    | Some active \<Rightarrow>
                        case map_of (cs_agents st) (al_device_id active) of
                          None \<Rightarrow> st
                        | Some agent \<Rightarrow>
                            let tx = fst (try_send E (ag_command_tx agent) (CancelCommand job_id (al_lease_id active) 1));
                                kept = (if map_of (ag_active agent) job_id = Some (al_lease_id active)
                                        then AList.delete job_id (ag_active agent) else ag_active agent)
                            in st \<lparr> cs_agents := AList.update (al_device_id active)
                                 (agent \<lparr> ag_command_tx := tx, ag_active := kept \<rparr>) (cs_agents st) \<rparr>)
          in release_artifacts (jb_descriptors job) st)"

definition disconnect :: "'tx service_env \<Rightarrow> coordinator_config \<Rightarrow> nat \<Rightarrow> (nat \<Rightarrow> bytes) \<Rightarrow> bytes \<Rightarrow> bytes \<Rightarrow> 'tx coordinator_state \<Rightarrow> 'tx coordinator_state \<times> (unit, service_error) outcome" where
  "disconnect E c now random device_id session_id st =
     (case map_of (cs_agents st) device_id of
        None \<Rightarrow> (st, Ok ())
      | Some agent \<Rightarrow>
          if ag_session_id agent \<noteq> session_id then (st, Ok ())
          else let st = remove_agent_session E device_id st in finish_with (schedule E c now random 0 st) (Ok ()))"

record coordinator_snapshot =
  sn_connected_agents :: nat
  sn_ready_agents :: nat
  sn_queued_jobs :: nat
  sn_active_leases :: nat
  sn_running_leases :: nat
  sn_artifact_items :: nat
  sn_artifact_bytes :: nat
  sn_committed_receipts :: nat

definition snapshot :: "'tx coordinator_state \<Rightarrow> coordinator_snapshot" where
  "snapshot st = \<lparr> sn_connected_agents = length (cs_agents st),
     sn_ready_agents = length (filter (\<lambda>(_, agent). 0 < ag_free_slots agent \<and> \<not> ag_draining agent) (cs_agents st)),
     sn_queued_jobs = length (cs_queue st),
     sn_active_leases = sum_list (map (\<lambda>(_, agent). length (ag_active agent)) (cs_agents st)),
     sn_running_leases = length (filter (\<lambda>(_, job). case jb_state job of Running _ \<Rightarrow> True | _ \<Rightarrow> False) (cs_jobs st)),
     sn_artifact_items = length (cs_artifacts st), sn_artifact_bytes = cs_artifact_bytes st,
     sn_committed_receipts = ledger_len (cs_receipts st) \<rparr>"

section \<open>Connecting agents\<close>

definition PROTOCOL_MAJOR :: u32 where
  "PROTOCOL_MAJOR = 1"

definition PROTOCOL_MINOR :: u32 where
  "PROTOCOL_MINOR = 1"

definition MAX_PROFILE_STRING_BYTES :: nat where
  "MAX_PROFILE_STRING_BYTES = 128"

definition MAX_AGENT_BUILD_BYTES :: nat where
  "MAX_AGENT_BUILD_BYTES = 128"

primrec check_profile_strings :: "(string \<times> string) list \<Rightarrow> (unit, service_error) outcome" where
  "check_profile_strings [] = Ok ()"
| "check_profile_strings (nv # rest) =
     (if snd nv = [] \<or> MAX_PROFILE_STRING_BYTES < length (snd nv)
      then Err (protocol_error (''device profile field '' @ fst nv @ '' has invalid length''))
      else check_profile_strings rest)"

definition validate_profile :: "device_profile \<Rightarrow> (unit, service_error) outcome" where
  "validate_profile p =
     obind (check_profile_strings [(''platform_family'', dp_platform_family p), (''board_model'', dp_board_model p), (''soc'', dp_soc p),
       (''gpu_architecture'', dp_gpu_architecture p), (''platform_release'', dp_platform_release p), (''cuda_version'', dp_cuda_version p),
       (''gpu_driver_version'', dp_gpu_driver_version p), (''compiler_version'', dp_compiler_version p),
       (''compiler_runtime_version'', dp_compiler_runtime_version p), (''power_profile'', dp_power_profile p),
       (''clock_policy'', dp_clock_policy p), (''cooling_policy'', dp_cooling_policy p)]) (\<lambda>_.
     obind (fixed_bytes 32 ''operating_system_image_digest'' (dp_operating_system_image_digest p)) (\<lambda>_.
     obind (fixed_bytes 32 ''agent_image_digest'' (dp_agent_image_digest p)) (\<lambda>_.
     if dp_measurement_protocol_version p \<noteq> MEASUREMENT_PROTOCOL_VERSION
     then Err (protocol_error ''unsupported device measurement protocol version'')
     else Ok ())))"

primrec check_capabilities :: "engine_capability list \<Rightarrow> (unit, service_error) outcome" where
  "check_capabilities [] = Ok ()"
| "check_capabilities (capability # rest) =
     (case cap_engine capability of
        None \<Rightarrow> Err (protocol_error ''capability engine identity is required'')
      | Some identity \<Rightarrow>
          obind (engine_identity_from_wire identity) (\<lambda>_.
          if cap_artifact_formats capability = [] \<or> cap_measure_config_encodings capability = [] \<or>
             cap_measurement_protocol_versions capability = []
          then Err (protocol_error ''capability lists must be non-empty'')
          else check_capabilities rest))"

text \<open>A phase is known if it is one of the ten values of \<open>JobPhase\<close>; 0 is unspecified.\<close>

primrec check_recoveries :: "lease_recovery list \<Rightarrow> bytes list \<Rightarrow> (unit, service_error) outcome" where
  "check_recoveries [] recovered_jobs = Ok ()"
| "check_recoveries (recovery # rest) recovered_jobs =
     obind (job_id_from_slice (lr_job_id recovery)) (\<lambda>job_id.
     if job_id \<in> set recovered_jobs then Err (protocol_error ''agent supplied duplicate lease recoveries'')
     else
       obind (lease_id_from_slice (lr_lease_id recovery)) (\<lambda>_.
       if \<not> (0 \<le> lr_phase recovery \<and> lr_phase recovery \<le> 9) then Err (protocol_error ''unknown recovery phase'')
       else if lr_phase recovery = 0 then Err (protocol_error ''recovery phase is unspecified'')
       else if \<not> lr_report_persisted recovery then Err (protocol_error ''this agent version can recover persisted reports only'')
       else check_recoveries rest (job_id # recovered_jobs)))"

definition validate_hello :: "coordinator_config \<Rightarrow> agent_hello \<Rightarrow> (unit, service_error) outcome" where
  "validate_hello c hello =
     (if ah_protocol_major hello \<noteq> PROTOCOL_MAJOR
      then Err (protocol_error (''unsupported protocol major '' @ show_nat (unat (ah_protocol_major hello))))
      else if ah_protocol_minor hello \<noteq> PROTOCOL_MINOR
      then Err (protocol_error (''unsupported protocol minor '' @ show_nat (unat (ah_protocol_minor hello))))
      else
        obind (device_id_from_slice (ah_device_id hello)) (\<lambda>_.
        if ah_agent_build hello = [] \<or> MAX_AGENT_BUILD_BYTES < length (ah_agent_build hello)
        then Err (protocol_error ''agent_build length is invalid'')
        else case ah_profile hello of
          None \<Rightarrow> Err (protocol_error ''device profile is required'')
        | Some profile \<Rightarrow>
            obind (validate_profile profile) (\<lambda>_.
            if ah_capabilities hello = [] then Err (protocol_error ''at least one engine capability is required'')
            else if ah_job_slots hello = 0 \<or> cc_command_capacity c < unat (ah_job_slots hello)
            then Err (protocol_error ''agent job_slots exceeds the coordinator capacity'')
            else
              obind (check_capabilities (ah_capabilities hello)) (\<lambda>_.
              if unat (ah_job_slots hello) < length (ah_recoveries hello)
              then Err (protocol_error ''agent supplied too many lease recoveries'')
              else check_recoveries (ah_recoveries hello) []))))"

definition authenticate_enrollment :: "enrollment \<Rightarrow> bytes option \<Rightarrow> bytes \<Rightarrow> (unit, service_error) outcome" where
  "authenticate_enrollment enrolled peer_fingerprint claimed_device =
     (case enrolled of
        MutualTls devices \<Rightarrow>
          (case peer_fingerprint of
             None \<Rightarrow> Err (authentication ''client certificate is required'')
           | Some fingerprint \<Rightarrow>
               case map_of devices fingerprint of
                 None \<Rightarrow> Err (authentication ''client certificate is not enrolled'')
               | Some device \<Rightarrow> if device \<noteq> claimed_device then Err (authentication ''certificate and device id do not match'') else Ok ())
      | InsecureForTests devices \<Rightarrow>
          if claimed_device \<notin> set devices then Err (authentication ''device id is not enrolled'') else Ok ())"

definition reconcile_one ::
    "coordinator_config \<Rightarrow> nat \<Rightarrow> bytes \<Rightarrow> bytes \<Rightarrow> bytes \<Rightarrow> bytes \<Rightarrow> (bytes \<times> bytes) list \<Rightarrow> 'tx coordinator_state \<Rightarrow>
       'tx coordinator_state \<times> (int \<times> (bytes \<times> bytes) list, service_error) outcome"
where
  "reconcile_one c now device_id session_id job_id lease_id agent_active st =
     (if ledger_contains job_id (cs_receipts st) then (st, Ok (RECOVERY_ALREADY_COMMITTED, agent_active))
      else case map_of (cs_jobs st) job_id of
        None \<Rightarrow> (st, Ok (RECOVERY_CANCEL, agent_active))
      | Some job \<Rightarrow>
          case jb_recovery job of
            None \<Rightarrow> (st, Ok (RECOVERY_CANCEL, agent_active))
          | Some active \<Rightarrow>
              if al_device_id active = device_id \<and> al_lease_id active = lease_id
              then
                sbind (slift (instant_add now (cc_lease_duration c)) st) (\<lambda>deadline st.
                let rebound = active \<lparr> al_current_session_id := session_id, al_deadline := deadline \<rparr>
                in (st \<lparr> cs_jobs := AList.update job_id (job \<lparr> jb_state := Running rebound, jb_recovery := None \<rparr>) (cs_jobs st),
                         cs_queue := remove1 job_id (cs_queue st) \<rparr>,
                    Ok (RECOVERY_SUBMIT_REPORT, AList.update job_id lease_id agent_active)))
              else (st, Ok (RECOVERY_CANCEL, agent_active)))"

fun reconcile_recoveries ::
    "coordinator_config \<Rightarrow> nat \<Rightarrow> bytes \<Rightarrow> bytes \<Rightarrow> lease_recovery list \<Rightarrow> recovery_disposition list \<Rightarrow> (bytes \<times> bytes) list \<Rightarrow>
       'tx coordinator_state \<Rightarrow> 'tx coordinator_state \<times> (recovery_disposition list \<times> (bytes \<times> bytes) list, service_error) outcome"
where
  "reconcile_recoveries c now device_id session_id [] dispositions agent_active st = (st, Ok (dispositions, agent_active))"
| "reconcile_recoveries c now device_id session_id (recovery # rest) dispositions agent_active st =
     sbind (slift (job_id_from_slice (lr_job_id recovery)) st) (\<lambda>job_id st.
     sbind (slift (lease_id_from_slice (lr_lease_id recovery)) st) (\<lambda>lease_id st.
     sbind (reconcile_one c now device_id session_id job_id lease_id agent_active st) (\<lambda>(action, agent_active) st.
     reconcile_recoveries c now device_id session_id rest
       (dispositions @ [\<lparr> rd_job_id = job_id, rd_lease_id = lease_id, rd_action = action \<rparr>]) agent_active st)))"

definition welcome_command :: "coordinator_config \<Rightarrow> bytes \<Rightarrow> digest \<Rightarrow> recovery_disposition list \<Rightarrow> coordinator_command" where
  "welcome_command c session_id profile_hash recoveries = WelcomeCommand
     \<lparr> aw_session_id = session_id, aw_negotiated_minor = PROTOCOL_MINOR, aw_device_profile_hash = profile_hash,
       aw_heartbeat_interval_ms = duration_ms (cc_heartbeat_interval c), aw_accept_timeout_ms = duration_ms (cc_accept_timeout c),
       aw_default_lease_duration_ms = duration_ms (cc_lease_duration c), aw_max_artifact_bytes = cc_max_artifact_bytes c,
       aw_artifact_chunk_bytes = of_nat (cc_artifact_chunk_bytes c), aw_max_measure_config_bytes = of_nat (cc_max_measure_config_bytes c),
       aw_max_engine_metadata_bytes = of_nat (cc_max_engine_metadata_bytes c),
       aw_max_samples_per_subject = of_nat (cc_max_samples_per_subject c), aw_max_telemetry_samples = of_nat (cc_max_telemetry_samples c),
       aw_max_bounded_string_bytes = 512, aw_recoveries = recoveries \<rparr>"

text \<open>
  \<open>first\<close> is the first message of the stream, if there is one, and the event in it, if any. The task
  that is spawned reads the later events, calls \<open>handle_agent_event\<close> for each until one fails, and
  then \<open>disconnect\<close>; these are the steps below. The welcome is sent right after the lock is released; here
  it is sent within the step. In between nothing can be leased to the session, which has no free
  slots before its first ready event.
\<close>

definition connect ::
    "'tx service_env \<Rightarrow> coordinator_config \<Rightarrow> nat \<Rightarrow> bytes \<Rightarrow> bytes option \<Rightarrow> agent_event option option \<Rightarrow>
       'tx coordinator_state \<Rightarrow> 'tx coordinator_state \<times> (unit, status) outcome"
where
  "connect E c now session_id peer_fingerprint first st =
     (case first of
        None \<Rightarrow> (st, Err (Status InvalidArgument ''AgentHello is required''))
      | Some (Some (HelloEvent hello)) \<Rightarrow>
          sbind (slift (map_err status_for_error (validate_hello c hello)) st) (\<lambda>_ st.
          sbind (slift (map_err status_for_error (device_id_from_slice (ah_device_id hello))) st) (\<lambda>device_id st.
          sbind (slift (map_err status_for_error (authenticate_enrollment (cc_enrollment c) peer_fingerprint device_id)) st) (\<lambda>_ st.
          case ah_profile hello of
            None \<Rightarrow> (st, Err (Status InvalidArgument ''device profile is required''))
          | Some profile \<Rightarrow>
              let profile_hash = device_profile_hash (rc_blake3 (env_codec E)) (encode_profile E) profile in
              case new_channel E (cc_command_capacity c) of
                None \<Rightarrow> (st, Panic)
              | Some command_tx \<Rightarrow>
                  let st = remove_agent_session E device_id st in
                  case reconcile_recoveries c now device_id session_id (ah_recoveries hello) [] [] st of
                    (st, Err e) \<Rightarrow> (st, Err (status_for_error e))
                  | (st, Panic) \<Rightarrow> (st, Panic)
                  | (st, Ok (recoveries, active)) \<Rightarrow>
                      let (tx, sent) = try_send E command_tx (welcome_command c session_id profile_hash recoveries);
                          st = st \<lparr> cs_agents := btree_insert device_id
                                 \<lparr> ag_session_id = session_id, ag_profile_hash = profile_hash, ag_capabilities = ah_capabilities hello,
                                   ag_command_tx = tx, ag_peer_fingerprint = peer_fingerprint, ag_slot_capacity = unat (ah_job_slots hello),
                                   ag_free_slots = 0, ag_draining = False, ag_active = active \<rparr> (cs_agents st) \<rparr>
                      in (st, if sent then Ok () else Err (Status ResourceExhausted ''agent command queue is full'')))))
      | Some _ \<Rightarrow> (st, Err (Status InvalidArgument ''first event must be AgentHello'')))"

section \<open>Agent events\<close>

definition validate_agent_lease_ids ::
    "'tx coordinator_state \<Rightarrow> bytes \<Rightarrow> bytes \<Rightarrow> bytes \<Rightarrow> bytes \<Rightarrow> bytes \<Rightarrow> (active_lease, service_error) outcome"
where
  "validate_agent_lease_ids st device_id session_id event_session event_job event_lease =
     obind (session_id_from_slice event_session) (\<lambda>event_session.
     if event_session \<noteq> session_id then Err (protocol_error ''event session id mismatch'')
     else
       obind (job_id_from_slice event_job) (\<lambda>job_id.
       obind (lease_id_from_slice event_lease) (\<lambda>lease_id.
       case map_of (cs_agents st) device_id of
         None \<Rightarrow> Err (protocol_error ''event agent is not connected'')
       | Some agent \<Rightarrow>
           if map_of (ag_active agent) job_id \<noteq> Some lease_id
           then Err (protocol_error ''event references a lease not active on the agent'')
           else case map_of (cs_jobs st) job_id of
             None \<Rightarrow> Err (protocol_error ''event references unknown job'')
           | Some job \<Rightarrow>
               case lease_of (jb_state job) of
                 None \<Rightarrow> Err (protocol_error ''event references an unleased job'')
               | Some active \<Rightarrow>
                   if al_device_id active \<noteq> device_id \<or> al_current_session_id active \<noteq> session_id \<or> al_lease_id active \<noteq> lease_id
                   then Err (protocol_error ''event lease identity mismatch'')
                   else Ok active)))"

definition set_job_state :: "bytes \<Rightarrow> job_state \<Rightarrow> 'tx coordinator_state \<Rightarrow> 'tx coordinator_state" where
  "set_job_state job_id s st =
     (case map_of (cs_jobs st) job_id of
        None \<Rightarrow> st
      | Some job \<Rightarrow> st \<lparr> cs_jobs := AList.update job_id (job \<lparr> jb_state := s \<rparr>) (cs_jobs st) \<rparr>)"

definition set_agent :: "bytes \<Rightarrow> ('tx agent_session \<Rightarrow> 'tx agent_session) \<Rightarrow> 'tx coordinator_state \<Rightarrow> 'tx coordinator_state" where
  "set_agent device_id f st =
     (case map_of (cs_agents st) device_id of
        None \<Rightarrow> st
      | Some agent \<Rightarrow> st \<lparr> cs_agents := AList.update device_id (f agent) (cs_agents st) \<rparr>)"

text \<open>The body of the \<open>match\<close> in \<open>handle_agent_event\<close>, for an agent that is connected with this session.\<close>

fun agent_event_update ::
    "coordinator_config \<Rightarrow> nat \<Rightarrow> bytes \<Rightarrow> bytes \<Rightarrow> 'tx agent_session \<Rightarrow> agent_event \<Rightarrow> 'tx coordinator_state \<Rightarrow> ('tx coordinator_state, service_error) outcome"
where
  "agent_event_update c now device_id session_id agent (ReadyEvent event_session free_slots) st =
     obind (session_id_from_slice event_session) (\<lambda>event_session.
     if event_session \<noteq> session_id then Err (protocol_error ''ready session id mismatch'')
     else if ag_slot_capacity agent < unat free_slots
     then Err (protocol_error ''free_slots exceeds the advertised agent slot capacity'')
     else Ok (set_agent device_id (\<lambda>agent. agent \<lparr> ag_free_slots :=
            min (unat free_slots) (ag_slot_capacity agent - min (length (ag_active agent)) (2 ^ 32 - 1)) \<rparr>) st))"
| "agent_event_update c now device_id session_id agent (AcceptedEvent event_session event_job event_lease) st =
     obind (validate_agent_lease_ids st device_id session_id event_session event_job event_lease) (\<lambda>active.
     obind (job_id_from_slice event_job) (\<lambda>job_id.
     case map_of (cs_jobs st) job_id of
       None \<Rightarrow> Panic
     | Some job \<Rightarrow>
         case jb_state job of
           Offered _ \<Rightarrow>
             obind (instant_add now (cc_lease_duration c)) (\<lambda>deadline.
             Ok (set_job_state job_id (Running (active \<lparr> al_deadline := deadline \<rparr>)) st))
         | _ \<Rightarrow> Err (protocol_error ''job was accepted more than once'')))"
| "agent_event_update c now device_id session_id agent (RejectedEvent event_session event_job event_lease) st =
     obind (validate_agent_lease_ids st device_id session_id event_session event_job event_lease) (\<lambda>active.
     obind (job_id_from_slice event_job) (\<lambda>job_id.
     Ok (requeue_active job_id active False st)))"
| "agent_event_update c now device_id session_id agent (HeartbeatEvent event_session event_job event_lease) st =
     obind (validate_agent_lease_ids st device_id session_id event_session event_job event_lease) (\<lambda>active.
     obind (job_id_from_slice event_job) (\<lambda>job_id.
     case map_of (cs_jobs st) job_id of
       None \<Rightarrow> Panic
     | Some job \<Rightarrow>
         case jb_state job of
           Running _ \<Rightarrow>
             obind (instant_add now (cc_lease_duration c)) (\<lambda>deadline.
             Ok (set_job_state job_id (Running (active \<lparr> al_deadline := deadline \<rparr>)) st))
         | _ \<Rightarrow> Err (protocol_error ''heartbeat preceded acceptance'')))"
| "agent_event_update c now device_id session_id agent (DrainingEvent event_session) st =
     obind (session_id_from_slice event_session) (\<lambda>event_session.
     if event_session \<noteq> session_id then Err (protocol_error ''draining session id mismatch'')
     else Ok (set_agent device_id (\<lambda>agent. agent \<lparr> ag_draining := True, ag_free_slots := 0 \<rparr>) st))"
| "agent_event_update c now device_id session_id agent (HelloEvent hello) st = Err (protocol_error ''AgentHello appeared more than once'')"

definition handle_agent_event ::
    "'tx service_env \<Rightarrow> coordinator_config \<Rightarrow> nat \<Rightarrow> (nat \<Rightarrow> bytes) \<Rightarrow> bytes \<Rightarrow> bytes \<Rightarrow> agent_event option \<Rightarrow>
       'tx coordinator_state \<Rightarrow> 'tx coordinator_state \<times> (unit, service_error) outcome"
where
  "handle_agent_event E c now random device_id session_id event st =
     (let st = expire_leases E now st in
      case map_of (cs_agents st) device_id of
        None \<Rightarrow> (st, Err (protocol_error ''agent session is not registered''))
      | Some agent \<Rightarrow>
          if ag_session_id agent \<noteq> session_id then (st, Err (protocol_error ''agent session was superseded''))
          else case event of
            None \<Rightarrow> (st, Err (protocol_error ''empty agent event''))
          | Some event \<Rightarrow>
              case agent_event_update c now device_id session_id agent event st of
                Err e \<Rightarrow> (st, Err e)
              | Panic \<Rightarrow> (st, Panic)
              | Ok st \<Rightarrow> finish_with (schedule E c now random 0 st) (Ok ()))"

section \<open>Artifacts and results\<close>

definition authenticate_session :: "'tx coordinator_state \<Rightarrow> bytes \<Rightarrow> bytes option \<Rightarrow> (bytes \<times> 'tx agent_session, status) outcome" where
  "authenticate_session st session_id peer_fingerprint =
     (case find (\<lambda>(_, agent). ag_session_id agent = session_id) (cs_agents st) of
        None \<Rightarrow> Err (Status PermissionDenied ''unknown agent session'')
      | Some (device_id, agent) \<Rightarrow>
          if ag_peer_fingerprint agent \<noteq> peer_fingerprint
          then Err (Status PermissionDenied ''data-plane peer differs from control session'')
          else Ok (device_id, agent))"

definition validate_active_lease :: "bytes \<Rightarrow> job \<Rightarrow> bytes \<times> 'tx agent_session \<Rightarrow> bytes \<Rightarrow> (unit, status) outcome" where
  "validate_active_lease job_id job agent lease_id =
     (case lease_of (jb_state job) of
        None \<Rightarrow> Err (Status FailedPrecondition ''job is not leased'')
      | Some active \<Rightarrow>
          if al_device_id active \<noteq> fst agent \<or> al_current_session_id active \<noteq> ag_session_id (snd agent) \<or>
             al_lease_id active \<noteq> lease_id \<or> map_of (ag_active (snd agent)) job_id \<noteq> Some lease_id
          then Err (Status PermissionDenied ''lease identity mismatch'')
          else Ok ())"

record artifact_chunk =
  ch_artifact_digest :: bytes
  ch_total_size :: u64
  ch_offset :: u64
  ch_data :: bytes

function artifact_chunks :: "digest \<Rightarrow> bytes \<Rightarrow> nat \<Rightarrow> nat \<Rightarrow> artifact_chunk list" where
  "artifact_chunks hash bytes chunk_bytes offset =
     (if chunk_bytes = 0 \<or> length bytes \<le> offset then []
      else \<lparr> ch_artifact_digest = hash, ch_total_size = of_nat (length bytes), ch_offset = of_nat offset,
             ch_data = take (min (offset + chunk_bytes) (length bytes) - offset) (drop offset bytes) \<rparr> #
           artifact_chunks hash bytes chunk_bytes (offset + chunk_bytes))"
  by pat_completeness auto
termination by (relation "measure (\<lambda>(hash, bytes, chunk, offset). length bytes - offset)") auto

declare artifact_chunks.simps [simp del]

text \<open>\<open>step_by(0)\<close> panics; the configuration excludes it.\<close>

definition fetch_artifact ::
    "coordinator_config \<Rightarrow> bytes option \<Rightarrow> bytes \<Rightarrow> bytes \<Rightarrow> bytes \<Rightarrow> bytes \<Rightarrow> nat \<Rightarrow> 'tx coordinator_state \<Rightarrow> (artifact_chunk list, status) outcome"
where
  "fetch_artifact c peer_fingerprint request_session request_job request_lease request_digest request_offset st =
     obind (map_err status_for_error (session_id_from_slice request_session)) (\<lambda>session_id.
     obind (map_err status_for_error (job_id_from_slice request_job)) (\<lambda>job_id.
     obind (map_err status_for_error (lease_id_from_slice request_lease)) (\<lambda>lease_id.
     obind (map_err status_for_error (artifact_digest_from_slice request_digest)) (\<lambda>hash.
     obind (authenticate_session st session_id peer_fingerprint) (\<lambda>agent.
     case map_of (cs_jobs st) job_id of
       None \<Rightarrow> Err (Status NotFound ''unknown job'')
     | Some job \<Rightarrow>
         obind (validate_active_lease job_id job agent lease_id) (\<lambda>_.
         if \<not> list_ex (\<lambda>descriptor. desc_digest descriptor = hash) (jb_descriptors job)
         then Err (Status PermissionDenied ''artifact is not authorized for this lease'')
         else case map_of (cs_artifacts st) hash of
           None \<Rightarrow> Err (Status DataLoss ''leased artifact is missing'')
         | Some artifact \<Rightarrow>
             if length (ar_bytes artifact) < request_offset then Err (Status InvalidArgument ''artifact offset exceeds size'')
             else if cc_artifact_chunk_bytes c = 0 then Panic
             else Ok (artifact_chunks hash (ar_bytes artifact) (cc_artifact_chunk_bytes c) request_offset)))))))"

primrec check_subjects :: "coordinator_config \<Rightarrow> nat \<Rightarrow> (subject_measurement \<times> graph_artifact) list \<Rightarrow> (unit, status) outcome" where
  "check_subjects c logical_index [] = Ok ()"
| "check_subjects c logical_index (pair # rest) =
     (if sm_logical_index (fst pair) \<noteq> of_nat logical_index \<or> sm_graph_hash (fst pair) \<noteq> ga_graph_hash (snd pair)
      then Err (Status InvalidArgument ''report subject mismatch'')
      else if cc_max_engine_metadata_bytes c < length (sm_engine_metadata (fst pair))
      then Err (Status ResourceExhausted ''engine metadata is too large'')
      else check_subjects c (logical_index + 1) rest)"

primrec check_samples :: "nat \<Rightarrow> nat list \<Rightarrow> measurement_sample list \<Rightarrow> (unit, status) outcome" where
  "check_samples schedule_index subject_sample_indices [] = Ok ()"
| "check_samples schedule_index subject_sample_indices (sample # rest) =
     (if sa_schedule_index sample \<noteq> of_nat schedule_index
      then Err (Status InvalidArgument ''report sample schedule is not contiguous'')
      else case get subject_sample_indices (unat (sa_logical_index sample)) of
        None \<Rightarrow> Err (Status InvalidArgument ''sample references an unknown subject'')
      | Some expected_index \<Rightarrow>
          if unat (sa_subject_sample_index sample) \<noteq> expected_index
          then Err (Status InvalidArgument ''subject sample indices are not contiguous'')
          else if 2 ^ 32 \<le> expected_index + 1 then Err (Status ResourceExhausted ''subject sample index overflow'')
          else check_samples (schedule_index + 1) (subject_sample_indices[unat (sa_logical_index sample) := expected_index + 1]) rest)"

text \<open>The outcomes are 0 (unspecified), 1 (succeeded) and the failures 2 to 11.\<close>

definition check_outcome :: "measure_report \<Rightarrow> (unit, status) outcome" where
  "check_outcome report =
     (if \<not> (0 \<le> rp_outcome report \<and> rp_outcome report \<le> 11) then Err (Status InvalidArgument ''unknown report outcome'')
      else if rp_outcome report = 0 then Err (Status InvalidArgument ''report outcome is unspecified'')
      else if rp_outcome report = 1
      then (if rp_failure report \<noteq> None \<or>
               list_ex (\<lambda>subject. case sm_scalar_reward subject of None \<Rightarrow> True | Some reward \<Rightarrow> \<not> f64_is_finite reward) (rp_subjects report)
            then Err (Status InvalidArgument ''successful report is malformed'')
            else Ok ())
      else case rp_failure report of
        None \<Rightarrow> Err (Status InvalidArgument ''failed report omitted detail'')
      | Some failure \<Rightarrow>
          if list_ex (\<lambda>subject. sm_scalar_reward subject \<noteq> None) (rp_subjects report)
          then Err (Status InvalidArgument ''failed report included scalar reward'')
          else if 512 < length (fd_bounded_message failure) then Err (Status ResourceExhausted ''failure message is too large'')
          else Ok ())"

definition validate_report ::
    "coordinator_config \<Rightarrow> bytes \<Rightarrow> job \<Rightarrow> bytes \<times> 'tx agent_session \<Rightarrow> bytes \<Rightarrow> bytes \<Rightarrow> measure_report \<Rightarrow> (unit, status) outcome"
where
  "validate_report c job_id job agent current_session lease_id report =
     (case jb_state job of
        Offered _ \<Rightarrow> Err (Status FailedPrecondition ''job was not accepted'')
      | Queued \<Rightarrow> Err (Status FailedPrecondition ''job is not leased'')
      | Running active \<Rightarrow>
          if al_device_id active \<noteq> fst agent \<or> al_current_session_id active \<noteq> current_session \<or>
             al_lease_id active \<noteq> lease_id \<or> map_of (ag_active (snd agent)) job_id \<noteq> Some lease_id
          then Err (Status FailedPrecondition ''stale lease'')
          else if rp_origin_session_id report \<noteq> al_origin_session_id active \<or>
             rp_device_profile_hash report \<noteq> ag_profile_hash (snd agent) \<or> rp_measurement_key report \<noteq> jb_measurement_key job \<or>
             rp_request_nonce report \<noteq> jb_request_nonce job \<or>
             rp_measure_config_hash report \<noteq> mo_config_hash (ms_options (jb_submission job)) \<or>
             rp_kind report \<noteq> kind_wire (ms_kind (jb_submission job)) \<or>
             rp_engine report \<noteq> Some (engine_identity_to_wire (ms_engine (jb_submission job)))
          then Err (Status InvalidArgument ''report identity mismatch'')
          else if length (rp_subjects report) \<noteq> length (ms_subjects (jb_submission job))
          then Err (Status InvalidArgument ''report subject mismatch'')
          else
            obind (check_subjects c 0 (zip (rp_subjects report) (ms_subjects (jb_submission job)))) (\<lambda>_.
            if USIZE_MAX < cc_max_samples_per_subject c * length (rp_subjects report)
            then Err (Status ResourceExhausted ''report sample limit overflow'')
            else if cc_max_samples_per_subject c * length (rp_subjects report) < length (rp_samples report) \<or>
              cc_max_telemetry_samples c < length (rp_telemetry report)
            then Err (Status ResourceExhausted ''report evidence is too large'')
            else obind (check_samples 0 (replicate (length (rp_subjects report)) 0) (rp_samples report)) (\<lambda>_. check_outcome report)))"

text \<open>The disposition of a result: 1 committed, 3 already committed, 6 invalid report.\<close>

record submit_result_ack =
  sr_disposition :: int
  sr_agent_may_delete_report :: bool
  sr_bounded_message :: string

abbreviation already_committed :: submit_result_ack where
  "already_committed \<equiv> \<lparr> sr_disposition = 3, sr_agent_may_delete_report = True, sr_bounded_message = ''result already committed'' \<rparr>"

abbreviation conflicting_report :: submit_result_ack where
  "conflicting_report \<equiv> \<lparr> sr_disposition = 6, sr_agent_may_delete_report = True,
     sr_bounded_message = ''job already has a different committed report'' \<rparr>"

abbreviation result_committed :: submit_result_ack where
  "result_committed \<equiv> \<lparr> sr_disposition = 1, sr_agent_may_delete_report = True, sr_bounded_message = ''result committed'' \<rparr>"

definition complete_job :: "bytes \<Rightarrow> bytes \<Rightarrow> job \<Rightarrow> measure_report \<Rightarrow> 'tx coordinator_state \<Rightarrow> 'tx coordinator_state" where
  "complete_job device_id job_id job report st =
     (let st = st \<lparr> cs_jobs := AList.delete job_id (cs_jobs st), cs_queue := remove1 job_id (cs_queue st) \<rparr>;
          st = set_agent device_id (\<lambda>agent. agent \<lparr> ag_active := AList.delete job_id (ag_active agent) \<rparr>) st;
          st = release_artifacts (jb_descriptors job) st
      in if jb_reply job then st \<lparr> cs_replies := cs_replies st @ [(job_id, report)] \<rparr> else st)"

definition submit_result ::
    "'tx service_env \<Rightarrow> coordinator_config \<Rightarrow> nat \<Rightarrow> (nat \<Rightarrow> bytes) \<Rightarrow> (nat \<times> string) option \<Rightarrow> bytes option \<Rightarrow> bytes \<Rightarrow>
       measure_report option \<Rightarrow> 'tx coordinator_state \<Rightarrow> 'tx coordinator_state \<times> (submit_result_ack, status) outcome"
where
  "submit_result E c now random fault peer_fingerprint request_session request_report st =
     sbind (slift (map_err status_for_error (session_id_from_slice request_session)) st) (\<lambda>current_session st.
     case request_report of
       None \<Rightarrow> (st, Err (Status InvalidArgument ''measure report is required''))
     | Some report \<Rightarrow>
         sbind (slift (map_err status_for_error (job_id_from_slice (rp_job_id report))) st) (\<lambda>job_id st.
         sbind (slift (map_err status_for_error (lease_id_from_slice (rp_lease_id report))) st) (\<lambda>lease_id st.
         sbind (slift (authenticate_session st current_session peer_fingerprint) st) (\<lambda>agent st.
         sbind (slift (map_err status_for_error (device_id_from_slice (rp_device_id report))) st) (\<lambda>device_id st.
         if device_id \<noteq> fst agent then (st, Err (Status PermissionDenied ''report device identity mismatch''))
         else case receipt_state_of (env_codec E) job_id report (cs_receipts st) of
           Identical \<Rightarrow> (st, Ok already_committed)
         | Conflict \<Rightarrow> (st, Ok conflicting_report)
         | Missing \<Rightarrow>
             case map_of (cs_jobs st) job_id of
               None \<Rightarrow> (st, Err (Status NotFound ''unknown job''))
             | Some job \<Rightarrow>
                 sbind (slift (validate_report c job_id job agent current_session lease_id report) st) (\<lambda>_ st.
                 case ledger_commit (env_codec E) fault job_id report (cs_receipts st) of
                   (receipts, Err e) \<Rightarrow> (st \<lparr> cs_receipts := receipts \<rparr>, Err (status_for_error e))
                 | (receipts, Panic) \<Rightarrow> (st \<lparr> cs_receipts := receipts \<rparr>, Panic)
                 | (receipts, Ok Identical) \<Rightarrow> (st \<lparr> cs_receipts := receipts \<rparr>, Ok already_committed)
                 | (receipts, Ok Conflict) \<Rightarrow> (st \<lparr> cs_receipts := receipts \<rparr>, Ok conflicting_report)
                 | (receipts, Ok Missing) \<Rightarrow>
                     let st = complete_job device_id job_id job report (st \<lparr> cs_receipts := receipts \<rparr>)
                     in finish_with (schedule E c now random 0 st) (Ok result_committed)))))))"

end
