(* ===== verification/Measure_Fleet.thy ===== *)
theory Measure_Fleet
  imports Measure_Coordinator
begin

text \<open>
  What the coordinator guarantees. The first part abstracts its state to three maps: the lease of each
  job, the queue, and what each connected session believes to hold; \<open>lease_ok\<close> says that they agree.
  The second shows what no handler touches, also where it panics, and that every handler that returns keeps
  the agreement and the slot counts, whatever the order of events, the clock, the random identifiers
  and the channels do; and that a handler panics only where a deadline does not fit.
\<close>

section \<open>Who holds which job\<close>

text \<open>
  A holding is a device, a session of it, a job and a lease. The jobs tell which holdings there should
  be, the sessions which there are.
\<close>

type_synonym holding = "bytes \<times> bytes \<times> bytes \<times> bytes"
type_synonym lease_view = "bytes \<rightharpoonup> active_lease option"

definition leased :: "lease_view \<Rightarrow> holding set" where
  "leased L = {(d, s, j, l). \<exists>a. L j = Some (Some a) \<and> al_device_id a = d \<and> al_current_session_id a = s \<and> al_lease_id a = l}"

definition without_job :: "bytes \<Rightarrow> holding set \<Rightarrow> holding set" where
  "without_job j H = {(d, s, i, l) \<in> H. i \<noteq> j}"

text \<open>A job is queued, once, exactly if it has no lease, and \<open>H\<close> are the leases there are.\<close>

definition lease_ok :: "lease_view \<Rightarrow> bytes list \<Rightarrow> holding set \<Rightarrow> bool" where
  "lease_ok L Q H \<longleftrightarrow> distinct Q \<and> (\<forall>j. j \<in> set Q \<longleftrightarrow> L j = Some None) \<and> leased L = H"

lemma leased_upd:
  "leased (L(j := None)) = without_job j (leased L)"
  "leased (L(j \<mapsto> None)) = without_job j (leased L)"
  "leased (L(j \<mapsto> Some a)) = insert (al_device_id a, al_current_session_id a, j, al_lease_id a) (without_job j (leased L))"
  by (auto simp: leased_def without_job_def split: if_splits)

lemma leased_job: "(d, s, j, l) \<in> leased L \<Longrightarrow> L j = Some (Some a) \<Longrightarrow> d = al_device_id a \<and> s = al_current_session_id a \<and> l = al_lease_id a"
  by (auto simp: leased_def)

lemma leased_mem: "L j = Some (Some a) \<Longrightarrow> (al_device_id a, al_current_session_id a, j, al_lease_id a) \<in> leased L"
  by (auto simp: leased_def)

lemma without_job_unleased: "L j = None \<or> L j = Some None \<Longrightarrow> without_job j (leased L) = leased L"
  by (auto simp: leased_def without_job_def)

lemma without_job_leased: "L j = Some (Some a) \<Longrightarrow> without_job j (leased L) = leased L - {(al_device_id a, al_current_session_id a, j, al_lease_id a)}"
  by (auto simp: leased_def without_job_def)

lemma lease_ok_new_job: "lease_ok L Q H \<Longrightarrow> L j = None \<Longrightarrow> lease_ok (L(j \<mapsto> None)) (Q @ [j]) H"
  by (auto simp: lease_ok_def leased_upd without_job_unleased)

lemma lease_ok_requeue:
  "lease_ok L Q H \<Longrightarrow> L j = Some (Some a) \<Longrightarrow> lease_ok (L(j \<mapsto> None)) (Q @ [j]) (H - {(al_device_id a, al_current_session_id a, j, al_lease_id a)})"
  by (auto simp: lease_ok_def leased_upd without_job_leased)

lemma lease_ok_offer:
  "lease_ok L Q H \<Longrightarrow> L j = Some None \<Longrightarrow>
     lease_ok (L(j \<mapsto> Some a)) (remove1 j Q) (insert (al_device_id a, al_current_session_id a, j, al_lease_id a) H)"
  by (auto simp: lease_ok_def leased_upd without_job_unleased set_remove1_eq)

lemma lease_ok_renew:
  "lease_ok L Q H \<Longrightarrow> L j = Some (Some a) \<Longrightarrow> al_device_id b = al_device_id a \<Longrightarrow> al_current_session_id b = al_current_session_id a \<Longrightarrow>
     al_lease_id b = al_lease_id a \<Longrightarrow> lease_ok (L(j \<mapsto> Some b)) Q H"
  using leased_mem [of L j a] by (auto simp: lease_ok_def leased_upd without_job_leased)

lemma lease_ok_forget: "lease_ok L Q H \<Longrightarrow> lease_ok (L(j := None)) (remove1 j Q) (without_job j H)"
  by (auto simp: lease_ok_def leased_upd set_remove1_eq)

section \<open>The coordinator's state seen this way\<close>

definition lease_map :: "'tx coordinator_state \<Rightarrow> lease_view" where
  "lease_map st j = map_option (\<lambda>job. lease_of (jb_state job)) (map_of (cs_jobs st) j)"

definition holdings :: "(bytes \<times> 'tx agent_session) list \<Rightarrow> holding set" where
  "holdings agents = {(d, s, j, l). \<exists>agent. map_of agents d = Some agent \<and> ag_session_id agent = s \<and> map_of (ag_active agent) j = Some l}"

text \<open>Per session: no job twice, and never more jobs than the slots it announced.\<close>

definition agent_ok :: "'tx agent_session \<Rightarrow> bool" where
  "agent_ok agent \<longleftrightarrow> distinct (map fst (ag_active agent)) \<and> ag_free_slots agent + length (ag_active agent) \<le> ag_slot_capacity agent \<and>
     ag_slot_capacity agent < 2 ^ 32"

text \<open>
  \<open>fleet_inv_with H\<close> is the invariant in a state where the holdings \<open>H\<close> are not recorded in the sessions:
  none between two handlers, those of a session that is being removed or set up within one.
\<close>

definition fleet_inv_with :: "holding set \<Rightarrow> 'tx coordinator_state \<Rightarrow> bool" where
  "fleet_inv_with H st \<longleftrightarrow>
     lease_ok (lease_map st) (cs_queue st) (holdings (cs_agents st) \<union> H) \<and>
     distinct (map fst (cs_jobs st)) \<and> distinct (map fst (cs_agents st)) \<and>
     (\<forall>j job. map_of (cs_jobs st) j = Some job \<longrightarrow> jb_recovery job \<noteq> None \<longrightarrow> jb_state job = Queued) \<and>
     (\<forall>d agent. map_of (cs_agents st) d = Some agent \<longrightarrow> agent_ok agent)"

abbreviation fleet_inv :: "'tx coordinator_state \<Rightarrow> bool" where
  "fleet_inv st \<equiv> fleet_inv_with {} st"

lemma fleet_invD:
  assumes "fleet_inv_with H st"
  shows "lease_ok (lease_map st) (cs_queue st) (holdings (cs_agents st) \<union> H)" "distinct (map fst (cs_jobs st))" "distinct (map fst (cs_agents st))"
    "map_of (cs_jobs st) j = Some job \<Longrightarrow> jb_recovery job \<noteq> None \<Longrightarrow> jb_state job = Queued"
    "map_of (cs_agents st) d = Some agent \<Longrightarrow> agent_ok agent"
  using assms unfolding fleet_inv_with_def by blast+

lemma fleet_invI:
  assumes "lease_ok (lease_map st) (cs_queue st) (holdings (cs_agents st) \<union> H)" "distinct (map fst (cs_jobs st))" "distinct (map fst (cs_agents st))"
    "\<And>j job. map_of (cs_jobs st) j = Some job \<Longrightarrow> jb_recovery job \<noteq> None \<Longrightarrow> jb_state job = Queued"
    "\<And>d agent. map_of (cs_agents st) d = Some agent \<Longrightarrow> agent_ok agent"
  shows "fleet_inv_with H st"
  using assms unfolding fleet_inv_with_def by blast

lemma fleet_inv_held:
  assumes "fleet_inv_with H st" "map_of (cs_agents st) d = Some agent" "map_of (ag_active agent) j = Some l"
  shows "\<exists>a. lease_map st j = Some (Some a) \<and> al_device_id a = d \<and> al_current_session_id a = ag_session_id agent \<and> al_lease_id a = l"
proof -
  have "(d, ag_session_id agent, j, l) \<in> holdings (cs_agents st)" using assms(2,3) by (auto simp: holdings_def)
  then have "(d, ag_session_id agent, j, l) \<in> leased (lease_map st)" using fleet_invD(1) [OF assms(1)] by (simp add: lease_ok_def)
  then show ?thesis by (auto simp: leased_def)
qed

lemma map_of_update [simp]: "map_of (AList.update k v m) = (map_of m)(k \<mapsto> v)"
  by (simp add: update_conv')

lemma update_new: "k \<notin> set (map fst m) \<Longrightarrow> AList.update k v m = m @ [(k, v)]"
  by (induction m) auto

lemma map_of_delete [simp]: "map_of (AList.delete k m) = (map_of m)(k := None)"
  by (simp add: delete_conv')

lemma lease_map_update: "lease_map (st \<lparr> cs_jobs := AList.update j job (cs_jobs st) \<rparr>) = (lease_map st)(j \<mapsto> lease_of (jb_state job))"
  by (auto simp: lease_map_def)

lemma lease_map_delete: "lease_map (st \<lparr> cs_jobs := AList.delete j (cs_jobs st) \<rparr>) = (lease_map st)(j := None)"
  by (auto simp: lease_map_def)

lemma held_same:
  assumes "map_of agents d = Some agent" "ag_session_id agent' = ag_session_id agent" "map_of (ag_active agent') = map_of (ag_active agent)"
  shows "holdings (AList.update d agent' agents) = holdings agents"
  using assms by (auto simp: holdings_def split: if_splits)

lemma held_add:
  assumes "map_of agents d = Some agent" "ag_session_id agent' = ag_session_id agent" "map_of (ag_active agent') = (map_of (ag_active agent))(j \<mapsto> l)"
    "map_of (ag_active agent) j = None"
  shows "holdings (AList.update d agent' agents) = insert (d, ag_session_id agent, j, l) (holdings agents)"
  using assms by (auto simp: holdings_def split: if_splits)

lemma held_remove:
  assumes "map_of agents d = Some agent" "ag_session_id agent' = ag_session_id agent" "map_of (ag_active agent') = (map_of (ag_active agent))(j := None)"
    "map_of (ag_active agent) j = Some l"
  shows "holdings (AList.update d agent' agents) = holdings agents - {(d, ag_session_id agent, j, l)}"
  using assms by (auto simp: holdings_def split: if_splits)

lemma agent_ok_active: "agent_ok agent \<Longrightarrow> agent_ok (agent \<lparr> ag_active := AList.delete j (ag_active agent) \<rparr>)"
  using length_delete_le [of j "ag_active agent"] by (auto simp: agent_ok_def distinct_delete)

section \<open>What leases never touch\<close>

text \<open>
  The moves of leases leave alone what was submitted, the artifacts, the receipts and the replies;
  the other invariants only speak of these.
\<close>

definition job_static :: "(bytes \<times> job) list \<Rightarrow> (bytes \<times> measure_submission \<times> artifact_desc list \<times> bool) list" where
  "job_static jobs = map (\<lambda>(j, job). (j, jb_submission job, jb_descriptors job, jb_reply job)) jobs"

definition same_rest :: "'tx coordinator_state \<Rightarrow> 'tx coordinator_state \<Rightarrow> bool" where
  "same_rest st st' \<longleftrightarrow>
     job_static (cs_jobs st') = job_static (cs_jobs st) \<and> cs_artifacts st' = cs_artifacts st \<and>
     cs_artifact_bytes st' = cs_artifact_bytes st \<and> cs_receipts st' = cs_receipts st \<and> cs_replies st' = cs_replies st"

lemma same_rest_refl [simp]: "same_rest st st"
  by (simp add: same_rest_def)

lemma same_rest_trans: "same_rest st st' \<Longrightarrow> same_rest st' st'' \<Longrightarrow> same_rest st st''"
  by (simp add: same_rest_def)

lemma map_update_same: "map_of m k = Some w \<Longrightarrow> f (k, v) = f (k, w) \<Longrightarrow> map f (AList.update k v m) = map f m"
  by (induction m) (auto split: if_splits)

lemma job_static_update [simp]:
  assumes "map_of jobs j = Some job" "jb_submission job' = jb_submission job" "jb_descriptors job' = jb_descriptors job" "jb_reply job' = jb_reply job"
  shows "job_static (AList.update j job' jobs) = job_static jobs"
  unfolding job_static_def by (rule map_update_same [OF assms(1)]) (simp add: assms)

text \<open>
  The keys of the jobs and of the sessions stay distinct as well. All of this holds for every handler and in every
  state, also where a handler panics half way.
\<close>

definition lease_moves :: "'tx coordinator_state \<Rightarrow> 'tx coordinator_state \<Rightarrow> bool" where
  "lease_moves st st' \<longleftrightarrow> same_rest st st' \<and> (distinct (map fst (cs_agents st)) \<longrightarrow> distinct (map fst (cs_agents st')))"

lemma lease_moves_refl [simp]: "lease_moves st st"
  by (simp add: lease_moves_def)

lemma lease_moves_trans: "lease_moves st st' \<Longrightarrow> lease_moves st' st'' \<Longrightarrow> lease_moves st st''"
  unfolding lease_moves_def using same_rest_trans by blast

lemma lease_movesI: "same_rest st st' \<Longrightarrow> map fst (cs_agents st') = map fst (cs_agents st) \<Longrightarrow> lease_moves st st'"
  by (simp add: lease_moves_def)

lemma lease_moves_rest: "lease_moves st st' \<Longrightarrow> same_rest st st'"
  by (simp add: lease_moves_def)

lemma job_static_keys: "map fst (job_static jobs) = map fst jobs"
  by (simp add: job_static_def comp_def case_prod_unfold)

lemma same_rest_keys:
  assumes "same_rest st st'"
  shows "map fst (cs_jobs st') = map fst (cs_jobs st)"
proof -
  have "map fst (job_static (cs_jobs st')) = map fst (job_static (cs_jobs st))" using assms by (simp add: same_rest_def)
  then show ?thesis by (simp only: job_static_keys)
qed

lemma requeue_active_moves [simp]: "lease_moves st (requeue_active j a p st)"
  by (rule lease_movesI) (auto simp: requeue_active_def Let_def same_rest_def split: option.splits)

lemma fold_moves:
  assumes "\<And>x st. lease_moves st (f x st)"
  shows "lease_moves st (fold f xs st)"
proof (induction xs arbitrary: st)
  case (Cons x xs)
  then show ?case using lease_moves_trans [OF assms [of st x]] by simp
qed simp

lemma expire_leases_moves: "lease_moves st (expire_leases E now st)"
  unfolding expire_leases_def Let_def by (rule fold_moves) auto

lemma revoke_lease_moves [simp]: "lease_moves st (revoke_lease j l st)"
  by (auto simp: revoke_lease_def split: option.splits)

lemma remove_agent_session_moves: "lease_moves st (remove_agent_session E d st)"
proof (cases "map_of (cs_agents st) d")
  case (Some agent)
  let ?st = "st \<lparr> cs_agents := AList.delete d (cs_agents st) \<rparr>"
  have "lease_moves ?st (fold (\<lambda>(j, l) st. revoke_lease j l st) (hash_entries E (ag_active agent)) ?st)" by (rule fold_moves) auto
  moreover have "lease_moves st ?st" by (simp add: lease_moves_def same_rest_def distinct_delete)
  ultimately show ?thesis using lease_moves_trans Some by (fastforce simp: remove_agent_session_def)
qed (simp add: remove_agent_session_def)

text \<open>What a round of the scheduler does if it finds the agent and the job, and if the deadline fits.\<close>

lemma offer_eq:
  assumes agent: "map_of (cs_agents st) d = Some agent" and job: "map_of (cs_jobs st) j = Some job"
  shows "offer E c now l j d st =
    (if now + cc_accept_timeout c \<le> INSTANT_MAX
     then let a = \<lparr> al_device_id = d, al_current_session_id = ag_session_id agent, al_origin_session_id = ag_session_id agent,
                    al_lease_id = l, al_deadline = now + cc_accept_timeout c \<rparr>;
              send = try_send E (ag_command_tx agent) (lease_command c job j a);
              st = st \<lparr> cs_queue := remove1 j (cs_queue st),
                cs_jobs := AList.update j (job \<lparr> jb_state := Offered a, jb_recovery := None \<rparr>) (cs_jobs st),
                cs_agents := AList.update d (agent \<lparr> ag_free_slots := ag_free_slots agent - 1,
                  ag_active := AList.update j l (ag_active agent), ag_command_tx := fst send \<rparr>) (cs_agents st) \<rparr>
          in (if snd send then st else remove_agent_session E d st, Ok ())
     else (st \<lparr> cs_queue := remove1 j (cs_queue st) \<rparr>, Panic))"
  using assms by (simp add: offer_def instant_add_def Let_def case_prod_unfold)

lemma offer_moves: "lease_moves st (fst (offer E c now l j d st))"
proof (cases "map_of (cs_agents st) d = None \<or> map_of (cs_jobs st) j = None")
  case True
  have "fst (offer E c now l j d st) = st \<lparr> cs_queue := remove1 j (cs_queue st) \<rparr>"
    using True by (cases "map_of (cs_agents st) d") (simp_all add: offer_def Let_def instant_add_def)
  then show ?thesis by (simp add: lease_moves_def same_rest_def)
next
  case False
  then obtain agent job where found: "map_of (cs_agents st) d = Some agent" "map_of (cs_jobs st) j = Some job" by auto
  have mid: "lease_moves st (st \<lparr> cs_queue := remove1 j (cs_queue st), cs_jobs := AList.update j (job \<lparr> jb_state := s, jb_recovery := None \<rparr>) (cs_jobs st),
      cs_agents := AList.update d agent' (cs_agents st) \<rparr>)" for s agent'
    using found by (simp add: lease_moves_def same_rest_def)
  moreover note lease_moves_trans [OF mid remove_agent_session_moves]
  moreover have "lease_moves st (st \<lparr> cs_queue := remove1 j (cs_queue st) \<rparr>)" by (simp add: lease_moves_def same_rest_def)
  ultimately show ?thesis by (simp add: offer_eq [OF found] Let_def)
qed

lemma schedule_moves: "lease_moves st (fst (schedule E c now random n st))"
proof (induction E c now random n st rule: schedule.induct)
  case (1 E c now random n st)
  note unfold = schedule.simps [of E c now random n st]
  show ?case
  proof (cases "find_assignment st")
    case (Some jd)
    obtain j d where jd: "jd = (j, d)" by (cases jd)
    have q: "j \<in> set (cs_queue st)" by (rule find_assignment_SomeD [OF Some [unfolded jd]])
    obtain mid r where mid: "offer E c now (random n) j d st = (mid, r)"
      by (cases "offer E c now (random n) j d st")
    have moves: "lease_moves st mid" using offer_moves [of st E c now "random n" j d] mid by simp
    show ?thesis
    proof (cases r)
      case (Ok u)
      then have "lease_moves mid (fst (schedule E c now random (n + 1) mid))" using 1(1) [OF Some jd [symmetric] q mid [symmetric] Ok] by simp
      then show ?thesis using lease_moves_trans [OF moves] Some jd q mid Ok by (simp add: unfold)
    qed (use Some jd q mid moves in \<open>simp_all add: unfold\<close>)
  qed (simp add: unfold)
qed

lemma finish_with_moves: "finish_with (schedule E c now random 0 st) result = (st', r) \<Longrightarrow> lease_moves st st' \<and> (r = result \<or> r = Panic)"
  using schedule_moves [of st E c now random 0]
  by (auto simp: finish_with_def split: prod.splits outcome.splits)

lemma set_agent_moves [simp]: "lease_moves st (set_agent d f st)"
  by (auto simp: set_agent_def lease_moves_def same_rest_def split: option.splits)

lemma set_job_state_moves [simp]: "lease_moves st (set_job_state j s st)"
  by (auto simp: set_job_state_def lease_moves_def same_rest_def split: option.splits)

section \<open>Moves of leases keep the invariant\<close>

text \<open>Iterating over a hash map visits every key once.\<close>

definition hash_order_ok :: "'tx service_env \<Rightarrow> bool" where
  "hash_order_ok E \<longleftrightarrow> (\<forall>ks. distinct ks \<longrightarrow> distinct (hash_order E ks) \<and> set (hash_order E ks) = set ks)"

lemma hash_entries_props:
  assumes "hash_order_ok E" "distinct (map fst m)"
  shows "set (hash_entries E m) = set m" "distinct (map fst (hash_entries E m))"
proof -
  have order: "distinct (hash_order E (map fst m))" "set (hash_order E (map fst m)) = fst ` set m"
    using assms by (auto simp: hash_order_ok_def)
  have entries: "hash_entries E m = map (\<lambda>k. (k, the (map_of m k))) (hash_order E (map fst m))"
  proof -
    have "List.map_filter (\<lambda>k. map_option (Pair k) (map_of m k)) ks = map (\<lambda>k. (k, the (map_of m k))) ks"
      if "set ks \<subseteq> fst ` set m" for ks
      using that by (induction ks) (auto simp: List.map_filter_simps split: option.splits simp: map_of_eq_None_iff rev_image_eqI)
    then show ?thesis unfolding hash_entries_def using order(2) by simp
  qed
  show "set (hash_entries E m) = set m"
  proof -
    have "(\<lambda>x. (fst x, the (map_of m (fst x)))) ` set m = (\<lambda>x. x) ` set m" by (rule image_cong) (auto simp: assms(2))
    then show ?thesis unfolding entries using order(2) by (simp add: image_image)
  qed
  show "distinct (map fst (hash_entries E m))" unfolding entries using order(1) by (simp add: comp_def)
qed

lemma requeue_active_jobs:
  assumes "map_of (cs_jobs st) j = Some job"
  shows "lease_map (requeue_active j a p st) = (lease_map st)(j \<mapsto> None)"
    "map fst (cs_jobs (requeue_active j a p st)) = map fst (cs_jobs st)"
    "cs_queue (requeue_active j a p st) = (if j \<in> set (cs_queue st) then cs_queue st else cs_queue st @ [j])"
    "map_of (cs_jobs (requeue_active j a p st)) = (map_of (cs_jobs st))(j \<mapsto> job \<lparr> jb_state := Queued, jb_recovery := if p then Some a else None \<rparr>)"
  using assms by (auto simp: requeue_active_def Let_def lease_map_def split: option.splits)

lemma requeue_active_held:
  "holdings (cs_agents (requeue_active j a p st)) = holdings (cs_agents st) - {(al_device_id a, al_current_session_id a, j, al_lease_id a)}"
proof (cases "(al_device_id a, al_current_session_id a, j, al_lease_id a) \<in> holdings (cs_agents st)")
  case True
  then obtain agent where agent: "map_of (cs_agents st) (al_device_id a) = Some agent" "ag_session_id agent = al_current_session_id a"
    "map_of (ag_active agent) j = Some (al_lease_id a)" by (auto simp: holdings_def)
  then have "cs_agents (requeue_active j a p st) =
      AList.update (al_device_id a) (agent \<lparr> ag_active := AList.delete j (ag_active agent) \<rparr>) (cs_agents st)"
    by (auto simp: requeue_active_def Let_def split: option.splits)
  then show ?thesis using held_remove [OF agent(1) _ _ agent(3)] agent(2) by simp
next
  case False
  then have "cs_agents (requeue_active j a p st) = cs_agents st"
    by (auto simp: requeue_active_def Let_def holdings_def split: option.splits)
  then show ?thesis using False by simp
qed

lemma requeue_active_agents_cases:
  obtains "cs_agents (requeue_active j a p st) = cs_agents st"
  | old where "map_of (cs_agents st) (al_device_id a) = Some old"
    "cs_agents (requeue_active j a p st) = AList.update (al_device_id a) (old \<lparr> ag_active := AList.delete j (ag_active old) \<rparr>) (cs_agents st)"
proof (cases "map_of (cs_agents st) (al_device_id a)")
  case None
  then have "cs_agents (requeue_active j a p st) = cs_agents st"
    by (cases "map_of (cs_jobs st) j") (simp_all add: requeue_active_def Let_def)
  then show thesis by (rule that(1))
next
  case (Some old)
  then have "cs_agents (requeue_active j a p st) = (if ag_session_id old = al_current_session_id a \<and> map_of (ag_active old) j = Some (al_lease_id a)
      then AList.update (al_device_id a) (old \<lparr> ag_active := AList.delete j (ag_active old) \<rparr>) (cs_agents st) else cs_agents st)"
    by (cases "map_of (cs_jobs st) j") (simp_all add: requeue_active_def Let_def)
  then show thesis using that Some by (simp split: if_splits)
qed

lemma requeue_active_agent_ok:
  assumes ok: "\<And>d agent. map_of (cs_agents st) d = Some agent \<Longrightarrow> agent_ok agent" and d: "map_of (cs_agents (requeue_active j a p st)) d = Some agent"
  shows "agent_ok agent"
proof (rule requeue_active_agents_cases [of j a p st])
  assume "cs_agents (requeue_active j a p st) = cs_agents st"
  then show ?thesis using ok [of d agent] d by simp
next
  fix old assume old: "map_of (cs_agents st) (al_device_id a) = Some old"
    and new: "cs_agents (requeue_active j a p st) = AList.update (al_device_id a) (old \<lparr> ag_active := AList.delete j (ag_active old) \<rparr>) (cs_agents st)"
  show ?thesis
  proof (cases "d = al_device_id a")
    case True
    then have "agent = old \<lparr> ag_active := AList.delete j (ag_active old) \<rparr>" using new d by simp
    then show ?thesis using agent_ok_active [OF ok [OF old]] by simp
  next
    case False
    then show ?thesis using ok [of d agent] d new by simp
  qed
qed

lemma requeue_active_inv:
  assumes inv: "fleet_inv_with H st" and a: "lease_map st j = Some (Some a)"
  shows "fleet_inv_with (H - {(al_device_id a, al_current_session_id a, j, al_lease_id a)}) (requeue_active j a p st)"
proof -
  obtain job where job: "map_of (cs_jobs st) j = Some job" using a by (auto simp: lease_map_def)
  note jobs = requeue_active_jobs [OF job, of a p]
  have q: "j \<notin> set (cs_queue st)" using fleet_invD(1) [OF inv] a by (simp add: lease_ok_def)
  show ?thesis
  proof (rule fleet_invI)
    show "lease_ok (lease_map (requeue_active j a p st)) (cs_queue (requeue_active j a p st))
        (holdings (cs_agents (requeue_active j a p st)) \<union> (H - {(al_device_id a, al_current_session_id a, j, al_lease_id a)}))"
      using lease_ok_requeue [OF fleet_invD(1) [OF inv] a] q by (simp add: jobs requeue_active_held Un_Diff)
  next
    fix i job' assume "map_of (cs_jobs (requeue_active j a p st)) i = Some job'" "jb_recovery job' \<noteq> None"
    then show "jb_state job' = Queued" using fleet_invD(4) [OF inv] by (auto simp: jobs split: if_splits)
  next
    fix d agent assume "map_of (cs_agents (requeue_active j a p st)) d = Some agent"
    then show "agent_ok agent" by (rule requeue_active_agent_ok [rotated]) (rule fleet_invD(5) [OF inv])
  qed (use fleet_invD(2,3) [OF inv] in \<open>simp_all add: jobs\<close>)
qed

lemma requeue_active_other: "i \<noteq> j \<Longrightarrow> lease_map (requeue_active j a p st) i = lease_map st i"
  by (auto simp: requeue_active_def Let_def lease_map_def split: option.splits)

lemma fold_requeue_inv:
  assumes "fleet_inv st" "distinct (map fst xs)" "\<forall>(j, a) \<in> set xs. lease_map st j = Some (Some a)"
  shows "fleet_inv (fold (\<lambda>(j, a) st. requeue_active j a False st) xs st)"
  using assms
proof (induction xs arbitrary: st)
  case (Cons x xs)
  obtain j a where x: "x = (j, a)" by (cases x)
  have "fleet_inv (requeue_active j a False st)" using requeue_active_inv [OF Cons.prems(1), of j a False] Cons.prems(3) x by simp
  moreover have "\<forall>(i, b) \<in> set xs. lease_map (requeue_active j a False st) i = Some (Some b)"
  proof safe
    fix i b assume i: "(i, b) \<in> set xs"
    then have "i \<noteq> j" using Cons.prems(2) x by (force simp: image_iff)
    then show "lease_map (requeue_active j a False st) i = Some (Some b)" using Cons.prems(3) i by (auto simp: requeue_active_other)
  qed
  ultimately show ?case using Cons.IH Cons.prems(2) x by simp
qed simp

lemma map_filter_fst:
  assumes "\<And>x y. f x = Some y \<Longrightarrow> fst y = fst x" "distinct (map fst xs)"
  shows "distinct (map fst (List.map_filter f xs)) \<and> fst ` set (List.map_filter f xs) \<subseteq> fst ` set xs"
  using assms(2)
proof (induction xs)
  case (Cons x xs)
  then show ?case using assms(1) [of x] by (cases "f x") (auto simp: List.map_filter_simps image_iff)
qed (simp add: List.map_filter_simps)

lemma map_filter_mem: "y \<in> set (List.map_filter f xs) \<longleftrightarrow> (\<exists>x \<in> set xs. f x = Some y)"
  by (induction xs) (auto simp: List.map_filter_simps split: option.splits)

lemma expire_leases_inv:
  assumes inv: "fleet_inv st" and ho: "hash_order_ok E"
  shows "fleet_inv (expire_leases E now st)"
proof -
  let ?f = "\<lambda>(job_id, job). case lease_of (jb_state job) of
      Some active \<Rightarrow> if al_deadline active \<le> now then Some (job_id, active) else None | None \<Rightarrow> None"
  note entries = hash_entries_props [OF ho fleet_invD(2) [OF inv]]
  have f: "fst y = fst x \<and> lease_of (jb_state (snd x)) = Some (snd y)" if "?f x = Some y" for x y
    using that by (cases x) (auto split: option.splits if_splits)
  have "lease_map st j = Some (Some a)" if "(j, a) \<in> set (List.map_filter ?f (hash_entries E (cs_jobs st)))" for j a
  proof -
    have "\<exists>x \<in> set (cs_jobs st). ?f x = Some (j, a)" using that unfolding map_filter_mem entries(1) .
    then obtain x where x: "x \<in> set (cs_jobs st)" "?f x = Some (j, a)" by (elim bexE)
    have jx: "fst x = j" "lease_of (jb_state (snd x)) = Some a" using f [OF x(2)] by simp_all
    have "(fst x, snd x) \<in> set (cs_jobs st)" using x(1) by simp
    then have "map_of (cs_jobs st) j = Some (snd x)" unfolding jx(1) by (rule map_of_is_SomeI [OF fleet_invD(2) [OF inv]])
    then show ?thesis using jx(2) by (simp add: lease_map_def)
  qed
  moreover have "distinct (map fst (List.map_filter ?f (hash_entries E (cs_jobs st))))"
    using map_filter_fst [where f = ?f and xs = "hash_entries E (cs_jobs st)"] f entries(2) by blast
  ultimately show ?thesis unfolding expire_leases_def Let_def by (intro fold_requeue_inv [OF inv]) auto
qed

lemma revoke_lease_inv:
  assumes inv: "fleet_inv_with H st" and h: "(d, s, j, l) \<in> H"
  shows "fleet_inv_with (H - {(d, s, j, l)}) (revoke_lease j l st)"
proof -
  have "(d, s, j, l) \<in> leased (lease_map st)" using fleet_invD(1) [OF inv] h by (simp add: lease_ok_def)
  then obtain a where a: "lease_map st j = Some (Some a)" "al_device_id a = d" "al_current_session_id a = s" "al_lease_id a = l"
    by (auto simp: leased_def)
  then obtain job where job: "map_of (cs_jobs st) j = Some job" "lease_of (jb_state job) = Some a" by (auto simp: lease_map_def)
  obtain p where "revoke_lease j l st = requeue_active j a p st"
    using job a(4) by (cases "jb_state job") (auto simp: revoke_lease_def)
  then show ?thesis using requeue_active_inv [OF inv a(1), of p] a(2-4) by simp
qed

definition session_holdings :: "bytes \<Rightarrow> bytes \<Rightarrow> (bytes \<times> bytes) list \<Rightarrow> holding set" where
  "session_holdings d s active = {(d', s', j, l). d' = d \<and> s' = s \<and> (j, l) \<in> set active}"

lemma session_holdings_Nil [simp]: "session_holdings d s [] = {}"
  by (simp add: session_holdings_def)

lemma fold_revoke_inv:
  assumes "fleet_inv_with (session_holdings d s xs) st" "distinct (map fst xs)"
  shows "fleet_inv (fold (\<lambda>(j, l) st. revoke_lease j l st) xs st)"
  using assms
proof (induction xs arbitrary: st)
  case Nil
  then show ?case by simp
next
  case (Cons x xs)
  obtain j l where x: "x = (j, l)" by (cases x)
  have "session_holdings d s (x # xs) - {(d, s, j, l)} = session_holdings d s xs"
    using Cons.prems(2) x by (force simp: session_holdings_def image_iff)
  then have "fleet_inv_with (session_holdings d s xs) (revoke_lease j l st)"
    using revoke_lease_inv [OF Cons.prems(1), of d s j l] x by (simp add: session_holdings_def)
  from Cons.IH [OF this] show ?case using Cons.prems(2) x by simp
qed

lemma holdings_delete:
  assumes "map_of agents d = Some agent" "distinct (map fst (ag_active agent))"
  shows "holdings agents = holdings (AList.delete d agents) \<union> session_holdings d (ag_session_id agent) (ag_active agent)"
  using assms by (auto simp: holdings_def session_holdings_def split: if_splits)

lemma lease_map_cong: "cs_jobs st' = cs_jobs st \<Longrightarrow> lease_map st' = lease_map st"
  by (auto simp: lease_map_def)

lemma remove_agent_session_inv:
  assumes inv: "fleet_inv st" and ho: "hash_order_ok E"
  shows "fleet_inv (remove_agent_session E d st)" "map_of (cs_agents (remove_agent_session E d st)) d = None"
proof -
  show "fleet_inv (remove_agent_session E d st)"
  proof (cases "map_of (cs_agents st) d")
    case (Some agent)
    let ?st = "st \<lparr> cs_agents := AList.delete d (cs_agents st) \<rparr>"
    have active: "distinct (map fst (ag_active agent))" using fleet_invD(5) [OF inv Some] by (simp add: agent_ok_def)
    note entries = hash_entries_props [OF ho active]
    have "fleet_inv_with (session_holdings d (ag_session_id agent) (ag_active agent)) ?st"
    proof (rule fleet_invI)
      show "lease_ok (lease_map ?st) (cs_queue ?st)
          (holdings (cs_agents ?st) \<union> session_holdings d (ag_session_id agent) (ag_active agent))"
        using fleet_invD(1) [OF inv] holdings_delete [OF Some active] lease_map_cong [of ?st st] by simp
      show "distinct (map fst (cs_agents ?st))" using fleet_invD(3) [OF inv] by (simp add: distinct_delete)
      show "agent_ok other" if "map_of (cs_agents ?st) d' = Some other" for d' other
        using that fleet_invD(5) [OF inv, of d' other] by (simp split: if_splits)
    qed (use fleet_invD(2) [OF inv] fleet_invD(4) [OF inv] in auto)
    then have "fleet_inv (fold (\<lambda>(j, l) st. revoke_lease j l st) (hash_entries E (ag_active agent)) ?st)"
      using entries by (intro fold_revoke_inv [of d "ag_session_id agent"]) (simp_all add: session_holdings_def)
    then show ?thesis using Some by (simp add: remove_agent_session_def)
  qed (simp add: remove_agent_session_def inv)
  have "d \<notin> set (map fst (cs_agents (remove_agent_session E d st)))" unfolding remove_agent_session_agents by simp
  then show "map_of (cs_agents (remove_agent_session E d st)) d = None" by (simp add: map_of_eq_None_iff)
qed

lemma offer_inv:
  assumes inv: "fleet_inv st" and ho: "hash_order_ok E" and found: "find_assignment st = Some (j, d)"
    and fits: "now + cc_accept_timeout c \<le> INSTANT_MAX"
  obtains st' where "offer E c now l j d st = (st', Ok ())" "fleet_inv st'"
proof -
  obtain job agent where q: "j \<in> set (cs_queue st)" and job: "map_of (cs_jobs st) j = Some job"
    and "(d, agent) \<in> set (cs_agents st)" and matches: "agent_matches agent job"
    by (rule find_assignment_SomeD [OF found])
  then have agent: "map_of (cs_agents st) d = Some agent" using fleet_invD(3) [OF inv] by simp
  let ?a = "\<lparr> al_device_id = d, al_current_session_id = ag_session_id agent, al_origin_session_id = ag_session_id agent,
    al_lease_id = l, al_deadline = now + cc_accept_timeout c \<rparr>"
  let ?send = "try_send E (ag_command_tx agent) (lease_command c job j ?a)"
  let ?job = "job \<lparr> jb_state := Offered ?a, jb_recovery := None \<rparr>"
  let ?agent = "agent \<lparr> ag_free_slots := ag_free_slots agent - 1, ag_active := AList.update j l (ag_active agent), ag_command_tx := fst ?send \<rparr>"
  let ?st = "st \<lparr> cs_queue := remove1 j (cs_queue st), cs_jobs := AList.update j ?job (cs_jobs st), cs_agents := AList.update d ?agent (cs_agents st) \<rparr>"
  have free: "lease_map st j = Some None" using fleet_invD(1) [OF inv] q by (simp add: lease_ok_def)
  then have idle: "map_of (ag_active agent) j = None" using fleet_inv_held [OF inv agent, of j] by fastforce
  have L: "lease_map ?st = (lease_map st)(j \<mapsto> Some ?a)" by (auto simp: lease_map_def)
  have H: "holdings (cs_agents ?st) = insert (d, ag_session_id agent, j, l) (holdings (cs_agents st))"
    using held_add [OF agent _ _ idle, of ?agent l] by simp
  have slots: "agent_ok ?agent"
  proof -
    have new: "j \<notin> set (map fst (ag_active agent))" using idle by (simp add: map_of_eq_None_iff)
    then have "length (AList.update j l (ag_active agent)) = Suc (length (ag_active agent))"
      by (metis length_map update_keys length_append_singleton)
    moreover have "0 < ag_free_slots agent" using matches by (simp add: agent_matches_def)
    ultimately show ?thesis using fleet_invD(5) [OF inv agent] by (simp add: agent_ok_def distinct_update)
  qed
  have mid: "fleet_inv ?st"
  proof (rule fleet_invI)
    show "lease_ok (lease_map ?st) (cs_queue ?st) (holdings (cs_agents ?st) \<union> {})"
      using lease_ok_offer [OF fleet_invD(1) [OF inv] free, of ?a] L H by simp
    show "distinct (map fst (cs_jobs ?st))" "distinct (map fst (cs_agents ?st))"
      using fleet_invD(2,3) [OF inv] by (simp_all add: distinct_update)
    show "jb_state job' = Queued" if "map_of (cs_jobs ?st) i = Some job'" "jb_recovery job' \<noteq> None" for i job'
      using that fleet_invD(4) [OF inv, of i job'] by (simp split: if_splits) auto
    show "agent_ok other" if "map_of (cs_agents ?st) d' = Some other" for d' other
      using that fleet_invD(5) [OF inv, of d' other] slots by (cases "d' = d") auto
  qed
  have out: "offer E c now l j d st = (if snd ?send then ?st else remove_agent_session E d ?st, Ok ())"
    using fits by (simp add: offer_eq [OF agent job] Let_def)
  show thesis using that [OF out] mid remove_agent_session_inv(1) [OF mid ho] by simp
qed

lemma schedule_unfold:
  assumes "find_assignment st = Some (j, d)"
  shows "schedule E c now random n st =
    (case offer E c now (random n) j d st of
       (st, Ok _) \<Rightarrow> schedule E c now random (n + 1) st
     | (st, Err e) \<Rightarrow> (st, Err e)
     | (st, Panic) \<Rightarrow> (st, Panic))"
proof -
  have "j \<in> set (cs_queue st)" by (rule find_assignment_SomeD [OF assms])
  then show ?thesis using assms by (simp add: schedule.simps [of E c now random n st] split: prod.split outcome.split)
qed

lemma schedule_inv:
  assumes "fleet_inv st" "hash_order_ok E" "now + cc_accept_timeout c \<le> INSTANT_MAX"
  shows "\<exists>st'. schedule E c now random n st = (st', Ok ()) \<and> fleet_inv st' \<and> find_assignment st' = None"
  using assms
proof (induction E c now random n st rule: schedule.induct)
  case (1 E c now random n st)
  show ?case
  proof (cases "find_assignment st")
    case None
    then show ?thesis using 1(3) by (simp add: schedule.simps [of E c now random n st])
  next
    case (Some jd)
    obtain j d where jd: "jd = (j, d)" by (cases jd)
    have q: "j \<in> set (cs_queue st)" by (rule find_assignment_SomeD [OF Some [unfolded jd]])
    obtain mid where mid: "offer E c now (random n) j d st = (mid, Ok ())" "fleet_inv mid"
      by (rule offer_inv [OF 1(3,4) Some [unfolded jd] 1(5)])
    have "schedule E c now random n st = schedule E c now random (n + 1) mid"
      using mid(1) by (simp add: schedule_unfold [OF Some [unfolded jd]])
    moreover have "\<exists>st'. schedule E c now random (n + 1) mid = (st', Ok ()) \<and> fleet_inv st' \<and> find_assignment st' = None"
      by (rule 1(1) [OF Some jd [symmetric] q mid(1) [symmetric] refl mid(2) 1(4,5)])
    ultimately show ?thesis by simp
  qed
qed

text \<open>If the deadline does not fit, the first assignment panics, and its job is out of the queue.\<close>

lemma schedule_overflow:
  assumes inv: "fleet_inv st" and over: "\<not> now + cc_accept_timeout c \<le> INSTANT_MAX"
  shows "schedule E c now random n st =
    (case find_assignment st of None \<Rightarrow> (st, Ok ()) | Some (j, d) \<Rightarrow> (st \<lparr> cs_queue := remove1 j (cs_queue st) \<rparr>, Panic))"
proof (cases "find_assignment st")
  case None
  then show ?thesis by (simp add: schedule.simps [of E c now random n st])
next
  case (Some jd)
  obtain j d where jd: "jd = (j, d)" by (cases jd)
  obtain job agent where job: "map_of (cs_jobs st) j = Some job" and "(d, agent) \<in> set (cs_agents st)"
    by (rule find_assignment_SomeD [OF Some [unfolded jd]])
  then have "map_of (cs_agents st) d = Some agent" using fleet_invD(3) [OF inv] by simp
  then show ?thesis using Some jd over offer_eq [OF _ job] by (simp add: schedule_unfold [of st j d])
qed

section \<open>The handlers keep the invariant\<close>

lemma fleet_inv_cong:
  "cs_jobs st' = cs_jobs st \<Longrightarrow> cs_queue st' = cs_queue st \<Longrightarrow> cs_agents st' = cs_agents st \<Longrightarrow> fleet_inv_with H st' = fleet_inv_with H st"
  using lease_map_cong [of st' st] by (simp add: fleet_inv_with_def)

lemma release_artifact_frame [simp]:
  "cs_jobs (release_artifact h st) = cs_jobs st" "cs_queue (release_artifact h st) = cs_queue st" "cs_agents (release_artifact h st) = cs_agents st"
  "cs_receipts (release_artifact h st) = cs_receipts st" "cs_replies (release_artifact h st) = cs_replies st"
  by (auto simp: release_artifact_def split: option.splits)

lemma release_artifacts_frame [simp]:
  "cs_jobs (release_artifacts ds st) = cs_jobs st" "cs_queue (release_artifacts ds st) = cs_queue st" "cs_agents (release_artifacts ds st) = cs_agents st"
  "cs_receipts (release_artifacts ds st) = cs_receipts st" "cs_replies (release_artifacts ds st) = cs_replies st"
  unfolding release_artifacts_def by (induction ds arbitrary: st) simp_all

lemma holdings_without:
  assumes inv: "fleet_inv st" and a: "lease_map st j = Some (Some a)" and agent: "map_of (cs_agents st) (al_device_id a) = Some agent"
    and agent': "ag_session_id agent' = ag_session_id agent" "ag_active agent' = AList.delete j (ag_active agent)"
  shows "holdings (AList.update (al_device_id a) agent' (cs_agents st)) = without_job j (holdings (cs_agents st))"
proof -
  have "(al_device_id a, al_current_session_id a, j, al_lease_id a) \<in> holdings (cs_agents st)"
    using fleet_invD(1) [OF inv] leased_mem [of "lease_map st", OF a] by (simp add: lease_ok_def)
  then have held: "map_of (ag_active agent) j = Some (al_lease_id a)" "ag_session_id agent = al_current_session_id a"
    using agent by (auto simp: holdings_def)
  have "without_job j (holdings (cs_agents st)) = holdings (cs_agents st) - {(al_device_id a, al_current_session_id a, j, al_lease_id a)}"
    using without_job_leased [of "lease_map st", OF a] fleet_invD(1) [OF inv] by (simp add: lease_ok_def)
  then show ?thesis using held_remove [OF agent _ _ held(1), of agent'] agent' held(2) by simp
qed

text \<open>A job leaves, and with it its lease.\<close>

lemma forget_inv:
  assumes inv: "fleet_inv st" and agents: "holdings agents = without_job j (holdings (cs_agents st))" "distinct (map fst agents)"
    "\<And>d agent. map_of agents d = Some agent \<Longrightarrow> agent_ok agent"
  shows "fleet_inv (st \<lparr> cs_jobs := AList.delete j (cs_jobs st), cs_queue := remove1 j (cs_queue st), cs_agents := agents \<rparr>)" (is "fleet_inv ?st")
proof (rule fleet_invI)
  have "lease_map ?st = (lease_map st)(j := None)" by (auto simp: lease_map_def)
  then show "lease_ok (lease_map ?st) (cs_queue ?st) (holdings (cs_agents ?st) \<union> {})"
    using lease_ok_forget [OF fleet_invD(1) [OF inv], of j] agents(1) by simp
  show "distinct (map fst (cs_jobs ?st))" using fleet_invD(2) [OF inv] by (simp add: distinct_delete)
  show "distinct (map fst (cs_agents ?st))" using agents(2) by simp
  show "jb_state job = Queued" if "map_of (cs_jobs ?st) i = Some job" "jb_recovery job \<noteq> None" for i job
    using that fleet_invD(4) [OF inv, of i job] by (simp split: if_splits)
  show "agent_ok agent" if "map_of (cs_agents ?st) d = Some agent" for d agent using that agents(3) by simp
qed

lemma update_agents_ok:
  assumes inv: "fleet_inv_with H st" and agent: "map_of (cs_agents st) d = Some agent" "agent_ok agent'"
  shows "distinct (map fst (AList.update d agent' (cs_agents st)))" "map_of (AList.update d agent' (cs_agents st)) e = Some other \<Longrightarrow> agent_ok other"
  using fleet_invD(3) [OF inv] fleet_invD(5) [OF inv, of e other] agent by (simp_all add: distinct_update split: if_splits)

lemma cancel_job_inv:
  assumes inv: "fleet_inv st"
  shows "fleet_inv (cancel_job E j st)"
proof (cases "map_of (cs_jobs st) j")
  case None
  then have "j \<notin> set (cs_queue st)" using fleet_invD(1) [OF inv] by (simp add: lease_ok_def lease_map_def)
  then have "cancel_job E j st = st" using None by (simp add: cancel_job_def Let_def remove1_idem)
  then show ?thesis using inv by simp
next
  case (Some job)
  show ?thesis
  proof (cases "lease_of (jb_state job)")
    case None
    then have "lease_map st j = Some None" using Some by (simp add: lease_map_def)
    then have w: "without_job j (holdings (cs_agents st)) = holdings (cs_agents st)"
      using without_job_unleased [of "lease_map st" j] fleet_invD(1) [OF inv] by (simp add: lease_ok_def)
    have "fleet_inv (st \<lparr> cs_jobs := AList.delete j (cs_jobs st), cs_queue := remove1 j (cs_queue st), cs_agents := cs_agents st \<rparr>)"
      by (rule forget_inv [OF inv w [symmetric] fleet_invD(3) [OF inv] fleet_invD(5) [OF inv]])
    then show ?thesis using Some None
      by (subst fleet_inv_cong [where st = "st \<lparr> cs_jobs := AList.delete j (cs_jobs st), cs_queue := remove1 j (cs_queue st), cs_agents := cs_agents st \<rparr>"])
        (simp_all add: cancel_job_def Let_def)
  next
    case a: (Some a)
    then have L: "lease_map st j = Some (Some a)" using Some by (simp add: lease_map_def)
    then have "(al_device_id a, al_current_session_id a, j, al_lease_id a) \<in> holdings (cs_agents st)"
      using fleet_invD(1) [OF inv] leased_mem [of "lease_map st" j a] by (simp add: lease_ok_def)
    then obtain agent where agent: "map_of (cs_agents st) (al_device_id a) = Some agent" "map_of (ag_active agent) j = Some (al_lease_id a)"
      by (auto simp: holdings_def)
    let ?agent = "agent \<lparr> ag_command_tx := fst (try_send E (ag_command_tx agent) (CancelCommand j (al_lease_id a) 1)),
      ag_active := AList.delete j (ag_active agent) \<rparr>"
    have ok: "agent_ok ?agent" using agent_ok_active [OF fleet_invD(5) [OF inv agent(1)], of j] by (simp add: agent_ok_def)
    note upd = update_agents_ok [OF inv agent(1) ok]
    have "fleet_inv (st \<lparr> cs_jobs := AList.delete j (cs_jobs st), cs_queue := remove1 j (cs_queue st),
        cs_agents := AList.update (al_device_id a) ?agent (cs_agents st) \<rparr>)"
      by (rule forget_inv [OF inv holdings_without [OF inv L agent(1)] upd]) simp_all
    then show ?thesis using Some a agent
      by (subst fleet_inv_cong [where st = "st \<lparr> cs_jobs := AList.delete j (cs_jobs st), cs_queue := remove1 j (cs_queue st),
          cs_agents := AList.update (al_device_id a) ?agent (cs_agents st) \<rparr>"]) (simp_all add: cancel_job_def Let_def)
  qed
qed

lemma complete_job_inv:
  assumes inv: "fleet_inv st" and L: "lease_map st j = Some (Some a)"
  shows "fleet_inv (complete_job (al_device_id a) j job report st)"
proof -
  have "(al_device_id a, al_current_session_id a, j, al_lease_id a) \<in> holdings (cs_agents st)"
    using fleet_invD(1) [OF inv] leased_mem [of "lease_map st", OF L] by (simp add: lease_ok_def)
  then obtain agent where agent: "map_of (cs_agents st) (al_device_id a) = Some agent" by (auto simp: holdings_def)
  let ?agent = "agent \<lparr> ag_active := AList.delete j (ag_active agent) \<rparr>"
  note upd = update_agents_ok [OF inv agent agent_ok_active [OF fleet_invD(5) [OF inv agent], of j]]
  have "fleet_inv (st \<lparr> cs_jobs := AList.delete j (cs_jobs st), cs_queue := remove1 j (cs_queue st),
      cs_agents := AList.update (al_device_id a) ?agent (cs_agents st) \<rparr>)"
    by (rule forget_inv [OF inv holdings_without [OF inv L agent] upd]) simp_all
  then show ?thesis using agent
    by (subst fleet_inv_cong [where st = "st \<lparr> cs_jobs := AList.delete j (cs_jobs st), cs_queue := remove1 j (cs_queue st),
        cs_agents := AList.update (al_device_id a) ?agent (cs_agents st) \<rparr>"]) (simp_all add: complete_job_def set_agent_def Let_def)
qed

lemma set_agent_inv:
  assumes inv: "fleet_inv st" and f: "\<And>agent. ag_session_id (f agent) = ag_session_id agent" "\<And>agent. ag_active (f agent) = ag_active agent"
    "\<And>agent. agent_ok agent \<Longrightarrow> agent_ok (f agent)"
  shows "fleet_inv (set_agent d f st)"
proof (cases "map_of (cs_agents st) d")
  case (Some agent)
  let ?st = "st \<lparr> cs_agents := AList.update d (f agent) (cs_agents st) \<rparr>"
  note upd = update_agents_ok [OF inv Some f(3) [OF fleet_invD(5) [OF inv Some]]]
  have "fleet_inv ?st"
  proof (rule fleet_invI)
    show "lease_ok (lease_map ?st) (cs_queue ?st) (holdings (cs_agents ?st) \<union> {})"
      using fleet_invD(1) [OF inv] lease_map_cong [of ?st st] held_same [OF Some, of "f agent"] f by simp
    show "jb_state job = Queued" if "map_of (cs_jobs ?st) j = Some job" "jb_recovery job \<noteq> None" for j job
      using that fleet_invD(4) [OF inv] by simp
    show "agent_ok other" if "map_of (cs_agents ?st) e = Some other" for e other using upd(2) that by simp
  qed (use upd(1) fleet_invD(2) [OF inv] in simp_all)
  then show ?thesis using Some by (simp add: set_agent_def)
qed (simp add: set_agent_def inv)

lemma renew_inv:
  assumes inv: "fleet_inv st" and job: "map_of (cs_jobs st) j = Some job" "lease_of (jb_state job) = Some a"
  shows "fleet_inv (set_job_state j (Running (a \<lparr> al_deadline := t \<rparr>)) st)"
proof -
  have L: "lease_map st j = Some (Some a)" using job by (simp add: lease_map_def)
  have rec: "jb_recovery job = None" using fleet_invD(4) [OF inv job(1)] job(2) by fastforce
  let ?job = "job \<lparr> jb_state := Running (a \<lparr> al_deadline := t \<rparr>) \<rparr>"
  let ?st = "st \<lparr> cs_jobs := AList.update j ?job (cs_jobs st) \<rparr>"
  have "fleet_inv ?st"
  proof (rule fleet_invI)
    show "lease_ok (lease_map ?st) (cs_queue ?st) (holdings (cs_agents ?st) \<union> {})"
      using lease_ok_renew [OF fleet_invD(1) [OF inv] L, of "a \<lparr> al_deadline := t \<rparr>"] by (simp add: lease_map_update)
    show "jb_state job' = Queued" if "map_of (cs_jobs ?st) i = Some job'" "jb_recovery job' \<noteq> None" for i job'
      using that fleet_invD(4) [OF inv, of i job'] rec by (simp split: if_splits) auto
    show "agent_ok agent" if "map_of (cs_agents ?st) d = Some agent" for d agent using that fleet_invD(5) [OF inv] by simp
  qed (use fleet_invD(2,3) [OF inv] in \<open>simp_all add: distinct_update\<close>)
  then show ?thesis using job(1) by (simp add: set_job_state_def)
qed

lemma validate_agent_lease_ids_Ok:
  assumes "validate_agent_lease_ids st d s es ej el = Ok a"
  shows "\<exists>job. map_of (cs_jobs st) ej = Some job \<and> lease_of (jb_state job) = Some a \<and> length ej = 32"
  using assms by (auto simp: validate_agent_lease_ids_def split: if_splits option.splits)

lemma obind_Panic_iff: "obind m f = Panic \<longleftrightarrow> m = Panic \<or> (\<exists>x. m = Ok x \<and> f x = Panic)"
  by (cases m) auto

text \<open>
  The two events that renew a lease do the same, up to the state the job must be in: with the lease checked, the job is
  there, so that only the deadline can panic.
\<close>

lemma renew_event:
  assumes run: "obind (validate_agent_lease_ids st d s es ej el) (\<lambda>a. obind (job_id_from_slice ej) (\<lambda>j.
      case map_of (cs_jobs st) j of None \<Rightarrow> Panic | Some job \<Rightarrow> g a j job)) = r"
    and g: "\<And>a j job. (\<exists>e. g a j job = Err e) \<or>
      g a j job = obind (instant_add now len) (\<lambda>t. Ok (set_job_state j (Running (a \<lparr> al_deadline := t \<rparr>)) st))"
  obtains (refused) e' where "r = Err e'"
  | (overflow) "r = Panic" "\<not> now + len \<le> INSTANT_MAX"
  | (renewed) job a where "map_of (cs_jobs st) ej = Some job" "lease_of (jb_state job) = Some a" "now + len \<le> INSTANT_MAX"
      "r = Ok (set_job_state ej (Running (a \<lparr> al_deadline := now + len \<rparr>)) st)"
proof (cases "validate_agent_lease_ids st d s es ej el")
  case (Ok a)
  then obtain job where job: "map_of (cs_jobs st) ej = Some job" "lease_of (jb_state job) = Some a" "length ej = 32"
    using validate_agent_lease_ids_Ok by blast
  have r: "r = g a ej job" using run Ok job by simp
  from g [of a ej job] show thesis
  proof
    assume "\<exists>e. g a ej job = Err e"
    then show thesis using refused r by blast
  next
    assume "g a ej job = obind (instant_add now len) (\<lambda>t. outcome.Ok (set_job_state ej (Running (a \<lparr> al_deadline := t \<rparr>)) st))"
    then show thesis using r overflow renewed [OF job(1,2)] by (cases "now + len \<le> INSTANT_MAX") (simp_all add: instant_add_def)
  qed
next
  case (Err e')
  then have "r = Err e'" using run by simp
  then show thesis by (rule refused)
next
  case Panic
  then show thesis by (auto simp: validate_agent_lease_ids_def obind_Panic_iff split: option.splits if_splits)
qed

lemma agent_event_update_cases:
  assumes inv: "fleet_inv st" and run: "agent_event_update c now d s agent ev st = r"
  shows "(\<exists>e. r = Err e) \<or> (\<exists>st'. r = Ok st' \<and> fleet_inv st') \<or> r = Panic \<and> \<not> now + cc_lease_duration c \<le> INSTANT_MAX"
proof (cases ev)
  case (ReadyEvent es n)
  let ?f = "\<lambda>agent. agent \<lparr> ag_free_slots := min (unat n) (ag_slot_capacity agent - min (length (ag_active agent)) (2 ^ 32 - 1)) \<rparr>"
  have "agent_ok (?f x)" if "agent_ok x" for x :: "'a agent_session" using that by (auto simp: agent_ok_def)
  then have "fleet_inv (set_agent d ?f st)" using set_agent_inv [OF inv, of ?f d] by simp
  then show ?thesis using run ReadyEvent by (cases "session_id_from_slice es") (auto split: if_splits)
next
  case (AcceptedEvent es ej el)
  show ?thesis
    by (rule renew_event [OF run [unfolded AcceptedEvent agent_event_update.simps]]) (use renew_inv [OF inv] in \<open>auto split: job_state.split\<close>)
next
  case (RejectedEvent es ej el)
  show ?thesis
  proof (cases "validate_agent_lease_ids st d s es ej el")
    case (Ok a)
    then obtain job where "map_of (cs_jobs st) ej = Some job" "lease_of (jb_state job) = Some a" "length ej = 32" using validate_agent_lease_ids_Ok by blast
    then show ?thesis using run RejectedEvent Ok requeue_active_inv [OF inv, of ej a False] by (auto simp: lease_map_def)
  qed (use run RejectedEvent in \<open>auto simp: validate_agent_lease_ids_def obind_Panic_iff split: option.splits if_splits\<close>)
next
  case (HeartbeatEvent es ej el)
  show ?thesis
    by (rule renew_event [OF run [unfolded HeartbeatEvent agent_event_update.simps]]) (use renew_inv [OF inv] in \<open>auto split: job_state.split\<close>)
next
  case (DrainingEvent es)
  let ?f = "\<lambda>agent :: 'a agent_session. agent \<lparr> ag_draining := True, ag_free_slots := 0 \<rparr>"
  have "fleet_inv (set_agent d ?f st)" using set_agent_inv [OF inv, of ?f d] by (simp add: agent_ok_def)
  then show ?thesis using run DrainingEvent by (cases "session_id_from_slice es") (auto split: if_splits)
qed (use run in auto)

lemma lease_event_Ok:
  assumes "obind v (\<lambda>a. obind (job_id_from_slice ej) (\<lambda>j. case map_of m j of None \<Rightarrow> Panic | Some job \<Rightarrow> g a j job)) = Ok st'"
  obtains a job where "v = Ok a" "map_of m ej = Some job" "g a ej job = Ok st'"
  using assms by (cases v; cases "map_of m ej") auto

lemma agent_event_update_moves:
  assumes "agent_event_update c now d s agent ev st = Ok st'"
  shows "lease_moves st st'"
  using assms
proof (cases ev)
  case (AcceptedEvent es ej el)
  show ?thesis by (rule lease_event_Ok [OF assms [unfolded AcceptedEvent agent_event_update.simps]]) (auto split: job_state.splits)
next
  case (HeartbeatEvent es ej el)
  show ?thesis by (rule lease_event_Ok [OF assms [unfolded HeartbeatEvent agent_event_update.simps]]) (auto split: job_state.splits)
qed (auto split: if_split_asm)

lemma drain_agents_inv:
  assumes inv: "fleet_inv st"
  shows "fleet_inv (drain_agents E st)"
proof -
  let ?f = "\<lambda>agent. agent \<lparr> ag_draining := True, ag_free_slots := 0, ag_command_tx := fst (try_send E (ag_command_tx agent) (DrainCommand False)) \<rparr>"
  have m: "map_of (cs_agents (drain_agents E st)) d = map_option ?f (map_of (cs_agents st) d)" for d
    by (simp add: drain_agents_def map_of_map)
  have k: "map fst (cs_agents (drain_agents E st)) = map fst (cs_agents st)"
    by (simp add: drain_agents_def comp_def case_prod_unfold)
  have H: "holdings (cs_agents (drain_agents E st)) = holdings (cs_agents st)" unfolding holdings_def m by force
  have s: "cs_jobs (drain_agents E st) = cs_jobs st" "cs_queue (drain_agents E st) = cs_queue st" by (simp_all add: drain_agents_def)
  show ?thesis
  proof (rule fleet_invI)
    show "lease_ok (lease_map (drain_agents E st)) (cs_queue (drain_agents E st)) (holdings (cs_agents (drain_agents E st)) \<union> {})"
      using fleet_invD(1) [OF inv] lease_map_cong [OF s(1)] by (simp add: H s)
    show "agent_ok agent" if d: "map_of (cs_agents (drain_agents E st)) d = Some agent" for d agent
    proof -
      obtain old where "map_of (cs_agents st) d = Some old" "agent = ?f old" using d unfolding m by blast
      then show ?thesis using fleet_invD(5) [OF inv, of d old] by (auto simp: agent_ok_def)
    qed
  qed (use fleet_invD(2,3) [OF inv] fleet_invD(4) [OF inv] in \<open>simp_all add: s k\<close>)
qed

lemma drain_agents_moves: "lease_moves st (drain_agents E st)"
  by (rule lease_movesI) (simp_all add: same_rest_def drain_agents_def comp_def case_prod_unfold)

text \<open>Reconnecting: the recovered leases are collected before the new session is registered.\<close>

lemma reconcile_one_cases:
  assumes run: "reconcile_one c now d s j l act st = (st', r)"
  obtains (kept) action where "st' = st" "r = Ok (action, act)"
  | (overflow) "st' = st" "r = Panic" "\<not> now + cc_lease_duration c \<le> INSTANT_MAX"
  | (resumed) job a where "map_of (cs_jobs st) j = Some job" "jb_recovery job = Some a" "al_device_id a = d" "al_lease_id a = l"
      "st' = st \<lparr> cs_jobs := AList.update j (job \<lparr> jb_state := Running (a \<lparr> al_current_session_id := s, al_deadline := now + cc_lease_duration c \<rparr>),
          jb_recovery := None \<rparr>) (cs_jobs st), cs_queue := remove1 j (cs_queue st) \<rparr>"
      "r = Ok (RECOVERY_SUBMIT_REPORT, AList.update j l act)"
proof (cases "\<exists>job a. \<not> ledger_contains j (cs_receipts st) \<and> map_of (cs_jobs st) j = Some job \<and> jb_recovery job = Some a \<and> al_device_id a = d \<and> al_lease_id a = l")
  case True
  then obtain job a where a: "\<not> ledger_contains j (cs_receipts st)" "map_of (cs_jobs st) j = Some job" "jb_recovery job = Some a" "al_device_id a = d" "al_lease_id a = l"
    by blast
  show thesis
  proof (cases "now + cc_lease_duration c \<le> INSTANT_MAX")
    case True
    show ?thesis by (rule resumed [OF a(2-5)]) (use run a True in \<open>simp_all add: reconcile_one_def instant_add_def Let_def\<close>)
  next
    case False
    show ?thesis by (rule overflow) (use run a False in \<open>simp_all add: reconcile_one_def instant_add_def\<close>)
  qed
next
  case False
  have "\<exists>action. reconcile_one c now d s j l act st = (st, Ok (action, act))"
  proof (cases "ledger_contains j (cs_receipts st) \<or> map_of (cs_jobs st) j = None")
    case True
    then show ?thesis by (cases "ledger_contains j (cs_receipts st)") (simp_all add: reconcile_one_def)
  next
    case job: False
    then obtain job where "map_of (cs_jobs st) j = Some job" "\<not> ledger_contains j (cs_receipts st)" by auto
    then show ?thesis using False by (cases "jb_recovery job") (auto simp: reconcile_one_def)
  qed
  then show thesis using run kept by auto
qed

lemma reconcile_one_inv:
  assumes inv: "fleet_inv_with (session_holdings d s act) st" and act: "distinct (map fst act)"
    and run: "reconcile_one c now d s j l act st = (st', Ok (action, act'))"
  shows "fleet_inv_with (session_holdings d s act') st'" "distinct (map fst act')" "length act' \<le> Suc (length act)"
proof -
  from run have "fleet_inv_with (session_holdings d s act') st' \<and> distinct (map fst act') \<and> length act' \<le> Suc (length act)"
  proof (cases rule: reconcile_one_cases)
    case (kept action')
    then show ?thesis using inv act by simp
  next
    case (resumed job a)
    let ?b = "a \<lparr> al_current_session_id := s, al_deadline := now + cc_lease_duration c \<rparr>"
    note st' = resumed(5)
    have free: "lease_map st j = Some None" using fleet_invD(4) [OF inv resumed(1)] resumed(1,2) by (simp add: lease_map_def)
    have new: "j \<notin> set (map fst act)"
    proof
      assume "j \<in> set (map fst act)"
      then obtain k where "(j, k) \<in> set act" by auto
      then have "(d, s, j, k) \<in> leased (lease_map st)" using fleet_invD(1) [OF inv] by (simp add: lease_ok_def session_holdings_def)
      then show False using free by (auto simp: leased_def)
    qed
    then have act': "act' = act @ [(j, l)]" using resumed(6) by (simp add: update_new)
    have L: "lease_map st' = (lease_map st)(j \<mapsto> Some ?b)" unfolding st' by (auto simp: lease_map_def)
    have "fleet_inv_with (session_holdings d s act') st'"
    proof (rule fleet_invI)
      have "holdings (cs_agents st') \<union> session_holdings d s act' = insert (d, s, j, l) (holdings (cs_agents st) \<union> session_holdings d s act)"
        unfolding st' act' by (auto simp: session_holdings_def)
      then show "lease_ok (lease_map st') (cs_queue st') (holdings (cs_agents st') \<union> session_holdings d s act')"
        using lease_ok_offer [OF fleet_invD(1) [OF inv] free, of ?b] resumed(3,4) L st' by simp
      show "jb_state job' = Queued" if "map_of (cs_jobs st') i = Some job'" "jb_recovery job' \<noteq> None" for i job'
        using that fleet_invD(4) [OF inv, of i job'] unfolding st' by (simp split: if_splits) auto
      show "agent_ok agent" if "map_of (cs_agents st') e = Some agent" for e agent using that fleet_invD(5) [OF inv] st' by simp
    qed (use fleet_invD(2,3) [OF inv] st' in \<open>simp_all add: distinct_update\<close>)
    then show ?thesis using act new act' by simp
  qed simp
  then show "fleet_inv_with (session_holdings d s act') st'" "distinct (map fst act')" "length act' \<le> Suc (length act)" by simp_all
qed

lemma reconcile_one_moves: "reconcile_one c now d s j l act st = (st', r) \<Longrightarrow> lease_moves st st' \<and> cs_agents st' = cs_agents st"
  by (cases rule: reconcile_one_cases, assumption) (auto simp: lease_moves_def same_rest_def)

lemma reconcile_recoveries_Cons:
  assumes "length (lr_job_id r) = 32" "length (lr_lease_id r) = 16"
  shows "reconcile_recoveries c now d s (r # rs) ds act st =
    (case reconcile_one c now d s (lr_job_id r) (lr_lease_id r) act st of
       (st, Ok (action, act)) \<Rightarrow> reconcile_recoveries c now d s rs (ds @ [\<lparr> rd_job_id = lr_job_id r, rd_lease_id = lr_lease_id r, rd_action = action \<rparr>]) act st
     | (st, Err e) \<Rightarrow> (st, Err e)
     | (st, Panic) \<Rightarrow> (st, Panic))"
  using assms by (simp add: sbind_def split: prod.split outcome.split)

lemma reconcile_recoveries_inv:
  assumes "fleet_inv_with (session_holdings d s act) st" "distinct (map fst act)"
    and "\<forall>r \<in> set rs. length (lr_job_id r) = 32 \<and> length (lr_lease_id r) = 16"
    and "reconcile_recoveries c now d s rs ds act st = (st', r)"
  shows "r = Panic \<and> \<not> now + cc_lease_duration c \<le> INSTANT_MAX \<or>
    (\<exists>ds' act'. r = Ok (ds', act') \<and> fleet_inv_with (session_holdings d s act') st' \<and> distinct (map fst act') \<and> length act' \<le> length act + length rs)"
  using assms
proof (induction rs arbitrary: ds act st)
  case (Cons x rs)
  have ids: "length (lr_job_id x) = 32" "length (lr_lease_id x) = 16" using Cons.prems(3) by simp_all
  obtain st1 r1 where one: "reconcile_one c now d s (lr_job_id x) (lr_lease_id x) act st = (st1, r1)"
    by (cases "reconcile_one c now d s (lr_job_id x) (lr_lease_id x) act st")
  show ?case
  proof (cases r1)
    case (Ok y)
    obtain action act1 where y: "y = (action, act1)" by (cases y)
    note step = reconcile_one_inv [OF Cons.prems(1,2) one [unfolded Ok y]]
    have "reconcile_recoveries c now d s rs (ds @ [\<lparr> rd_job_id = lr_job_id x, rd_lease_id = lr_lease_id x, rd_action = action \<rparr>]) act1 st1 = (st', r)"
      using Cons.prems(4) one Ok y by (simp add: reconcile_recoveries_Cons [OF ids] del: reconcile_recoveries.simps)
    from Cons.IH [OF step(1,2) _ this] show ?thesis using Cons.prems(3) step(3) by fastforce
  next
    case Panic
    then have "r = outcome.Panic" using Cons.prems(4) one by (simp add: reconcile_recoveries_Cons [OF ids] del: reconcile_recoveries.simps)
    moreover have "\<not> now + cc_lease_duration c \<le> INSTANT_MAX" using one by (cases rule: reconcile_one_cases) (use Panic in auto)
    ultimately show ?thesis by simp
  next
    case (Err e)
    from one show ?thesis by (cases rule: reconcile_one_cases) (use Err in auto)
  qed
qed auto

lemma reconcile_recoveries_moves:
  assumes "\<forall>r \<in> set rs. length (lr_job_id r) = 32 \<and> length (lr_lease_id r) = 16" "reconcile_recoveries c now d s rs ds act st = (st', r)"
  shows "lease_moves st st' \<and> cs_agents st' = cs_agents st"
  using assms
proof (induction rs arbitrary: ds act st)
  case (Cons x rs)
  have ids: "length (lr_job_id x) = 32" "length (lr_lease_id x) = 16" using Cons.prems(1) by simp_all
  obtain st1 r1 where one: "reconcile_one c now d s (lr_job_id x) (lr_lease_id x) act st = (st1, r1)"
    by (cases "reconcile_one c now d s (lr_job_id x) (lr_lease_id x) act st")
  note unfold = Cons.prems(2) [unfolded reconcile_recoveries_Cons [OF ids] one prod.case]
  show ?case
  proof (cases r1)
    case (Ok y)
    then have "lease_moves st1 st' \<and> cs_agents st' = cs_agents st1" using Cons.IH Cons.prems(1) unfold by (cases y) auto
    then show ?thesis using reconcile_one_moves [OF one] lease_moves_trans by metis
  qed (use unfold reconcile_one_moves [OF one] in auto)
qed auto

lemma map_of_btree_insert [simp]: "map_of (btree_insert k v m) = (map_of m)(k \<mapsto> v)"
  by (induction k v m rule: btree_insert.induct) auto

lemma btree_insert_keys: "set (map fst (btree_insert k v m)) = insert k (set (map fst m))"
  by (induction k v m rule: btree_insert.induct) auto

lemma btree_insert_distinct: "distinct (map fst m) \<Longrightarrow> k \<notin> set (map fst m) \<Longrightarrow> distinct (map fst (btree_insert k v m))"
proof (induction k v m rule: btree_insert.induct)
  case (2 k v k' v' rest)
  then show ?case using btree_insert_keys [of k v rest] by auto
qed simp

lemma check_recoveries_Ok: "check_recoveries rs seen = Ok () \<Longrightarrow> \<forall>r \<in> set rs. length (lr_job_id r) = 32 \<and> length (lr_lease_id r) = 16"
  by (induction rs arbitrary: seen) (auto split: if_splits)

lemma check_panic [simp]:
  "check_recoveries rs seen \<noteq> Panic" "check_capabilities cs \<noteq> Panic" "check_profile_strings ps \<noteq> Panic"
proof -
  show "check_recoveries rs seen \<noteq> Panic" by (induction rs arbitrary: seen) (auto simp: obind_Panic_iff)
  show "check_capabilities cs \<noteq> Panic"
    by (induction cs) (auto simp: obind_Panic_iff engine_identity_from_wire_def fixed_bytes_def split: option.splits)
  show "check_profile_strings ps \<noteq> Panic" by (induction ps) auto
qed

lemma validate_hello_Ok:
  assumes "validate_hello c hello = Ok ()"
  shows "length (ah_device_id hello) = 16" "\<exists>profile. ah_profile hello = Some profile"
    "length (ah_recoveries hello) \<le> unat (ah_job_slots hello)"
    "\<forall>r \<in> set (ah_recoveries hello). length (lr_job_id r) = 32 \<and> length (lr_lease_id r) = 16"
  using assms unfolding validate_hello_def by (auto split: if_splits option.splits dest: check_recoveries_Ok)

lemma register_inv:
  assumes inv: "fleet_inv_with (session_holdings d (ag_session_id agent) (ag_active agent)) st" and d: "map_of (cs_agents st) d = None"
    and agent: "agent_ok agent"
  shows "fleet_inv (st \<lparr> cs_agents := btree_insert d agent (cs_agents st) \<rparr>)" (is "fleet_inv ?st")
proof (rule fleet_invI)
  have "holdings (btree_insert d agent (cs_agents st)) = holdings (cs_agents st) \<union> session_holdings d (ag_session_id agent) (ag_active agent)"
    using d agent by (auto simp: holdings_def session_holdings_def agent_ok_def split: if_splits)
  then show "lease_ok (lease_map ?st) (cs_queue ?st) (holdings (cs_agents ?st) \<union> {})"
    using fleet_invD(1) [OF inv] lease_map_cong [of ?st st] by simp
  show "distinct (map fst (cs_agents ?st))" using fleet_invD(3) [OF inv] d by (simp add: btree_insert_distinct map_of_eq_None_iff)
  show "agent_ok other" if "map_of (cs_agents ?st) e = Some other" for e other
    using that fleet_invD(5) [OF inv, of e other] agent by (simp split: if_splits)
qed (use fleet_invD(2) [OF inv] fleet_invD(4) [OF inv] in simp_all)

text \<open>The session that an accepted hello registers, and the state it leaves.\<close>

definition new_session :: "'tx service_env \<Rightarrow> coordinator_config \<Rightarrow> bytes \<Rightarrow> bytes option \<Rightarrow> agent_hello \<Rightarrow> 'tx \<Rightarrow> recovery_disposition list \<Rightarrow> (bytes \<times> bytes) list \<Rightarrow> 'tx agent_session" where
  "new_session E c sid peer hello tx ds act =
     (let hash = device_profile_hash (rc_blake3 (env_codec E)) (encode_profile E) (the (ah_profile hello))
      in \<lparr> ag_session_id = sid, ag_profile_hash = hash, ag_capabilities = ah_capabilities hello,
           ag_command_tx = fst (try_send E tx (welcome_command c sid hash ds)), ag_peer_fingerprint = peer,
           ag_slot_capacity = unat (ah_job_slots hello), ag_free_slots = 0, ag_draining = False, ag_active = act \<rparr>)"

lemma new_session_simps [simp]:
  "ag_session_id (new_session E c sid peer hello tx ds act) = sid" "ag_active (new_session E c sid peer hello tx ds act) = act"
  "ag_slot_capacity (new_session E c sid peer hello tx ds act) = unat (ah_job_slots hello)" "ag_free_slots (new_session E c sid peer hello tx ds act) = 0"
  by (simp_all add: new_session_def Let_def)

lemma connect_cases:
  assumes run: "connect E c now sid peer first st = (st', r)"
  obtains (refused) e where "st' = st" "r = Err e"
  | (channel) "st' = st" "r = Panic" "new_channel E (cc_command_capacity c) = None"
  | (failed) hello r1 where "first = Some (Some (HelloEvent hello))" "validate_hello c hello = Ok ()"
      "reconcile_recoveries c now (ah_device_id hello) sid (ah_recoveries hello) [] [] (remove_agent_session E (ah_device_id hello) st) = (st', r1)"
      "\<forall>x. r1 \<noteq> Ok x" "r = Panic \<longleftrightarrow> r1 = Panic" "r \<noteq> Ok ()"
  | (accepted) hello tx ds act st1 where "first = Some (Some (HelloEvent hello))" "validate_hello c hello = Ok ()" "new_channel E (cc_command_capacity c) = Some tx"
      "reconcile_recoveries c now (ah_device_id hello) sid (ah_recoveries hello) [] [] (remove_agent_session E (ah_device_id hello) st) = (st1, Ok (ds, act))"
      "st' = st1 \<lparr> cs_agents := btree_insert (ah_device_id hello) (new_session E c sid peer hello tx ds act) (cs_agents st1) \<rparr>" "r \<noteq> Panic"
proof (cases "\<exists>hello. first = Some (Some (HelloEvent hello)) \<and> validate_hello c hello = Ok () \<and>
    authenticate_enrollment (cc_enrollment c) peer (ah_device_id hello) = Ok ()")
  case False
  have e: "validate_hello c hello \<noteq> Panic" for hello
    by (auto simp: validate_hello_def obind_Panic_iff validate_profile_def fixed_bytes_def split: option.splits)
  have "authenticate_enrollment (cc_enrollment c) peer d \<noteq> Panic" for d
    by (auto simp: authenticate_enrollment_def split: enrollment.splits option.splits)
  then have "st' = st \<and> (\<exists>e. r = Err e)" using False run e
    by (auto simp: connect_def map_err_def split: option.splits agent_event.splits outcome.splits dest: validate_hello_Ok(1))
  then show thesis using refused by blast
next
  case True
  then obtain hello where hello: "first = Some (Some (HelloEvent hello))" "validate_hello c hello = Ok ()"
    "authenticate_enrollment (cc_enrollment c) peer (ah_device_id hello) = Ok ()" by blast
  note ok = validate_hello_Ok [OF hello(2)]
  obtain profile where profile: "ah_profile hello = Some profile" using ok(2) by blast
  show thesis
  proof (cases "new_channel E (cc_command_capacity c)")
    case None
    then show ?thesis using channel run hello ok(1) profile by (simp add: connect_def)
  next
    case (Some tx)
    obtain st1 r1 where rec: "reconcile_recoveries c now (ah_device_id hello) sid (ah_recoveries hello) [] [] (remove_agent_session E (ah_device_id hello) st) = (st1, r1)"
      by (cases "reconcile_recoveries c now (ah_device_id hello) sid (ah_recoveries hello) [] [] (remove_agent_session E (ah_device_id hello) st)")
    show ?thesis
    proof (cases r1)
      case (Ok x)
      obtain ds act where x: "x = (ds, act)" by (cases x)
      have "st' = st1 \<lparr> cs_agents := btree_insert (ah_device_id hello) (new_session E c sid peer hello tx ds act) (cs_agents st1) \<rparr>" "r \<noteq> Panic"
        using run hello ok(1) profile Some rec Ok x by (auto simp: connect_def new_session_def Let_def split: prod.splits if_splits)
      then show ?thesis using accepted [OF hello(1,2) Some] rec Ok x by simp
    qed (use run hello ok(1) profile Some rec failed [OF hello(1,2)] in \<open>auto simp: connect_def\<close>)
  qed
qed

lemma connect_moves:
  assumes run: "connect E c now sid peer first st = (st', r)"
  shows "lease_moves st st'"
  using run
proof (cases rule: connect_cases)
  case (failed hello r1)
  then show ?thesis using reconcile_recoveries_moves [OF validate_hello_Ok(4) [OF failed(2)] failed(3)] lease_moves_trans [OF remove_agent_session_moves] by blast
next
  case (accepted hello tx ds act st1)
  let ?d = "ah_device_id hello"
  note rec = reconcile_recoveries_moves [OF validate_hello_Ok(4) [OF accepted(2)] accepted(4)]
  have "?d \<notin> set (map fst (cs_agents st1))" using rec remove_agent_session_agents [of E ?d st] by simp
  then have "lease_moves st1 st'" unfolding accepted(5) by (simp add: lease_moves_def same_rest_def btree_insert_distinct)
  then show ?thesis using rec lease_moves_trans remove_agent_session_moves by blast
qed simp_all

lemma connect_inv:
  assumes inv: "fleet_inv st" and ho: "hash_order_ok E" and run: "connect E c now sid peer first st = (st', r)"
  shows "r \<noteq> Panic \<and> fleet_inv st' \<or> r = Panic \<and> (new_channel E (cc_command_capacity c) = None \<or> \<not> now + cc_lease_duration c \<le> INSTANT_MAX)"
  using run
proof (cases rule: connect_cases)
  case (failed hello r1)
  have "fleet_inv_with (session_holdings (ah_device_id hello) sid []) (remove_agent_session E (ah_device_id hello) st)"
    using remove_agent_session_inv(1) [OF inv ho] by simp
  from reconcile_recoveries_inv [OF this _ validate_hello_Ok(4) [OF failed(2)] failed(3)] failed(4,5) show ?thesis by auto
next
  case (accepted hello tx ds act st1)
  let ?d = "ah_device_id hello"
  note ok = validate_hello_Ok [OF accepted(2)]
  note gone = remove_agent_session_inv [OF inv ho, of ?d]
  have "fleet_inv_with (session_holdings ?d sid []) (remove_agent_session E ?d st)" using gone(1) by simp
  from reconcile_recoveries_inv [OF this _ ok(4) accepted(4)]
  have rec: "fleet_inv_with (session_holdings ?d sid act) st1" "distinct (map fst act)" "length act \<le> length (ah_recoveries hello)" by simp_all
  have "unat (ah_job_slots hello) < 2 ^ 32" using unsigned_less [of "ah_job_slots hello"] by simp
  then have agent: "agent_ok (new_session E c sid peer hello tx ds act)" using rec(2,3) ok(3) by (simp add: agent_ok_def)
  have "cs_agents st1 = cs_agents (remove_agent_session E ?d st)" using reconcile_recoveries_moves [OF ok(4) accepted(4)] by simp
  then have "fleet_inv st'" unfolding accepted(5) by (intro register_inv [OF _ _ agent]) (use rec(1) gone(2) in simp_all)
  then show ?thesis using accepted(6) by simp
qed (use inv in auto)

lemma retain_artifacts_frame:
  assumes "retain_artifacts E c ds subjects st = Ok st'"
  shows "cs_jobs st' = cs_jobs st" "cs_queue st' = cs_queue st" "cs_agents st' = cs_agents st" "cs_receipts st' = cs_receipts st" "cs_replies st' = cs_replies st"
  using assms by (auto simp: retain_artifacts_def split: if_splits)

lemma new_job_inv:
  assumes inv: "fleet_inv st" and new: "map_of (cs_jobs st) j = None" and job: "jb_state job = Queued"
  shows "fleet_inv (st \<lparr> cs_jobs := AList.update j job (cs_jobs st), cs_queue := cs_queue st @ [j] \<rparr>)" (is "fleet_inv ?st")
proof (rule fleet_invI)
  have "lease_map ?st = (lease_map st)(j \<mapsto> None)" using job by (auto simp: lease_map_def)
  then show "lease_ok (lease_map ?st) (cs_queue ?st) (holdings (cs_agents ?st) \<union> {})"
    using lease_ok_new_job [OF fleet_invD(1) [OF inv], of j] new by (simp add: lease_map_def)
  show "jb_state job' = Queued" if "map_of (cs_jobs ?st) i = Some job'" "jb_recovery job' \<noteq> None" for i job'
    using that fleet_invD(4) [OF inv, of i job'] job by (simp split: if_splits)
  show "agent_ok agent" if "map_of (cs_agents ?st) d = Some agent" for d agent using that fleet_invD(5) [OF inv] by simp
qed (use fleet_invD(2,3) [OF inv] in \<open>simp_all add: distinct_update\<close>)

text \<open>
  Every handler ends in \<open>schedule\<close>. What it leaves is the state it was given, up to moves of leases; if it does
  not panic, the invariant holds and no assignment is left to make.
\<close>

lemma finish_with_schedule:
  assumes "fleet_inv st" "hash_order_ok E" "finish_with (schedule E c now random 0 st) result = (st', r)"
  shows "r = result \<and> fleet_inv st' \<or> r = Panic \<and> \<not> now + cc_accept_timeout c \<le> INSTANT_MAX"
proof (cases "now + cc_accept_timeout c \<le> INSTANT_MAX")
  case True
  then show ?thesis using schedule_inv [OF assms(1,2) True, of random 0] assms(3) by (auto simp: finish_with_def)
next
  case False
  then show ?thesis using schedule_overflow [OF assms(1) False, of E random 0] assms(1,3)
    by (cases "find_assignment st") (auto simp: finish_with_def)
qed

lemma retain_artifacts_no_panic: "retain_artifacts E c ds subjects st \<noteq> Panic"
proof -
  have 1: "request_artifacts xs req \<noteq> Panic" for xs req
    by (induction xs req rule: request_artifacts.induct) (auto split: option.splits prod.splits)
  have 2: "count_new arts xs a b \<noteq> Panic" for arts xs a b
    by (induction arts xs a b rule: count_new.induct) (auto split: option.splits)
  show ?thesis using 1 2 by (auto simp: retain_artifacts_def obind_Panic_iff split: prod.splits)
qed

lemma enqueue_cases:
  assumes run: "enqueue E c now random sub nonce st = (st', r)"
  obtains (refused) e where "r = Err e" "st' = st \<or> st' = expire_leases E now st"
  | (admitted) ds st1 j job where "omap (artifact_descriptor (rc_blake3 (env_codec E))) (ms_subjects sub) = Ok ds"
      "map_of (cs_jobs (expire_leases E now st)) j = None" "\<not> ledger_contains j (cs_receipts (expire_leases E now st))"
      "retain_artifacts E c ds (ms_subjects sub) (expire_leases E now st) = Ok st1"
      "j = job_id_of (rc_blake3 (env_codec E)) (measurement_key (rc_blake3 (env_codec E)) sub ds) nonce"
      "job = \<lparr> jb_submission = sub, jb_descriptors = ds, jb_measurement_key = measurement_key (rc_blake3 (env_codec E)) sub ds,
         jb_request_nonce = nonce, jb_reply = True, jb_state = Queued, jb_recovery = None \<rparr>"
      "length (ms_subjects sub) = subject_count (ms_kind sub)"
      "finish_with (schedule E c now random 0 (st1 \<lparr> cs_jobs := AList.update j job (cs_jobs st1), cs_queue := cs_queue st1 @ [j] \<rparr>)) (Ok j) = (st', r)"
proof -
  let ?H = "rc_blake3 (env_codec E)"
  have vp: "validate_submission c sub \<noteq> Panic" by (simp add: validate_submission_def)
  have dp: "omap (artifact_descriptor ?H) xs \<noteq> Panic" for xs
    by (induction xs) (auto simp: obind_Panic_iff artifact_descriptor_def split: prod.splits)
  show thesis
  proof (cases "validate_submission c sub")
    case (Err e)
    then show ?thesis using run refused [of e] by (simp add: enqueue_def)
  next
    case (Ok u)
    then have count: "length (ms_subjects sub) = subject_count (ms_kind sub)" by (auto simp: validate_submission_def split: if_splits)
    show ?thesis
    proof (cases "omap (artifact_descriptor ?H) (ms_subjects sub)")
      case (Err e)
      then show ?thesis using run refused [of e] Ok by (simp add: enqueue_def)
    next
      case ds: (Ok ds)
      let ?j = "job_id_of ?H (measurement_key ?H sub ds) nonce"
      let ?st = "expire_leases E now st"
      consider (full) "map_of (cs_jobs ?st) ?j \<noteq> None \<or> ledger_contains ?j (cs_receipts ?st) \<or> cc_queue_capacity c \<le> length (cs_queue ?st) \<or>
          \<not> can_admit (length (cs_jobs ?st)) (cs_receipts ?st)"
        | (room) "map_of (cs_jobs ?st) ?j = None" "\<not> ledger_contains ?j (cs_receipts ?st)" "\<not> cc_queue_capacity c \<le> length (cs_queue ?st)"
          "can_admit (length (cs_jobs ?st)) (cs_receipts ?st)" by blast
      then show ?thesis
      proof cases
        case full
        then have "\<exists>e. r = Err e \<and> st' = ?st" using run Ok ds by (auto simp: enqueue_def Let_def split: if_splits)
        then show ?thesis using refused by blast
      next
        case room
        show ?thesis
        proof (cases "retain_artifacts E c ds (ms_subjects sub) ?st")
          case (Ok st1)
          then show ?thesis using admitted [OF ds room(1,2) Ok refl refl count] run \<open>validate_submission c sub = outcome.Ok u\<close> ds room
            by (simp add: enqueue_def Let_def)
        next
          case (Err e)
          then show ?thesis using refused [of e] run \<open>validate_submission c sub = outcome.Ok u\<close> ds room by (simp add: enqueue_def Let_def)
        next
          case Panic
          then show ?thesis by (simp add: retain_artifacts_no_panic)
        qed
      qed
    qed (use dp in simp)
  qed (use vp in simp)
qed

lemma enqueue_inv:
  assumes inv: "fleet_inv st" and ho: "hash_order_ok E" and run: "enqueue E c now random sub nonce st = (st', r)"
  shows "r \<noteq> Panic \<and> fleet_inv st' \<or> r = Panic \<and> \<not> now + cc_accept_timeout c \<le> INSTANT_MAX"
  using run
proof (cases rule: enqueue_cases)
  case (refused e)
  then show ?thesis using inv expire_leases_inv [OF inv ho, of now] by auto
next
  case (admitted ds st1 j job)
  note frame = retain_artifacts_frame [OF admitted(4)]
  have "fleet_inv st1" using expire_leases_inv [OF inv ho, of now] fleet_inv_cong [OF frame(1-3)] by simp
  then have "fleet_inv (st1 \<lparr> cs_jobs := AList.update j job (cs_jobs st1), cs_queue := cs_queue st1 @ [j] \<rparr>)"
    using admitted(2,6) frame(1) by (intro new_job_inv) simp_all
  from finish_with_schedule [OF this ho admitted(8)] show ?thesis by auto
qed

lemma from_slice_bad: "length b \<noteq> n \<Longrightarrow> from_slice name n b =
    Err (protocol_error (name @ '' must be '' @ show_nat n @ '' bytes, got '' @ show_nat (length b)))"
  by (simp add: from_slice_def)

lemma validate_report_Ok:
  assumes "validate_report c j job agent cur l report = Ok u"
  shows "\<exists>a. jb_state job = Running a \<and> al_device_id a = fst agent \<and> al_current_session_id a = cur \<and> al_lease_id a = l \<and>
    rp_origin_session_id report = al_origin_session_id a \<and> rp_measurement_key report = jb_measurement_key job \<and> rp_request_nonce report = jb_request_nonce job"
  using assms by (auto simp: validate_report_def split: job_state.splits if_splits)

lemma checks_no_panic [simp]:
  "check_subjects c i xs \<noteq> Panic" "check_samples n is ss \<noteq> Panic" "check_outcome report \<noteq> Panic"
proof -
  show "check_subjects c i xs \<noteq> Panic" by (induction xs arbitrary: i) auto
  show "check_samples n is ss \<noteq> Panic" by (induction ss arbitrary: n "is") (auto split: option.splits)
  show "check_outcome report \<noteq> Panic" by (simp add: check_outcome_def split: option.splits)
qed

lemma validate_report_no_panic: "validate_report c j job agent cur l report \<noteq> Panic"
  by (auto simp: validate_report_def obind_Panic_iff split: job_state.splits)

lemma authenticate_session_no_panic: "authenticate_session st s p \<noteq> Panic"
  by (auto simp: authenticate_session_def split: option.splits)

lemma ledger_commit_no_panic: "snd (ledger_commit C fault j report l) \<noteq> Panic"
  by (cases l) (auto simp: Let_def append_record_def split: option.splits)

lemma find_SomeD: "find P xs = Some x \<Longrightarrow> x \<in> set xs \<and> P x"
  by (induction xs) (auto split: if_splits)

lemma authenticate_session_Ok:
  "authenticate_session st s p = Ok (d, agent) \<Longrightarrow> (d, agent) \<in> set (cs_agents st) \<and> ag_session_id agent = s \<and> ag_peer_fingerprint agent = p"
  by (auto simp: authenticate_session_def dest: find_SomeD split: option.split_asm if_split_asm)

text \<open>
  The checks a submission passes before its report reaches the ledger; if one of them fails, nothing
  changes.
\<close>

definition submission_accepted ::
    "'tx service_env \<Rightarrow> coordinator_config \<Rightarrow> bytes option \<Rightarrow> bytes \<Rightarrow> 'tx coordinator_state \<Rightarrow> measure_report \<Rightarrow> bytes \<times> 'tx agent_session \<Rightarrow> job \<Rightarrow> bool"
where
  "submission_accepted E c peer s st report agent job \<longleftrightarrow>
     length s = 16 \<and> length (rp_job_id report) = 32 \<and> length (rp_lease_id report) = 16 \<and> authenticate_session st s peer = Ok agent \<and>
     length (rp_device_id report) = 16 \<and> rp_device_id report = fst agent \<and>
     receipt_state_of (env_codec E) (rp_job_id report) report (cs_receipts st) = Missing \<and>
     map_of (cs_jobs st) (rp_job_id report) = Some job \<and>
     validate_report c (rp_job_id report) job agent s (rp_lease_id report) report = Ok ()"

lemma submit_result_accepted:
  assumes ok: "submission_accepted E c peer s st report agent job"
    and commit: "ledger_commit (env_codec E) fault (rp_job_id report) report (cs_receipts st) = (l, r)"
  shows "submit_result E c now random fault peer s (Some report) st =
    (case r of Err e \<Rightarrow> (st \<lparr> cs_receipts := l \<rparr>, Err (status_for_error e))
     | Panic \<Rightarrow> (st \<lparr> cs_receipts := l \<rparr>, Panic)
     | Ok Identical \<Rightarrow> (st \<lparr> cs_receipts := l \<rparr>, Ok already_committed)
     | Ok Conflict \<Rightarrow> (st \<lparr> cs_receipts := l \<rparr>, Ok conflicting_report)
     | Ok Missing \<Rightarrow>
         let st = complete_job (fst agent) (rp_job_id report) job report (st \<lparr> cs_receipts := l \<rparr>)
         in finish_with (schedule E c now random 0 st) (Ok result_committed))"
proof -
  note acc = ok [unfolded submission_accepted_def]
  have "length (fst agent) = 16" using acc by metis
  then show ?thesis using acc commit by (simp add: submit_result_def Let_def split: outcome.split receipt_state.split)
qed

lemma submit_result_refused:
  assumes no: "\<And>report agent job. rr = Some report \<Longrightarrow> \<not> submission_accepted E c peer s st report agent job"
    and run: "submit_result E c now random fault peer s rr st = (st', r)"
  shows "st' = st \<and> r \<noteq> Panic \<and> r \<noteq> Ok result_committed"
proof (cases "length s = 16 \<and> (\<exists>report. rr = Some report \<and> length (rp_job_id report) = 32 \<and> length (rp_lease_id report) = 16)")
  case False
  then consider "length s \<noteq> 16" | "length s = 16" "rr = None"
    | report where "length s = 16" "rr = Some report" "length (rp_job_id report) \<noteq> 32"
    | report where "length s = 16" "rr = Some report" "length (rp_job_id report) = 32" "length (rp_lease_id report) \<noteq> 16"
    by (cases rr) auto
  then show ?thesis using run by cases (auto simp: submit_result_def from_slice_bad)
next
  case True
  then obtain report where ids: "length s = 16" "rr = Some report" "length (rp_job_id report) = 32" "length (rp_lease_id report) = 16" by blast
  show ?thesis
  proof (cases "authenticate_session st s peer")
    case (Ok agent)
    consider "length (rp_device_id report) \<noteq> 16" | "length (rp_device_id report) = 16" "rp_device_id report \<noteq> fst agent"
      | "length (rp_device_id report) = 16" "rp_device_id report = fst agent" by blast
    then show ?thesis
    proof cases
      case 3
      then have d: "length (fst agent) = 16" by simp
      show ?thesis
      proof (cases "receipt_state_of (env_codec E) (rp_job_id report) report (cs_receipts st)")
        case Missing
        show ?thesis
        proof (cases "map_of (cs_jobs st) (rp_job_id report)")
          case (Some job)
          then have "validate_report c (rp_job_id report) job agent s (rp_lease_id report) report \<noteq> outcome.Ok ()"
            using no ids Ok 3 Missing by (auto simp: submission_accepted_def)
          then obtain e where "validate_report c (rp_job_id report) job agent s (rp_lease_id report) report = Err e"
            using validate_report_no_panic [of c "rp_job_id report" job agent s "rp_lease_id report" report]
            by (cases "validate_report c (rp_job_id report) job agent s (rp_lease_id report) report") auto
          then show ?thesis using run ids Ok 3(2) d Missing Some by (auto simp: submit_result_def)
        qed (use run ids Ok 3(2) d Missing in \<open>auto simp: submit_result_def\<close>)
      qed (use run ids Ok 3(2) d in \<open>auto simp: submit_result_def\<close>)
    qed (use run ids Ok in \<open>auto simp: submit_result_def from_slice_bad\<close>)
  qed (use run ids authenticate_session_no_panic in \<open>auto simp: submit_result_def\<close>)
qed

text \<open>
  So a submission leaves everything as it is, or fails in the ledger, or ends the job its report is about
  under a lease that is held when it arrives.
\<close>

lemma submit_result_cases:
  assumes run: "submit_result E c now random fault peer s rr st = (st', r)"
  obtains (unchanged) "st' = st" "r \<noteq> Panic" "r \<noteq> Ok result_committed"
  | (rejected) l r' job report where "map_of (cs_jobs st) (rp_job_id report) = Some job"
      "ledger_commit (env_codec E) fault (rp_job_id report) report (cs_receipts st) = (l, r')" "r' \<noteq> Ok Missing"
      "st' = st \<lparr> cs_receipts := l \<rparr>" "r \<noteq> Panic" "r \<noteq> Ok result_committed"
  | (committed) agent job report l where "rr = Some report" "submission_accepted E c peer s st report agent job"
      "ledger_commit (env_codec E) fault (rp_job_id report) report (cs_receipts st) = (l, Ok Missing)"
      "finish_with (schedule E c now random 0 (complete_job (fst agent) (rp_job_id report) job report (st \<lparr> cs_receipts := l \<rparr>))) (Ok result_committed) = (st', r)"
proof (cases "\<exists>report agent job. rr = Some report \<and> submission_accepted E c peer s st report agent job")
  case False
  then have "st' = st \<and> r \<noteq> Panic \<and> r \<noteq> Ok result_committed" using submit_result_refused [OF _ run] by blast
  then show thesis using unchanged by blast
next
  case True
  then obtain report agent job where acc: "rr = Some report" "submission_accepted E c peer s st report agent job" by blast
  obtain l r' where commit: "ledger_commit (env_codec E) fault (rp_job_id report) report (cs_receipts st) = (l, r')"
    by (cases "ledger_commit (env_codec E) fault (rp_job_id report) report (cs_receipts st)")
  have job: "map_of (cs_jobs st) (rp_job_id report) = Some job" using acc(2) by (simp add: submission_accepted_def)
  note eval = submit_result_accepted [OF acc(2) commit, of now random]
  have "r' \<noteq> Panic" using ledger_commit_no_panic [of "env_codec E" fault "rp_job_id report" report "cs_receipts st"] commit by simp
  then consider "r' = Ok Missing" | e where "r' = Err e" | "r' = Ok Identical" | "r' = Ok Conflict"
    by (cases r') (auto intro: receipt_state.exhaust)
  then show thesis
  proof cases
    case 1
    then show ?thesis using committed [OF acc] commit eval run acc(1) by (simp add: Let_def)
  qed (use rejected [OF job commit] eval run acc(1) in auto)
qed

lemma accepted_lease:
  assumes "submission_accepted E c peer s st report agent job"
  obtains a where "jb_state job = Running a" "al_device_id a = fst agent" "al_current_session_id a = s" "al_lease_id a = rp_lease_id report"
    "lease_map st (rp_job_id report) = Some (Some a)"
  using assms validate_report_Ok [of c "rp_job_id report" job agent s "rp_lease_id report" report]
  by (auto simp: submission_accepted_def lease_map_def)

end
