(* ===== verification/Measure_Artifacts.thy ===== *)
theory Measure_Artifacts
  imports Measure_Fleet
begin

text \<open>
  The artifact store of the coordinator: every artifact of an admitted job is resident with its bytes, it
  is counted once per use, nothing else is resident, and the capacities hold.
\<close>

section \<open>Counting\<close>

definition digests :: "artifact_desc list \<Rightarrow> digest list" where
  "digests ds = map desc_digest ds"

definition uses :: "(bytes \<times> measure_submission \<times> artifact_desc list \<times> bool) list \<Rightarrow> digest \<Rightarrow> nat" where
  "uses js h = sum_list (map (\<lambda>(j, sub, ds, reply). count_list (digests ds) h) js)"

definition references :: "(digest \<times> artifact_record) list \<Rightarrow> digest \<Rightarrow> nat" where
  "references arts h = (case map_of arts h of None \<Rightarrow> 0 | Some r \<Rightarrow> ar_references r)"

definition stored :: "(digest \<times> artifact_record) list \<Rightarrow> nat" where
  "stored arts = sum_list (map (\<lambda>(h, r). length (ar_bytes r)) arts)"

definition store_ok :: "(digest \<Rightarrow> nat) \<Rightarrow> (digest \<times> artifact_record) list \<Rightarrow> bool" where
  "store_ok R arts \<longleftrightarrow> distinct (map fst arts) \<and> references arts = R \<and> (\<forall>h r. map_of arts h = Some r \<longrightarrow> 0 < ar_references r)"

lemma store_okD:
  assumes "store_ok R arts"
  shows "distinct (map fst arts)" "references arts h = R h" "map_of arts h = Some r \<Longrightarrow> ar_references r = R h \<and> 0 < R h" "0 < R h \<Longrightarrow> \<exists>r. map_of arts h = Some r"
  using assms by (auto simp: store_ok_def references_def fun_eq_iff split: option.splits)

lemma store_okI:
  assumes "distinct (map fst arts)" "\<And>h. references arts h = R h" "\<And>h r. map_of arts h = Some r \<Longrightarrow> 0 < ar_references r"
  shows "store_ok R arts"
  using assms by (auto simp: store_ok_def)

lemma stored_update: "map_of arts h = Some r \<Longrightarrow> ar_bytes r' = ar_bytes r \<Longrightarrow> stored (AList.update h r' arts) = stored arts"
  unfolding stored_def by (subst map_update_same [of _ _ r]) simp_all

lemma length_update_same: "map_of m k = Some w \<Longrightarrow> length (AList.update k v m) = length m"
  by (metis keys_update length_map)

lemma stored_new: "map_of arts h = None \<Longrightarrow> stored (AList.update h r arts) = stored arts + length (ar_bytes r)"
  by (simp add: stored_def update_new map_of_eq_None_iff)

lemma stored_delete: "distinct (map fst arts) \<Longrightarrow> map_of arts h = Some r \<Longrightarrow> stored arts = length (ar_bytes r) + stored (AList.delete h arts)"
proof (induction arts)
  case (Cons x arts)
  then show ?case
  proof (cases "fst x = h")
    case True
    then have "h \<notin> fst ` set arts" using Cons.prems(1) by auto
    then show ?thesis using Cons.prems(2) True by (cases x) (simp add: stored_def delete_notin_dom)
  next
    case False
    then show ?thesis using Cons by (cases x) (simp add: stored_def)
  qed
qed simp

lemma references_update: "references (AList.update h r arts) = (references arts)(h := ar_references r)"
  by (auto simp: references_def)

lemma references_delete: "references (AList.delete h arts) = (references arts)(h := 0)"
  by (auto simp: references_def)

section \<open>Releasing\<close>

definition kept_bytes :: "(digest \<times> artifact_record) list \<Rightarrow> (digest \<times> artifact_record) list \<Rightarrow> bool" where
  "kept_bytes arts arts' \<longleftrightarrow> (\<forall>h r'. map_of arts' h = Some r' \<longrightarrow> (\<exists>r. map_of arts h = Some r \<and> ar_bytes r = ar_bytes r'))"

lemma release_artifact_ok:
  assumes ok: "store_ok R (cs_artifacts st)" "cs_artifact_bytes st = stored (cs_artifacts st)" and h: "0 < R h"
  shows "store_ok (R(h := R h - 1)) (cs_artifacts (release_artifact h st))" "cs_artifact_bytes (release_artifact h st) = stored (cs_artifacts (release_artifact h st))"
    "kept_bytes (cs_artifacts st) (cs_artifacts (release_artifact h st))" "length (cs_artifacts (release_artifact h st)) \<le> length (cs_artifacts st)"
    "cs_artifact_bytes (release_artifact h st) \<le> cs_artifact_bytes st"
proof -
  obtain r where r: "map_of (cs_artifacts st) h = Some r" using store_okD(4) [OF ok(1) h] by blast
  have R: "ar_references r = R h" using store_okD(3) [OF ok(1) r] by simp
  let ?st = "release_artifact h st"
  let ?r = "r \<lparr> ar_references := ar_references r - 1 \<rparr>"
  have arts: "cs_artifacts ?st = (if 1 < R h then AList.update h ?r (cs_artifacts st) else AList.delete h (cs_artifacts st))"
    and bytes: "cs_artifact_bytes ?st = (if 1 < R h then cs_artifact_bytes st else cs_artifact_bytes st - length (ar_bytes r))"
    using r R by (auto simp: release_artifact_def)
  have ref: "references (cs_artifacts ?st) = R(h := R h - 1)"
    using ok(1) R h unfolding arts by (auto simp: references_update references_delete store_ok_def)
  show "store_ok (R(h := R h - 1)) (cs_artifacts ?st)"
  proof (rule store_okI)
    show "distinct (map fst (cs_artifacts ?st))" using store_okD(1) [OF ok(1)] unfolding arts by (simp add: distinct_update distinct_delete)
    show "0 < ar_references q" if "map_of (cs_artifacts ?st) k = Some q" for k q
      using that store_okD(3) [OF ok(1), of k q] R unfolding arts by (auto split: if_splits)
  qed (simp add: ref)
  show "cs_artifact_bytes ?st = stored (cs_artifacts ?st)"
    using ok(2) stored_update [OF r, of ?r] stored_delete [OF store_okD(1) [OF ok(1)] r] unfolding arts bytes by simp
  show "kept_bytes (cs_artifacts st) (cs_artifacts ?st)" unfolding arts kept_bytes_def using r by (auto split: if_splits)
  show "length (cs_artifacts ?st) \<le> length (cs_artifacts st)"
    using length_delete_le [of h "cs_artifacts st"] keys_update [OF r, of ?r] unfolding arts by (metis length_map order_refl)
  show "cs_artifact_bytes ?st \<le> cs_artifact_bytes st" unfolding bytes by simp
qed

lemma kept_bytes_trans: "kept_bytes a b \<Longrightarrow> kept_bytes b c \<Longrightarrow> kept_bytes a c"
  unfolding kept_bytes_def by metis

lemma kept_bytes_refl [simp]: "kept_bytes a a"
  by (simp add: kept_bytes_def)

lemma release_artifacts_ok:
  assumes "store_ok R (cs_artifacts st)" "cs_artifact_bytes st = stored (cs_artifacts st)" "\<And>h. count_list (digests ds) h \<le> R h"
  shows "store_ok (\<lambda>h. R h - count_list (digests ds) h) (cs_artifacts (release_artifacts ds st)) \<and>
    cs_artifact_bytes (release_artifacts ds st) = stored (cs_artifacts (release_artifacts ds st)) \<and>
    kept_bytes (cs_artifacts st) (cs_artifacts (release_artifacts ds st)) \<and> length (cs_artifacts (release_artifacts ds st)) \<le> length (cs_artifacts st) \<and>
    cs_artifact_bytes (release_artifacts ds st) \<le> cs_artifact_bytes st"
  using assms
proof (induction ds arbitrary: R st)
  case Nil
  then show ?case by (simp add: release_artifacts_def digests_def)
next
  case (Cons d ds)
  let ?h = "desc_digest d"
  have pos: "0 < R ?h" using Cons.prems(3) [of ?h] by (simp add: digests_def)
  note step = release_artifact_ok [OF Cons.prems(1,2) pos]
  have le: "count_list (digests ds) h \<le> (R(?h := R ?h - 1)) h" for h using Cons.prems(3) [of h] by (auto simp: digests_def)
  have fun_eq: "(\<lambda>h. (R(?h := R ?h - 1)) h - count_list (digests ds) h) = (\<lambda>h. R h - count_list (digests (d # ds)) h)"
    by (auto simp: digests_def)
  have "release_artifacts (d # ds) st = release_artifacts ds (release_artifact ?h st)" by (simp add: release_artifacts_def)
  then show ?case using Cons.IH [OF step(1,2) le] step(3-5) kept_bytes_trans [OF step(3)] unfolding fun_eq by auto
qed

section \<open>Retaining\<close>

definition requested_count :: "(digest \<times> bytes \<times> nat) list \<Rightarrow> digest \<Rightarrow> nat" where
  "requested_count req h = (case map_of req h of None \<Rightarrow> 0 | Some (b, n) \<Rightarrow> n)"

definition request_ok :: "(digest \<times> bytes \<times> nat) list \<Rightarrow> bool" where
  "request_ok req \<longleftrightarrow> distinct (map fst req) \<and> (\<forall>h b n. map_of req h = Some (b, n) \<longrightarrow> 0 < n)"

lemma request_artifacts_ok:
  assumes "request_artifacts xs req = Ok req'" "request_ok req"
  shows "request_ok req' \<and> requested_count req' = (\<lambda>h. requested_count req h + count_list (digests (map fst xs)) h) \<and>
    (\<forall>h b n. map_of req h = Some (b, n) \<longrightarrow> (\<exists>n'. map_of req' h = Some (b, n'))) \<and>
    (\<forall>(d, a) \<in> set xs. \<exists>n. map_of req' (desc_digest d) = Some (ga_bytes a, n))"
  using assms
proof (induction xs arbitrary: req)
  case Nil
  then show ?case by (simp add: digests_def)
next
  case (Cons x xs)
  obtain d a where x: "x = (d, a)" by (cases x)
  let ?h = "desc_digest d"
  have "\<exists>req1 n. request_artifacts xs req1 = Ok req' \<and> req1 = AList.update ?h (ga_bytes a, n + 1) req \<and> n = requested_count req ?h \<and>
      (\<forall>b m. map_of req ?h = Some (b, m) \<longrightarrow> b = ga_bytes a)"
    using Cons.prems(1) x by (cases "map_of req ?h") (auto simp: requested_count_def split: if_splits)
  then obtain req1 n where r1: "request_artifacts xs req1 = Ok req'" "req1 = AList.update ?h (ga_bytes a, n + 1) req" "n = requested_count req ?h"
    "\<And>b m. map_of req ?h = Some (b, m) \<Longrightarrow> b = ga_bytes a" by blast
  have ok1: "request_ok req1" using Cons.prems(2) unfolding r1(2) request_ok_def by (auto simp: distinct_update split: if_splits)
  note IH = Cons.IH [OF r1(1) ok1]
  have count1: "requested_count req1 h = requested_count req h + (if h = ?h then 1 else 0)" for h
    unfolding r1(2) using r1(3) by (simp add: requested_count_def)
  have here: "map_of req1 ?h = Some (ga_bytes a, n + 1)" unfolding r1(2) by simp
  have keep: "\<exists>n'. map_of req' k = Some (b, n')" if "map_of req k = Some (b, m)" for k b m
  proof (cases "k = ?h")
    case True
    then show ?thesis using IH here r1(4) that by blast
  next
    case False
    then have "map_of req1 k = Some (b, m)" using that unfolding r1(2) by simp
    then show ?thesis using IH by blast
  qed
  show ?case using IH here keep x by (auto simp: count1 digests_def fun_eq_iff)
qed

definition fresh_bytes :: "(digest \<times> artifact_record) list \<Rightarrow> (digest \<times> bytes \<times> nat) list \<Rightarrow> nat" where
  "fresh_bytes arts xs = sum_list (map (\<lambda>(h, b, n). if map_of arts h = None then length b else 0) xs)"

definition fresh_items :: "(digest \<times> artifact_record) list \<Rightarrow> (digest \<times> bytes \<times> nat) list \<Rightarrow> nat" where
  "fresh_items arts xs = length (filter (\<lambda>(h, b, n). map_of arts h = None) xs)"

lemma count_new_ok:
  assumes "count_new arts xs items bytes = Ok (items', bytes')"
  shows "items' = items + fresh_items arts xs \<and> bytes' = bytes + fresh_bytes arts xs \<and>
    (\<forall>(h, b, n) \<in> set xs. \<forall>r. map_of arts h = Some r \<longrightarrow> ar_bytes r = b)"
  using assms
proof (induction arts xs items bytes rule: count_new.induct)
  case (2 arts h b n rest items bytes)
  then show ?case by (cases "map_of arts h") (auto simp: fresh_items_def fresh_bytes_def split: if_splits)
qed (simp add: fresh_items_def fresh_bytes_def)

lemma keep_artifact_ok:
  assumes ok: "store_ok R arts" and n: "0 < n" and same: "\<And>r. map_of arts h = Some r \<Longrightarrow> ar_bytes r = b"
  shows "store_ok (R(h := R h + n)) (keep_artifact (h, b, n) arts)"
    "stored (keep_artifact (h, b, n) arts) = stored arts + (if map_of arts h = None then length b else 0)"
    "length (keep_artifact (h, b, n) arts) = length arts + (if map_of arts h = None then 1 else 0)"
    "\<exists>r. map_of (keep_artifact (h, b, n) arts) h = Some r \<and> ar_bytes r = b"
    "k \<noteq> h \<Longrightarrow> map_of (keep_artifact (h, b, n) arts) k = map_of arts k"
proof -
  let ?r = "case map_of arts h of Some r \<Rightarrow> r \<lparr> ar_references := ar_references r + n \<rparr> | None \<Rightarrow> \<lparr> ar_bytes = b, ar_references = n \<rparr>"
  have keep: "keep_artifact (h, b, n) arts = AList.update h ?r arts" by (simp add: keep_artifact_def split: option.splits)
  have r: "ar_references ?r = R h + n" "ar_bytes ?r = b"
    using store_okD(2) [OF ok, of h] same by (simp_all add: references_def split: option.splits)
  show "store_ok (R(h := R h + n)) (keep_artifact (h, b, n) arts)"
  proof (rule store_okI)
    show "distinct (map fst (keep_artifact (h, b, n) arts))" unfolding keep using store_okD(1) [OF ok] by (simp add: distinct_update)
    show "references (keep_artifact (h, b, n) arts) k = (R(h := R h + n)) k" for k
      unfolding keep references_update using r(1) store_okD(2) [OF ok, of k] by simp
    show "0 < ar_references q" if q: "map_of (keep_artifact (h, b, n) arts) k = Some q" for k q
      using q store_okD(3) [OF ok, of k q] r(1) n unfolding keep by (cases "k = h") auto
  qed
  show "stored (keep_artifact (h, b, n) arts) = stored arts + (if map_of arts h = None then length b else 0)"
    unfolding keep using stored_new [of arts h ?r] stored_update [of arts h _ ?r] r(2) same by (cases "map_of arts h") auto
  show "length (keep_artifact (h, b, n) arts) = length arts + (if map_of arts h = None then 1 else 0)"
  proof (cases "map_of arts h")
    case None
    then show ?thesis unfolding keep by (simp add: update_new map_of_eq_None_iff)
  next
    case (Some q)
    then show ?thesis using length_update_same [OF Some, of ?r] unfolding keep by simp
  qed
  show "\<exists>r. map_of (keep_artifact (h, b, n) arts) h = Some r \<and> ar_bytes r = b" unfolding keep using r(2) by simp
  show "k \<noteq> h \<Longrightarrow> map_of (keep_artifact (h, b, n) arts) k = map_of arts k" unfolding keep by simp
qed

lemma fold_keep_ok:
  assumes "store_ok R arts" "distinct (map fst xs)" "\<forall>(h, b, n) \<in> set xs. 0 < n"
    "\<forall>(h, b, n) \<in> set xs. \<forall>r. map_of arts h = Some r \<longrightarrow> ar_bytes r = b"
  shows "store_ok (\<lambda>h. R h + requested_count xs h) (fold keep_artifact xs arts) \<and>
    stored (fold keep_artifact xs arts) = stored arts + fresh_bytes arts xs \<and>
    length (fold keep_artifact xs arts) = length arts + fresh_items arts xs \<and>
    (\<forall>(h, b, n) \<in> set xs. \<exists>r. map_of (fold keep_artifact xs arts) h = Some r \<and> ar_bytes r = b) \<and>
    (\<forall>h. h \<notin> set (map fst xs) \<longrightarrow> map_of (fold keep_artifact xs arts) h = map_of arts h)"
  using assms
proof (induction xs arbitrary: R arts)
  case Nil
  then show ?case by (simp add: requested_count_def fresh_bytes_def fresh_items_def)
next
  case (Cons x xs)
  obtain h b n where x: "x = (h, b, n)" by (cases x)
  have new: "h \<notin> set (map fst xs)" using Cons.prems(2) x by simp
  have step: "store_ok (R(h := R h + n)) (keep_artifact x arts)"
    "stored (keep_artifact x arts) = stored arts + (if map_of arts h = None then length b else 0)"
    "length (keep_artifact x arts) = length arts + (if map_of arts h = None then 1 else 0)"
    "\<exists>r. map_of (keep_artifact x arts) h = Some r \<and> ar_bytes r = b"
    "k \<noteq> h \<Longrightarrow> map_of (keep_artifact x arts) k = map_of arts k" for k
    using keep_artifact_ok [OF Cons.prems(1), of n h b] Cons.prems(3,4) x by auto
  have other: "map_of (keep_artifact x arts) k = map_of arts k" if "(k, c, m) \<in> set xs" for k c m
    using step(5) [of k] new that by (force simp: image_iff)
  have pre: "\<forall>(k, c, m) \<in> set xs. \<forall>r. map_of (keep_artifact x arts) k = Some r \<longrightarrow> ar_bytes r = c"
    using other Cons.prems(4) by fastforce
  have fresh: "fresh_bytes (keep_artifact x arts) xs = fresh_bytes arts xs" "fresh_items (keep_artifact x arts) xs = fresh_items arts xs"
    unfolding fresh_bytes_def fresh_items_def using other by (auto intro!: arg_cong [where f = sum_list] arg_cong [where f = length] filter_cong)
  have count: "(\<lambda>k. (R(h := R h + n)) k + requested_count xs k) = (\<lambda>k. R k + requested_count (x # xs) k)"
  proof -
    have "map_of xs h = None" using new by (simp add: map_of_eq_None_iff)
    then show ?thesis using x by (auto simp: requested_count_def fun_eq_iff)
  qed
  note IH = Cons.IH [OF step(1) _ _ pre]
  show ?case using IH Cons.prems(2,3) step(2-5) x new fresh count by (auto simp: fresh_bytes_def fresh_items_def)
qed

section \<open>The store of a coordinator\<close>

definition resident :: "(digest \<times> artifact_record) list \<Rightarrow> artifact_desc \<Rightarrow> graph_artifact \<Rightarrow> bool" where
  "resident arts d a \<longleftrightarrow> (\<exists>r. map_of arts (desc_digest d) = Some r \<and> ar_bytes r = ga_bytes a)"

definition art_inv :: "coordinator_config \<Rightarrow> 'tx coordinator_state \<Rightarrow> bool" where
  "art_inv c st \<longleftrightarrow>
     store_ok (uses (job_static (cs_jobs st))) (cs_artifacts st) \<and> cs_artifact_bytes st = stored (cs_artifacts st) \<and>
     cs_artifact_bytes st \<le> cc_artifact_byte_capacity c \<and> length (cs_artifacts st) \<le> cc_artifact_item_capacity c \<and>
     (\<forall>(j, sub, ds, reply) \<in> set (job_static (cs_jobs st)). list_all2 (resident (cs_artifacts st)) ds (ms_subjects sub))"

lemma art_invD:
  assumes "art_inv c st"
  shows "store_ok (uses (job_static (cs_jobs st))) (cs_artifacts st)" "cs_artifact_bytes st = stored (cs_artifacts st)"
    "cs_artifact_bytes st \<le> cc_artifact_byte_capacity c" "length (cs_artifacts st) \<le> cc_artifact_item_capacity c"
    "(j, sub, ds, reply) \<in> set (job_static (cs_jobs st)) \<Longrightarrow> list_all2 (resident (cs_artifacts st)) ds (ms_subjects sub)"
  using assms by (auto simp: art_inv_def)

lemma art_inv_rest: "same_rest st st' \<Longrightarrow> art_inv c st' = art_inv c st"
  by (simp add: art_inv_def same_rest_def)

lemma uses_member: "(j, sub, ds, reply) \<in> set js \<Longrightarrow> count_list (digests ds) h \<le> uses js h"
  unfolding uses_def by (induction js) auto

lemma uses_delete:
  assumes "distinct (map fst js)" "(j, sub, ds, reply) \<in> set js"
  shows "uses (AList.delete j js) h = uses js h - count_list (digests ds) h"
  using assms
proof (induction js)
  case (Cons x js)
  show ?case
  proof (cases "fst x = j")
    case True
    then have "j \<notin> fst ` set js" using Cons.prems(1) by auto
    moreover have "x = (j, sub, ds, reply)" using Cons.prems(1,2) True by (force simp: image_iff)
    ultimately show ?thesis by (simp add: uses_def delete_notin_dom)
  next
    case False
    then have "(j, sub, ds, reply) \<in> set js" using Cons.prems(2) by auto
    then show ?thesis using Cons False uses_member [of j sub ds reply js h] by (cases x) (simp add: uses_def)
  qed
qed simp

lemma job_static_delete: "job_static (AList.delete j jobs) = AList.delete j (job_static jobs)"
  by (simp add: job_static_def AList.delete_eq filter_map comp_def case_prod_unfold)

lemma job_static_new: "j \<notin> set (map fst jobs) \<Longrightarrow>
    job_static (AList.update j job jobs) = job_static jobs @ [(j, jb_submission job, jb_descriptors job, jb_reply job)]"
  by (simp add: update_new job_static_def)

text \<open>A job is dropped: its artifacts are released, the others stay.\<close>

lemma release_job_inv:
  assumes inv: "art_inv c st" and d: "distinct (map fst (cs_jobs st))" and job: "map_of (cs_jobs st) j = Some job"
    and st': "cs_jobs st' = AList.delete j (cs_jobs st)" "cs_artifacts st' = cs_artifacts st" "cs_artifact_bytes st' = cs_artifact_bytes st"
  shows "art_inv c (release_artifacts (jb_descriptors job) st')"
proof -
  let ?js = "job_static (cs_jobs st)" and ?ds = "jb_descriptors job"
  let ?st = "release_artifacts ?ds st'"
  have mem: "(j, jb_submission job, ?ds, jb_reply job) \<in> set ?js" using map_of_SomeD [OF job] by (force simp: job_static_def)
  have dist: "distinct (map fst ?js)" using d by (simp add: job_static_keys)
  have rel: "store_ok (\<lambda>h. uses ?js h - count_list (digests ?ds) h) (cs_artifacts ?st)" "cs_artifact_bytes ?st = stored (cs_artifacts ?st)"
    "kept_bytes (cs_artifacts st) (cs_artifacts ?st)" "length (cs_artifacts ?st) \<le> length (cs_artifacts st)" "cs_artifact_bytes ?st \<le> cs_artifact_bytes st"
    using release_artifacts_ok [of "uses ?js" st' ?ds] art_invD(1,2) [OF inv] uses_member [OF mem] st' by simp_all
  have js': "job_static (cs_jobs ?st) = AList.delete j ?js" using st'(1) by (simp add: job_static_delete)
  have uses': "uses (job_static (cs_jobs ?st)) = (\<lambda>h. uses ?js h - count_list (digests ?ds) h)"
    unfolding js' using uses_delete [OF dist mem] by (simp add: fun_eq_iff)
  have res: "resident (cs_artifacts ?st) e a" if e: "(i, sub, es, rep) \<in> set (AList.delete j ?js)" "e \<in> set es" "resident (cs_artifacts st) e a" for i sub es rep e a
  proof -
    have "0 < count_list (digests es) (desc_digest e)" using e(2) by (auto simp: digests_def count_list_0_iff intro!: gr0I)
    then have "0 < uses (job_static (cs_jobs ?st)) (desc_digest e)" using uses_member [OF e(1), of "desc_digest e"] unfolding js' by linarith
    then obtain r where "map_of (cs_artifacts ?st) (desc_digest e) = Some r" using store_okD(4) [OF rel(1)] unfolding uses' by blast
    then show ?thesis using rel(3) e(3) unfolding kept_bytes_def resident_def by (metis option.inject)
  qed
  have "list_all2 (resident (cs_artifacts ?st)) es (ms_subjects sub)" if e: "(i, sub, es, rep) \<in> set (AList.delete j ?js)" for i sub es rep
  proof -
    have "(i, sub, es, rep) \<in> set ?js" using e by (auto simp: AList.delete_eq)
    then have "list_all2 (resident (cs_artifacts st)) es (ms_subjects sub)" by (rule art_invD(5) [OF inv])
    then show ?thesis by (rule list.rel_mono_strong) (use res [OF e] in auto)
  qed
  then show ?thesis unfolding art_inv_def using rel art_invD(3,4) [OF inv] uses' js' by auto
qed

lemma retain_inv:
  assumes inv: "art_inv c st" and ho: "hash_order_ok E" and run: "retain_artifacts E c ds (ms_subjects sub) st = Ok st1"
    and len: "length ds = length (ms_subjects sub)" and new: "map_of (cs_jobs st) j = None"
    and job: "jb_submission job = sub" "jb_descriptors job = ds" and st': "cs_jobs st' = AList.update j job (cs_jobs st)"
      "cs_artifacts st' = cs_artifacts st1" "cs_artifact_bytes st' = cs_artifact_bytes st1"
  shows "art_inv c st'"
proof -
  let ?js = "job_static (cs_jobs st)"
  obtain req items bytes where req: "request_artifacts (zip ds (ms_subjects sub)) [] = Ok req"
    "count_new (cs_artifacts st) (hash_entries E req) 0 0 = Ok (items, bytes)"
    "length (cs_artifacts st) + items \<le> cc_artifact_item_capacity c" "cs_artifact_bytes st + bytes \<le> cc_artifact_byte_capacity c"
    "st1 = st \<lparr> cs_artifact_bytes := cs_artifact_bytes st + bytes, cs_artifacts := fold keep_artifact (hash_entries E req) (cs_artifacts st) \<rparr>"
    using run by (auto simp: retain_artifacts_def not_less split: if_splits)
  let ?xs = "hash_entries E req"
  have zip: "map fst (zip ds (ms_subjects sub)) = ds" using len by simp
  have r: "request_ok req" "requested_count req = (\<lambda>h. count_list (digests ds) h)"
    "\<forall>(d, a) \<in> set (zip ds (ms_subjects sub)). \<exists>n. map_of req (desc_digest d) = Some (ga_bytes a, n)"
  proof -
    have base: "request_ok []" "requested_count [] = (\<lambda>h. 0)" by (auto simp: request_ok_def requested_count_def fun_eq_iff)
    note q = request_artifacts_ok [OF req(1) base(1)]
    show "request_ok req" using q by blast
    show "requested_count req = (\<lambda>h. count_list (digests ds) h)" using q zip base(2) by auto
    show "\<forall>(d, a) \<in> set (zip ds (ms_subjects sub)). \<exists>n. map_of req (desc_digest d) = Some (ga_bytes a, n)" using q by blast
  qed
  have dist: "distinct (map fst req)" using r(1) by (simp add: request_ok_def)
  note entries = hash_entries_props [OF ho dist]
  have xs: "map_of ?xs = map_of req" using entries dist by (metis map_of_inject_set)
  have pos: "\<forall>(h, b, n) \<in> set ?xs. 0 < n" using r(1) dist entries(1) by (auto simp: request_ok_def)
  note count = count_new_ok [OF req(2)]
  note keep = fold_keep_ok [OF art_invD(1) [OF inv] entries(2) pos] 
  have k: "store_ok (\<lambda>h. uses ?js h + requested_count ?xs h) (cs_artifacts st1)" "stored (cs_artifacts st1) = stored (cs_artifacts st) + fresh_bytes (cs_artifacts st) ?xs"
    "length (cs_artifacts st1) = length (cs_artifacts st) + fresh_items (cs_artifacts st) ?xs"
    "\<And>h b n. (h, b, n) \<in> set ?xs \<Longrightarrow> \<exists>r. map_of (cs_artifacts st1) h = Some r \<and> ar_bytes r = b"
    "\<And>h. h \<notin> set (map fst ?xs) \<Longrightarrow> map_of (cs_artifacts st1) h = map_of (cs_artifacts st) h"
    using keep count unfolding req(5) by (auto simp: split_beta)
  have js': "job_static (cs_jobs st') = ?js @ [(j, sub, ds, jb_reply job)]"
    unfolding st'(1) using job_static_new [of j "cs_jobs st" job] new job by (simp add: map_of_eq_None_iff)
  have uses': "uses (job_static (cs_jobs st')) = (\<lambda>h. uses ?js h + requested_count ?xs h)"
    unfolding js' using r(2) xs by (auto simp: uses_def requested_count_def fun_eq_iff)
  have old: "resident (cs_artifacts st1) d a" if "resident (cs_artifacts st) d a" for d a
  proof (cases "desc_digest d \<in> set (map fst ?xs)")
    case True
    then obtain b n where bn: "(desc_digest d, b, n) \<in> set ?xs" by auto
    then have "b = ga_bytes a" using count that by (fastforce simp: resident_def)
    then show ?thesis using k(4) [OF bn] by (simp add: resident_def)
  qed (use that k(5) in \<open>simp add: resident_def\<close>)
  have mine: "list_all2 (resident (cs_artifacts st1)) ds (ms_subjects sub)"
    unfolding list_all2_iff using len r(3) k(4) entries(1) by (force simp: resident_def dest: map_of_SomeD)
  have "list_all2 (resident (cs_artifacts st1)) es (ms_subjects s)" if "(i, s, es, q) \<in> set (job_static (cs_jobs st'))" for i s es q
    using that mine list_all2_mono [OF art_invD(5) [OF inv, of i s es q] old] unfolding js' by auto
  then show ?thesis unfolding art_inv_def uses' st'(2,3) using k(1-3) count req(3-5) art_invD(2) [OF inv] by auto
qed

end
