(* ===== verification/Measure_Service.thy ===== *)
theory Measure_Service
  imports Measure_Artifacts
begin

text \<open>
  The reachable states of the coordinator and what holds in them. A run is any sequence of the handlers, in
  any order, with any arguments: jobs are submitted and cancelled, agents connect, report, stay
  silent and disconnect, results arrive, the clock and the random identifiers are whatever they are,
  and between the handlers the receivers of the command channels make progress or go away. A handler that
  panics is a step of a run too, with the state it leaves; that committed results and stored artifacts
  are right holds for all runs. That the queue, the jobs and the sessions agree holds as long as no
  handler panicked: the runs of \<open>panic_free_run\<close>.
\<close>

section \<open>Runs\<close>

datatype 'tx coord_event =
    ReapExpired nat "nat \<Rightarrow> bytes"
  | Enqueue nat "nat \<Rightarrow> bytes" measure_submission bytes
  | CancelJob bytes
  | DrainAgents
  | Connect nat bytes "bytes option" "agent_event option option"
  | AgentMessage nat "nat \<Rightarrow> bytes" bytes bytes "agent_event option"
  | Disconnect nat "nat \<Rightarrow> bytes" bytes bytes
  | SubmitResult nat "nat \<Rightarrow> bytes" "(nat \<times> string) option" "bytes option" bytes "measure_report option"
  | ChannelMoves bytes 'tx

definition panics :: "'s \<times> ('a, 'e) outcome \<Rightarrow> 's \<times> bool" where
  "panics r = (fst r, snd r = Panic)"


text \<open>The state after a handler, and whether it panicked.\<close>

primrec coord_exec :: "'tx service_env \<Rightarrow> coordinator_config \<Rightarrow> 'tx coord_event \<Rightarrow> 'tx coordinator_state \<Rightarrow> 'tx coordinator_state \<times> bool" where
  "coord_exec E c (ReapExpired now random) st = panics (reap_expired E c now random st)"
| "coord_exec E c (Enqueue now random submission nonce) st = panics (enqueue E c now random submission nonce st)"
| "coord_exec E c (CancelJob job_id) st = (cancel_job E job_id st, False)"
| "coord_exec E c DrainAgents st = (drain_agents E st, False)"
| "coord_exec E c (Connect now session_id peer first) st = panics (connect E c now session_id peer first st)"
| "coord_exec E c (AgentMessage now random device_id session_id event) st = panics (handle_agent_event E c now random device_id session_id event st)"
| "coord_exec E c (Disconnect now random device_id session_id) st = panics (disconnect E c now random device_id session_id st)"
| "coord_exec E c (SubmitResult now random fault peer session report) st = panics (submit_result E c now random fault peer session report st)"
| "coord_exec E c (ChannelMoves device_id tx) st = (set_agent device_id (\<lambda>agent. agent \<lparr> ag_command_tx := tx \<rparr>) st, False)"

inductive coord_run :: "'tx service_env \<Rightarrow> coordinator_config \<Rightarrow> 'tx coordinator_state \<Rightarrow> 'tx coordinator_state \<Rightarrow> bool" for E c where
  coord_run_refl: "coord_run E c st st"
| coord_run_step: "coord_run E c st0 st \<Longrightarrow> coord_exec E c ev st = (st', p) \<Longrightarrow> coord_run E c st0 st'"

inductive_cases coord_run_stepE: "coord_run E c st0 st"

lemma coord_run_trans: "coord_run E c st1 st2 \<Longrightarrow> coord_run E c st0 st1 \<Longrightarrow> coord_run E c st0 st2"
  by (induction rule: coord_run.induct) (auto intro: coord_run_step)






definition receipts_grow :: "'tx coordinator_state \<Rightarrow> 'tx coordinator_state \<Rightarrow> bool" where
  "receipts_grow st st' \<longleftrightarrow> map_of (ledger_receipts (cs_receipts st)) \<subseteq>\<^sub>m map_of (ledger_receipts (cs_receipts st')) \<and>
     (\<exists>more. cs_replies st' = cs_replies st @ more)"

lemma receipts_grow_refl [simp]: "receipts_grow st st"
  by (simp add: receipts_grow_def)






section \<open>Every handler keeps the ledger and the artifacts\<close>





















section \<open>Every handler that returns keeps the agreement\<close>






section \<open>What holds in every reachable state\<close>


lemma lease_of_None [simp]: "lease_of s = None \<longleftrightarrow> s = Queued"
  by (cases s) auto







section \<open>Results are committed once\<close>





section \<open>Agents fetch what was submitted\<close>





section \<open>A persisted report outlives its session\<close>





















section \<open>A run\<close>

text \<open>
  One job and one agent, for the instances below: the job is submitted, the agent connects, announces a free slot,
  accepts the job and submits its report.
\<close>

abbreviation lab_hash :: digest where "lab_hash \<equiv> replicate 32 0"
abbreviation lab_device :: bytes where "lab_device \<equiv> replicate 16 7"
abbreviation lab_session :: bytes where "lab_session \<equiv> replicate 16 1"
abbreviation lab_lease :: bytes where "lab_lease \<equiv> replicate 16 3"

definition lab_codec :: report_codec where
  "lab_codec = \<lparr> rc_blake3 = (\<lambda>b. lab_hash), rc_encode = (\<lambda>r. [1]), rc_decode = (\<lambda>b. Ok default_report) \<rparr>"

definition lab_env :: "unit service_env" where
  "lab_env = \<lparr> hash_order = (\<lambda>ks. ks), try_send = (\<lambda>tx command. (tx, True)), new_channel = (\<lambda>n. Some ()), env_codec = lab_codec, encode_profile = (\<lambda>p. []) \<rparr>"

definition lab_config :: coordinator_config where
  "lab_config = config_default \<lparr> cc_enrollment := InsecureForTests [lab_device] \<rparr>"

definition lab_engine :: engine_identity where
  "lab_engine = \<lparr> ei_engine_id = lab_hash, ei_engine_version = lab_hash, ei_action_set_hash = lab_hash \<rparr>"

definition lab_graph :: graph_artifact where
  "lab_graph = \<lparr> ga_graph_hash = lab_hash, ga_format = BinaryFormat, ga_bytes = [10, 20, 30] \<rparr>"

definition lab_submission :: measure_submission where
  "lab_submission = \<lparr> ms_kind = Single, ms_engine = lab_engine, ms_subjects = [lab_graph],
     ms_options = \<lparr> mo_config_hash = lab_hash, mo_samples = 1, mo_timeout_ms = None, mo_deterministic = True \<rparr>,
     ms_measure_config = \<lparr> mc_encoding = 1, mc_payload = [] \<rparr>, ms_target_device_profile_hash = lab_hash \<rparr>"

definition lab_descriptor :: artifact_desc where
  "lab_descriptor = \<lparr> desc_digest = lab_hash, desc_size = 3, desc_format_kind = 4, desc_adapter_format_id = 0 \<rparr>"

definition lab_job :: "job_state \<Rightarrow> job" where
  "lab_job s = \<lparr> jb_submission = lab_submission, jb_descriptors = [lab_descriptor], jb_measurement_key = lab_hash,
     jb_request_nonce = [], jb_reply = True, jb_state = s, jb_recovery = None \<rparr>"

definition lab_capability :: engine_capability where
  "lab_capability = \<lparr> cap_engine = Some (engine_identity_to_wire lab_engine),
     cap_artifact_formats = [\<lparr> af_format_kind = 4, af_adapter_format_id = 0 \<rparr>],
     cap_measure_config_encodings = [1], cap_measurement_protocol_versions = [1] \<rparr>"

definition lab_profile :: device_profile where
  "lab_profile = \<lparr> dp_platform_family = ''f'', dp_board_model = ''b'', dp_soc = ''s'', dp_gpu_architecture = ''g'', dp_usable_memory_bytes = 1,
     dp_operating_system_image_digest = lab_hash, dp_platform_release = ''r'', dp_cuda_version = ''c'', dp_gpu_driver_version = ''d'',
     dp_compiler_version = ''v'', dp_compiler_runtime_version = ''t'', dp_agent_image_digest = lab_hash, dp_power_profile = ''p'',
     dp_clock_policy = ''k'', dp_cooling_policy = ''o'', dp_measurement_protocol_version = 1 \<rparr>"

definition lab_hello :: "lease_recovery list \<Rightarrow> agent_hello" where
  "lab_hello recoveries = \<lparr> ah_protocol_major = 1, ah_protocol_minor = 1, ah_device_id = lab_device, ah_agent_build = ''build'', ah_profile = Some lab_profile,
     ah_capabilities = [lab_capability], ah_recoveries = recoveries, ah_job_slots = 1 \<rparr>"

definition lab_agent :: "bytes \<Rightarrow> nat \<Rightarrow> (bytes \<times> bytes) list \<Rightarrow> unit agent_session" where
  "lab_agent session free active = \<lparr> ag_session_id = session, ag_profile_hash = lab_hash, ag_capabilities = [lab_capability], ag_command_tx = (),
     ag_peer_fingerprint = None, ag_slot_capacity = 1, ag_free_slots = free, ag_draining = False, ag_active = active \<rparr>"

definition lab_active :: "bytes \<Rightarrow> nat \<Rightarrow> active_lease" where
  "lab_active session deadline = \<lparr> al_device_id = lab_device, al_current_session_id = session, al_origin_session_id = lab_session,
     al_lease_id = lab_lease, al_deadline = deadline \<rparr>"

definition lab_state :: "(bytes \<times> unit agent_session) list \<Rightarrow> job_state \<Rightarrow> unit coordinator_state" where
  "lab_state agents s = \<lparr> cs_agents = agents, cs_jobs = [(lab_hash, lab_job s)], cs_queue = (if s = Queued then [lab_hash] else []),
     cs_artifacts = [(lab_hash, \<lparr> ar_bytes = [10, 20, 30], ar_references = 1 \<rparr>)], cs_artifact_bytes = 3,
     cs_receipts = MemoryLedger 4096 [], cs_replies = [] \<rparr>"

definition lab_report :: measure_report where
  "lab_report = \<lparr> rp_origin_session_id = lab_session, rp_device_id = lab_device, rp_device_profile_hash = lab_hash, rp_job_id = lab_hash,
     rp_measurement_key = lab_hash, rp_request_nonce = [], rp_lease_id = lab_lease, rp_engine = Some (engine_identity_to_wire lab_engine),
     rp_measure_config_hash = lab_hash, rp_kind = 1, rp_outcome = 1,
     rp_subjects = [\<lparr> sm_logical_index = 0, sm_graph_hash = lab_hash, sm_compile_elapsed_ns = None, sm_capture_elapsed_ns = None,
       sm_scalar_reward = Some 0, sm_engine_metadata = [] \<rparr>], rp_samples = [], rp_telemetry = [], rp_failure = None \<rparr>"

definition lab_empty :: "receipt_ledger \<Rightarrow> (bytes \<times> unit agent_session) list \<Rightarrow> (bytes \<times> measure_report) list \<Rightarrow> unit coordinator_state" where
  "lab_empty ledger agents replies = \<lparr> cs_agents = agents, cs_jobs = [], cs_queue = [], cs_artifacts = [], cs_artifact_bytes = 0,
     cs_receipts = ledger, cs_replies = replies \<rparr>"


lemmas lab_defs = lab_codec_def lab_env_def lab_config_def config_default_def lab_engine_def lab_graph_def lab_submission_def lab_descriptor_def
  lab_job_def lab_capability_def lab_profile_def lab_hello_def lab_agent_def lab_active_def lab_state_def lab_report_def lab_empty_def


















text \<open>
  With the largest duration as accept timeout, which the validation admits, the first agent with a free slot makes the
  handler panic, and the job is lost: it is in no queue and has no lease.
\<close>

abbreviation lab_endless :: coordinator_config where
  "lab_endless \<equiv> lab_config \<lparr> cc_accept_timeout := 2 ^ 64 * 1000000000 - 1 \<rparr>"

lemma accept_timeout_loses_job:
  "config_validate lab_endless = Ok ()"
  "handle_agent_event lab_env lab_endless 0 (\<lambda>n. lab_lease) lab_device lab_session (Some (ReadyEvent lab_session 1))
      (lab_state [(lab_device, lab_agent lab_session 0 [])] Queued)
    = ((lab_state [(lab_device, lab_agent lab_session 1 [])] Queued) \<lparr> cs_queue := [] \<rparr>, Panic)"
proof -
  show "config_validate lab_endless = Ok ()" by (simp add: config_validate_def receipt_config_validate_def lab_defs)
  show "handle_agent_event lab_env lab_endless 0 (\<lambda>n. lab_lease) lab_device lab_session (Some (ReadyEvent lab_session 1))
      (lab_state [(lab_device, lab_agent lab_session 0 [])] Queued)
    = ((lab_state [(lab_device, lab_agent lab_session 1 [])] Queued) \<lparr> cs_queue := [] \<rparr>, Panic)"
    by (simp add: handle_agent_event_def expire_leases_def hash_entries_def map_filter_simps finish_with_def schedule.simps find_assignment_def
        agent_matches_def offer_def instant_add_def INSTANT_MAX_def set_agent_def MEASUREMENT_PROTOCOL_VERSION_def Let_def lab_defs)
qed







end
