(* ===== verification/Feature_Rows.thy ===== *)
theory Feature_Rows
  imports Engine_Core
begin

text \<open>
  Feature rows, \<open>crates/gz-features\<close>: the narrow float format of the wire (\<open>wire.rs\<close>), the schema and its hash
  (\<open>schema.rs\<close>), and rows with their validation (\<open>row.rs\<close>). An \<open>f32\<close> is its bit pattern: the code only
  moves floats, rounds them to \<open>bfloat16\<close> on the bits, tests whether they are finite and compares them with zero.
  A \<open>String\<close> is the list of its UTF-8 bytes.
\<close>

section \<open>Errors\<close>

datatype feature_error =
    InvalidSchema string | NodeOverflow u32 u32 | EdgeOverflow u32 nat | ActionOverflow u32 nat | SubjectOverflow u32 nat
  | InvalidRow string | BatchOverflow nat nat | EmptyBatch | InvalidEncoding string | EngineFailure engine_error

section \<open>Floats by their bits\<close>

type_synonym f32 = u32

definition f32_is_finite :: "f32 \<Rightarrow> bool" where
  "f32_is_finite v \<longleftrightarrow> drop_bit 23 v AND 255 \<noteq> 255"

text \<open>\<open>v == 0.0\<close>, which holds for both zeros, and \<open>v <= 0.0\<close> for a finite \<open>v\<close>.\<close>

definition f32_is_zero :: "f32 \<Rightarrow> bool" where
  "f32_is_zero v \<longleftrightarrow> v AND 0x7fffffff = 0"

definition f32_not_positive :: "f32 \<Rightarrow> bool" where
  "f32_not_positive v \<longleftrightarrow> bit v 31 \<or> f32_is_zero v"

definition f32_to_bf16_bits :: "f32 \<Rightarrow> u16" where
  "f32_to_bf16_bits bits =
     (let rounding = 0x7fff + (drop_bit 16 bits AND 1) in ucast (drop_bit 16 (bits + rounding)))"

definition bf16_bits_to_f32 :: "u16 \<Rightarrow> f32" where
  "bf16_bits_to_f32 bits = push_bit 16 (ucast bits)"

text \<open>What is left of a float after it has gone over the wire.\<close>

definition bf16_round :: "f32 \<Rightarrow> f32" where
  "bf16_round v = bf16_bits_to_f32 (f32_to_bf16_bits v)"

section \<open>Schemas\<close>

definition ENCODING_VERSION :: u32 where
  "ENCODING_VERSION = 6"

definition STOP_ACTION_KIND_TOKEN :: u32 where
  "STOP_ACTION_KIND_TOKEN = 1"

record feature_schema_config =
  fs_name :: "u8 list"
  fs_node_vocab_size :: u16
  fs_node_attr_dim :: u16
  fs_edge_type_count :: u8
  fs_action_kind_vocab_size :: u32
  fs_max_nodes :: u32
  fs_max_edges :: u32
  fs_max_actions :: u32
  fs_max_subjects :: u32
  fs_opponent_reward_scale :: f32
  fs_expander_degree :: u8
  fs_expander_seed :: u64

record feature_schema =
  fsc_config :: feature_schema_config
  fsc_hash :: digest

definition validate_config :: "feature_schema_config \<Rightarrow> (unit, feature_error) outcome" where
  "validate_config config =
     (if fs_name config = [] then Err (InvalidSchema ''name must be non-empty'')
      else if fs_node_vocab_size config < 2 then Err (InvalidSchema ''node_vocab_size must be >= 2'')
      else if fs_action_kind_vocab_size config < 3 then Err (InvalidSchema ''action_kind_vocab_size must be >= 3'')
      else if 0x10000 < fs_action_kind_vocab_size config then Err (InvalidSchema ''action_kind_vocab_size exceeds u16 wire width'')
      else if fs_max_nodes config = 0 then Err (InvalidSchema ''max_nodes must be positive'')
      else if fs_max_edges config = 0 then Err (InvalidSchema ''max_edges must be positive'')
      else if fs_max_actions config = 0 then Err (InvalidSchema ''max_actions must be positive'')
      else if fs_max_subjects config = 0 then Err (InvalidSchema ''max_subjects must be positive'')
      else if 255 < fs_max_subjects config then Err (InvalidSchema ''max_subjects exceeds u8 wire width'')
      else if \<not> f32_is_finite (fs_opponent_reward_scale config) \<or> f32_not_positive (fs_opponent_reward_scale config)
      then Err (InvalidSchema ''opponent_reward_scale must be finite and positive'')
      else if 0 < fs_expander_degree config
      then (if fs_edge_type_count config = 0 then Err (InvalidSchema ''edge_type_count must include expander type'')
            else if 2 ^ 32 \<le> unat (fs_expander_degree config) * unat (fs_max_nodes config) \<or>
                    2 ^ 32 \<le> unat (fs_expander_degree config) * unat (fs_max_nodes config) + 1
            then Err (InvalidSchema ''expander edge budget overflow'')
            else if unat (fs_max_edges config) < unat (fs_expander_degree config) * unat (fs_max_nodes config) + 1
            then Err (InvalidSchema ''max_edges too small for expander_degree'')
            else Ok ())
      else Ok ())"

definition schema_chunk :: "u8 list \<Rightarrow> u8 list" where
  "schema_chunk bytes = u64_to_le (of_nat (length bytes)) @ bytes"

definition schema_derive :: "(u8 list \<Rightarrow> digest) \<Rightarrow> feature_schema_config \<Rightarrow> digest" where
  "schema_derive blake3 config =
     blake3 (schema_chunk (map of_char ''gz-features-schema-v1'') @ u32_to_le ENCODING_VERSION @ schema_chunk (fs_name config) @
       u16_to_le (fs_node_vocab_size config) @ u16_to_le (fs_node_attr_dim config) @ [fs_edge_type_count config] @
       u32_to_le (fs_action_kind_vocab_size config) @ u32_to_le (fs_max_nodes config) @ u32_to_le (fs_max_edges config) @
       u32_to_le (fs_max_actions config) @ u32_to_le (fs_max_subjects config) @ u32_to_le (fs_opponent_reward_scale config) @
       [fs_expander_degree config] @ u64_to_le (fs_expander_seed config))"

definition schema_new :: "(u8 list \<Rightarrow> digest) \<Rightarrow> feature_schema_config \<Rightarrow> (feature_schema, feature_error) outcome" where
  "schema_new blake3 config =
     obind (validate_config config) (\<lambda>_. Ok \<lparr> fsc_config = config, fsc_hash = schema_derive blake3 config \<rparr>)"

section \<open>Rows\<close>

record feature_edge =
  fe_src :: u32
  fe_dst :: u32
  fe_edge_type :: u8

record action_feature =
  af_kind_token :: u32
  af_static_prior :: f32
  af_subjects :: "u32 list"

record position_features =
  pf_root_step :: u32
  pf_leaf_depth :: u32
  pf_budget_fraction :: f32
  pf_budget_step :: f32
  pf_opponent_reward :: f32
  pf_opponent_present :: bool

record opponent_state =
  op_node_count :: u32
  op_node_tokens :: "u16 list"
  op_node_attrs :: "f32 list"
  op_edges :: "feature_edge list"
  op_position :: position_features

record feature_row =
  fr_node_count :: u32
  fr_node_tokens :: "u16 list"
  fr_node_attrs :: "f32 list"
  fr_edges :: "feature_edge list"
  fr_actions :: "action_feature list"
  fr_position :: position_features
  fr_opponent :: "opponent_state option"

primrec check_each :: "('a \<Rightarrow> (unit, 'e) outcome) \<Rightarrow> 'a list \<Rightarrow> (unit, 'e) outcome" where
  "check_each f [] = Ok ()"
| "check_each f (x # xs) = obind (f x) (\<lambda>_. check_each f xs)"

definition validate_state ::
    "u32 \<Rightarrow> u16 list \<Rightarrow> f32 list \<Rightarrow> feature_edge list \<Rightarrow> feature_schema \<Rightarrow> (unit, feature_error) outcome"
where
  "validate_state node_count node_tokens node_attrs edges schema =
     (let config = fsc_config schema in
      if node_count = 0 then Err (InvalidRow ''node_count must be positive'')
      else if fs_max_nodes config < node_count then Err (NodeOverflow (fs_max_nodes config) node_count)
      else if length node_tokens \<noteq> unat node_count then Err (InvalidRow ''node token length mismatch'')
      else
        obind (check_each (\<lambda>token. if token = 0 \<or> fs_node_vocab_size config \<le> token
            then Err (InvalidRow ''node token out of range'') else Ok ()) node_tokens) (\<lambda>_.
        if length node_attrs \<noteq> unat node_count * unat (fs_node_attr_dim config) then Err (InvalidRow ''node attr length mismatch'')
        else if list_ex (\<lambda>v. \<not> f32_is_finite v) node_attrs then Err (InvalidRow ''non-finite node attr'')
        else if unat (fs_max_edges config) < length edges then Err (EdgeOverflow (fs_max_edges config) (length edges))
        else check_each (\<lambda>edge.
            if node_count \<le> fe_src edge \<or> node_count \<le> fe_dst edge then Err (InvalidRow ''edge endpoint out of range'')
            else if fs_edge_type_count config \<le> fe_edge_type edge then Err (InvalidRow ''edge type out of range'')
            else Ok ()) edges))"

definition validate_position :: "position_features \<Rightarrow> (unit, feature_error) outcome" where
  "validate_position position =
     (if \<not> f32_is_finite (pf_budget_fraction position) \<or> \<not> f32_is_finite (pf_budget_step position) \<or>
         \<not> f32_is_finite (pf_opponent_reward position)
      then Err (InvalidRow ''non-finite position feature'')
      else if \<not> pf_opponent_present position \<and> \<not> f32_is_zero (pf_opponent_reward position)
      then Err (InvalidRow ''absent opponent must have zero reward'')
      else Ok ())"

definition validate_action ::
    "feature_schema_config \<Rightarrow> u32 \<Rightarrow> nat \<Rightarrow> nat \<times> action_feature \<Rightarrow> (unit, feature_error) outcome"
where
  "validate_action config node_count action_count entry =
     (case entry of (index, action) \<Rightarrow>
      if af_kind_token action = 0 \<or> fs_action_kind_vocab_size config \<le> af_kind_token action
      then Err (InvalidRow ''action kind token out of range'')
      else if \<not> f32_is_finite (af_static_prior action) then Err (InvalidRow ''non-finite action static prior'')
      else if unat (fs_max_subjects config) < length (af_subjects action)
      then Err (SubjectOverflow (fs_max_subjects config) (length (af_subjects action)))
      else
        obind (check_each (\<lambda>subject. if node_count \<le> subject
            then Err (InvalidRow ''action subject out of range'') else Ok ()) (af_subjects action)) (\<lambda>_.
        if af_kind_token action = STOP_ACTION_KIND_TOKEN
        then (if index + 1 \<noteq> action_count then Err (InvalidRow ''STOP action must be last'')
              else if af_subjects action \<noteq> [] \<or> \<not> f32_is_zero (af_static_prior action)
              then Err (InvalidRow ''STOP action payload must be empty'')
              else Ok ())
        else if index + 1 = action_count then Err (InvalidRow ''last action must be STOP'')
        else Ok ()))"

definition row_validate :: "feature_row \<Rightarrow> feature_schema \<Rightarrow> (unit, feature_error) outcome" where
  "row_validate row schema =
     (let config = fsc_config schema in
      obind (validate_state (fr_node_count row) (fr_node_tokens row) (fr_node_attrs row) (fr_edges row) schema) (\<lambda>_.
      if unat (fs_max_actions config) < length (fr_actions row)
      then Err (ActionOverflow (fs_max_actions config) (length (fr_actions row)))
      else
        obind (check_each (validate_action config (fr_node_count row) (length (fr_actions row)))
            (zip [0..<length (fr_actions row)] (fr_actions row))) (\<lambda>_.
        obind (validate_position (fr_position row)) (\<lambda>_.
        case fr_opponent row of
          None \<Rightarrow> Ok ()
        | Some opponent \<Rightarrow>
            obind (validate_state (op_node_count opponent) (op_node_tokens opponent) (op_node_attrs opponent) (op_edges opponent) schema) (\<lambda>_.
            validate_position (op_position opponent))))))"

section \<open>Rounding to bfloat16\<close>

lemma u32_less: "unat (v :: u32) < 4294967296"
  using unsigned_less [of v] by simp

lemma not_nan_cases:
  assumes "(n :: nat) mod 2147483648 \<le> 2139095040" "n < 4294967296"
  shows "n \<le> 2139095040 \<or> 2147483648 \<le> n \<and> n \<le> 4286578688"
proof (cases "n < 2147483648")
  case False
  then have "n mod 2147483648 = n - 2147483648" using assms(2) by (simp add: le_mod_geq)
  then show ?thesis using assms False by linarith
qed (use assms(1) in simp)

lemma not_nan_mod: "n \<le> 2139095040 \<or> 2147483648 \<le> n \<and> n \<le> 4286578688 \<Longrightarrow> (n :: nat) mod 2147483648 \<le> 2139095040"
  by (auto simp: le_mod_geq)

lemma bf16_bits_nat:
  assumes "unat v mod 2147483648 \<le> 2139095040"
  shows "unat (f32_to_bf16_bits v) = (unat v + 32767 + unat v div 65536 mod 2) div 65536"
proof -
  let ?n = "unat v"
  have top: "?n \<le> 4286578688" using not_nan_cases [OF assms u32_less] by linarith
  have one: "unat (drop_bit 16 v AND 1) = ?n div 65536 mod 2"
    by (simp add: drop_bit_eq_div and_one_eq unat_div_distrib unat_mod_distrib)
  let ?r = "0x7fff + (drop_bit 16 v AND 1)"
  have k: "?n div 65536 mod 2 < 2" by simp
  have small: "unat ?r = 32767 + ?n div 65536 mod 2" using k by (subst unat_add_lem [THEN iffD1]) (simp_all add: one)
  have sum: "unat (v + ?r) = ?n + (32767 + ?n div 65536 mod 2)"
    unfolding small [symmetric] by (subst unat_add_lem [THEN iffD1]) (use top small k in simp_all)
  have "unat (f32_to_bf16_bits v) = unat (v + ?r) div 65536 mod 65536"
    by (simp add: f32_to_bf16_bits_def Let_def unsigned_ucast_eq drop_bit_eq_div take_bit_eq_mod unat_div_distrib)
  moreover have "unat (v + ?r) div 65536 < 65536" using u32_less [of "v + ?r"] by (simp add: div_less_iff_less_mult)
  ultimately show ?thesis by (simp add: sum add.assoc)
qed

lemma bf16_round_nat: "unat (bf16_round v) = unat (f32_to_bf16_bits v) * 65536"
proof -
  let ?w = "f32_to_bf16_bits v"
  have w: "unat ?w < 65536" using unsigned_less [of ?w] by simp
  then have u: "unat (ucast ?w :: u32) = unat ?w" by simp
  have "bf16_round v = ucast ?w * 65536" by (simp add: bf16_round_def bf16_bits_to_f32_def push_bit_eq_mult)
  moreover have "unat ((ucast ?w :: u32) * 65536) = unat ?w * 65536" by (subst unat_mult_lem [THEN iffD1]) (use w u in simp_all)
  ultimately show ?thesis by simp
qed

lemma bit31_nat: "bit (v :: u32) 31 \<longleftrightarrow> 2147483648 \<le> unat v"
proof -
  have "bit v 31 \<longleftrightarrow> bit (unat v) 31" by (simp add: bit_unsigned_iff)
  also have "\<dots> \<longleftrightarrow> odd (unat v div 2147483648)" by (simp add: bit_iff_odd)
  also have "\<dots> \<longleftrightarrow> 2147483648 \<le> unat v"
  proof (cases "2147483648 \<le> unat v")
    case True
    then have "unat v div 2147483648 = 1" using u32_less [of v] by (intro div_nat_eqI) simp_all
    then show ?thesis using True by simp
  qed simp
  finally show ?thesis .
qed

text \<open>The rounding as arithmetic: \<open>q\<close> is the part that is kept and \<open>r\<close> the part that is rounded away.\<close>

lemma bf16_cases:
  assumes "unat v mod 2147483648 \<le> 2139095040"
  obtains q r where "unat v = 65536 * q + r" "r < 65536" "r + q mod 2 \<le> 32768" "unat (f32_to_bf16_bits v) = q"
  | q r where "unat v = 65536 * q + r" "r < 65536" "32769 \<le> r + q mod 2" "unat (f32_to_bf16_bits v) = q + 1"
proof -
  define q r where "q = unat v div 65536" and "r = unat v mod 65536"
  have n: "unat v = 65536 * q + r" "r < 65536" by (simp_all add: q_def r_def)
  have R: "unat (f32_to_bf16_bits v) = (65536 * q + r + 32767 + q mod 2) div 65536"
    using bf16_bits_nat [OF assms] unfolding q_def [symmetric] by (simp add: n(1))
  have q2: "q mod 2 < 2" by simp
  show thesis
  proof (cases "r + q mod 2 \<le> 32768")
    case True
    then have "unat (f32_to_bf16_bits v) = q" unfolding R by (intro div_nat_eqI) simp_all
    then show thesis using that(1) n True by blast
  next
    case False
    then have "unat (f32_to_bf16_bits v) = q + 1" unfolding R using n(2) q2 by (intro div_nat_eqI) simp_all
    then show thesis using that(2) [OF n] False by simp
  qed
qed

lemma bf16_range:
  assumes "unat v mod 2147483648 \<le> 2139095040"
  shows "unat v \<le> 2139095040 \<and> unat (bf16_round v) \<le> 2139095040 \<or>
    2147483648 \<le> unat v \<and> 2147483648 \<le> unat (bf16_round v) \<and> unat (bf16_round v) \<le> 4286578688"
  using assms
proof (cases rule: bf16_cases)
  case (1 q r)
  then show ?thesis using not_nan_cases [OF assms u32_less] unfolding bf16_round_nat by auto
next
  case (2 q r)
  moreover have "q mod 2 < 2" by simp
  ultimately show ?thesis using not_nan_cases [OF assms u32_less] unfolding bf16_round_nat by auto
qed

text \<open>
  C40: \<open>f32_to_bf16_bits\<close> rounds to the nearest \<open>bfloat16\<close>, ties to even. On the bit patterns, for every float that
  is not a NaN: the 16 bits that are kept, as the upper half of a 32-bit pattern, differ from the float
  by at most half a unit of the last kept bit, and in the case of exactly one half the last kept bit
  is zero; the sign stays. Converting back and rounding again changes nothing.
\<close>

theorem bf16_nearest_even:
  assumes nan: "unat v mod 2 ^ 31 \<le> 0x7f800000"
  shows "\<bar>int (unat (bf16_round v)) - int (unat v)\<bar> \<le> 2 ^ 15 \<and>
    (\<bar>int (unat (bf16_round v)) - int (unat v)\<bar> = 2 ^ 15 \<longrightarrow> even (unat (f32_to_bf16_bits v))) \<and>
    bit (bf16_round v) 31 = bit v 31 \<and> bf16_round (bf16_round v) = bf16_round v"
proof -
  let ?R = "unat (f32_to_bf16_bits v)"
  have nan': "unat v mod 2147483648 \<le> 2139095040" using nan by simp
  then have near: "\<bar>int (?R * 65536) - int (unat v)\<bar> \<le> 32768 \<and> (\<bar>int (?R * 65536) - int (unat v)\<bar> = 32768 \<longrightarrow> even ?R)"
  proof (cases rule: bf16_cases)
    case (1 q r)
    have "q mod 2 = 0" if "r = 32768" using 1(3) that by simp
    then show ?thesis using 1 by (auto simp: even_iff_mod_2_eq_zero)
  next
    case (2 q r)
    have "q mod 2 < 2" by simp
    moreover have "odd q" if "r = 32768" using 2(3) that by (auto simp: even_iff_mod_2_eq_zero)
    ultimately show ?thesis using 2 by auto
  qed
  have range: "unat (bf16_round v) mod 2147483648 \<le> 2139095040" using bf16_range [OF nan'] by (intro not_nan_mod) auto
  have "unat (f32_to_bf16_bits (bf16_round v)) = (?R * 65536 + 32767 + ?R mod 2) div 65536"
    using bf16_bits_nat [OF range] by (simp add: bf16_round_nat)
  also have "\<dots> = ?R" by (intro div_nat_eqI) simp_all
  finally have "f32_to_bf16_bits (bf16_round v) = f32_to_bf16_bits v" by (simp only: word_unat_eq_iff)
  then have again: "bf16_round (bf16_round v) = bf16_round v" unfolding bf16_round_def [of "bf16_round v"] by (simp add: bf16_round_def [symmetric])
  have "bit (bf16_round v) 31 = bit v 31" unfolding bit31_nat using bf16_range [OF nan'] by auto
  then show ?thesis using near again by (simp add: bf16_round_nat)
qed

theorem bf16_nearest_even_witness:
  "bf16_round 0x3f808000 = 0x3f800000 \<and> even (unat (f32_to_bf16_bits 0x3f808000)) \<and> bit (bf16_round 0x3f808000) 31 = bit (0x3f808000 :: f32) 31"
proof -
  have r: "bf16_round 0x3f808000 = 0x3f800000" by code_simp
  then show ?thesis using bf16_nearest_even [of "0x3f808000"] by simp
qed

end
