(* ===== verification/Feature_Codec.thy ===== *)
theory Feature_Codec
  imports Feature_Rows Model_Leases
begin

text \<open>
  The byte encoding of feature rows and of schemas, \<open>crates/gz-features/src/codec.rs\<close>. A writer appends to its
  buffer; here it returns what it appends, since the buffer is cleared first and only used on success.
  The reader is the slice with its cursor. \<open>expect\<close> and slicing are panics in the model; that they do
  not happen is part of what is shown. The memory that \<open>Vec::with_capacity\<close> reserves is not modelled; note
  that the edge and the action count are used for it as they are read.
\<close>

section \<open>Reader\<close>

record reader =
  rd_bytes :: "u8 list"
  rd_cursor :: nat

type_synonym 'a reading = "reader \<Rightarrow> ('a \<times> reader, feature_error) outcome"

definition reader_new :: "u8 list \<Rightarrow> reader" where
  "reader_new bytes = \<lparr> rd_bytes = bytes, rd_cursor = 0 \<rparr>"

definition reader_is_empty :: "reader \<Rightarrow> bool" where
  "reader_is_empty r \<longleftrightarrow> rd_cursor r = length (rd_bytes r)"

definition reader_take :: "nat \<Rightarrow> string \<Rightarrow> u8 list reading" where
  "reader_take len message r =
     (if length (rd_bytes r) < rd_cursor r + len then Err (InvalidEncoding message)
      else Ok (take len (drop (rd_cursor r) (rd_bytes r)), r \<lparr> rd_cursor := rd_cursor r + len \<rparr>))"

definition reader_u8 :: "u8 reading" where
  "reader_u8 r =
     (case get (rd_bytes r) (rd_cursor r) of
        None \<Rightarrow> Err (InvalidEncoding ''u8 truncated'')
      | Some byte \<Rightarrow> Ok (byte, r \<lparr> rd_cursor := rd_cursor r + 1 \<rparr>))"

text \<open>\<open>from_le_bytes\<close> of a slice that is converted to an array with \<open>expect("length checked")\<close>.\<close>

fun u16_from_le :: "u8 list \<Rightarrow> (u16, 'e) outcome" where
  "u16_from_le [a, b] = Ok (u16_of_le a b)"
| "u16_from_le _ = Panic"

fun u32_from_le :: "u8 list \<Rightarrow> (u32, 'e) outcome" where
  "u32_from_le [a, b, c, d] = Ok (u32_of_le a b c d)"
| "u32_from_le _ = Panic"

fun u64_from_le :: "u8 list \<Rightarrow> (u64, 'e) outcome" where
  "u64_from_le [a, b, c, d, e, f, g, h] = Ok (ucast (u32_of_le a b c d) OR push_bit 32 (ucast (u32_of_le e f g h)))"
| "u64_from_le _ = Panic"

definition reader_u16 :: "u16 reading" where
  "reader_u16 r = obind (reader_take 2 ''u16 truncated'' r) (\<lambda>(bytes, r). obind (u16_from_le bytes) (\<lambda>v. Ok (v, r)))"

definition reader_u32 :: "u32 reading" where
  "reader_u32 r = obind (reader_take 4 ''u32 truncated'' r) (\<lambda>(bytes, r). obind (u32_from_le bytes) (\<lambda>v. Ok (v, r)))"

definition reader_u64 :: "u64 reading" where
  "reader_u64 r = obind (reader_take 8 ''u64 truncated'' r) (\<lambda>(bytes, r). obind (u64_from_le bytes) (\<lambda>v. Ok (v, r)))"

definition reader_f32 :: "f32 reading" where
  "reader_f32 r = obind (reader_take 4 ''f32 truncated'' r) (\<lambda>(bytes, r). obind (u32_from_le bytes) (\<lambda>v. Ok (v, r)))"

definition reader_bf16 :: "f32 reading" where
  "reader_bf16 r =
     obind (reader_take 2 ''bf16 truncated'' r) (\<lambda>(bytes, r). obind (u16_from_le bytes) (\<lambda>v. Ok (bf16_bits_to_f32 v, r)))"

definition reader_len :: "nat reading" where
  "reader_len r = obind (reader_u32 r) (\<lambda>(v, r). Ok (unat v, r))"

definition ensure_count :: "nat \<Rightarrow> nat \<Rightarrow> reader \<Rightarrow> (unit, feature_error) outcome" where
  "ensure_count count width r =
     (if USIZE_MAX < count * width then Err (InvalidEncoding ''length overflow'')
      else if length (rd_bytes r) < rd_cursor r + count * width then Err (InvalidEncoding ''section truncated'')
      else Ok ())"

text \<open>A loop \<open>for _ in 0..count\<close> that pushes what its body reads.\<close>

primrec read_n :: "'a reading \<Rightarrow> nat \<Rightarrow> 'a list reading" where
  "read_n f 0 r = Ok ([], r)"
| "read_n f (Suc n) r = obind (f r) (\<lambda>(x, r). obind (read_n f n r) (\<lambda>(xs, r). Ok (x # xs, r)))"

definition reader_u16_vec :: "u16 list reading" where
  "reader_u16_vec r = obind (reader_len r) (\<lambda>(count, r). obind (ensure_count count 2 r) (\<lambda>_. read_n reader_u16 count r))"

definition reader_bf16_vec :: "f32 list reading" where
  "reader_bf16_vec r = obind (reader_len r) (\<lambda>(count, r). obind (ensure_count count 2 r) (\<lambda>_. read_n reader_bf16 count r))"

section \<open>Rows\<close>

definition ROW_MAGIC :: "u8 list" where
  "ROW_MAGIC = map of_char ''GZFR''"

definition ROW_HEADER_LEN :: nat where
  "ROW_HEADER_LEN = 40"

definition write_bf16 :: "f32 \<Rightarrow> u8 list" where
  "write_bf16 v = u16_to_le (f32_to_bf16_bits v)"

definition write_edge :: "feature_edge \<Rightarrow> u8 list" where
  "write_edge edge = u32_to_le (fe_src edge) @ u32_to_le (fe_dst edge) @ [fe_edge_type edge]"

definition write_state_body :: "u32 \<Rightarrow> u16 list \<Rightarrow> f32 list \<Rightarrow> feature_edge list \<Rightarrow> (u8 list, feature_error) outcome" where
  "write_state_body node_count node_tokens node_attrs edges =
     (if length node_tokens \<noteq> unat node_count then Err (InvalidEncoding ''node token length mismatch'')
      else Ok (u32_to_le (of_nat (length node_tokens)) @ concat (map u16_to_le node_tokens) @
               u32_to_le (of_nat (length node_attrs)) @ concat (map write_bf16 node_attrs) @
               u32_to_le (of_nat (length edges)) @ concat (map write_edge edges)))"

definition write_position :: "position_features \<Rightarrow> u8 list" where
  "write_position position = u32_to_le (pf_root_step position) @ u32_to_le (pf_leaf_depth position) @ write_bf16 (pf_budget_fraction position) @
     write_bf16 (pf_budget_step position) @ write_bf16 (pf_opponent_reward position) @ [if pf_opponent_present position then 1 else 0]"

definition narrow_index :: "u32 \<Rightarrow> string \<Rightarrow> (u16, feature_error) outcome" where
  "narrow_index v what = (if unat v < 2 ^ 16 then Ok (ucast v) else Err (InvalidEncoding what))"

definition write_action :: "action_feature \<Rightarrow> (u8 list, feature_error) outcome" where
  "write_action action =
     obind (narrow_index (af_kind_token action) ''action kind token'') (\<lambda>kind.
     if 256 \<le> length (af_subjects action) then Err (InvalidEncoding ''subject count exceeds u8'')
     else Ok (u16_to_le kind @ write_bf16 (af_static_prior action) @ [of_nat (length (af_subjects action))] @
              concat (map u32_to_le (af_subjects action))))"

definition encode_feature_row :: "feature_row \<Rightarrow> feature_schema \<Rightarrow> (u8 list, feature_error) outcome" where
  "encode_feature_row row schema =
     obind (row_validate row schema) (\<lambda>_.
     obind (write_state_body (fr_node_count row) (fr_node_tokens row) (fr_node_attrs row) (fr_edges row)) (\<lambda>body.
     obind (omap write_action (fr_actions row)) (\<lambda>actions.
     obind (case fr_opponent row of
              None \<Rightarrow> Ok [0]
            | Some opponent \<Rightarrow>
                obind (write_state_body (op_node_count opponent) (op_node_tokens opponent) (op_node_attrs opponent) (op_edges opponent)) (\<lambda>body.
                Ok ([1] @ u32_to_le (op_node_count opponent) @ body @ write_position (op_position opponent)))) (\<lambda>opponent.
     Ok (ROW_MAGIC @ u32_to_le ENCODING_VERSION @ fsc_hash schema @ u32_to_le (fr_node_count row) @ body @
         u32_to_le (of_nat (length (fr_actions row))) @ concat actions @ write_position (fr_position row) @ opponent)))))"

definition slice_from :: "'a list \<Rightarrow> nat \<Rightarrow> ('a list, 'e) outcome" where
  "slice_from xs n = (if length xs < n then Panic else Ok (drop n xs))"

definition slice_range :: "'a list \<Rightarrow> nat \<Rightarrow> nat \<Rightarrow> ('a list, 'e) outcome" where
  "slice_range xs from until = (if until < from \<or> length xs < until then Panic else Ok (take (until - from) (drop from xs)))"

definition read_u32_at :: "u8 list \<Rightarrow> nat \<Rightarrow> (u32, feature_error) outcome" where
  "read_u32_at bytes offset =
     (if length bytes < offset + 4 then Err (InvalidEncoding ''u32 truncated'') else u32_from_le (take 4 (drop offset bytes)))"

definition parse_row_header :: "u8 list \<Rightarrow> (digest, feature_error) outcome" where
  "parse_row_header bytes =
     (if length bytes < ROW_HEADER_LEN then Err (InvalidEncoding ''row header truncated'')
      else
        obind (slice_range bytes 0 4) (\<lambda>magic.
        if magic \<noteq> ROW_MAGIC then Err (InvalidEncoding ''bad row magic'')
        else
          obind (read_u32_at bytes 4) (\<lambda>version.
          if version \<noteq> ENCODING_VERSION then Err (InvalidEncoding ''unsupported row version'')
          else slice_range bytes 8 40)))"

definition validate_feature_row_header :: "u8 list \<Rightarrow> digest \<Rightarrow> (unit, feature_error) outcome" where
  "validate_feature_row_header bytes expected =
     obind (parse_row_header bytes) (\<lambda>schema_hash.
     if schema_hash \<noteq> expected then Err (InvalidEncoding ''feature schema hash mismatch'') else Ok ())"

definition read_edge :: "u32 \<Rightarrow> feature_edge reading" where
  "read_edge node_count r =
     obind (reader_u32 r) (\<lambda>(src, r).
     obind (reader_u32 r) (\<lambda>(dst, r).
     obind (reader_u8 r) (\<lambda>(edge_type, r).
     if node_count \<le> src \<or> node_count \<le> dst then Err (InvalidEncoding ''edge endpoint out of range'')
     else Ok (\<lparr> fe_src = src, fe_dst = dst, fe_edge_type = edge_type \<rparr>, r))))"

definition read_state_body :: "u32 \<Rightarrow> (u16 list \<times> f32 list \<times> feature_edge list) reading" where
  "read_state_body node_count r =
     (if node_count = 0 then Err (InvalidEncoding ''zero node count'')
      else
        obind (reader_u16_vec r) (\<lambda>(node_tokens, r).
        if length node_tokens \<noteq> unat node_count then Err (InvalidEncoding ''node token length mismatch'')
        else
          obind (reader_bf16_vec r) (\<lambda>(node_attrs, r).
          if list_ex (\<lambda>v. \<not> f32_is_finite v) node_attrs then Err (InvalidEncoding ''non-finite node attr'')
          else
            obind (reader_len r) (\<lambda>(edge_count, r).
            obind (read_n (read_edge node_count) edge_count r) (\<lambda>(edges, r).
            Ok ((node_tokens, node_attrs, edges), r))))))"

definition read_subject :: "u32 \<Rightarrow> u32 reading" where
  "read_subject node_count r =
     obind (reader_u32 r) (\<lambda>(subject, r).
     if node_count \<le> subject then Err (InvalidEncoding ''action subject out of range'') else Ok (subject, r))"

definition read_action :: "u32 \<Rightarrow> action_feature reading" where
  "read_action node_count r =
     obind (reader_u16 r) (\<lambda>(kind_token, r).
     obind (reader_bf16 r) (\<lambda>(static_prior, r).
     if \<not> f32_is_finite static_prior then Err (InvalidEncoding ''non-finite action prior'')
     else
       obind (reader_u8 r) (\<lambda>(subject_count, r).
       obind (read_n (read_subject node_count) (unat subject_count) r) (\<lambda>(subjects, r).
       Ok (\<lparr> af_kind_token = ucast kind_token, af_static_prior = static_prior, af_subjects = subjects \<rparr>, r)))))"

definition read_position :: "position_features reading" where
  "read_position r =
     obind (reader_u32 r) (\<lambda>(root_step, r).
     obind (reader_u32 r) (\<lambda>(leaf_depth, r).
     obind (reader_bf16 r) (\<lambda>(budget_fraction, r).
     obind (reader_bf16 r) (\<lambda>(budget_step, r).
     obind (reader_bf16 r) (\<lambda>(opponent_reward, r).
     obind (reader_u8 r) (\<lambda>(opponent_present, r).
     if \<not> f32_is_finite budget_fraction \<or> \<not> f32_is_finite budget_step \<or> \<not> f32_is_finite opponent_reward
     then Err (InvalidEncoding ''non-finite position feature'')
     else if opponent_present = 0 \<and> \<not> f32_is_zero opponent_reward
     then Err (InvalidEncoding ''absent opponent must have zero reward'')
     else Ok (\<lparr> pf_root_step = root_step, pf_leaf_depth = leaf_depth, pf_budget_fraction = budget_fraction,
                pf_budget_step = budget_step, pf_opponent_reward = opponent_reward, pf_opponent_present = (opponent_present \<noteq> 0) \<rparr>, r)))))))"

definition read_opponent :: "opponent_state option reading" where
  "read_opponent r =
     obind (reader_u8 r) (\<lambda>(present, r).
     if present \<noteq> 0
     then
       obind (reader_u32 r) (\<lambda>(node_count, r).
       obind (read_state_body node_count r) (\<lambda>((node_tokens, node_attrs, edges), r).
       obind (read_position r) (\<lambda>(position, r).
       Ok (Some \<lparr> op_node_count = node_count, op_node_tokens = node_tokens, op_node_attrs = node_attrs, op_edges = edges,
                   op_position = position \<rparr>, r))))
     else Ok (None, r))"

definition decode_feature_row :: "u8 list \<Rightarrow> (feature_row, feature_error) outcome" where
  "decode_feature_row bytes =
     obind (parse_row_header bytes) (\<lambda>_.
     obind (slice_from bytes ROW_HEADER_LEN) (\<lambda>rest.
     obind (reader_u32 (reader_new rest)) (\<lambda>(node_count, r).
     obind (read_state_body node_count r) (\<lambda>((node_tokens, node_attrs, edges), r).
     obind (reader_len r) (\<lambda>(action_count, r).
     obind (read_n (read_action node_count) action_count r) (\<lambda>(actions, r).
     obind (read_position r) (\<lambda>(position, r).
     obind (read_opponent r) (\<lambda>(opponent, r).
     if \<not> reader_is_empty r then Err (InvalidEncoding ''trailing row bytes'')
     else Ok \<lparr> fr_node_count = node_count, fr_node_tokens = node_tokens, fr_node_attrs = node_attrs, fr_edges = edges,
              fr_actions = actions, fr_position = position, fr_opponent = opponent \<rparr>))))))))"

section \<open>Schema configurations\<close>

text \<open>\<open>std::str::from_utf8\<close>: the well-formed byte sequences of the Unicode standard, without overlong forms and surrogates.\<close>

definition utf8_cont :: "u8 \<Rightarrow> bool" where
  "utf8_cont b \<longleftrightarrow> 0x80 \<le> b \<and> b \<le> 0xbf"

fun utf8_valid :: "u8 list \<Rightarrow> bool" where
  "utf8_valid [] = True"
| "utf8_valid (b # bs) =
     (if b < 0x80 then utf8_valid bs
      else if 0xc2 \<le> b \<and> b \<le> 0xdf then (case bs of c # rest \<Rightarrow> utf8_cont c \<and> utf8_valid rest | _ \<Rightarrow> False)
      else if 0xe0 \<le> b \<and> b \<le> 0xef
      then (case bs of c # d # rest \<Rightarrow> utf8_cont c \<and> (b = 0xe0 \<longrightarrow> 0xa0 \<le> c) \<and> (b = 0xed \<longrightarrow> c \<le> 0x9f) \<and> utf8_cont d \<and> utf8_valid rest
                     | _ \<Rightarrow> False)
      else if 0xf0 \<le> b \<and> b \<le> 0xf4
      then (case bs of c # d # e # rest \<Rightarrow> utf8_cont c \<and> (b = 0xf0 \<longrightarrow> 0x90 \<le> c) \<and> (b = 0xf4 \<longrightarrow> c \<le> 0x8f) \<and> utf8_cont d \<and> utf8_cont e \<and> utf8_valid rest
                     | _ \<Rightarrow> False)
      else False)"

definition reader_take_bytes :: "nat \<Rightarrow> u8 list reading" where
  "reader_take_bytes len = reader_take len ''bytes truncated''"

definition encode_feature_schema_config :: "(u8 list \<Rightarrow> digest) \<Rightarrow> feature_schema_config \<Rightarrow> (u8 list, feature_error) outcome" where
  "encode_feature_schema_config blake3 config =
     obind (schema_new blake3 config) (\<lambda>_.
     if 2 ^ 16 \<le> length (fs_name config) then Err (InvalidSchema ''name too long'')
     else Ok (u16_to_le (of_nat (length (fs_name config))) @ fs_name config @ u16_to_le (fs_node_vocab_size config) @
              u16_to_le (fs_node_attr_dim config) @ [fs_edge_type_count config] @ u32_to_le (fs_action_kind_vocab_size config) @
              u32_to_le (fs_max_nodes config) @ u32_to_le (fs_max_edges config) @ u32_to_le (fs_max_actions config) @
              u32_to_le (fs_max_subjects config) @ u32_to_le (fs_opponent_reward_scale config) @ [fs_expander_degree config] @
              u64_to_le (fs_expander_seed config)))"

definition decode_feature_schema_config :: "(u8 list \<Rightarrow> digest) \<Rightarrow> u8 list \<Rightarrow> (feature_schema_config, feature_error) outcome" where
  "decode_feature_schema_config blake3 bytes =
     obind (reader_u16 (reader_new bytes)) (\<lambda>(name_len, r).
     obind (reader_take_bytes (unat name_len) r) (\<lambda>(name, r).
     if \<not> utf8_valid name then Err (InvalidEncoding ''invalid schema name utf8'')
     else
       obind (reader_u16 r) (\<lambda>(node_vocab_size, r).
       obind (reader_u16 r) (\<lambda>(node_attr_dim, r).
       obind (reader_u8 r) (\<lambda>(edge_type_count, r).
       obind (reader_u32 r) (\<lambda>(action_kind_vocab_size, r).
       obind (reader_u32 r) (\<lambda>(max_nodes, r).
       obind (reader_u32 r) (\<lambda>(max_edges, r).
       obind (reader_u32 r) (\<lambda>(max_actions, r).
       obind (reader_u32 r) (\<lambda>(max_subjects, r).
       obind (reader_f32 r) (\<lambda>(opponent_reward_scale, r).
       obind (reader_u8 r) (\<lambda>(expander_degree, r).
       obind (reader_u64 r) (\<lambda>(expander_seed, r).
       let config = \<lparr> fs_name = name, fs_node_vocab_size = node_vocab_size, fs_node_attr_dim = node_attr_dim,
             fs_edge_type_count = edge_type_count, fs_action_kind_vocab_size = action_kind_vocab_size, fs_max_nodes = max_nodes,
             fs_max_edges = max_edges, fs_max_actions = max_actions, fs_max_subjects = max_subjects,
             fs_opponent_reward_scale = opponent_reward_scale, fs_expander_degree = expander_degree, fs_expander_seed = expander_seed \<rparr> in
       if \<not> reader_is_empty r then Err (InvalidEncoding ''trailing schema config bytes'')
       else obind (schema_new blake3 config) (\<lambda>_. Ok config))))))))))))))"

section \<open>Reading back what was written\<close>

text \<open>A reader that has consumed \<open>pre\<close> and has \<open>rest\<close> before it.\<close>

definition at_pos :: "u8 list \<Rightarrow> u8 list \<Rightarrow> reader" where
  "at_pos pre rest = \<lparr> rd_bytes = pre @ rest, rd_cursor = length pre \<rparr>"

text \<open>
  The contract of a field of the encoding: reading at the position where it was written yields the value, up to \<open>norm\<close>,
  and moves past it. Sequences of a field are then read back element by element.
\<close>

locale wire_field =
  fixes put :: "'a \<Rightarrow> u8 list" and fetch :: "'b reading" and norm :: "'a \<Rightarrow> 'b" and ok :: "'a \<Rightarrow> bool"
  assumes fetch_put: "ok x \<Longrightarrow> fetch (at_pos pre (put x @ rest)) = Ok (norm x, at_pos (pre @ put x) rest)"
begin

lemma fetch_many:
  "list_all ok xs \<Longrightarrow> read_n fetch (length xs) (at_pos pre (concat (map put xs) @ rest)) = Ok (map norm xs, at_pos (pre @ concat (map put xs)) rest)"
  by (induction xs arbitrary: pre) (simp_all add: fetch_put)

end

lemma reader_new_at: "reader_new bytes = at_pos [] bytes"
  by (simp add: reader_new_def at_pos_def)

lemma reader_take_at: "length bs = n \<Longrightarrow> reader_take n message (at_pos pre (bs @ rest)) = Ok (bs, at_pos (pre @ bs) rest)"
  by (simp add: reader_take_def at_pos_def)

lemma reader_u8_at [simp]: "reader_u8 (at_pos pre (x # rest)) = Ok (x, at_pos (pre @ [x]) rest)"
  by (simp add: reader_u8_def at_pos_def get_def)

lemma u32_of_le_low: "u32_of_le (ucast c) (ucast (drop_bit 8 c)) (ucast (drop_bit 16 c)) (ucast (drop_bit 24 c)) = ucast (c :: u64)"
proof -
  have "(ucast (drop_bit k c) :: u8) = ucast (drop_bit k (ucast c :: u32))" if "k \<le> 24" for k
    using that by (intro bit_word_eqI) (auto simp: bit_simps)
  from this [of 8] this [of 16] this [of 24] this [of 0] show ?thesis using u32_of_le_to_le [of "ucast c"] by simp
qed

lemma from_le_to_le [simp]: "u16_from_le (u16_to_le a) = Ok a" "u32_from_le (u32_to_le b) = Ok b" "u64_from_le (u64_to_le c) = Ok c"
proof -
  have high: "u32_of_le (ucast (drop_bit 32 c)) (ucast (drop_bit 40 c)) (ucast (drop_bit 48 c)) (ucast (drop_bit 56 c)) = ucast (drop_bit 32 c)"
    using u32_of_le_low [of "drop_bit 32 c"] by (simp add: drop_bit_drop_bit)
  have "ucast (ucast c :: u32) OR push_bit 32 (ucast (ucast (drop_bit 32 c) :: u32)) = c"
    by (rule bit_word_eqI) (auto simp: bit_simps)
  then show "u64_from_le (u64_to_le c) = Ok c" by (simp add: u64_to_le_def u32_of_le_low high)
qed (simp_all add: u16_to_le_def u32_to_le_def)

lemma reader_words_at [simp]:
  "reader_u16 (at_pos pre (u16_to_le a @ rest)) = Ok (a, at_pos (pre @ u16_to_le a) rest)"
  "reader_u32 (at_pos pre (u32_to_le b @ rest)) = Ok (b, at_pos (pre @ u32_to_le b) rest)"
  "reader_u64 (at_pos pre (u64_to_le c @ rest)) = Ok (c, at_pos (pre @ u64_to_le c) rest)"
  "reader_f32 (at_pos pre (u32_to_le b @ rest)) = Ok (b, at_pos (pre @ u32_to_le b) rest)"
  "reader_bf16 (at_pos pre (write_bf16 b @ rest)) = Ok (bf16_round b, at_pos (pre @ write_bf16 b) rest)"
  by (simp_all add: reader_u16_def reader_u32_def reader_u64_def reader_f32_def reader_bf16_def reader_take_at write_bf16_def bf16_round_def)

interpretation u16_field: wire_field u16_to_le reader_u16 "\<lambda>v. v" "\<lambda>_. True"
  by unfold_locales simp

interpretation bf16_field: wire_field write_bf16 reader_bf16 bf16_round "\<lambda>_. True"
  by unfold_locales simp

interpretation edge_field: wire_field write_edge "read_edge n" "\<lambda>e. e" "\<lambda>e. fe_src e < n \<and> fe_dst e < n" for n
  by unfold_locales (simp add: read_edge_def write_edge_def not_le)

interpretation subject_field: wire_field u32_to_le "read_subject n" "\<lambda>s. s" "\<lambda>s. s < n" for n
  by unfold_locales (simp add: read_subject_def not_le)

lemma wire_len_u32: "n < 2 ^ 32 \<Longrightarrow> unat (of_nat n :: u32) = n"
  by (simp add: unsigned_of_nat take_bit_nat_eq_self)

lemma reader_len_at [simp]: "n < 2 ^ 32 \<Longrightarrow> reader_len (at_pos pre (u32_to_le (of_nat n) @ rest)) = Ok (n, at_pos (pre @ u32_to_le (of_nat n)) rest)"
  by (simp add: reader_len_def wire_len_u32)

lemma concat_length: "(\<And>x. length (f x) = k) \<Longrightarrow> length (concat (map f xs)) = length xs * k"
  by (induction xs) simp_all

lemma ensure_count_at:
  "n < 2 ^ 32 \<Longrightarrow> length bs = n * 2 \<Longrightarrow> ensure_count n 2 (at_pos pre (bs @ rest)) = Ok ()"
  by (simp add: ensure_count_def at_pos_def USIZE_MAX_def)

lemma write_bf16_length [simp]: "length (write_bf16 v) = 2"
  by (simp add: write_bf16_def)

lemma u16_vec_at [simp]:
  assumes "length xs < 2 ^ 32"
  shows "reader_u16_vec (at_pos pre (u32_to_le (of_nat (length xs)) @ concat (map u16_to_le xs) @ rest)) =
    Ok (xs, at_pos (pre @ u32_to_le (of_nat (length xs)) @ concat (map u16_to_le xs)) rest)"
  using assms ensure_count_at [OF assms concat_length [of u16_to_le 2]] u16_field.fetch_many [of xs]
  by (simp add: reader_u16_vec_def list_all_iff)

lemma bf16_vec_at [simp]:
  assumes "length xs < 2 ^ 32"
  shows "reader_bf16_vec (at_pos pre (u32_to_le (of_nat (length xs)) @ concat (map write_bf16 xs) @ rest)) =
    Ok (map bf16_round xs, at_pos (pre @ u32_to_le (of_nat (length xs)) @ concat (map write_bf16 xs)) rest)"
  using assms ensure_count_at [OF assms concat_length [of write_bf16 2]] bf16_field.fetch_many [of xs]
  by (simp add: reader_bf16_vec_def list_all_iff)

section \<open>Rows read back\<close>

text \<open>A row as it comes back: every float rounded to \<open>bfloat16\<close>.\<close>

definition round_position :: "position_features \<Rightarrow> position_features" where
  "round_position p = p \<lparr> pf_budget_fraction := bf16_round (pf_budget_fraction p), pf_budget_step := bf16_round (pf_budget_step p),
     pf_opponent_reward := bf16_round (pf_opponent_reward p) \<rparr>"

definition round_action :: "action_feature \<Rightarrow> action_feature" where
  "round_action a = a \<lparr> af_static_prior := bf16_round (af_static_prior a) \<rparr>"

definition round_opponent :: "opponent_state \<Rightarrow> opponent_state" where
  "round_opponent p = p \<lparr> op_node_attrs := map bf16_round (op_node_attrs p), op_position := round_position (op_position p) \<rparr>"

definition round_row :: "feature_row \<Rightarrow> feature_row" where
  "round_row row = row \<lparr> fr_node_attrs := map bf16_round (fr_node_attrs row), fr_actions := map round_action (fr_actions row),
     fr_position := round_position (fr_position row), fr_opponent := map_option round_opponent (fr_opponent row) \<rparr>"

definition position_finite :: "position_features \<Rightarrow> bool" where
  "position_finite p \<longleftrightarrow> f32_is_finite (pf_budget_fraction p) \<and> f32_is_finite (pf_budget_step p) \<and> f32_is_finite (pf_opponent_reward p)"

definition row_finite :: "feature_row \<Rightarrow> bool" where
  "row_finite row \<longleftrightarrow> list_all f32_is_finite (fr_node_attrs row) \<and> list_all (\<lambda>a. f32_is_finite (af_static_prior a)) (fr_actions row) \<and>
     position_finite (fr_position row) \<and>
     (case fr_opponent row of None \<Rightarrow> True | Some p \<Rightarrow> list_all f32_is_finite (op_node_attrs p) \<and> position_finite (op_position p))"

definition position_ok :: "position_features \<Rightarrow> bool" where
  "position_ok p \<longleftrightarrow> position_finite (round_position p) \<and> (pf_opponent_present p \<or> f32_is_zero (pf_opponent_reward p))"

lemma f32_is_zero_nat: "f32_is_zero v \<longleftrightarrow> unat v mod 2147483648 = 0"
proof -
  have "v AND 0x7fffffff = take_bit 31 v" by (simp add: take_bit_eq_mask mask_eq_exp_minus_1)
  then have "f32_is_zero v \<longleftrightarrow> take_bit 31 v = 0" by (simp add: f32_is_zero_def)
  also have "\<dots> \<longleftrightarrow> unat (take_bit 31 v) = 0" using word_unat_eq_iff [of "take_bit 31 v" 0] by simp
  also have "unat (take_bit 31 v) = unat v mod 2147483648" by (simp add: take_bit_eq_mod unat_mod_distrib)
  finally show ?thesis .
qed

lemma bf16_round_zero:
  assumes "f32_is_zero v"
  shows "f32_is_zero (bf16_round v)"
proof -
  have z: "unat v mod 2147483648 = 0" using assms by (simp add: f32_is_zero_nat)
  then have "unat v = 0 \<or> unat v = 2147483648" using u32_less [of v] by (auto elim!: dvdE simp: mod_eq_0_iff_dvd)
  moreover have "unat (f32_to_bf16_bits v) = (unat v + 32767 + unat v div 65536 mod 2) div 65536"
    by (rule bf16_bits_nat) (simp add: z)
  ultimately have "unat (bf16_round v) = unat v" by (auto simp: bf16_round_nat)
  then show ?thesis using z by (simp add: f32_is_zero_nat)
qed

lemma position_at:
  "position_ok p \<Longrightarrow> read_position (at_pos pre (write_position p @ rest)) = Ok (round_position p, at_pos (pre @ write_position p) rest)"
  by (cases p) (auto simp: position_ok_def position_finite_def round_position_def read_position_def write_position_def bf16_round_zero)

definition state_ok :: "u32 \<Rightarrow> u16 list \<Rightarrow> f32 list \<Rightarrow> feature_edge list \<Rightarrow> bool" where
  "state_ok n tokens attrs edges \<longleftrightarrow> n \<noteq> 0 \<and> length tokens = unat n \<and> length attrs < 2 ^ 32 \<and> length edges < 2 ^ 32 \<and>
     list_all (\<lambda>e. fe_src e < n \<and> fe_dst e < n) edges"

lemma state_body_at:
  assumes "state_ok n tokens attrs edges" "write_state_body n tokens attrs edges = Ok body"
  shows "list_all (\<lambda>v. f32_is_finite (bf16_round v)) attrs \<Longrightarrow>
      read_state_body n (at_pos pre (body @ rest)) = Ok ((tokens, map bf16_round attrs, edges), at_pos (pre @ body) rest)"
    "list_ex (\<lambda>v. \<not> f32_is_finite (bf16_round v)) attrs \<Longrightarrow>
      read_state_body n (at_pos pre (body @ rest)) = Err (InvalidEncoding ''non-finite node attr'')"
proof -
  have tokens: "length tokens < 2 ^ 32" using assms(1) unsigned_less [of n] by (simp add: state_ok_def)
  have body: "body = u32_to_le (of_nat (length tokens)) @ concat (map u16_to_le tokens) @
      u32_to_le (of_nat (length attrs)) @ concat (map write_bf16 attrs) @ u32_to_le (of_nat (length edges)) @ concat (map write_edge edges)"
    using assms by (simp add: write_state_body_def state_ok_def)
  note edges = edge_field.fetch_many [of n edges]
  have ok: "n \<noteq> 0" "length tokens = unat n" "length attrs < 2 ^ 32" "length edges < 2 ^ 32" "list_all (\<lambda>e. fe_src e < n \<and> fe_dst e < n) edges"
    using assms(1) by (simp_all add: state_ok_def)
  show "list_all (\<lambda>v. f32_is_finite (bf16_round v)) attrs \<Longrightarrow>
      read_state_body n (at_pos pre (body @ rest)) = Ok ((tokens, map bf16_round attrs, edges), at_pos (pre @ body) rest)"
    unfolding body read_state_body_def using ok(1,3-5) edges [OF ok(5)] u16_vec_at [OF tokens] by (simp add: ok(2) [symmetric] list_ex_iff list_all_iff)
  show "list_ex (\<lambda>v. \<not> f32_is_finite (bf16_round v)) attrs \<Longrightarrow>
      read_state_body n (at_pos pre (body @ rest)) = Err (InvalidEncoding ''non-finite node attr'')"
    unfolding body read_state_body_def using ok(1,3-5) u16_vec_at [OF tokens] by (simp add: ok(2) [symmetric] list_ex_iff)
qed

definition action_bytes :: "action_feature \<Rightarrow> u8 list" where
  "action_bytes a = u16_to_le (ucast (af_kind_token a)) @ write_bf16 (af_static_prior a) @ [of_nat (length (af_subjects a))] @
     concat (map u32_to_le (af_subjects a))"

definition action_ok :: "u32 \<Rightarrow> action_feature \<Rightarrow> bool" where
  "action_ok n a \<longleftrightarrow> unat (af_kind_token a) < 2 ^ 16 \<and> length (af_subjects a) < 256 \<and> list_all (\<lambda>s. s < n) (af_subjects a)"

lemma write_action_ok: "action_ok n a \<Longrightarrow> write_action a = Ok (action_bytes a)"
  by (simp add: write_action_def narrow_index_def action_bytes_def action_ok_def)

lemma narrow_u32: "unat (v :: u32) < 2 ^ 16 \<Longrightarrow> ucast (ucast v :: u16) = v"
  by (simp add: word_unat_eq_iff unsigned_ucast_eq unsigned_take_bit_eq take_bit_nat_eq_self)

lemma wire_len_u8: "n < 256 \<Longrightarrow> unat (of_nat n :: u8) = n"
  by (simp add: unsigned_of_nat take_bit_nat_eq_self)

interpretation action_field: wire_field action_bytes "read_action n" round_action
  "\<lambda>a. action_ok n a \<and> f32_is_finite (bf16_round (af_static_prior a))" for n
proof (unfold_locales, elim conjE)
  fix a pre rest assume a: "action_ok n a" "f32_is_finite (bf16_round (af_static_prior a))"
  have subjects: "list_all (\<lambda>s. s < n) (af_subjects a)" using a(1) by (simp add: action_ok_def)
  show "read_action n (at_pos pre (action_bytes a @ rest)) = Ok (round_action a, at_pos (pre @ action_bytes a) rest)"
    using a subject_field.fetch_many [OF subjects]
    by (cases a) (simp add: read_action_def action_bytes_def action_ok_def narrow_u32 wire_len_u8 round_action_def)
qed

lemma check_each_Ok: "check_each f xs = Ok () \<longleftrightarrow> (\<forall>x \<in> set xs. f x = Ok ())"
  by (induction xs) auto

lemma validate_state_ok:
  assumes "validate_state n tokens attrs edges schema = Ok ()" "length attrs < 2 ^ 32"
  shows "state_ok n tokens attrs edges"
proof -
  have "length edges \<le> unat (fs_max_edges (fsc_config schema))"
    using assms(1) by (auto simp: validate_state_def Let_def split: if_splits)
  then have "length edges < 2 ^ 32" using u32_less [of "fs_max_edges (fsc_config schema)"] by simp
  moreover have "fe_src e < n \<and> fe_dst e < n" if "e \<in> set edges" for e
    using assms(1) that by (auto simp: validate_state_def Let_def check_each_Ok split: if_splits)
  ultimately show ?thesis using assms by (auto simp: state_ok_def list_all_iff validate_state_def Let_def split: if_splits)
qed

lemma schema_new_config:
  assumes "schema_new blake3 config = Ok schema"
  shows "unat (fs_action_kind_vocab_size (fsc_config schema)) \<le> 2 ^ 16" "unat (fs_max_subjects (fsc_config schema)) < 256"
proof -
  have c: "fsc_config schema = config" "validate_config config = Ok ()" using assms by (auto simp: schema_new_def)
  then have "\<not> 0x10000 < fs_action_kind_vocab_size config" "\<not> 255 < fs_max_subjects config"
    by (auto simp: validate_config_def split: if_splits)
  then show "unat (fs_action_kind_vocab_size (fsc_config schema)) \<le> 2 ^ 16" "unat (fs_max_subjects (fsc_config schema)) < 256"
    using c(1) by (simp_all add: word_less_nat_alt)
qed

lemma validate_action_ok:
  assumes "validate_action config n count (i, a) = Ok ()" "unat (fs_action_kind_vocab_size config) \<le> 2 ^ 16" "unat (fs_max_subjects config) < 256"
  shows "action_ok n a"
  using assms by (auto simp: validate_action_def action_ok_def check_each_Ok list_all_iff not_le word_less_nat_alt split: if_splits)

lemma validate_position_zero: "validate_position p = Ok () \<Longrightarrow> pf_opponent_present p \<or> f32_is_zero (pf_opponent_reward p)"
  by (auto simp: validate_position_def split: if_splits)

lemma row_validate_parts:
  assumes "row_validate row schema = Ok ()" "schema_new blake3 config = Ok schema"
  shows "validate_state (fr_node_count row) (fr_node_tokens row) (fr_node_attrs row) (fr_edges row) schema = Ok ()"
    "list_all (action_ok (fr_node_count row)) (fr_actions row)" "length (fr_actions row) < 2 ^ 32" "validate_position (fr_position row) = Ok ()"
    "fr_opponent row = Some p \<Longrightarrow> validate_state (op_node_count p) (op_node_tokens p) (op_node_attrs p) (op_edges p) schema = Ok () \<and> validate_position (op_position p) = Ok ()"
proof -
  note v = assms(1) [unfolded row_validate_def Let_def]
  show "validate_state (fr_node_count row) (fr_node_tokens row) (fr_node_attrs row) (fr_edges row) schema = Ok ()" using v by auto
  show "validate_position (fr_position row) = Ok ()" using v by (auto split: if_splits)
  have "length (fr_actions row) \<le> unat (fs_max_actions (fsc_config schema))" using v by (auto split: if_splits)
  then show "length (fr_actions row) < 2 ^ 32" using u32_less [of "fs_max_actions (fsc_config schema)"] by simp
  have all: "\<forall>e \<in> set (zip [0..<length (fr_actions row)] (fr_actions row)).
      validate_action (fsc_config schema) (fr_node_count row) (length (fr_actions row)) e = Ok ()"
    using v by (auto simp: check_each_Ok split: if_splits)
  have "action_ok (fr_node_count row) (fr_actions row ! i)" if "i < length (fr_actions row)" for i
    using all [rule_format, of "(i, fr_actions row ! i)"] validate_action_ok [OF _ schema_new_config [OF assms(2)]] that by (force simp: in_set_zip)
  then show "list_all (action_ok (fr_node_count row)) (fr_actions row)" by (simp add: list_all_length)
  show "fr_opponent row = Some p \<Longrightarrow> validate_state (op_node_count p) (op_node_tokens p) (op_node_attrs p) (op_edges p) schema = Ok () \<and> validate_position (op_position p) = Ok ()"
    using v by (auto split: if_splits)
qed

lemma row_header:
  assumes "length hash = 32"
  shows "parse_row_header (ROW_MAGIC @ u32_to_le ENCODING_VERSION @ hash @ rest) = Ok hash"
    "slice_from (ROW_MAGIC @ u32_to_le ENCODING_VERSION @ hash @ rest) ROW_HEADER_LEN = (Ok rest :: (_, feature_error) outcome)"
proof -
  have magic: "length ROW_MAGIC = 4" by (simp add: ROW_MAGIC_def)
  show "parse_row_header (ROW_MAGIC @ u32_to_le ENCODING_VERSION @ hash @ rest) = Ok hash"
    using assms magic by (simp add: parse_row_header_def ROW_HEADER_LEN_def slice_range_def read_u32_at_def)
  show "slice_from (ROW_MAGIC @ u32_to_le ENCODING_VERSION @ hash @ rest) ROW_HEADER_LEN = (Ok rest :: (_, feature_error) outcome)"
    using assms magic by (simp add: slice_from_def ROW_HEADER_LEN_def)
qed

definition attrs_fit :: "feature_row \<Rightarrow> bool" where
  "attrs_fit row \<longleftrightarrow> length (fr_node_attrs row) < 2 ^ 32 \<and> (case fr_opponent row of None \<Rightarrow> True | Some p \<Rightarrow> length (op_node_attrs p) < 2 ^ 32)"

definition opponent_bytes :: "opponent_state option \<Rightarrow> (u8 list, feature_error) outcome" where
  "opponent_bytes opponent =
     (case opponent of
        None \<Rightarrow> Ok [0]
      | Some opponent \<Rightarrow>
          obind (write_state_body (op_node_count opponent) (op_node_tokens opponent) (op_node_attrs opponent) (op_edges opponent)) (\<lambda>body.
          Ok ([1] @ u32_to_le (op_node_count opponent) @ body @ write_position (op_position opponent))))"

lemma opponent_at:
  assumes bytes: "opponent_bytes opp = Ok bs"
    and state: "\<And>p. opp = Some p \<Longrightarrow> state_ok (op_node_count p) (op_node_tokens p) (op_node_attrs p) (op_edges p)"
    and finite: "\<And>p. opp = Some p \<Longrightarrow> list_all (\<lambda>v. f32_is_finite (bf16_round v)) (op_node_attrs p) \<and> position_ok (op_position p)"
  shows "read_opponent (at_pos pre (bs @ rest)) = Ok (map_option round_opponent opp, at_pos (pre @ bs) rest)"
proof (cases opp)
  case None
  then show ?thesis using bytes by (auto simp: opponent_bytes_def read_opponent_def)
next
  case (Some p)
  obtain body where body: "write_state_body (op_node_count p) (op_node_tokens p) (op_node_attrs p) (op_edges p) = Ok body"
    "bs = [1] @ u32_to_le (op_node_count p) @ body @ write_position (op_position p)"
    using bytes Some by (auto simp: opponent_bytes_def)
  note fin = finite [OF Some]
  show ?thesis unfolding body(2) Some
    using state_body_at(1) [OF state [OF Some] body(1)] fin position_at [of "op_position p"]
    by (cases p) (simp add: read_opponent_def round_opponent_def)
qed

definition row_bytes :: "feature_schema \<Rightarrow> feature_row \<Rightarrow> u8 list \<Rightarrow> u8 list \<Rightarrow> u8 list" where
  "row_bytes schema row body opp = ROW_MAGIC @ u32_to_le ENCODING_VERSION @ fsc_hash schema @ u32_to_le (fr_node_count row) @ body @
     u32_to_le (of_nat (length (fr_actions row))) @ concat (map action_bytes (fr_actions row)) @ write_position (fr_position row) @ opp"

lemma opponent_state_ok:
  assumes "row_validate row schema = Ok ()" "schema_new blake3 config = Ok schema" "attrs_fit row" "fr_opponent row = Some p"
  shows "state_ok (op_node_count p) (op_node_tokens p) (op_node_attrs p) (op_edges p)"
  using validate_state_ok [of "op_node_count p" "op_node_tokens p" "op_node_attrs p" "op_edges p" schema]
    row_validate_parts(5) [OF assms(1,2,4)] assms(3,4) by (simp add: attrs_fit_def)

lemma encode_parts:
  assumes schema: "schema_new blake3 config = Ok schema" and valid: "row_validate row schema = Ok ()" and fit: "attrs_fit row"
  obtains body opp where
    "write_state_body (fr_node_count row) (fr_node_tokens row) (fr_node_attrs row) (fr_edges row) = Ok body" "opponent_bytes (fr_opponent row) = Ok opp"
    "encode_feature_row row schema = Ok (row_bytes schema row body opp)"
proof -
  note parts = row_validate_parts [OF valid schema]
  have st: "state_ok (fr_node_count row) (fr_node_tokens row) (fr_node_attrs row) (fr_edges row)"
    using validate_state_ok [OF parts(1)] fit by (simp add: attrs_fit_def)
  obtain body where body: "write_state_body (fr_node_count row) (fr_node_tokens row) (fr_node_attrs row) (fr_edges row) = Ok body"
    using st by (simp add: write_state_body_def state_ok_def)
  have op: "state_ok (op_node_count p) (op_node_tokens p) (op_node_attrs p) (op_edges p)" if "fr_opponent row = Some p" for p
    by (rule opponent_state_ok [OF valid schema fit that])
  obtain opp where opp: "opponent_bytes (fr_opponent row) = Ok opp"
    using op by (cases "fr_opponent row") (simp_all add: opponent_bytes_def write_state_body_def state_ok_def)
  have actions: "omap write_action (fr_actions row) = Ok (map action_bytes (fr_actions row))"
    by (rule omap_total) (use parts(2) in \<open>auto simp: list_all_iff intro: write_action_ok\<close>)
  show thesis
    by (rule that [OF body opp]) (use valid body actions opp in \<open>simp add: encode_feature_row_def opponent_bytes_def row_bytes_def\<close>)
qed

lemma decode_row_bytes:
  assumes schema: "schema_new blake3 config = Ok schema" and hash: "length (fsc_hash schema) = 32"
    and valid: "row_validate row schema = Ok ()" and fit: "attrs_fit row" and fin: "row_finite (round_row row)"
    and body: "write_state_body (fr_node_count row) (fr_node_tokens row) (fr_node_attrs row) (fr_edges row) = Ok body"
    and opp: "opponent_bytes (fr_opponent row) = Ok opp"
  shows "decode_feature_row (row_bytes schema row body opp) = Ok (round_row row)"
proof -
  note parts = row_validate_parts [OF valid schema]
  have st: "state_ok (fr_node_count row) (fr_node_tokens row) (fr_node_attrs row) (fr_edges row)"
    using validate_state_ok [OF parts(1)] fit by (simp add: attrs_fit_def)
  have attrs: "list_all (\<lambda>v. f32_is_finite (bf16_round v)) (fr_node_attrs row)"
    and acts: "list_all (\<lambda>a. action_ok (fr_node_count row) a \<and> f32_is_finite (bf16_round (af_static_prior a))) (fr_actions row)"
    and pos: "position_ok (fr_position row)"
    using fin parts(2) validate_position_zero [OF parts(4)]
    by (auto simp: row_finite_def round_row_def round_action_def position_ok_def list_all_iff)
  have opps: "read_opponent (at_pos pre (opp @ [])) = Ok (map_option round_opponent (fr_opponent row), at_pos (pre @ opp) [])" for pre
  proof (rule opponent_at [OF opp opponent_state_ok [OF valid schema fit]])
    fix p assume p: "fr_opponent row = Some p"
    show "list_all (\<lambda>v. f32_is_finite (bf16_round v)) (op_node_attrs p) \<and> position_ok (op_position p)"
      using fin p validate_position_zero parts(5) [OF p] by (auto simp: row_finite_def round_row_def round_opponent_def position_ok_def list_all_iff)
  qed
  have empty: "reader_is_empty (at_pos pre [])" for pre by (simp add: reader_is_empty_def at_pos_def)
  show ?thesis using opps empty state_body_at(1) [OF st body attrs] action_field.fetch_many [OF acts] position_at [OF pos] parts(3)
    by (cases row) (simp add: row_bytes_def decode_feature_row_def row_header [OF hash] reader_new_at round_row_def)
qed

text \<open>
  C17: A feature row comes back as it was written, with its floats rounded. A row that is valid for a schema can be
  encoded, its header names the schema, and decoding the bytes gives the row with every float rounded
  to \<open>bfloat16\<close>, provided none of them becomes infinite. The second part is the exception: \<open>validate\<close> only
  requires the floats to be finite before rounding, so a node attribute beyond the largest \<open>bfloat16\<close> is accepted by
  the encoder and the bytes it writes are rejected by the decoder.
\<close>

theorem feature_row_roundtrip:
  assumes schema: "schema_new blake3 config = Ok schema" and hash: "length (fsc_hash schema) = 32"
    and valid: "row_validate row schema = Ok ()" and fit: "attrs_fit row"
  shows "\<exists>bytes. encode_feature_row row schema = Ok bytes \<and> validate_feature_row_header bytes (fsc_hash schema) = Ok () \<and>
    (row_finite (round_row row) \<longrightarrow> decode_feature_row bytes = Ok (round_row row)) \<and>
    (list_ex (\<lambda>v. \<not> f32_is_finite (bf16_round v)) (fr_node_attrs row) \<longrightarrow>
       decode_feature_row bytes = Err (InvalidEncoding ''non-finite node attr''))"
proof -
  obtain body opp where body: "write_state_body (fr_node_count row) (fr_node_tokens row) (fr_node_attrs row) (fr_edges row) = Ok body"
    and opp: "opponent_bytes (fr_opponent row) = Ok opp" and enc: "encode_feature_row row schema = Ok (row_bytes schema row body opp)"
    by (rule encode_parts [OF schema valid fit])
  have st: "state_ok (fr_node_count row) (fr_node_tokens row) (fr_node_attrs row) (fr_edges row)"
    using validate_state_ok [OF row_validate_parts(1) [OF valid schema]] fit by (simp add: attrs_fit_def)
  have bad: "decode_feature_row (row_bytes schema row body opp) = Err (InvalidEncoding ''non-finite node attr'')"
    if "list_ex (\<lambda>v. \<not> f32_is_finite (bf16_round v)) (fr_node_attrs row)"
    using state_body_at(2) [OF st body that] by (simp add: row_bytes_def decode_feature_row_def row_header [OF hash] reader_new_at)
  have header: "validate_feature_row_header (row_bytes schema row body opp) (fsc_hash schema) = Ok ()"
    by (simp add: validate_feature_row_header_def row_bytes_def row_header(1) [OF hash])
  show ?thesis using enc bad header decode_row_bytes [OF schema hash valid fit _ body opp] by blast
qed

section \<open>Schema configurations read back\<close>

lemma wire_len_u16: "n < 2 ^ 16 \<Longrightarrow> unat (of_nat n :: u16) = n"
  by (simp add: unsigned_of_nat take_bit_nat_eq_self)

text \<open>
  C38: A schema configuration survives its encoding. The encoder accepts exactly the valid configurations whose name fits
  a 16-bit length, and decoding what it wrote gives the configuration back, with the scale bit for
  bit; so both ends derive the same schema hash from it.
\<close>

theorem schema_config_roundtrip:
  assumes name: "utf8_valid (fs_name config)"
  shows "case encode_feature_schema_config blake3 config of
      Ok bytes \<Rightarrow> length (fs_name config) < 2 ^ 16 \<and> validate_config config = Ok () \<and> decode_feature_schema_config blake3 bytes = Ok config
    | Err e \<Rightarrow> validate_config config = Err e \<or> 2 ^ 16 \<le> length (fs_name config) \<and> e = InvalidSchema ''name too long''
    | Panic \<Rightarrow> False"
proof (cases "validate_config config")
  case (Ok u)
  then have new: "schema_new blake3 config = Ok \<lparr> fsc_config = config, fsc_hash = schema_derive blake3 config \<rparr>" by (simp add: schema_new_def)
  have empty: "reader_is_empty (at_pos pre [])" for pre by (simp add: reader_is_empty_def at_pos_def)
  have seed: "reader_u64 (at_pos pre (u64_to_le v)) = Ok (v, at_pos (pre @ u64_to_le v) [])" for pre v
    using reader_words_at(3) [of pre v "[]"] by simp
  show ?thesis
  proof (cases "length (fs_name config) < 2 ^ 16")
    case True
    then have len: "unat (of_nat (length (fs_name config)) :: u16) = length (fs_name config)" by (rule wire_len_u16)
    show ?thesis using True new Ok name len
      by (cases config)
        (simp add: encode_feature_schema_config_def decode_feature_schema_config_def reader_new_at reader_take_bytes_def reader_take_at empty seed Let_def)
  qed (simp add: encode_feature_schema_config_def new)
next
  case (Err e)
  then show ?thesis by (simp add: encode_feature_schema_config_def schema_new_def)
next
  case Panic
  then show ?thesis by (auto simp: validate_config_def split: if_splits)
qed

section \<open>Decoding arbitrary bytes\<close>

text \<open>A computation that does not panic and whose result, if it has one, satisfies \<open>P\<close>.\<close>

definition yields :: "('a, 'e) outcome \<Rightarrow> ('a \<Rightarrow> bool) \<Rightarrow> bool" where
  "yields m P \<longleftrightarrow> (case m of Ok x \<Rightarrow> P x | Err _ \<Rightarrow> True | Panic \<Rightarrow> False)"

lemma yields_simps [simp]: "yields (Ok x) P = P x" "yields (Err e) P" "\<not> yields Panic P"
  by (simp_all add: yields_def)

lemma yields_bind: "yields m P \<Longrightarrow> (\<And>x. P x \<Longrightarrow> yields (f x) Q) \<Longrightarrow> yields (obind m f) Q"
  by (cases m) simp_all

lemma yields_bind_pair:
  "yields m (\<lambda>(x, r). P x) \<Longrightarrow> (\<And>x r. P x \<Longrightarrow> yields (f x r) Q) \<Longrightarrow> yields (obind m (\<lambda>(x, r). f x r)) Q"
  by (erule yields_bind) auto

lemma yields_weaken: "yields m P \<Longrightarrow> (\<And>x. P x \<Longrightarrow> Q x) \<Longrightarrow> yields m Q"
  by (cases m) simp_all

lemma yields_read_n: "(\<And>r. yields (f r) (\<lambda>(x, r). P x)) \<Longrightarrow> yields (read_n f n r) (\<lambda>(xs, r). length xs = n \<and> list_all P xs)"
proof (induction n arbitrary: r)
  case (Suc n)
  show ?case unfolding read_n.simps
    by (rule yields_bind_pair [OF Suc.prems], rule yields_bind_pair [OF Suc.IH [OF Suc.prems]]) simp
qed simp

lemma yields_take: "yields (reader_take n message r) (\<lambda>(bs, r). length bs = n)"
  by (simp add: reader_take_def)

lemma from_le_yields:
  "length bs = 2 \<Longrightarrow> yields (u16_from_le bs) (\<lambda>_. True)" "length bs = 4 \<Longrightarrow> yields (u32_from_le bs) (\<lambda>_. True)"
  by (auto simp: length_Suc_conv numeral_eq_Suc)

lemma yields_words:
  "yields (reader_u8 r) (\<lambda>(v, r). True)" "yields (reader_u16 r) (\<lambda>(v, r). True)" "yields (reader_u32 r) (\<lambda>(v, r). True)"
  "yields (reader_bf16 r) (\<lambda>(v, r). True)" "yields (reader_len r) (\<lambda>(v, r). True)"
proof -
  show "yields (reader_u8 r) (\<lambda>(v, r). True)" by (simp add: reader_u8_def split: option.split)
  show "yields (reader_u16 r) (\<lambda>(v, r). True)" unfolding reader_u16_def
    by (rule yields_bind_pair [OF yields_take], rule yields_bind [OF from_le_yields(1)]) simp_all
  show u32: "yields (reader_u32 r) (\<lambda>(v, r). True)" unfolding reader_u32_def
    by (rule yields_bind_pair [OF yields_take], rule yields_bind [OF from_le_yields(2)]) simp_all
  show "yields (reader_bf16 r) (\<lambda>(v, r). True)" unfolding reader_bf16_def
    by (rule yields_bind_pair [OF yields_take], rule yields_bind [OF from_le_yields(1)]) simp_all
  show "yields (reader_len r) (\<lambda>(v, r). True)" unfolding reader_len_def by (rule yields_bind_pair [OF u32]) simp
qed

lemma yields_ensure_count: "yields (ensure_count count width r) (\<lambda>_. True)"
  by (simp add: ensure_count_def)

lemma yields_vecs:
  "yields (reader_u16_vec r) (\<lambda>(v, r). True)" "yields (reader_bf16_vec r) (\<lambda>(v, r). True)"
proof -
  have n: "yields (read_n f n r) (\<lambda>(xs, r). True)" if "\<And>r. yields (f r) (\<lambda>(x, r). True)" for f :: "'x reading" and n r
    by (rule yields_weaken [OF yields_read_n [OF that]]) auto
  show "yields (reader_u16_vec r) (\<lambda>(v, r). True)" unfolding reader_u16_vec_def
    by (rule yields_bind_pair [OF yields_words(5)], rule yields_bind [OF yields_ensure_count], rule n [OF yields_words(2)])
  show "yields (reader_bf16_vec r) (\<lambda>(v, r). True)" unfolding reader_bf16_vec_def
    by (rule yields_bind_pair [OF yields_words(5)], rule yields_bind [OF yields_ensure_count], rule n [OF yields_words(4)])
qed

text \<open>What a state, an action and a position read from the wire satisfy.\<close>

definition state_decoded :: "u32 \<Rightarrow> u16 list \<Rightarrow> f32 list \<Rightarrow> feature_edge list \<Rightarrow> bool" where
  "state_decoded n tokens attrs edges \<longleftrightarrow> n \<noteq> 0 \<and> length tokens = unat n \<and> list_all f32_is_finite attrs \<and>
     list_all (\<lambda>e. fe_src e < n \<and> fe_dst e < n) edges"

definition action_decoded :: "u32 \<Rightarrow> action_feature \<Rightarrow> bool" where
  "action_decoded n a \<longleftrightarrow> f32_is_finite (af_static_prior a) \<and> action_ok n a"

definition position_decoded :: "position_features \<Rightarrow> bool" where
  "position_decoded p \<longleftrightarrow> position_finite p \<and> (pf_opponent_present p \<or> f32_is_zero (pf_opponent_reward p))"

definition opponent_decoded :: "opponent_state option \<Rightarrow> bool" where
  "opponent_decoded opp \<longleftrightarrow> (case opp of None \<Rightarrow> True
     | Some p \<Rightarrow> state_decoded (op_node_count p) (op_node_tokens p) (op_node_attrs p) (op_edges p) \<and> position_decoded (op_position p))"

definition row_decoded :: "feature_row \<Rightarrow> bool" where
  "row_decoded row \<longleftrightarrow> state_decoded (fr_node_count row) (fr_node_tokens row) (fr_node_attrs row) (fr_edges row) \<and>
     list_all (action_decoded (fr_node_count row)) (fr_actions row) \<and> position_decoded (fr_position row) \<and> opponent_decoded (fr_opponent row)"

lemma yields_if: "(c \<Longrightarrow> yields a P) \<Longrightarrow> (\<not> c \<Longrightarrow> yields b P) \<Longrightarrow> yields (if c then a else b) P"
  by simp

lemmas yields_step = yields_if yields_bind_pair [OF yields_words(1)] yields_bind_pair [OF yields_words(2)] yields_bind_pair [OF yields_words(3)]
  yields_bind_pair [OF yields_words(4)] yields_bind_pair [OF yields_words(5)] yields_bind_pair [OF yields_vecs(1)] yields_bind_pair [OF yields_vecs(2)]

lemma yields_edge: "yields (read_edge n r) (\<lambda>(e, r). fe_src e < n \<and> fe_dst e < n)"
  unfolding read_edge_def by (intro yields_step) (auto simp: not_le)

lemma yields_subject: "yields (read_subject n r) (\<lambda>(s, r). s < n)"
  unfolding read_subject_def by (intro yields_step) (auto simp: not_le)

lemma yields_state_body: "yields (read_state_body n r) (\<lambda>((tokens, attrs, edges), r). state_decoded n tokens attrs edges)"
  unfolding read_state_body_def
  by (intro yields_step yields_bind_pair [OF yields_read_n [OF yields_edge]]) (auto simp: state_decoded_def list_ex_iff list_all_iff)

lemma widened_u16: "unat (ucast (v :: u16) :: u32) < 2 ^ 16"
  using unsigned_less [of v] by simp

lemma u8_less: "unat (v :: u8) < 256"
  using unsigned_less [of v] by simp

lemma yields_action: "yields (read_action n r) (\<lambda>(a, r). action_decoded n a)"
  unfolding read_action_def
  by (intro yields_step yields_bind_pair [OF yields_read_n [OF yields_subject]])
    (use widened_u16 in \<open>auto simp: action_decoded_def action_ok_def u8_less\<close>)

lemma yields_position: "yields (read_position r) (\<lambda>(p, r). position_decoded p)"
  unfolding read_position_def by (intro yields_step) (auto simp: position_decoded_def position_finite_def)

lemma yields_state_bind:
  "(\<And>tokens attrs edges r. state_decoded n tokens attrs edges \<Longrightarrow> yields (f tokens attrs edges r) Q) \<Longrightarrow>
   yields (obind (read_state_body n r) (\<lambda>((tokens, attrs, edges), r). f tokens attrs edges r)) Q"
  by (rule yields_bind [OF yields_state_body]) auto

lemma yields_opponent: "yields (read_opponent r) (\<lambda>(p, r). opponent_decoded p)"
  unfolding read_opponent_def
  by (intro yields_step yields_state_bind yields_bind_pair [OF yields_position]) (auto simp: opponent_decoded_def)

lemma yields_header: "yields (parse_row_header bytes) (\<lambda>_. ROW_HEADER_LEN \<le> length bytes \<and> take 4 bytes = ROW_MAGIC)"
proof -
  have "yields (read_u32_at bytes 4) (\<lambda>_. True)" by (auto simp: read_u32_at_def intro!: from_le_yields(2))
  then show ?thesis unfolding parse_row_header_def
    by (cases "read_u32_at bytes 4") (auto simp: ROW_HEADER_LEN_def slice_range_def)
qed

lemma yields_row: "yields (decode_feature_row bytes) (\<lambda>row. ROW_HEADER_LEN \<le> length bytes \<and> take 4 bytes = ROW_MAGIC \<and> row_decoded row)"
  unfolding decode_feature_row_def
proof (rule yields_bind [OF yields_header], elim conjE)
  assume h: "ROW_HEADER_LEN \<le> length bytes" "take 4 bytes = ROW_MAGIC"
  have rest: "yields (slice_from bytes ROW_HEADER_LEN) (\<lambda>_. True)" using h(1) by (simp add: slice_from_def)
  show "yields (obind (slice_from bytes ROW_HEADER_LEN) (\<lambda>rest.
     obind (reader_u32 (reader_new rest)) (\<lambda>(node_count, r).
     obind (read_state_body node_count r) (\<lambda>((node_tokens, node_attrs, edges), r).
     obind (reader_len r) (\<lambda>(action_count, r).
     obind (read_n (read_action node_count) action_count r) (\<lambda>(actions, r).
     obind (read_position r) (\<lambda>(position, r).
     obind (read_opponent r) (\<lambda>(opponent, r).
     if \<not> reader_is_empty r then Err (InvalidEncoding ''trailing row bytes'')
     else Ok \<lparr> fr_node_count = node_count, fr_node_tokens = node_tokens, fr_node_attrs = node_attrs, fr_edges = edges,
              fr_actions = actions, fr_position = position, fr_opponent = opponent \<rparr>))))))))
     (\<lambda>row. ROW_HEADER_LEN \<le> length bytes \<and> take 4 bytes = ROW_MAGIC \<and> row_decoded row)"
    by (intro yields_bind [OF rest] yields_step yields_state_bind yields_bind_pair [OF yields_read_n [OF yields_action]]
        yields_bind_pair [OF yields_position] yields_bind_pair [OF yields_opponent]) (simp_all add: h row_decoded_def)
qed

text \<open>
  C18: Decoding is safe on any bytes. Whatever the input, \<open>decode_feature_row\<close> returns: no slice is out of bounds and no
  \<open>expect\<close> fails. A row it accepts carries the magic and can be indexed without further checks: it has
  as many tokens as nodes and at least one node, every edge endpoint and action subject is below
  the node count, every float is finite, and a position without an opponent has no reward.
\<close>

theorem decode_feature_row_safe:
  "decode_feature_row bytes \<noteq> Panic \<and>
   (\<forall>row. decode_feature_row bytes = Ok row \<longrightarrow> ROW_HEADER_LEN \<le> length bytes \<and> take 4 bytes = ROW_MAGIC \<and> row_decoded row)"
  using yields_row [of bytes] by (auto simp: yields_def split: outcome.splits)

section \<open>A concrete row\<close>

definition demo_config :: feature_schema_config where
  "demo_config = \<lparr> fs_name = map of_char ''demo'', fs_node_vocab_size = 8, fs_node_attr_dim = 1, fs_edge_type_count = 2,
     fs_action_kind_vocab_size = 4, fs_max_nodes = 4, fs_max_edges = 8, fs_max_actions = 4, fs_max_subjects = 2,
     fs_opponent_reward_scale = 0x3f800000, fs_expander_degree = 1, fs_expander_seed = 7 \<rparr>"

definition demo_hash :: "u8 list \<Rightarrow> digest" where
  "demo_hash bytes = replicate 32 0"

definition demo_schema :: feature_schema where
  "demo_schema = \<lparr> fsc_config = demo_config, fsc_hash = replicate 32 0 \<rparr>"

definition demo_row :: "f32 \<Rightarrow> feature_row" where
  "demo_row v = \<lparr> fr_node_count = 2, fr_node_tokens = [2, 3], fr_node_attrs = [v, 0x3f808000],
     fr_edges = [\<lparr> fe_src = 1, fe_dst = 0, fe_edge_type = 1 \<rparr>],
     fr_actions = [\<lparr> af_kind_token = 2, af_static_prior = 0x3f000000, af_subjects = [1] \<rparr>,
                   \<lparr> af_kind_token = 1, af_static_prior = 0, af_subjects = [] \<rparr>],
     fr_position = \<lparr> pf_root_step = 3, pf_leaf_depth = 1, pf_budget_fraction = 0x3f000000, pf_budget_step = 0,
                     pf_opponent_reward = 0, pf_opponent_present = False \<rparr>,
     fr_opponent = None \<rparr>"

lemma demo_schema_ok: "validate_config demo_config = Ok ()" "schema_new demo_hash demo_config = Ok demo_schema" "length (fsc_hash demo_schema) = 32"
proof -
  have "f32_is_finite 0x3f800000" "\<not> f32_not_positive 0x3f800000" by code_simp+
  then show c: "validate_config demo_config = Ok ()" by (simp add: validate_config_def demo_config_def)
  then show "schema_new demo_hash demo_config = Ok demo_schema" by (simp add: schema_new_def schema_derive_def demo_hash_def demo_schema_def)
qed (simp add: demo_schema_def)

lemma demo_valid: "row_validate (demo_row 0x3f800000) demo_schema = Ok ()" "row_validate (demo_row 0x7f7fffff) demo_schema = Ok ()"
  by code_simp+

lemma demo_fit: "attrs_fit (demo_row v)"
  by (simp add: attrs_fit_def demo_row_def)

lemma demo_finite: "row_finite (round_row (demo_row 0x3f800000))"
  "list_ex (\<lambda>v. \<not> f32_is_finite (bf16_round v)) (fr_node_attrs (demo_row 0x7f7fffff))"
  by code_simp+

lemma demo_decodes: "\<exists>bytes. decode_feature_row bytes = Ok (round_row (demo_row 0x3f800000))"
  using encode_parts [OF demo_schema_ok(2) demo_valid(1) demo_fit] decode_row_bytes [OF demo_schema_ok(2,3) demo_valid(1) demo_fit demo_finite(1)]
  by metis

theorem feature_row_roundtrip_witness:
  "(\<exists>bytes. encode_feature_row (demo_row 0x3f800000) demo_schema = Ok bytes \<and> decode_feature_row bytes = Ok (round_row (demo_row 0x3f800000))) \<and>
   (\<exists>bytes. encode_feature_row (demo_row 0x7f7fffff) demo_schema = Ok bytes \<and> decode_feature_row bytes = Err (InvalidEncoding ''non-finite node attr''))"
  using feature_row_roundtrip [OF demo_schema_ok(2,3) demo_valid(1) demo_fit] feature_row_roundtrip [OF demo_schema_ok(2,3) demo_valid(2) demo_fit] demo_finite
  by blast

theorem decode_feature_row_safe_witness:
  "row_decoded (round_row (demo_row 0x3f800000))"
  using demo_decodes decode_feature_row_safe by blast

theorem schema_config_roundtrip_witness:
  "\<exists>bytes. encode_feature_schema_config demo_hash demo_config = Ok bytes \<and> decode_feature_schema_config demo_hash bytes = Ok demo_config"
proof -
  have "utf8_valid (fs_name demo_config)" by code_simp
  moreover have "length (fs_name demo_config) < 2 ^ 16" by (simp add: demo_config_def)
  ultimately show ?thesis using schema_config_roundtrip [of demo_config demo_hash] demo_schema_ok(1) by (auto split: outcome.splits)
qed

end
