(* ===== verification/Feature_Targets.thy ===== *)
theory Feature_Targets
  imports Feature_Codec
begin

text \<open>
  The encoding of training targets, the second format of \<open>crates/gz-features/src/codec.rs\<close>: a header and six
  sections at computed offsets in a zeroed buffer. Offsets are computed on \<open>usize\<close>, so an overflow panics
  in a debug build (\<open>dbg\<close>) and wraps in a release build; a vector longer than \<open>isize::MAX\<close> bytes is a panic.
\<close>

section \<open>Offsets\<close>

definition ISIZE_MAX :: nat where
  "ISIZE_MAX = 9223372036854775807"

definition usize_add :: "bool \<Rightarrow> nat \<Rightarrow> nat \<Rightarrow> (nat, 'e) outcome" where
  "usize_add dbg a b = (if a + b \<le> USIZE_MAX then Ok (a + b) else if dbg then Panic else Ok ((a + b) mod 18446744073709551616))"

text \<open>\<open>value & !3\<close> clears the two low bits.\<close>

definition align4 :: "bool \<Rightarrow> nat \<Rightarrow> (nat, 'e) outcome" where
  "align4 dbg v = obind (usize_add dbg v 3) (\<lambda>w. Ok (w - w mod 4))"

definition section_at :: "bool \<Rightarrow> nat \<Rightarrow> nat \<Rightarrow> (nat \<times> nat, 'e) outcome" where
  "section_at dbg cursor len = obind (align4 dbg cursor) (\<lambda>offset. obind (usize_add dbg offset len) (\<lambda>cursor. Ok (offset, cursor)))"

definition TARGET_MAGIC :: "u8 list" where
  "TARGET_MAGIC = map of_char ''GZFT''"

definition TARGET_HEADER_LEN :: nat where
  "TARGET_HEADER_LEN = 20"

record target_layout =
  tl_b :: nat
  tl_a :: nat
  tl_policy :: nat
  tl_value :: nat
  tl_value_valid :: nat
  tl_horizon_value :: nat
  tl_horizon_value_valid :: nat
  tl_reward :: nat
  tl_total_len :: nat

definition length_mul :: "nat \<Rightarrow> nat \<Rightarrow> (nat, feature_error) outcome" where
  "length_mul a b = (if a * b \<le> USIZE_MAX then Ok (a * b) else Err (InvalidEncoding ''target length overflow''))"

definition layout_new :: "bool \<Rightarrow> nat \<Rightarrow> nat \<Rightarrow> (target_layout, feature_error) outcome" where
  "layout_new dbg capacity max_actions =
     obind (obind (length_mul capacity max_actions) (\<lambda>count. length_mul count 4)) (\<lambda>policy_len.
     obind (length_mul capacity 4) (\<lambda>value_len.
     obind (obind (length_mul capacity 2) (\<lambda>count. length_mul count 4)) (\<lambda>horizon_value_len.
     obind (section_at dbg TARGET_HEADER_LEN policy_len) (\<lambda>(policy, cursor).
     obind (section_at dbg cursor value_len) (\<lambda>(value, cursor).
     obind (section_at dbg cursor capacity) (\<lambda>(value_valid, cursor).
     obind (section_at dbg cursor horizon_value_len) (\<lambda>(horizon_value, cursor).
     obind (section_at dbg cursor capacity) (\<lambda>(horizon_value_valid, cursor).
     obind (section_at dbg cursor value_len) (\<lambda>(reward, cursor).
     obind (align4 dbg cursor) (\<lambda>total_len.
     Ok \<lparr> tl_b = capacity, tl_a = max_actions, tl_policy = policy, tl_value = value, tl_value_valid = value_valid,
          tl_horizon_value = horizon_value, tl_horizon_value_valid = horizon_value_valid, tl_reward = reward,
          tl_total_len = total_len \<rparr>))))))))))"

section \<open>Encoding\<close>

record row_targets =
  rt_policy :: "f32 list"
  rt_value :: "f32 option"
  rt_horizon_value :: "(f32 \<times> f32) option"
  rt_reward :: f32

text \<open>\<open>(-1.0..=1.0).contains(v)\<close>: the magnitude is at most that of \<open>1.0\<close>, which no NaN satisfies.\<close>

definition f32_in_unit :: "f32 \<Rightarrow> bool" where
  "f32_in_unit v \<longleftrightarrow> v AND 0x7fffffff \<le> 0x3f800000"

definition validate_target :: "nat \<Rightarrow> row_targets \<Rightarrow> (unit, feature_error) outcome" where
  "validate_target max_actions target =
     (if max_actions < length (rt_policy target) then Err (ActionOverflow (of_nat max_actions) (length (rt_policy target)))
      else if list_ex (\<lambda>v. \<not> f32_is_finite v) (rt_policy target) then Err (InvalidEncoding ''non-finite policy target'')
      else if (case rt_value target of Some v \<Rightarrow> \<not> f32_is_finite v | None \<Rightarrow> False) then Err (InvalidEncoding ''invalid value target'')
      else if (case rt_horizon_value target of
                 Some (x, y) \<Rightarrow> list_ex (\<lambda>v. \<not> f32_is_finite v \<or> \<not> f32_in_unit v) [x, y] | None \<Rightarrow> False)
      then Err (InvalidEncoding ''invalid horizon value target'')
      else if \<not> f32_is_finite (rt_reward target) then Err (InvalidEncoding ''non-finite reward target'')
      else Ok ())"

text \<open>One assignment to the buffer: the base of its section, the distance from it, and the bytes.\<close>

definition write_at :: "bool \<Rightarrow> nat \<times> nat \<times> u8 list \<Rightarrow> u8 list \<Rightarrow> (u8 list, feature_error) outcome" where
  "write_at dbg w out =
     (case w of (base, delta, bytes) \<Rightarrow>
      obind (usize_add dbg base delta) (\<lambda>offset.
      if length out < offset + length bytes then Panic
      else Ok (take offset out @ bytes @ drop (offset + length bytes) out)))"

primrec write_each :: "bool \<Rightarrow> (nat \<times> nat \<times> u8 list) list \<Rightarrow> u8 list \<Rightarrow> (u8 list, feature_error) outcome" where
  "write_each dbg [] out = Ok out"
| "write_each dbg (w # ws) out = obind (write_at dbg w out) (write_each dbg ws)"

text \<open>
  The assignments of the header and of a row, in their order. The distances do not overflow: they are within the section
  lengths, which were computed with \<open>checked_mul\<close>.
\<close>

definition header_writes :: "nat \<Rightarrow> nat \<Rightarrow> nat \<Rightarrow> (nat \<times> nat \<times> u8 list) list" where
  "header_writes capacity row_count max_actions =
     [(0, 0, TARGET_MAGIC), (0, 4, u32_to_le ENCODING_VERSION), (0, 8, u32_to_le (of_nat capacity)),
      (0, 12, u32_to_le (of_nat row_count)), (0, 16, u32_to_le (of_nat max_actions))]"

definition row_writes :: "target_layout \<Rightarrow> nat \<Rightarrow> nat \<times> row_targets \<Rightarrow> (nat \<times> nat \<times> u8 list) list" where
  "row_writes layout max_actions entry =
     (case entry of (row_index, target) \<Rightarrow>
      map (\<lambda>(action_index, v). (tl_policy layout, (row_index * max_actions + action_index) * 4, u32_to_le v))
        (zip [0..<length (rt_policy target)] (rt_policy target)) @
      (case rt_value target of
         None \<Rightarrow> []
       | Some v \<Rightarrow> [(tl_value layout, row_index * 4, u32_to_le v), (tl_value_valid layout, row_index, [1])]) @
      (case rt_horizon_value target of
         None \<Rightarrow> []
       | Some (x, y) \<Rightarrow> [(tl_horizon_value layout, (row_index * 2 + 0) * 4, u32_to_le x), (tl_horizon_value layout, (row_index * 2 + 1) * 4, u32_to_le y),
                        (tl_horizon_value_valid layout, row_index, [1])]) @
      [(tl_reward layout, row_index * 4, u32_to_le (rt_reward target))])"

definition resize_zero :: "nat \<Rightarrow> (u8 list, 'e) outcome" where
  "resize_zero len = (if ISIZE_MAX < len then Panic else Ok (replicate len 0))"

definition encode_training_targets :: "bool \<Rightarrow> row_targets list \<Rightarrow> nat \<Rightarrow> nat \<Rightarrow> (u8 list, feature_error) outcome" where
  "encode_training_targets dbg targets capacity max_actions =
     (if targets = [] then Err EmptyBatch
      else if capacity = 0 \<or> max_actions = 0 then Err (InvalidEncoding ''zero target dimension'')
      else if capacity < length targets then Err (BatchOverflow capacity (length targets))
      else
        obind (check_each (validate_target max_actions) targets) (\<lambda>_.
        obind (layout_new dbg capacity max_actions) (\<lambda>layout.
        obind (resize_zero (tl_total_len layout)) (\<lambda>out.
        write_each dbg (header_writes capacity (length targets) max_actions @
          concat (map (row_writes layout max_actions) (zip [0..<length targets] targets))) out))))"

section \<open>Parsing\<close>

record target_header =
  th_capacity :: u32
  th_row_count :: u32
  th_max_actions :: u32

definition target_header_parse :: "u8 list \<Rightarrow> (target_header, feature_error) outcome" where
  "target_header_parse bytes =
     (if length bytes < TARGET_HEADER_LEN then Err (InvalidEncoding ''target header truncated'')
      else
        obind (slice_range bytes 0 4) (\<lambda>magic.
        if magic \<noteq> TARGET_MAGIC then Err (InvalidEncoding ''bad target magic'')
        else
          obind (read_u32_at bytes 4) (\<lambda>version.
          if version \<noteq> ENCODING_VERSION then Err (InvalidEncoding ''unsupported target version'')
          else
            obind (read_u32_at bytes 8) (\<lambda>capacity.
            obind (read_u32_at bytes 12) (\<lambda>row_count.
            obind (read_u32_at bytes 16) (\<lambda>max_actions.
            if capacity = 0 then Err (InvalidEncoding ''zero target capacity'')
            else if max_actions = 0 then Err (InvalidEncoding ''zero target actions'')
            else if capacity < row_count then Err (InvalidEncoding ''target row count exceeds capacity'')
            else Ok \<lparr> th_capacity = capacity, th_row_count = row_count, th_max_actions = max_actions \<rparr>))))))"

definition read_f32_at :: "bool \<Rightarrow> u8 list \<Rightarrow> nat \<Rightarrow> (f32, feature_error) outcome" where
  "read_f32_at dbg bytes offset =
     obind (usize_add dbg offset 4) (\<lambda>until.
     if until < offset \<or> length bytes < until then Err (InvalidEncoding ''f32 truncated'')
     else u32_from_le (take 4 (drop offset bytes)))"

definition read_f32_vec :: "bool \<Rightarrow> u8 list \<Rightarrow> nat \<Rightarrow> nat \<Rightarrow> (f32 list, feature_error) outcome" where
  "read_f32_vec dbg bytes offset count =
     (if ISIZE_MAX < count * 4 then Panic
      else omap (\<lambda>index. obind (usize_add dbg offset (index * 4)) (read_f32_at dbg bytes)) [0..<count])"

definition byte_section :: "bool \<Rightarrow> u8 list \<Rightarrow> nat \<Rightarrow> nat \<Rightarrow> (u8 list, feature_error) outcome" where
  "byte_section dbg bytes offset len = obind (usize_add dbg offset len) (slice_range bytes offset)"

record training_targets_view =
  tv_capacity :: u32
  tv_row_count :: u32
  tv_max_actions :: u32
  tv_policy :: "f32 list"
  tv_value :: "f32 list"
  tv_value_valid :: "u8 list"
  tv_horizon_value :: "f32 list"
  tv_horizon_value_valid :: "u8 list"
  tv_reward :: "f32 list"

definition training_targets_parse :: "bool \<Rightarrow> u8 list \<Rightarrow> (training_targets_view, feature_error) outcome" where
  "training_targets_parse dbg bytes =
     obind (target_header_parse bytes) (\<lambda>header.
     obind (layout_new dbg (unat (th_capacity header)) (unat (th_max_actions header))) (\<lambda>layout.
     if length bytes \<noteq> tl_total_len layout then Err (InvalidEncoding ''bad target length'')
     else
       obind (read_f32_vec dbg bytes (tl_policy layout) (tl_b layout * tl_a layout)) (\<lambda>policy.
       obind (read_f32_vec dbg bytes (tl_value layout) (tl_b layout)) (\<lambda>value.
       obind (byte_section dbg bytes (tl_value_valid layout) (tl_b layout)) (\<lambda>value_valid.
       obind (read_f32_vec dbg bytes (tl_horizon_value layout) (tl_b layout * 2)) (\<lambda>horizon_value.
       obind (byte_section dbg bytes (tl_horizon_value_valid layout) (tl_b layout)) (\<lambda>horizon_value_valid.
       obind (read_f32_vec dbg bytes (tl_reward layout) (tl_b layout)) (\<lambda>reward.
       Ok \<lparr> tv_capacity = th_capacity header, tv_row_count = th_row_count header, tv_max_actions = th_max_actions header,
            tv_policy = policy, tv_value = value, tv_value_valid = value_valid, tv_horizon_value = horizon_value,
            tv_horizon_value_valid = horizon_value_valid, tv_reward = reward \<rparr>))))))))"

section \<open>Cells of the buffer\<close>

text \<open>
  The buffer as cells, each at a distance from the base of its section. Cells that are live under a
  layout do not overlap and lie in the buffer; a sequence of assignments to cells then leaves in each cell what was
  assigned to it, and the old content in the others.
\<close>

definition slice_at :: "nat \<Rightarrow> nat \<Rightarrow> u8 list \<Rightarrow> u8 list" where
  "slice_at offset len out = take len (drop offset out)"

lemma slice_at_write:
  assumes "offset + length bytes \<le> length out"
  shows "slice_at offset (length bytes) (take offset out @ bytes @ drop (offset + length bytes) out) = bytes"
    "other + len \<le> offset \<or> offset + length bytes \<le> other \<Longrightarrow> other + len \<le> length out \<Longrightarrow>
      slice_at other len (take offset out @ bytes @ drop (offset + length bytes) out) = slice_at other len out"
  using assms by (auto simp: slice_at_def nth_append intro!: nth_equalityI)

locale cells =
  fixes base :: "'l \<Rightarrow> 'c \<Rightarrow> nat" and delta :: "'c \<Rightarrow> nat" and len :: "'c \<Rightarrow> nat" and live :: "'l \<Rightarrow> 'c \<Rightarrow> bool" and size :: "'l \<Rightarrow> nat"
  assumes apart: "live l c \<Longrightarrow> live l d \<Longrightarrow> c \<noteq> d \<Longrightarrow>
      base l c + delta c + len c \<le> base l d + delta d \<or> base l d + delta d + len d \<le> base l c + delta c"
    and within: "live l c \<Longrightarrow> base l c + delta c + len c \<le> size l"
    and addressable: "live l c \<Longrightarrow> size l \<le> USIZE_MAX"
begin

lemma write_cell:
  assumes "live l c" "length bytes = len c" "length out = size l"
  obtains out' where "write_at dbg (base l c, delta c, bytes) out = Ok out'" "length out' = size l"
    "\<And>d. live l d \<Longrightarrow> slice_at (base l d + delta d) (len d) out' = (if d = c then bytes else slice_at (base l d + delta d) (len d) out)"
proof -
  let ?off = "base l c + delta c"
  let ?out = "take ?off out @ bytes @ drop (?off + length bytes) out"
  have b: "?off + length bytes \<le> length out" "?off \<le> USIZE_MAX" using within [OF assms(1)] addressable [OF assms(1)] assms(2,3) by simp_all
  show thesis
  proof (rule that)
    show "write_at dbg (base l c, delta c, bytes) out = Ok ?out" using b by (simp add: write_at_def usize_add_def)
    show "length ?out = size l" using b assms(3) by simp
    fix d assume d: "live l d"
    show "slice_at (base l d + delta d) (len d) ?out = (if d = c then bytes else slice_at (base l d + delta d) (len d) out)"
    proof (cases "d = c")
      case True
      then show ?thesis using slice_at_write(1) [OF b(1)] assms(2) by simp
    next
      case False
      then show ?thesis using slice_at_write(2) [OF b(1)] apart [OF d assms(1) False] within [OF d] assms(2,3) by simp
    qed
  qed
qed

lemma write_cells:
  assumes "\<And>c b. (c, b) \<in> set ws \<Longrightarrow> live l c \<and> length b = len c \<and> b = f c" "length out = size l"
  shows "\<exists>out'. write_each dbg (map (\<lambda>(c, b). (base l c, delta c, b)) ws) out = Ok out' \<and> length out' = size l \<and>
    (\<forall>c. live l c \<longrightarrow> slice_at (base l c + delta c) (len c) out' = (if c \<in> fst ` set ws then f c else slice_at (base l c + delta c) (len c) out))"
  using assms
proof (induction ws arbitrary: out)
  case (Cons w ws)
  obtain c b where w: "w = (c, b)" by (cases w)
  have c: "live l c" "length b = len c" "b = f c" using Cons.prems(1) [of c b] w by auto
  obtain out1 where out1: "write_at dbg (base l c, delta c, b) out = Ok out1" "length out1 = size l"
    "\<And>d. live l d \<Longrightarrow> slice_at (base l d + delta d) (len d) out1 = (if d = c then b else slice_at (base l d + delta d) (len d) out)"
    using write_cell [OF c(1,2) Cons.prems(2)] by metis
  obtain out2 where out2: "write_each dbg (map (\<lambda>(c, b). (base l c, delta c, b)) ws) out1 = Ok out2" "length out2 = size l"
    "\<forall>d. live l d \<longrightarrow> slice_at (base l d + delta d) (len d) out2 = (if d \<in> fst ` set ws then f d else slice_at (base l d + delta d) (len d) out1)"
    using Cons.IH [OF Cons.prems(1) out1(2)] by fastforce
  show ?case using out1 out2 w c(3) by auto
qed simp

end

datatype cell = Head nat | Policy nat | Value nat | ValueValid nat | Horizon nat | HorizonValid nat | Reward nat

fun cell_base :: "target_layout \<Rightarrow> cell \<Rightarrow> nat" where
  "cell_base L (Head i) = 0"
| "cell_base L (Policy i) = tl_policy L"
| "cell_base L (Value i) = tl_value L"
| "cell_base L (ValueValid i) = tl_value_valid L"
| "cell_base L (Horizon i) = tl_horizon_value L"
| "cell_base L (HorizonValid i) = tl_horizon_value_valid L"
| "cell_base L (Reward i) = tl_reward L"

fun cell_delta :: "cell \<Rightarrow> nat" where
  "cell_delta (Head i) = i * 4"
| "cell_delta (Policy i) = i * 4"
| "cell_delta (Value i) = i * 4"
| "cell_delta (ValueValid i) = i"
| "cell_delta (Horizon i) = i * 4"
| "cell_delta (HorizonValid i) = i"
| "cell_delta (Reward i) = i * 4"

fun cell_len :: "cell \<Rightarrow> nat" where
  "cell_len (ValueValid i) = 1"
| "cell_len (HorizonValid i) = 1"
| "cell_len _ = 4"

definition layout_ok :: "target_layout \<Rightarrow> bool" where
  "layout_ok L \<longleftrightarrow> TARGET_HEADER_LEN \<le> tl_policy L \<and> tl_policy L + tl_b L * tl_a L * 4 \<le> tl_value L \<and> tl_value L + tl_b L * 4 \<le> tl_value_valid L \<and>
     tl_value_valid L + tl_b L \<le> tl_horizon_value L \<and> tl_horizon_value L + tl_b L * 8 \<le> tl_horizon_value_valid L \<and>
     tl_horizon_value_valid L + tl_b L \<le> tl_reward L \<and> tl_reward L + tl_b L * 4 \<le> tl_total_len L \<and> tl_total_len L \<le> ISIZE_MAX"

fun cell_range :: "target_layout \<Rightarrow> cell \<Rightarrow> bool" where
  "cell_range L (Head i) = (i < 5)"
| "cell_range L (Policy i) = (i < tl_b L * tl_a L)"
| "cell_range L (Horizon i) = (i < tl_b L * 2)"
| "cell_range L (Value i) = (i < tl_b L)"
| "cell_range L (ValueValid i) = (i < tl_b L)"
| "cell_range L (HorizonValid i) = (i < tl_b L)"
| "cell_range L (Reward i) = (i < tl_b L)"

definition cell_live :: "target_layout \<Rightarrow> cell \<Rightarrow> bool" where
  "cell_live L c \<longleftrightarrow> layout_ok L \<and> cell_range L c"

interpretation target_cells: cells cell_base cell_delta cell_len cell_live tl_total_len
proof
  fix L c assume "cell_live L c"
  then have l: "layout_ok L" "cell_range L c" by (simp_all add: cell_live_def)
  show "cell_base L c + cell_delta c + cell_len c \<le> tl_total_len L" using l by (cases c) (auto simp: layout_ok_def TARGET_HEADER_LEN_def)
  show "tl_total_len L \<le> USIZE_MAX" using l(1) by (simp add: layout_ok_def ISIZE_MAX_def USIZE_MAX_def)
  fix d assume "cell_live L d" "c \<noteq> d"
  then have d: "cell_range L d" "c \<noteq> d" by (simp_all add: cell_live_def)
  show "cell_base L c + cell_delta c + cell_len c \<le> cell_base L d + cell_delta d \<or> cell_base L d + cell_delta d + cell_len d \<le> cell_base L c + cell_delta c"
    using l d by (cases c; cases d) (auto simp: layout_ok_def TARGET_HEADER_LEN_def)
qed

section \<open>Targets read back\<close>

text \<open>The tables a batch of targets stands for: missing entries and rows are zero.\<close>

definition policy_entry :: "row_targets list \<Rightarrow> nat \<Rightarrow> nat \<Rightarrow> f32" where
  "policy_entry targets max_actions i =
     (case get targets (i div max_actions) of None \<Rightarrow> 0
      | Some t \<Rightarrow> (case get (rt_policy t) (i mod max_actions) of None \<Rightarrow> 0 | Some v \<Rightarrow> v))"

definition value_entry :: "row_targets list \<Rightarrow> nat \<Rightarrow> f32" where
  "value_entry targets r = (case get targets r of None \<Rightarrow> 0 | Some t \<Rightarrow> (case rt_value t of None \<Rightarrow> 0 | Some v \<Rightarrow> v))"

definition value_flag :: "row_targets list \<Rightarrow> nat \<Rightarrow> u8" where
  "value_flag targets r = (case get targets r of None \<Rightarrow> 0 | Some t \<Rightarrow> if rt_value t = None then 0 else 1)"

definition horizon_entry :: "row_targets list \<Rightarrow> nat \<Rightarrow> f32" where
  "horizon_entry targets i =
     (case get targets (i div 2) of None \<Rightarrow> 0
      | Some t \<Rightarrow> (case rt_horizon_value t of None \<Rightarrow> 0 | Some (x, y) \<Rightarrow> if even i then x else y))"

definition horizon_flag :: "row_targets list \<Rightarrow> nat \<Rightarrow> u8" where
  "horizon_flag targets r = (case get targets r of None \<Rightarrow> 0 | Some t \<Rightarrow> if rt_horizon_value t = None then 0 else 1)"

definition reward_entry :: "row_targets list \<Rightarrow> nat \<Rightarrow> f32" where
  "reward_entry targets r = (case get targets r of None \<Rightarrow> 0 | Some t \<Rightarrow> rt_reward t)"

definition targets_view :: "row_targets list \<Rightarrow> nat \<Rightarrow> nat \<Rightarrow> training_targets_view" where
  "targets_view targets capacity max_actions =
     \<lparr> tv_capacity = of_nat capacity, tv_row_count = of_nat (length targets), tv_max_actions = of_nat max_actions,
       tv_policy = map (policy_entry targets max_actions) [0..<capacity * max_actions], tv_value = map (value_entry targets) [0..<capacity],
       tv_value_valid = map (value_flag targets) [0..<capacity], tv_horizon_value = map (horizon_entry targets) [0..<capacity * 2],
       tv_horizon_value_valid = map (horizon_flag targets) [0..<capacity], tv_reward = map (reward_entry targets) [0..<capacity] \<rparr>"

definition header_words :: "nat \<Rightarrow> nat \<Rightarrow> nat \<Rightarrow> u8 list list" where
  "header_words capacity row_count max_actions =
     [TARGET_MAGIC, u32_to_le ENCODING_VERSION, u32_to_le (of_nat capacity), u32_to_le (of_nat row_count), u32_to_le (of_nat max_actions)]"

fun cell_bytes :: "row_targets list \<Rightarrow> nat \<Rightarrow> nat \<Rightarrow> cell \<Rightarrow> u8 list" where
  "cell_bytes ts B A (Head i) = header_words B (length ts) A ! i"
| "cell_bytes ts B A (Policy i) = u32_to_le (policy_entry ts A i)"
| "cell_bytes ts B A (Value r) = u32_to_le (value_entry ts r)"
| "cell_bytes ts B A (ValueValid r) = [value_flag ts r]"
| "cell_bytes ts B A (Horizon i) = u32_to_le (horizon_entry ts i)"
| "cell_bytes ts B A (HorizonValid r) = [horizon_flag ts r]"
| "cell_bytes ts B A (Reward r) = u32_to_le (reward_entry ts r)"

definition header_cells :: "nat \<Rightarrow> nat \<Rightarrow> nat \<Rightarrow> (cell \<times> u8 list) list" where
  "header_cells capacity row_count max_actions = map (\<lambda>i. (Head i, header_words capacity row_count max_actions ! i)) [0..<5]"

definition row_cells :: "nat \<Rightarrow> nat \<times> row_targets \<Rightarrow> (cell \<times> u8 list) list" where
  "row_cells A entry =
     (case entry of (r, t) \<Rightarrow>
      map (\<lambda>(a, v). (Policy (r * A + a), u32_to_le v)) (zip [0..<length (rt_policy t)] (rt_policy t)) @
      (case rt_value t of None \<Rightarrow> [] | Some v \<Rightarrow> [(Value r, u32_to_le v), (ValueValid r, [1])]) @
      (case rt_horizon_value t of None \<Rightarrow> []
       | Some (x, y) \<Rightarrow> [(Horizon (r * 2 + 0), u32_to_le x), (Horizon (r * 2 + 1), u32_to_le y), (HorizonValid r, [1])]) @
      [(Reward r, u32_to_le (rt_reward t))])"

definition all_cells :: "row_targets list \<Rightarrow> nat \<Rightarrow> nat \<Rightarrow> (cell \<times> u8 list) list" where
  "all_cells ts B A = header_cells B (length ts) A @ concat (map (row_cells A) (zip [0..<length ts] ts))"

lemma header_writes_cells: "header_writes B n A = map (\<lambda>(c, b). (cell_base L c, cell_delta c, b)) (header_cells B n A)"
  by (simp add: header_writes_def header_cells_def header_words_def upt_rec numeral_eq_Suc)

lemma row_writes_cells: "row_writes L A e = map (\<lambda>(c, b). (cell_base L c, cell_delta c, b)) (row_cells A e)"
  by (cases e) (auto simp: row_writes_def row_cells_def split: option.split prod.split)

lemma set_enumerated: "set (zip [0..<length xs] xs) = (\<lambda>i. (i, xs ! i)) ` {..<length xs}"
  by (force simp: in_set_zip image_iff)

lemma all_writes_cells:
  "header_writes B (length ts) A @ concat (map (row_writes L A) (zip [0..<length ts] ts)) = map (\<lambda>(c, b). (cell_base L c, cell_delta c, b)) (all_cells ts B A)"
proof -
  have "row_writes L A = (\<lambda>e. map (\<lambda>(c, b). (cell_base L c, cell_delta c, b)) (row_cells A e))" by (rule ext) (rule row_writes_cells)
  then show ?thesis by (simp add: all_cells_def header_writes_cells [of _ _ _ L] map_concat comp_def)
qed

lemma all_cells_iff:
  "(c, b) \<in> set (all_cells ts B A) \<longleftrightarrow> (\<exists>i < 5. c = Head i \<and> b = header_words B (length ts) A ! i) \<or> (\<exists>r < length ts. (c, b) \<in> set (row_cells A (r, ts ! r)))"
  by (auto simp: all_cells_def header_cells_def set_enumerated)

lemma row_cells_iff:
  "(c, b) \<in> set (row_cells A (r, t)) \<longleftrightarrow>
     (\<exists>a < length (rt_policy t). c = Policy (r * A + a) \<and> b = u32_to_le (rt_policy t ! a)) \<or>
     (\<exists>v. rt_value t = Some v \<and> (c = Value r \<and> b = u32_to_le v \<or> c = ValueValid r \<and> b = [1])) \<or>
     (\<exists>x y. rt_horizon_value t = Some (x, y) \<and> (c = Horizon (r * 2) \<and> b = u32_to_le x \<or> c = Horizon (r * 2 + 1) \<and> b = u32_to_le y \<or> c = HorizonValid r \<and> b = [1])) \<or>
     c = Reward r \<and> b = u32_to_le (rt_reward t)"
  by (cases "rt_value t"; cases "rt_horizon_value t") (auto simp: row_cells_def set_enumerated)

lemmas entry_defs = policy_entry_def value_entry_def value_flag_def horizon_entry_def horizon_flag_def reward_entry_def get_def

lemma index_less: "(r :: nat) < n \<Longrightarrow> a < A \<Longrightarrow> n \<le> B \<Longrightarrow> r * A + a < B * A"
proof -
  assume "r < n" "a < A" "n \<le> B"
  then have "r * A + a < Suc r * A" "Suc r * A \<le> B * A" using mult_le_mono1 [of "Suc r" B A] by simp_all
  then show ?thesis by linarith
qed

lemma header_words_length: "i < 5 \<Longrightarrow> length (header_words B n A ! i) = 4"
  by (auto simp: header_words_def TARGET_MAGIC_def less_Suc_eq numeral_eq_Suc)

lemma all_cells_ok:
  assumes "(c, b) \<in> set (all_cells ts B A)" "layout_ok L" "tl_b L = B" "tl_a L = A" "length ts \<le> B"
    and policy: "\<And>t. t \<in> set ts \<Longrightarrow> length (rt_policy t) \<le> A"
  shows "cell_live L c \<and> length b = cell_len c \<and> b = cell_bytes ts B A c"
  using assms(1) unfolding all_cells_iff
proof (elim disjE exE conjE)
  fix r assume r: "r < length ts" "(c, b) \<in> set (row_cells A (r, ts ! r))"
  then have A: "length (rt_policy (ts ! r)) \<le> A" using policy by simp
  have p: "r * A + a < B * A \<and> (r * A + a) div A = r \<and> (r * A + a) mod A = a" if "a < length (rt_policy (ts ! r))" for a
    using index_less [OF r(1) _ assms(5), of a A] that A by simp
  show ?thesis using r(2) r(1) assms(2-5) p unfolding row_cells_iff by (auto simp: cell_live_def entry_defs)
qed (use assms in \<open>auto simp: cell_live_def header_words_length\<close>)

lemma all_cells_rest:
  assumes "cell_live L c" "c \<notin> fst ` set (all_cells ts B A)" "tl_b L = B" "tl_a L = A" "0 < A"
  shows "cell_bytes ts B A c = replicate (cell_len c) 0"
proof -
  have zero: "u32_to_le 0 = replicate 4 0" by (simp add: u32_to_le_def numeral_eq_Suc)
  have none: "(c, b) \<notin> set (all_cells ts B A)" for b using assms(2) by (force simp: image_iff)
  have row: "(c, b) \<notin> set (row_cells A (r, ts ! r))" if "r < length ts" for r b
    using none [of b] that by (auto simp: all_cells_iff)
  have v: "rt_value (ts ! r) = None" if "r < length ts" "c = Value r \<or> c = ValueValid r" for r
    using row [OF that(1)] that(2) unfolding row_cells_iff by (cases "rt_value (ts ! r)") blast+
  have h: "rt_horizon_value (ts ! r) = None" if "r < length ts" "c = HorizonValid r" for r
    using row [OF that(1)] that(2) unfolding row_cells_iff by (cases "rt_horizon_value (ts ! r)") auto
  have w: "\<not> r < length ts" if "c = Reward r" for r
    using row [of r] that unfolding row_cells_iff by blast
  show ?thesis
  proof (cases c)
    case (Head i)
    then show ?thesis using none [of "header_words B (length ts) A ! i"] assms(1) by (simp add: all_cells_iff cell_live_def)
  next
    case (Policy i)
    have "\<not> i mod A < length (rt_policy (ts ! (i div A)))" if "i div A < length ts"
      using row [OF that, of "u32_to_le (rt_policy (ts ! (i div A)) ! (i mod A))"] Policy unfolding row_cells_iff by (metis div_mult_mod_eq)
    then show ?thesis using Policy zero by (auto simp: entry_defs)
  next
    case (Horizon i)
    have "rt_horizon_value (ts ! (i div 2)) = None" if "i div 2 < length ts"
    proof (rule ccontr)
      assume "rt_horizon_value (ts ! (i div 2)) \<noteq> None"
      then obtain x y where xy: "rt_horizon_value (ts ! (i div 2)) = Some (x, y)" by auto
      have "i = i div 2 * 2 \<or> i = i div 2 * 2 + 1" by presburger
      then show False using row [OF that] xy Horizon unfolding row_cells_iff by blast
    qed
    then show ?thesis using Horizon zero by (auto simp: entry_defs)
  qed (use v h w zero in \<open>auto simp: entry_defs\<close>)
qed

definition layout_fits :: "nat \<Rightarrow> nat \<Rightarrow> bool" where
  "layout_fits B A \<longleftrightarrow> B * A * 4 + B * 18 + 64 \<le> ISIZE_MAX"

lemma align4_ok:
  assumes "v + 3 \<le> USIZE_MAX"
  obtains w where "align4 dbg v = (Ok w :: (_, feature_error) outcome)" "v \<le> w" "w \<le> v + 3"
proof -
  have "(v + 3) mod 4 \<le> 3" using mod_less_divisor [of 4 "v + 3"] by linarith
  then show thesis using assms by (intro that [of "v + 3 - (v + 3) mod 4"]) (simp_all add: align4_def usize_add_def)
qed

lemma section_at_ok:
  assumes "v + 3 + len \<le> USIZE_MAX"
  obtains w where "section_at dbg v len = (Ok (w, w + len) :: (_, feature_error) outcome)" "v \<le> w" "w \<le> v + 3"
proof -
  obtain w where w: "align4 dbg v = (Ok w :: (_, feature_error) outcome)" "v \<le> w" "w \<le> v + 3"
    using align4_ok [of v dbg] assms by (metis add_leD1)
  then show thesis using assms by (intro that [of w]) (simp_all add: section_at_def usize_add_def)
qed

lemma layout_new_ok:
  assumes "layout_fits B A"
  obtains L where "layout_new dbg B A = Ok L" "layout_ok L" "tl_b L = B" "tl_a L = A"
proof -
  have U: "USIZE_MAX = 18446744073709551615" by (simp add: USIZE_MAX_def)
  define N where "N = B * A"
  have fit: "N * 4 + B * 18 + 64 \<le> 9223372036854775807" using assms by (simp add: layout_fits_def ISIZE_MAX_def N_def)
  have muls: "length_mul B A = Ok N" "length_mul N 4 = Ok (N * 4)" "length_mul B 4 = Ok (B * 4)"
    "length_mul B 2 = Ok (B * 2)" "length_mul (B * 2) 4 = Ok (B * 8)"
    using fit by (simp_all add: length_mul_def U N_def)
  obtain p where p: "section_at dbg TARGET_HEADER_LEN (N * 4) = (Ok (p, p + N * 4) :: (_, feature_error) outcome)" "20 \<le> p" "p \<le> 23"
    by (rule section_at_ok [of TARGET_HEADER_LEN "N * 4" dbg]) (use fit in \<open>simp_all add: TARGET_HEADER_LEN_def U\<close>)
  obtain v where v: "section_at dbg (p + N * 4) (B * 4) = (Ok (v, v + B * 4) :: (_, feature_error) outcome)" "p + N * 4 \<le> v" "v \<le> p + N * 4 + 3"
    by (rule section_at_ok [of "p + N * 4" "B * 4" dbg]) (use fit p in \<open>simp_all add: U\<close>)
  obtain vv where vv: "section_at dbg (v + B * 4) B = (Ok (vv, vv + B) :: (_, feature_error) outcome)" "v + B * 4 \<le> vv" "vv \<le> v + B * 4 + 3"
    by (rule section_at_ok [of "v + B * 4" B dbg]) (use fit p v in \<open>simp_all add: U\<close>)
  obtain h where h: "section_at dbg (vv + B) (B * 8) = (Ok (h, h + B * 8) :: (_, feature_error) outcome)" "vv + B \<le> h" "h \<le> vv + B + 3"
    by (rule section_at_ok [of "vv + B" "B * 8" dbg]) (use fit p v vv in \<open>simp_all add: U\<close>)
  obtain hv where hv: "section_at dbg (h + B * 8) B = (Ok (hv, hv + B) :: (_, feature_error) outcome)" "h + B * 8 \<le> hv" "hv \<le> h + B * 8 + 3"
    by (rule section_at_ok [of "h + B * 8" B dbg]) (use fit p v vv h in \<open>simp_all add: U\<close>)
  obtain r where r: "section_at dbg (hv + B) (B * 4) = (Ok (r, r + B * 4) :: (_, feature_error) outcome)" "hv + B \<le> r" "r \<le> hv + B + 3"
    by (rule section_at_ok [of "hv + B" "B * 4" dbg]) (use fit p v vv h hv in \<open>simp_all add: U\<close>)
  obtain t where t: "align4 dbg (r + B * 4) = (Ok t :: (_, feature_error) outcome)" "r + B * 4 \<le> t" "t \<le> r + B * 4 + 3"
    by (rule align4_ok [of "r + B * 4" dbg]) (use fit p v vv h hv r in \<open>simp_all add: U\<close>)
  let ?L = "\<lparr> tl_b = B, tl_a = A, tl_policy = p, tl_value = v, tl_value_valid = vv, tl_horizon_value = h, tl_horizon_value_valid = hv,
    tl_reward = r, tl_total_len = t \<rparr>"
  have "layout_new dbg B A = Ok ?L" using muls p(1) v(1) vv(1) h(1) hv(1) r(1) t(1) by (simp add: layout_new_def)
  moreover have "layout_ok ?L" using p v vv h hv r t fit by (simp add: layout_ok_def N_def [symmetric] TARGET_HEADER_LEN_def ISIZE_MAX_def)
  ultimately show thesis by (rule that) simp_all
qed

lemma read_f32_vec_ok:
  assumes "\<And>i. i < n \<Longrightarrow> slice_at (off + i * 4) 4 bytes = u32_to_le (g i)" "off + n * 4 \<le> length bytes" "length bytes \<le> ISIZE_MAX"
  shows "read_f32_vec dbg bytes off n = Ok (map g [0..<n])"
proof -
  have big: "ISIZE_MAX + 4 \<le> USIZE_MAX" by (simp add: ISIZE_MAX_def USIZE_MAX_def)
  have "obind (usize_add dbg off (i * 4)) (read_f32_at dbg bytes) = Ok (g i)" if "i < n" for i
  proof -
    have b: "off + i * 4 + 4 \<le> length bytes" using assms(2) that by linarith
    then have "off + i * 4 \<le> USIZE_MAX" "off + i * 4 + 4 \<le> USIZE_MAX" using assms(3) big by linarith+
    then show ?thesis using b assms(1) [OF that] by (simp add: usize_add_def read_f32_at_def slice_at_def)
  qed
  then have "omap (\<lambda>index. obind (usize_add dbg off (index * 4)) (read_f32_at dbg bytes)) [0..<n] = Ok (map g [0..<n])"
    by (intro omap_total) simp
  then show ?thesis using assms(2,3) by (simp add: read_f32_vec_def)
qed

lemma byte_section_ok:
  assumes "\<And>i. i < n \<Longrightarrow> slice_at (off + i) 1 bytes = [g i]" "off + n \<le> length bytes" "length bytes \<le> ISIZE_MAX"
  shows "byte_section dbg bytes off n = Ok (map g [0..<n])"
proof -
  have "ISIZE_MAX \<le> USIZE_MAX" by (simp add: ISIZE_MAX_def USIZE_MAX_def)
  then have u: "off + n \<le> USIZE_MAX" using assms(2,3) by linarith
  have "take n (drop off bytes) = map g [0..<n]"
  proof (rule nth_equalityI)
    fix i assume "i < length (take n (drop off bytes))"
    then have i: "i < n" by simp
    then have "slice_at (off + i) 1 bytes = [bytes ! (off + i)]" using assms(2) by (simp add: slice_at_def take_Suc_conv_app_nth)
    then show "take n (drop off bytes) ! i = map g [0..<n] ! i" using assms(1) [of i] assms(2) i by simp
  qed (use assms(2) in simp)
  then show ?thesis using u assms(2) by (simp add: byte_section_def usize_add_def slice_range_def)
qed

lemma check_targets: "check_each (validate_target A) ts = Ok () \<Longrightarrow> t \<in> set ts \<Longrightarrow> length (rt_policy t) \<le> A"
  by (auto simp: check_each_Ok validate_target_def split: if_splits)

lemma encoded_cells:
  assumes L: "layout_new dbg B A = Ok L" "layout_ok L" "tl_b L = B" "tl_a L = A" and A: "0 < A"
    and ts: "ts \<noteq> []" "length ts \<le> B" "check_each (validate_target A) ts = Ok ()"
  obtains bytes where "encode_training_targets dbg ts B A = Ok bytes" "length bytes = tl_total_len L"
    "\<And>c. cell_live L c \<Longrightarrow> slice_at (cell_base L c + cell_delta c) (cell_len c) bytes = cell_bytes ts B A c"
proof -
  let ?out = "replicate (tl_total_len L) 0"
  have "\<exists>out'. write_each dbg (map (\<lambda>(c, b). (cell_base L c, cell_delta c, b)) (all_cells ts B A)) ?out = Ok out' \<and> length out' = tl_total_len L \<and>
    (\<forall>c. cell_live L c \<longrightarrow> slice_at (cell_base L c + cell_delta c) (cell_len c) out' =
      (if c \<in> fst ` set (all_cells ts B A) then cell_bytes ts B A c else slice_at (cell_base L c + cell_delta c) (cell_len c) ?out))"
    by (rule target_cells.write_cells) (use all_cells_ok [OF _ L(2-4) ts(2) check_targets [OF ts(3)]] in auto)
  then obtain bytes where bytes: "write_each dbg (map (\<lambda>(c, b). (cell_base L c, cell_delta c, b)) (all_cells ts B A)) ?out = Ok bytes" "length bytes = tl_total_len L"
    "\<And>c. cell_live L c \<Longrightarrow> slice_at (cell_base L c + cell_delta c) (cell_len c) bytes =
      (if c \<in> fst ` set (all_cells ts B A) then cell_bytes ts B A c else slice_at (cell_base L c + cell_delta c) (cell_len c) ?out)" by blast
  have zero: "slice_at (cell_base L c + cell_delta c) (cell_len c) ?out = replicate (cell_len c) 0" if "cell_live L c" for c
    using target_cells.within [OF that] by (auto simp: slice_at_def)
  have "tl_total_len L \<le> ISIZE_MAX" using L(2) by (simp add: layout_ok_def)
  moreover have "0 < B" using ts(1,2) by (cases ts) simp_all
  ultimately have "encode_training_targets dbg ts B A = Ok bytes"
    using bytes(1) ts A L(1) by (simp add: encode_training_targets_def resize_zero_def all_writes_cells [of B ts A L] not_less)
  then show thesis using that bytes(2,3) zero all_cells_rest [OF _ _ L(3,4) A] by metis
qed

lemma target_header_ok:
  assumes head: "\<And>i. i < 5 \<Longrightarrow> slice_at (i * 4) 4 bytes = header_words B n A ! i" and len: "TARGET_HEADER_LEN \<le> length bytes"
    and dims: "0 < B" "B < 2 ^ 32" "0 < A" "A < 2 ^ 32" "n \<le> B"
  shows "target_header_parse bytes = Ok \<lparr> th_capacity = of_nat B, th_row_count = of_nat n, th_max_actions = of_nat A \<rparr>"
proof -
  have w: "slice_at 0 4 bytes = TARGET_MAGIC" "slice_at 4 4 bytes = u32_to_le ENCODING_VERSION" "slice_at 8 4 bytes = u32_to_le (of_nat B)"
    "slice_at 12 4 bytes = u32_to_le (of_nat n)" "slice_at 16 4 bytes = u32_to_le (of_nat A)"
    using head [of 0] head [of 1] head [of 2] head [of 3] head [of 4] by (simp_all add: header_words_def numeral_eq_Suc)
  have u: "unat (of_nat B :: u32) = B" "unat (of_nat A :: u32) = A" "unat (of_nat n :: u32) = n" using dims by (simp_all only: wire_len_u32)
  have "(of_nat B :: u32) \<noteq> 0" "(of_nat A :: u32) \<noteq> 0" using u(1,2) dims by (metis less_not_refl unsigned_0)+
  moreover have "\<not> (of_nat B :: u32) < of_nat n" using u dims(5) by (simp add: word_less_nat_alt)
  ultimately show ?thesis using w len
    by (simp add: target_header_parse_def TARGET_HEADER_LEN_def slice_range_def read_u32_at_def slice_at_def)
qed

text \<open>
  C19: Training targets come back as the tables they stand for. A batch that the encoder's checks accept and that fits its
  capacity is encoded without a panic, and parsing the bytes gives the capacity, the row count, and
  the tables of policies, values, horizon values and rewards, entry for entry, with zeros for missing entries
  and rows and with the flags that tell which values are present. This needs that the six sections of the
  layout do not overlap and that no assignment disturbs another.
\<close>

theorem training_targets_roundtrip:
  assumes dims: "capacity < 2 ^ 32" "0 < max_actions" "max_actions < 2 ^ 32" and fits: "layout_fits capacity max_actions"
    and ts: "targets \<noteq> []" "length targets \<le> capacity" "check_each (validate_target max_actions) targets = Ok ()"
  shows "\<exists>bytes. encode_training_targets dbg targets capacity max_actions = Ok bytes \<and>
    training_targets_parse dbg bytes = Ok (targets_view targets capacity max_actions)"
proof -
  let ?B = capacity and ?A = max_actions
  obtain L where L: "layout_new dbg ?B ?A = Ok L" "layout_ok L" "tl_b L = ?B" "tl_a L = ?A" by (rule layout_new_ok [OF fits])
  obtain bytes where enc: "encode_training_targets dbg targets ?B ?A = Ok bytes" and len: "length bytes = tl_total_len L"
    and cell: "\<And>c. cell_live L c \<Longrightarrow> slice_at (cell_base L c + cell_delta c) (cell_len c) bytes = cell_bytes targets ?B ?A c"
    using encoded_cells [OF L dims(2) ts] by metis
  have B: "0 < ?B" using ts(1,2) by (cases targets) simp_all
  have bound: "length bytes \<le> ISIZE_MAX" "TARGET_HEADER_LEN \<le> length bytes" using L(2) len by (auto simp: layout_ok_def)
  have header: "target_header_parse bytes = Ok \<lparr> th_capacity = of_nat ?B, th_row_count = of_nat (length targets), th_max_actions = of_nat ?A \<rparr>"
    using cell [of "Head _"] L(2) by (intro target_header_ok) (use bound(2) B dims ts(2) in \<open>simp_all add: cell_live_def\<close>)
  have u: "unat (of_nat ?B :: u32) = ?B" "unat (of_nat ?A :: u32) = ?A" using dims wire_len_u32 by blast+
  have parts:
    "read_f32_vec dbg bytes (tl_policy L) (?B * ?A) = Ok (map (policy_entry targets ?A) [0..<?B * ?A])"
    "read_f32_vec dbg bytes (tl_value L) ?B = Ok (map (value_entry targets) [0..<?B])"
    "byte_section dbg bytes (tl_value_valid L) ?B = Ok (map (value_flag targets) [0..<?B])"
    "read_f32_vec dbg bytes (tl_horizon_value L) (?B * 2) = Ok (map (horizon_entry targets) [0..<?B * 2])"
    "byte_section dbg bytes (tl_horizon_value_valid L) ?B = Ok (map (horizon_flag targets) [0..<?B])"
    "read_f32_vec dbg bytes (tl_reward L) ?B = Ok (map (reward_entry targets) [0..<?B])"
    using cell [of "Policy _"] cell [of "Value _"] cell [of "ValueValid _"] cell [of "Horizon _"] cell [of "HorizonValid _"] cell [of "Reward _"] L(2-4) len
    by (intro read_f32_vec_ok byte_section_ok; (rule bound)?; simp add: cell_live_def layout_ok_def)+
  show ?thesis using enc header parts L len u by (auto simp: training_targets_parse_def targets_view_def)
qed

definition demo_targets :: "row_targets list" where
  "demo_targets = [\<lparr> rt_policy = [0x3f000000, 0x3f000000], rt_value = Some 0x3f800000, rt_horizon_value = None, rt_reward = 0x40000000 \<rparr>,
     \<lparr> rt_policy = [0x3f800000], rt_value = None, rt_horizon_value = Some (0x3f800000, 0xbf800000), rt_reward = 0 \<rparr>]"

theorem training_targets_roundtrip_witness:
  "\<exists>bytes. encode_training_targets True demo_targets 3 2 = Ok bytes \<and> training_targets_parse True bytes = Ok (targets_view demo_targets 3 2)"
proof (rule training_targets_roundtrip)
  show "check_each (validate_target 2) demo_targets = Ok ()" by code_simp
  show "layout_fits 3 2" by (simp add: layout_fits_def ISIZE_MAX_def)
qed (simp_all add: demo_targets_def)

section \<open>An overflow in the layout\<close>

definition overflow_header :: "u8 list" where
  "overflow_header = TARGET_MAGIC @ u32_to_le ENCODING_VERSION @ u32_to_le 0x7fffffff @ u32_to_le 1 @ u32_to_le 0x80000001"

lemma overflow_header_parse: "target_header_parse overflow_header = Ok \<lparr> th_capacity = 0x7fffffff, th_row_count = 1, th_max_actions = 0x80000001 \<rparr>"
proof -
  have "length TARGET_MAGIC = 4" by (simp add: TARGET_MAGIC_def)
  then show ?thesis by (simp add: target_header_parse_def overflow_header_def TARGET_HEADER_LEN_def slice_range_def read_u32_at_def)
qed

text \<open>The offsets without an overflow: every section starts at the next multiple of four.\<close>

definition up4 :: "nat \<Rightarrow> nat" where
  "up4 v = 4 * ((v + 3) div 4)"

definition target_extent :: "nat \<Rightarrow> nat \<Rightarrow> nat" where
  "target_extent B A = TARGET_HEADER_LEN + 4 * (B * A) + 4 * B + up4 B + 8 * B + up4 B + 4 * B"

lemma up4_add: "up4 (4 * k + v) = 4 * k + up4 v"
proof -
  have "(4 * k + v + 3) div 4 = k + (v + 3) div 4" using div_mult_self4 [of 4 k "v + 3"] by (simp add: add.assoc)
  then show ?thesis by (simp add: up4_def)
qed

lemma up4_eq:
  obtains r where "v + 3 = up4 v + r" "r \<le> 3"
  using that [of "(v + 3) mod 4"] mod_less_divisor [of 4 "v + 3"] by (simp add: up4_def)

lemma USIZE_4: "USIZE_MAX = 4 * 4611686018427387903 + 3"
  by (simp add: USIZE_MAX_def)

lemma usize_release: "usize_add False a b = Ok ((a + b) mod 18446744073709551616)"
  by (simp add: usize_add_def USIZE_MAX_def)

lemma align4_release: "align4 False v = Ok (up4 v mod 18446744073709551616)"
proof -
  let ?N = "4611686018427387904 :: nat"
  have split: "(v + 3) mod (4 * ?N) = 4 * ((v + 3) div 4 mod ?N) + (v + 3) mod 4" by (rule mod_mult2_eq)
  have "(v + 3) mod (4 * ?N) - (v + 3) mod (4 * ?N) mod 4 = 4 * ((v + 3) div 4 mod ?N)" unfolding split by simp
  also have "\<dots> = up4 v mod (4 * ?N)" by (simp only: up4_def mult_mod_right)
  finally show ?thesis by (simp add: align4_def usize_release)
qed

lemma up4_mod: "up4 (x mod 18446744073709551616) mod 18446744073709551616 = up4 x mod 18446744073709551616"
proof -
  let ?M = "18446744073709551616 :: nat"
  have "x = 4 * (4611686018427387904 * (x div ?M)) + x mod ?M" using mult_div_mod_eq [of ?M x] by simp
  then have "up4 x = 4 * (4611686018427387904 * (x div ?M)) + up4 (x mod ?M)" by (metis up4_add)
  also have "\<dots> = ?M * (x div ?M) + up4 (x mod ?M)" by simp
  finally show ?thesis by simp
qed

lemma section_at_release:
  "section_at False (x mod 18446744073709551616) len = Ok (up4 x mod 18446744073709551616, (up4 x + len) mod 18446744073709551616)"
  by (simp add: section_at_def align4_release usize_release up4_mod mod_add_left_eq)

lemma below_four: "r \<le> 3 \<Longrightarrow> 4 * q + r \<le> 4 * k + 3 \<longleftrightarrow> 4 * q \<le> 4 * k + (3 :: nat)"
  by presburger

lemma align4_debug: "align4 True v = (if up4 v \<le> USIZE_MAX then Ok (up4 v) else Panic)"
proof -
  have "v + 3 - (v + 3) mod 4 = up4 v" unfolding up4_def by (simp add: minus_mod_eq_mult_div)
  moreover obtain r where r: "v + 3 = up4 v + r" "r \<le> 3" by (rule up4_eq)
  have "v + 3 \<le> USIZE_MAX \<longleftrightarrow> up4 v \<le> USIZE_MAX" unfolding r(1) unfolding USIZE_4 up4_def by (rule below_four [OF r(2)])
  ultimately show ?thesis by (simp add: align4_def usize_add_def)
qed

lemma section_at_debug: "section_at True c len = (if up4 c + len \<le> USIZE_MAX then Ok (up4 c, up4 c + len) else Panic)"
  by (simp add: section_at_def align4_debug usize_add_def)

text \<open>The cursor after each section, and that the last one, aligned, is the extent.\<close>

lemma layout_extent:
  "up4 (up4 (up4 (up4 (up4 (up4 (up4 TARGET_HEADER_LEN + B * A * 4) + B * 4) + B) + B * 2 * 4) + B) + B * 4) = target_extent B A"
proof -
  have h: "up4 TARGET_HEADER_LEN = 4 * 5" by (simp add: TARGET_HEADER_LEN_def up4_def)
  have four: "up4 (4 * k) = 4 * k" for k using up4_add [of k 0] by (simp add: up4_def)
  obtain u where u: "up4 B = 4 * u" unfolding up4_def by blast
  have head: "up4 TARGET_HEADER_LEN + B * A * 4 = 4 * (5 + B * A)" unfolding h by simp
  have step: "4 * k + B * 4 = 4 * (k + B)" "4 * k + B * 2 * 4 = 4 * (k + 2 * B)" "up4 (4 * k + B) = 4 * (k + u)" for k
    using up4_add [of k B] u by simp_all
  have "up4 (up4 (up4 (up4 (up4 (up4 (up4 TARGET_HEADER_LEN + B * A * 4) + B * 4) + B) + B * 2 * 4) + B) + B * 4) =
      4 * (5 + B * A + B + u + 2 * B + u + B)" unfolding head by (simp only: four step)
  also have "\<dots> = target_extent B A" unfolding target_extent_def TARGET_HEADER_LEN_def u by simp
  finally show ?thesis .
qed

text \<open>
  C39: The lengths of the sections are multiplied with overflow checks, but the offsets are added up without. If the policy
  section alone fits into a \<open>usize\<close> but the whole layout does not, which the header checks allow for every
  capacity and number of actions, then parsing panics in a debug build, whatever the bytes behind the
  header are; in a release build the total length wraps around, and the bytes are rejected if their
  number differs from the wrapped length, while input of just that length panics too, in the allocation of the policy.
\<close>

theorem target_layout_overflow:
  assumes header: "target_header_parse bytes = Ok header" and B: "B = unat (th_capacity header)" and A: "A = unat (th_max_actions header)"
    and mul: "B * A * 4 \<le> USIZE_MAX" and over: "USIZE_MAX < target_extent B A"
  shows "training_targets_parse True bytes = Panic \<and>
    training_targets_parse False bytes =
      (if length bytes = target_extent B A mod 2 ^ 64 then Panic else Err (InvalidEncoding ''bad target length''))"
proof -
  have small: "B < 4294967296" using unsigned_less [of "th_capacity header", where 'a = nat] B by simp
  have muls: "obind (length_mul B A) (\<lambda>n. length_mul n 4) = Ok (B * A * 4)" "length_mul B 4 = Ok (B * 4)"
    "obind (length_mul B 2) (\<lambda>n. length_mul n 4) = Ok (B * 2 * 4)"
    using mul small by (simp_all add: length_mul_def USIZE_MAX_def)
  have "layout_new True B A = Panic"
    unfolding layout_new_def muls obind_simps section_at_debug align4_debug
    using over layout_extent [of B A] by (simp split: if_split)
  moreover obtain layout where layout: "layout_new False B A = Ok layout" "tl_total_len layout = target_extent B A mod 2 ^ 64" "tl_b layout = B" "tl_a layout = A"
  proof -
    have start: "section_at False TARGET_HEADER_LEN len =
        Ok (up4 TARGET_HEADER_LEN mod 18446744073709551616, (up4 TARGET_HEADER_LEN + len) mod 18446744073709551616)" for len
      using section_at_release [of TARGET_HEADER_LEN len] by (simp add: TARGET_HEADER_LEN_def)
    have last: "align4 False (x mod 18446744073709551616) = Ok (up4 x mod 18446744073709551616)" for x
      by (simp add: align4_release up4_mod)
    show thesis by (rule that) (unfold layout_new_def muls obind_simps start prod.case section_at_release last layout_extent, rule refl, simp_all)
  qed
  moreover have "ISIZE_MAX < B * A * 4"
  proof -
    obtain r where "B + 3 = up4 B + r" by (rule up4_eq)
    then have "target_extent B A \<le> B * A * 4 + 18 * B + 26" by (simp add: target_extent_def TARGET_HEADER_LEN_def)
    moreover have "USIZE_MAX = 18446744073709551615" by (simp add: USIZE_MAX_def)
    ultimately show ?thesis using over small unfolding ISIZE_MAX_def by linarith
  qed
  ultimately show ?thesis using header B A by (simp add: training_targets_parse_def read_f32_vec_def)
qed

theorem target_layout_overflow_witness:
  "training_targets_parse True overflow_header = Panic \<and>
    training_targets_parse False overflow_header = Err (InvalidEncoding ''bad target length'')"
proof -
  have u: "unat (0x7fffffff :: u32) = 2147483647" "unat (0x80000001 :: u32) = 2147483649" by simp_all
  have len: "length overflow_header = 20" by (simp add: overflow_header_def TARGET_MAGIC_def)
  have ext: "target_extent 2147483647 2147483649 = 18446744112364257280" by (simp add: target_extent_def up4_def TARGET_HEADER_LEN_def)
  show ?thesis using target_layout_overflow [OF overflow_header_parse refl refl] len by (simp add: u ext USIZE_MAX_def)
qed

end
