(* ===== verification/Spec2Isabelle.thy ===== *)
theory Spec2Isabelle
  imports Whittle_Generator Admission Measure_Service Feature_Targets
begin

text \<open>
  A verification development for GraphZero (\<open>src/crates\<close>), a system that learns to search over rewrites of graphs:
  an engine offers the rewrites of a graph and applies them, a search explores them with the help of a
  neural network, the results are measured on a fleet of devices, and everything ends up in a replay
  store from which the network is trained. What is modelled is the discrete core: the Whittle engine, whose graphs are
  Boolean circuits; the orchestrator's model leases and admission of episodes; the coordinator of the
  measurement fleet; and the encodings of feature rows and training targets.

  \<^bold>\<open>Conventions.\<close> Machine integers are words, or naturals where the code cannot overflow or the overflow is written
  out. A fallible function returns an \<open>outcome\<close>: \<open>Ok\<close>, \<open>Err\<close> with the error value of the code, or \<open>Panic\<close> for
  a panic (an index out of range, an \<open>expect\<close>, an arithmetic overflow with debug assertions). Stateful code
  passes its state as a record and returns it, also on errors where the code leaves changes behind. A
  structure behind a mutex is modelled with one atomic step per method, and an interleaving of
  threads is a sequence of such steps. \<open>dbg\<close> is the build: with or without debug assertions.

  \<^bold>\<open>The theories and the code.\<close>

  \<^item> \<open>Prelude\<close>: words, outcomes, indexing that panics, little-endian bytes, and the lemmas on them that all
    components share.
  \<^item> \<open>Whittle_Graph\<close>, \<open>Whittle_Semantics\<close>, \<open>Whittle_Compact\<close>: \<open>gz-engine-whittle/src/graph.rs\<close>. Graph bodies in
    structure-of-arrays form, \<open>validate\<close>, the WAV1 format, and \<open>compact_graph\<close>. The meaning of a circuit is an
    inductive relation \<open>denotes\<close>; the code never evaluates circuits, so this is the specification. Shown: compaction
    keeps the meaning and exactly the reachable nodes and the inputs, when it fails, and the round trip of WAV1.
  \<^item> \<open>Whittle_Rules\<close>, \<open>Whittle_Match\<close>, \<open>Whittle_Enum\<close>: the enumeration of \<open>rules.rs\<close>. \<open>rule_match\<close> states the 44
    rules declaratively; the loops with their tables and the deduplicating builder return exactly the matches
    that fit the capacity, each once. The locale \<open>table_index\<close> is what the loops need of the tables, interpreted by
    \<open>build_tables\<close>.
  \<^item> \<open>Whittle_Apply\<close>, \<open>Whittle_Rewrite\<close>: the application of \<open>rules.rs\<close>. A candidate that was enumerated applies, and the
    result is an acyclic valid circuit of the same function; the one exception, complement-inverse candidates whose
    witness depends on the root, is characterised exactly.
  \<^item> \<open>Engine_Core\<close>: identifiers, errors, options and references of \<open>gz-engine\<close>.
  \<^item> \<open>Slot_Pool\<close>, \<open>Whittle_Arena\<close>, \<open>Whittle_Candidates\<close>, \<open>Whittle_Engine\<close>: \<open>engine.rs\<close>. The two reference-counted
    stores, and the engine with its caches of enumerations and transitions. The locale \<open>ref_store\<close> is the contract of a
    reference-counted store, interpreted by both arenas: over any sequence of operations the counts are the
    references handed out less the ones given back. The engine refines the rules whatever the
    caches hold, and its invariant holds in every reachable state.
  \<^item> \<open>Whittle_Generator\<close>: \<open>WhittleGraphGenerator\<close> of \<open>engine.rs\<close>. The seed circuit computes the truth table that was drawn;
    when exactly the rejection sampling returns and when the construction panics; and a walk of rewrites hands over one reference.
  \<^item> \<open>Model_Leases\<close>, \<open>Admission\<close>: \<open>gz-orchestrator/src/leases.rs\<close> and \<open>admission.rs\<close>. No model generation is released
    while an episode holds it, as long as no generation queued for release is published again; the queue of lanes, its counters and the pacing of new episodes, under any
    interleaving of the lanes.
  \<^item> \<open>Measure_Protocol\<close>, \<open>Measure_Receipts\<close>, \<open>Measure_Coordinator\<close>: \<open>gz-measure-service/src\<close> (\<open>error.rs\<close>, \<open>ids.rs\<close>,
    \<open>protocol.rs\<close>, \<open>receipt.rs\<close>, \<open>coordinator.rs\<close>): the handlers of the coordinator, and the ledger of committed reports with its log.
    \<open>Measure_Fleet\<close> abstracts the state of the coordinator to leases, queue and what sessions hold, and shows that
    every handler that returns keeps them in agreement; \<open>Measure_Artifacts\<close> does the same for the stored artifacts; \<open>Measure_Service\<close>
    has the reachable states and the properties over them: a report is committed once and reaches its
    submitter, scheduling leaves no job that an agent could take, which leases a reconnecting agent resumes
    and which are cancelled, artifacts are transferred unchanged. The log survives a crash at any byte. A deadline is an \<open>Instant\<close> plus a
    configured duration, and the addition panics if it does not fit (\<open>instant_add\<close>); a handler that panics
    leaves the state it had reached, since the lock is recovered from poisoning. The runs of \<open>coord_run\<close> include such
    handlers, those of \<open>panic_free_run\<close> do not.
  \<^item> \<open>Feature_Rows\<close>, \<open>Feature_Codec\<close>, \<open>Feature_Targets\<close>: \<open>gz-features/src\<close> (\<open>wire.rs\<close>, \<open>schema.rs\<close>, \<open>row.rs\<close>, \<open>codec.rs\<close>). Floats
    are bit patterns. Rounding to \<open>bfloat16\<close>; the round trips of rows, schema configurations and training
    targets; decoding of arbitrary bytes does not panic and yields rows whose references are in range.
    The locale \<open>wire_field\<close> is the contract between a writer and a reader of a field, interpreted by each field; \<open>cells\<close> is
    a buffer of disjoint cells, interpreted by the layout of training targets.
  \<^item> This theory: what a search may rely on, through the interface of the engine.

  \<^bold>\<open>Parameters.\<close> Code outside the repository is an argument of the definitions: \<open>blake3\<close> (where it matters, with
    the hypothesis that it has no collisions, or that its results have 32 bytes); the random number generator of the \<open>rand\<close> crates (\<open>rng_ops\<close>,
    with the documented ranges); the encoder
    and decoder of protobuf messages (\<open>report_codec\<close>, inverse to each other); the environment of the coordinator
    (\<open>service_env\<close>: order of hash maps, channels and the capacities they accept). \<open>f64_ops\<close> is the arithmetic of \<open>f64\<close> in the admission
    schedule, of which nothing is assumed unless a theorem says so. Each theorem with such a hypothesis
    has an instance on concrete functions.

  \<^bold>\<open>Bounds and loops.\<close> No definition runs on fuel. Loops are structural recursions or functions with a
    termination proof (\<open>schedule\<close>, \<open>read_loop\<close>, \<open>artifact_chunks\<close>); the rejection loop of the generator may not end for an
    arbitrary random number generator, so its result is optional, and it is shown to return exactly if the draws take
    enough distinct values (\<open>seed_returns\<close>). Where a count
    could overflow, the theorems say how far they reach: arenas with fewer than \<open>SLOTS\<close> entries and counts below
    \<open>refs_max\<close>, fewer than \<open>2^32\<close> node attributes in a row, buffers below \<open>isize::MAX\<close> bytes.

  \<^bold>\<open>What modelling showed.\<close> Complement-inverse rewrites can create combinational cycles (\<open>complement_inverse_cycle\<close>);
    some matches of factored pairs are skipped (\<open>enumerate_graph_exact\<close>); a generation that is published again can be
    released while it is current (\<open>republished_generation_panics\<close>); a generator configuration with a minimum of no exceptions
    can panic (\<open>zero_exceptions_panic\<close>); an append to the receipt log that failed part way is not cut off, and loses later commits
    (\<open>torn_append_loses_commits\<close>) or makes the log unreadable (\<open>torn_append_blocks_reopen\<close>); a timeout that the configuration accepts
    makes the scheduler panic and lose a job (\<open>schedule_complete\<close>, \<open>accept_timeout_loses_job\<close>); a valid row may
    be written with an infinity that the reader rejects (\<open>feature_row_roundtrip\<close>); the offsets of training
    targets overflow (\<open>target_layout_overflow\<close>).

  \<^bold>\<open>Not modelled.\<close> The searches of \<open>gz-search\<close> decide by comparing sums of \<open>f32\<close> and \<open>f64\<close> scores; without a model of
    floating-point arithmetic nothing faithful can be said about which action they choose. The collation of
    rows into the tensors of a batch (\<open>collator.rs\<close>), an offset layout like that of the training targets with more sections
    and conversions from \<open>u32\<close> to \<open>f32\<close>, and the extraction of rows from a circuit (\<open>features.rs\<close>) are not modelled yet. The compiler engine is an adapter
    of a crate outside the repository. The replay store is a RocksDB database. The lanes and the
    worker pool of the orchestrator, the evaluation service, the measurement agents, the measurer and the
    command line are threads, processes, channels and sockets around the modelled parts; the
    coordinator is modelled against arbitrary behaviour of the agents. Also left out are diagnostics
    (occupancy and statistics), the text form of errors, derived serialisation, allocation failures, and poisoned mutexes outside the coordinator.
\<close>

section \<open>Search steps preserve the circuit\<close>

text \<open>
  C6: the contract a search relies on, through the engine's interface alone, for a hash without collisions and
  an engine whose arenas have room for the step. Take a live graph whose
  circuit is acyclic, enumerate its candidates with any limit and in any cache state, and apply one
  of the returned handles. Unless it is a complement-inverse candidate whose witness depends on the
  root, the application succeeds and its result leads to an acyclic circuit that computes the same
  Boolean function of the inputs.
\<close>

theorem engine_search_step_sound:
  assumes inj: "inj blake3" and inv: "engine_inv dbg blake3 e" and fits: "engine_fits dbg e"
    and g: "graph_get dbg (en_graphs e) gid = (Ok (Some g) :: (_, unit) outcome)" and wf: "well_founded (wg_body g)"
    and enum: "enumerate_candidate_ids dbg gid limit e = (e1, Ok ids)" and c: "c \<in> set ids"
    and w: "cand_get dbg (en_candidates e1) c = (Ok (Some w) :: (_, unit) outcome)"
    and guard: "rc_rule (wc_raw w) \<in> {as_u16 AndComplementInverse, as_u16 OrComplementInverse} \<Longrightarrow>
      (unat (rc_matched (wc_raw w) ! 2), unat (rc_root (wc_raw w))) \<notin> (child (wg_body g))\<^sup>+"
  shows "\<exists>e2 r f. engine_apply dbg blake3 gid c e1 = (e2, Ok r) \<and>
    graph_get dbg (en_graphs e2) (ar_after r) = (Ok (Some f) :: (_, unit) outcome) \<and> well_founded (wg_body f) \<and>
    (\<forall>env b. denotes (wg_body f) env b \<longleftrightarrow> denotes (wg_body g) env b)"
proof -
  let ?inc = "ec_include_reverse (en_config e)"
  note live = live_graph [OF engine_invD(1) [OF inv] g]
  obtain all where all: "enumerate_graph (wg_body g) ?inc = Ok all" by (rule enumerate_spec [OF live(1)])
  have room: "length (ca_handles (en_candidates e)) + length all < SLOTS" "\<forall>c. cand_refs dbg (en_candidates e) c < refs_max"
    "length (ga_items (en_graphs e)) < SLOTS" "\<forall>h. graph_refs (en_graphs e) h < refs_max"
    using fits g all by (auto simp: engine_fits_def)
  have e1: "engine_inv dbg blake3 e1" "ids_name dbg (en_candidates e1) (wg_hash g) ids (limited limit all)" "en_graphs e1 = en_graphs e"
    and refs: "\<forall>c. cand_refs dbg (en_candidates e1) c = cand_refs dbg (en_candidates e) c + count_list ids c"
    using engine_enumerate_spec [OF inj inv g all room(1,2), of limit] enum by auto
  from c obtain j where j: "j < length ids" "c = ids ! j" by (auto simp: in_set_conv_nth)
  with e1(2) w have w': "w = \<lparr> wc_graph_hash = wg_hash g, wc_raw = limited limit all ! j \<rparr>" by (simp add: ids_name_def)
  have "limited limit all ! j \<in> set (limited limit all)" using j(1) e1(2) by (simp add: ids_name_def)
  then have mem: "wc_raw w \<in> set all" by (cases limit) (auto simp: w' limited_def dest: in_set_takeD)
  have "count_list ids c \<noteq> 0" using c by (simp add: count_list_0_iff)
  then have ok: "id_ok dbg c" using refs by (intro cand_refs_id_ok [of dbg "en_candidates e1"]) simp
  obtain after where after: "apply_graph (wg_body g) (wc_raw w) = Ok after" "well_founded after"
    "\<forall>env b. denotes after env b \<longleftrightarrow> denotes (wg_body g) env b"
    using apply_enumerated_sound [OF live(1) wf all mem guard] by blast
  have g1: "graph_get dbg (en_graphs e1) gid = (Ok (Some g) :: (_, unit) outcome)" using g e1(3) by simp
  have "cand_get dbg (en_candidates e1) c = (Ok (Some \<lparr> wc_graph_hash = wg_hash g, wc_raw = wc_raw w \<rparr>) :: (_, unit) outcome)"
    using w by (simp add: w')
  from engine_apply_spec [OF inj e1(1) g1 this ok] room(3,4) e1(3) after show ?thesis by auto
qed

theorem engine_search_step_sound_witness:
  "\<exists>e e1 e2 ids r f. engine_new True (\<lambda>b. b) sample_config = Ok e \<and>
     enumerate_candidate_ids True (en_root e) None e = (e1, Ok ids) \<and>
     engine_apply True (\<lambda>b. b) (en_root e) (ids ! 0) e1 = (e2, Ok r) \<and>
     graph_get True (en_graphs e2) (ar_after r) = (Ok (Some f) :: (_, unit) outcome) \<and>
     (\<forall>env b. denotes (wg_body f) env b \<longleftrightarrow> denotes idempotent_body env b)"
proof -
  obtain e g where e: "engine_new True (\<lambda>b. b) sample_config = Ok e" "engine_inv True (\<lambda>b. b) e"
    "graph_get True (en_graphs e) (en_root e) = (Ok (Some g) :: (_, unit) outcome)" "wg_body g = idempotent_body"
    "engine_fits True e"
    by (rule sample_engine_fits)
  obtain e1 ids where e1: "enumerate_candidate_ids True (en_root e) None e = (e1, Ok ids)" "ids \<noteq> []"
    "cand_get True (en_candidates e1) (ids ! 0) = (Ok (Some \<lparr> wc_graph_hash = wg_hash g, wc_raw = make_candidate AndIdempotent 1 [0] \<rparr>) :: (_, unit) outcome)"
    by (rule sample_enumerated [OF e(1,3)])
  have "well_founded (wg_body g)" unfolding e(4) by (rule well_founded_by_eval) code_simp
  moreover have "ids ! 0 \<in> set ids" using e1(2) by simp
  ultimately show ?thesis
    using engine_search_step_sound [OF _ e(2,5,3) _ e1(1) _ e1(3)] e(1,4) e1(1) by auto
qed

end
